(* ===== verification/Prelude.thy ===== *)
theory Prelude
  imports Main "HOL-Library.Word"
begin

unbundle bit_operations_syntax

text \<open>
  Shared vocabulary of the development: bytes and C++ character classes, the
  string primitives of \<^verbatim>\<open>std::string\<close> and \<^verbatim>\<open>std::string_view\<close> the code uses, error
  results, and the interfaces (locales) that several components satisfy.

  A C++ \<^verbatim>\<open>std::string\<close> is a sequence of bytes, and so is \<^typ>\<open>string\<close>: a
  \<^typ>\<open>char\<close> of HOL is exactly one byte. \<open>byte_val\<close> reads it as the code's
  \<^verbatim>\<open>static_cast<unsigned char>\<close>, \<open>char_of\<close> writes the low eight bits back.
\<close>

subsection \<open>Named collections\<close>

named_theorems length_simps \<open>lengths of what the byte writers produce\<close>
named_theorems char_class_simps \<open>definitions of the character classes\<close>

subsection \<open>Results of fallible operations\<close>

text \<open>The exceptions the modelled code throws; the text is the C++ message.\<close>

datatype cpp_error =
    Invalid_Argument string
  | Runtime_Error string

type_synonym 'a result = "cpp_error + 'a"

definition is_ok :: "'e + 'a \<Rightarrow> bool" where
  "is_ok r = (case r of Inl _ \<Rightarrow> False | Inr _ \<Rightarrow> True)"

lemma is_ok_simps [simp]: "is_ok (Inr x)" "\<not> is_ok (Inl e)"
  by (simp_all add: is_ok_def)

lemma is_okE: "is_ok r \<Longrightarrow> (\<And>x. r = Inr x \<Longrightarrow> P) \<Longrightarrow> P"
  by (cases r) auto

subsection \<open>Bytes and character classes\<close>

definition byte_val :: "char \<Rightarrow> nat" where
  "byte_val c = of_char c"

lemma byte_val_less [simp]: "byte_val c < 256"
  unfolding byte_val_def by simp

lemma char_of_byte_val [simp]: "char_of (byte_val c) = c"
  by (simp add: byte_val_def)

lemma byte_val_char_of: "byte_val (char_of (n :: nat)) = n mod 256"
  by (simp add: byte_val_def)

lemma byte_val_inj: "byte_val a = byte_val b \<longleftrightarrow> a = b"
  by (metis char_of_byte_val)

text \<open>\<^verbatim>\<open>std::isspace\<close> and its kin in the C locale, where the service runs.\<close>

definition c_isspace :: "char \<Rightarrow> bool" where
  [char_class_simps]: "c_isspace c = (let b = byte_val c in 9 \<le> b \<and> b \<le> 13 \<or> b = 32)"

definition c_isdigit :: "char \<Rightarrow> bool" where
  [char_class_simps]: "c_isdigit c = (let b = byte_val c in 48 \<le> b \<and> b \<le> 57)"

definition c_isupper :: "char \<Rightarrow> bool" where
  [char_class_simps]: "c_isupper c = (let b = byte_val c in 65 \<le> b \<and> b \<le> 90)"

definition c_islower :: "char \<Rightarrow> bool" where
  [char_class_simps]: "c_islower c = (let b = byte_val c in 97 \<le> b \<and> b \<le> 122)"

definition c_isalpha :: "char \<Rightarrow> bool" where
  [char_class_simps]: "c_isalpha c = (c_isupper c \<or> c_islower c)"

definition c_isalnum :: "char \<Rightarrow> bool" where
  [char_class_simps]: "c_isalnum c = (c_isalpha c \<or> c_isdigit c)"

definition c_isprint :: "char \<Rightarrow> bool" where
  [char_class_simps]: "c_isprint c = (let b = byte_val c in 32 \<le> b \<and> b \<le> 126)"

definition c_tolower :: "char \<Rightarrow> char" where
  "c_tolower c = (if c_isupper c then char_of (byte_val c + 32) else c)"

lemma byte_val_tolower:
  "byte_val (c_tolower c) = (if c_isupper c then byte_val c + 32 else byte_val c)"
  by (auto simp: c_tolower_def byte_val_char_of c_isupper_def Let_def)

lemma c_tolower_idem [simp]: "c_tolower (c_tolower c) = c_tolower c"
proof -
  have "\<not> c_isupper (c_tolower c)"
    by (auto simp: c_isupper_def Let_def byte_val_tolower)
  then show ?thesis by (subst c_tolower_def) simp
qed

lemma map_c_tolower_idem [simp]: "map c_tolower (map c_tolower s) = map c_tolower s"
  by simp

subsection \<open>Masks and shifted ors as arithmetic\<close>

named_theorems bits_arith \<open>bit operations on naturals as division and remainder\<close>

lemma and_mask_mod [bits_arith]:
  "(w :: nat) AND 63 = w mod 64" "w AND 15 = w mod 16" "w AND 3 = w mod 4"
  "w AND 31 = w mod 32" "w AND 7 = w mod 8" "w AND 255 = w mod 256" "w AND 65535 = w mod 65536"
  using take_bit_eq_mask [of 6 w] take_bit_eq_mask [of 4 w] take_bit_eq_mask [of 2 w]
    take_bit_eq_mask [of 5 w] take_bit_eq_mask [of 3 w] take_bit_eq_mask [of 8 w]
    take_bit_eq_mask [of 16 w]
  by (simp_all add: mask_eq_exp_minus_1 take_bit_eq_mod)

lemma push_bit_or:
  fixes a b :: nat
  assumes "b < 2 ^ n"
  shows "push_bit n a OR b = a * 2 ^ n + b"
proof -
  have "push_bit n a AND b = 0"
  proof (rule bit_eqI)
    fix m
    have "bit b m \<Longrightarrow> m < n"
      using assms by (metis bit_take_bit_iff take_bit_nat_eq_self_iff)
    then show "bit (push_bit n a AND b) m = bit 0 m"
      by (auto simp: bit_simps)
  qed
  then show ?thesis by (simp add: disjunctive_add_eq_or [symmetric] push_bit_eq_mult)
qed

declare drop_bit_eq_div [bits_arith] push_bit_eq_mult [bits_arith] take_bit_eq_mod [bits_arith]

lemma and_high_mask:
  fixes w :: nat
  shows "w AND push_bit k (mask m) = (w div 2 ^ k mod 2 ^ m) * 2 ^ k"
proof -
  have "w AND push_bit k (mask m) = push_bit k (take_bit m (drop_bit k w))"
    by (rule bit_eqI) (auto simp: bit_simps)
  then show ?thesis by (simp add: push_bit_eq_mult take_bit_eq_mod drop_bit_eq_div)
qed

lemma and_high [bits_arith]:
  "(w :: nat) AND 0xC0 = (w div 64 mod 4) * 64" "w AND 0xE0 = (w div 32 mod 8) * 32"
  "w AND 0xF0 = (w div 16 mod 16) * 16" "w AND 0xF8 = (w div 8 mod 32) * 8"
  using and_high_mask [of w 6 2] and_high_mask [of w 5 3] and_high_mask [of w 4 4]
    and_high_mask [of w 3 5]
  by (simp_all add: push_bit_eq_mult mask_eq_exp_minus_1)

lemma or_low:
  fixes b :: nat
  shows "b < 32 \<Longrightarrow> 0xC0 OR b = 0xC0 + b" "b < 64 \<Longrightarrow> 0x80 OR b = 0x80 + b"
    "b < 16 \<Longrightarrow> 0xE0 OR b = 0xE0 + b" "b < 8 \<Longrightarrow> 0xF0 OR b = 0xF0 + b"
  using push_bit_or [of b 5 6] push_bit_or [of b 6 2] push_bit_or [of b 4 14] push_bit_or [of b 3 30]
  by (simp_all add: push_bit_eq_mult)

lemma horner:
  fixes a b n :: nat
  assumes "b < n"
  shows "(a * n + b) div n = a" "(a * n + b) mod n = b"
  using assms by simp_all

subsection \<open>String primitives\<close>

text \<open>
  \<open>substr s pos n\<close> is \<^verbatim>\<open>s.substr(pos, n)\<close>; every call the model makes has
  \<open>pos \<le> length s\<close>, where C++ does not throw.
\<close>

definition substr :: "string \<Rightarrow> nat \<Rightarrow> nat \<Rightarrow> string" where
  "substr s pos n = take n (drop pos s)"

definition starts_with :: "string \<Rightarrow> string \<Rightarrow> bool" where
  "starts_with s p = (take (length p) s = p)"

lemma starts_with_iff: "starts_with s p \<longleftrightarrow> (\<exists>r. s = p @ r)"
  unfolding starts_with_def by (metis append_eq_conv_conj append_take_drop_id)

lemma starts_with_append [simp]: "starts_with (p @ r) p"
  by (simp add: starts_with_def)

lemma starts_with_length: "starts_with s p \<Longrightarrow> length p \<le> length s"
  by (auto simp: starts_with_iff)

text \<open>\<open>sfind needle s\<close> is \<^verbatim>\<open>s.find(needle)\<close>: the first position, \<open>None\<close> for \<^verbatim>\<open>npos\<close>.\<close>

fun sfind :: "string \<Rightarrow> string \<Rightarrow> nat option" where
  "sfind needle [] = (if needle = [] then Some 0 else None)"
| "sfind needle (c # cs) =
     (if starts_with (c # cs) needle then Some 0 else map_option Suc (sfind needle cs))"

definition sfind_from :: "string \<Rightarrow> string \<Rightarrow> nat \<Rightarrow> nat option" where
  "sfind_from needle s from = map_option (\<lambda>i. from + i) (sfind needle (drop from s))"

definition contains :: "string \<Rightarrow> string \<Rightarrow> bool" where
  "contains s needle = (sfind needle s \<noteq> None)"

lemma sfind_Some_starts: "sfind needle s = Some i \<Longrightarrow> starts_with (drop i s) needle"
  by (induction s arbitrary: i) (auto simp: starts_with_def split: if_splits)

lemma sfind_Some_bound: "sfind needle s = Some i \<Longrightarrow> i + length needle \<le> length s"
proof (induction s arbitrary: i)
  case (Cons c cs)
  then show ?case by (fastforce dest: starts_with_length split: if_splits)
qed (auto split: if_splits)

lemma sfind_from_bound:
  "sfind_from needle s from = Some i \<Longrightarrow> from \<le> length s \<Longrightarrow>
     from \<le> i \<and> i + length needle \<le> length s"
  by (auto simp: sfind_from_def dest!: sfind_Some_bound)

definition ends_with :: "string \<Rightarrow> string \<Rightarrow> bool" where
  "ends_with s suffix =
     (length suffix \<le> length s \<and> drop (length s - length suffix) s = suffix)"

lemma ends_with_iff: "ends_with s x \<longleftrightarrow> (\<exists>r. s = r @ x)"
  unfolding ends_with_def by (metis append_eq_conv_conj append_take_drop_id diff_diff_cancel
      diff_le_self length_append length_drop add_diff_cancel_right' le_add2)

text \<open>\<^verbatim>\<open>std::to_string\<close> on an unsigned value.\<close>

fun to_dec :: "nat \<Rightarrow> string" where
  "to_dec n = (if n < 10 then [char_of (48 + n)]
               else to_dec (n div 10) @ [char_of (48 + n mod 10)])"

declare to_dec.simps [simp del]

text \<open>\<^verbatim>\<open>std::from_chars\<close> on the whole of a digit string, without a width limit.\<close>

fun dec_value_acc :: "nat \<Rightarrow> string \<Rightarrow> nat option" where
  "dec_value_acc acc [] = Some acc"
| "dec_value_acc acc (c # cs) =
     (if c_isdigit c then dec_value_acc (acc * 10 + (byte_val c - 48)) cs else None)"

definition dec_value :: "string \<Rightarrow> nat option" where
  "dec_value s = (if s = [] then None else dec_value_acc 0 s)"

lemma dec_value_acc_append:
  "dec_value_acc acc (s @ [c]) =
     (case dec_value_acc acc s of None \<Rightarrow> None
      | Some n \<Rightarrow> if c_isdigit c then Some (n * 10 + (byte_val c - 48)) else None)"
  by (induction s arbitrary: acc) auto

lemma digit_char: "n < 10 \<Longrightarrow> c_isdigit (char_of (48 + n)) \<and> byte_val (char_of (48 + n)) = 48 + n"
  by (auto simp: c_isdigit_def byte_val_char_of Let_def)

lemma to_dec_nonempty [simp]: "to_dec n \<noteq> []"
  by (subst to_dec.simps) simp

lemma dec_value_acc_to_dec: "dec_value_acc 0 (to_dec n) = Some n"
proof (induction n rule: to_dec.induct)
  case (1 n)
  show ?case
  proof (cases "n < 10")
    case True
    then show ?thesis by (subst to_dec.simps) (simp add: digit_char)
  next
    case False
    with 1 show ?thesis
      by (subst to_dec.simps) (simp add: dec_value_acc_append digit_char)
  qed
qed

lemma dec_value_to_dec [simp]: "dec_value (to_dec n) = Some n"
  by (simp add: dec_value_def dec_value_acc_to_dec)

lemma to_dec_inj [simp]: "to_dec m = to_dec n \<longleftrightarrow> m = n"
  by (metis dec_value_to_dec option.inject)

lemma length_to_dec: "n < 10 ^ k \<Longrightarrow> 0 < k \<Longrightarrow> length (to_dec n) \<le> k"
proof (induction n arbitrary: k rule: to_dec.induct)
  case (1 n)
  show ?case
  proof (cases "n < 10")
    case True
    with 1 show ?thesis by (subst to_dec.simps) simp
  next
    case False
    with "1.prems" obtain j where k: "k = Suc j" "0 < j"
      by (cases k; cases "k - 1") auto
    with "1.prems" have "n div 10 < 10 ^ j" by (simp add: div_less_iff_less_mult mult.commute)
    with 1 False k have "length (to_dec (n div 10)) \<le> j" by blast
    with False k show ?thesis by (subst to_dec.simps) simp
  qed
qed

lemma to_dec_digits: "c \<in> set (to_dec n) \<Longrightarrow> c_isdigit c"
proof (induction n rule: to_dec.induct)
  case (1 n)
  then show ?case
    by (subst (asm) to_dec.simps) (auto simp: digit_char split: if_splits)
qed

subsection \<open>Counting in an updated list\<close>

lemma length_filter_update:
  assumes "i < length xs"
  shows "int (length (filter P (xs[i := x]))) =
     int (length (filter P xs)) - of_bool (P (xs ! i)) + of_bool (P x)"
proof -
  have "xs[i := x] = take i xs @ x # drop (Suc i) xs"
    using assms by (rule upd_conv_take_nth_drop)
  moreover have "length (filter P xs) = length (filter P (take i xs @ xs ! i # drop (Suc i) xs))"
    using id_take_nth_drop [OF assms] by simp
  ultimately show ?thesis by simp
qed

lemma count_list_update:
  "i < length xs \<Longrightarrow> int (count_list (xs[i := x]) y) =
     int (count_list xs y) - of_bool (xs ! i = y) + of_bool (x = y)"
  by (auto simp: count_list_eq_length_filter length_filter_update)

lemma count_list_replicate: "x \<noteq> y \<Longrightarrow> count_list (replicate n x) y = 0"
  by (induction n) auto

subsection \<open>Interfaces shared by several components\<close>

text \<open>
  An encoder with a fallible decoder: what base64 and the hexadecimal digest
  spelling promise their callers. From the one law follows that distinct
  payloads never share a spelling.
\<close>

locale codec =
  fixes enc :: "'a \<Rightarrow> 'b"
    and dec :: "'b \<Rightarrow> 'e + 'a"
    and dom :: "'a \<Rightarrow> bool"
  assumes dec_enc: "dom x \<Longrightarrow> dec (enc x) = Inr x"
begin

lemma enc_inj: "dom x \<Longrightarrow> dom y \<Longrightarrow> enc x = enc y \<Longrightarrow> x = y"
  by (metis dec_enc sum.inject(2))

lemma enc_ok: "dom x \<Longrightarrow> is_ok (dec (enc x))"
  by (simp add: dec_enc)

end

text \<open>
  A labelled step function on states with an invariant: what the concurrent
  components promise. A run is any interleaving of their atomic actions.
\<close>

locale guarded_machine =
  fixes init :: "'s \<Rightarrow> bool"
    and step :: "'s \<Rightarrow> 's \<Rightarrow> bool"
    and inv :: "'s \<Rightarrow> bool"
  assumes inv_init: "init s \<Longrightarrow> inv s"
    and inv_step: "inv s \<Longrightarrow> step s t \<Longrightarrow> inv t"
begin

lemma inv_steps: "step\<^sup>*\<^sup>* s t \<Longrightarrow> inv s \<Longrightarrow> inv t"
  by (induction rule: rtranclp_induct) (auto intro: inv_step)

lemma reachable_inv: "init s \<Longrightarrow> step\<^sup>*\<^sup>* s t \<Longrightarrow> inv t"
  by (blast intro: inv_steps inv_init)

end

end
