(* ===== verification/Base64.thy ===== *)
theory Base64
  imports Prelude
begin

text \<open>
  \<^verbatim>\<open>src/base64.cpp\<close>: the scalar base64 decoder and encoder, which are the
  contract, and the public entry points that try the vector vkernel first. The
  vkernel (simdutf) is a parameter.
\<close>

subsection \<open>The scalar reference codec\<close>

definition base64_error :: cpp_error where
  "base64_error = Invalid_Argument ''file.base64_string is not valid base64''"

definition kAlphabet :: string where
  "kAlphabet = ''ABCDEFGHIJKLMNOPQRSTUVWXYZabcdefghijklmnopqrstuvwxyz0123456789+/''"

definition kInvalid :: nat where
  "kInvalid = 255"

text \<open>The decode table, filled in the order of the code's loops.\<close>

definition decode_table :: "char \<Rightarrow> nat" where
  "decode_table c = (let b = byte_val c in
     if 65 \<le> b \<and> b < 65 + 26 then b - 65
     else if 97 \<le> b \<and> b < 97 + 26 then 26 + (b - 97)
     else if 48 \<le> b \<and> b < 48 + 10 then 52 + (b - 48)
     else if c = CHR ''+'' then 62
     else if c = CHR ''/'' then 63
     else kInvalid)"

text \<open>One quad: the guard of the decode loop. \<open>is_last\<close> is \<^verbatim>\<open>offset + 4 == compact.size()\<close>.\<close>

definition bad_quad :: "char \<Rightarrow> char \<Rightarrow> char \<Rightarrow> char \<Rightarrow> bool \<Rightarrow> bool" where
  "bad_quad first second third fourth is_last =
     (first = CHR ''='' \<or> second = CHR ''='' \<or> decode_table first = kInvalid
      \<or> decode_table second = kInvalid
      \<or> (third \<noteq> CHR ''='' \<and> decode_table third = kInvalid)
      \<or> (fourth \<noteq> CHR ''='' \<and> decode_table fourth = kInvalid)
      \<or> (third = CHR ''='' \<and> fourth \<noteq> CHR ''='')
      \<or> ((third = CHR ''='' \<or> fourth = CHR ''='') \<and> \<not> is_last))"

definition quad_bytes :: "char \<Rightarrow> char \<Rightarrow> char \<Rightarrow> char \<Rightarrow> string" where
  "quad_bytes first second third fourth =
     (let a = decode_table first; b = decode_table second;
          c = (if third = CHR ''='' then 0 else decode_table third);
          d = (if fourth = CHR ''='' then 0 else decode_table fourth)
      in [char_of (push_bit 2 a OR drop_bit 4 b)]
         @ (if third \<noteq> CHR ''='' then [char_of (push_bit 4 (b AND 15) OR drop_bit 2 c)] else [])
         @ (if fourth \<noteq> CHR ''='' then [char_of (push_bit 6 (c AND 3) OR d)] else []))"

fun decode_quads :: "string \<Rightarrow> string result" where
  "decode_quads (c1 # c2 # c3 # c4 # rest) =
     (if bad_quad c1 c2 c3 c4 (rest = []) then Inl base64_error
      else case decode_quads rest of Inl e \<Rightarrow> Inl e
           | Inr tail \<Rightarrow> Inr (quad_bytes c1 c2 c3 c4 @ tail))"
| "decode_quads _ = Inr []"

definition compact :: "string \<Rightarrow> string" where
  "compact value = filter (\<lambda>c. \<not> c_isspace c) value"

definition scalar_decode_base64 :: "string \<Rightarrow> string result" where
  "scalar_decode_base64 value =
     (let cs = compact value
      in if cs = [] \<or> length cs mod 4 \<noteq> 0 then Inl base64_error else decode_quads cs)"

fun scalar_encode_base64 :: "string \<Rightarrow> string" where
  "scalar_encode_base64 (x # y # z # rest) =
     (let chunk = push_bit 16 (byte_val x) OR push_bit 8 (byte_val y) OR byte_val z
      in [kAlphabet ! (drop_bit 18 chunk AND 63), kAlphabet ! (drop_bit 12 chunk AND 63),
          kAlphabet ! (drop_bit 6 chunk AND 63), kAlphabet ! (chunk AND 63)]
         @ scalar_encode_base64 rest)"
| "scalar_encode_base64 [x] =
     (let chunk = push_bit 16 (byte_val x)
      in [kAlphabet ! (drop_bit 18 chunk AND 63), kAlphabet ! (drop_bit 12 chunk AND 63),
          CHR ''='', CHR ''=''])"
| "scalar_encode_base64 [x, y] =
     (let chunk = push_bit 16 (byte_val x) OR push_bit 8 (byte_val y)
      in [kAlphabet ! (drop_bit 18 chunk AND 63), kAlphabet ! (drop_bit 12 chunk AND 63),
          kAlphabet ! (drop_bit 6 chunk AND 63), CHR ''=''])"
| "scalar_encode_base64 [] = []"

subsection \<open>The public entry points\<close>

text \<open>
  \<open>vkernel\<close> is \<^verbatim>\<open>simdutf::base64_to_binary\<close> with strict last-chunk handling:
  \<open>Some\<close> of the bytes written on success, \<open>None\<close> for any error code.
\<close>

definition decode_base64 :: "(string \<Rightarrow> string option) \<Rightarrow> string \<Rightarrow> string result" where
  "decode_base64 vkernel value =
     (if value = [] then Inl base64_error
      else case vkernel value of
        None \<Rightarrow> scalar_decode_base64 value
      | Some decoded \<Rightarrow>
          (let significant = length (filter (\<lambda>c. \<not> c_isspace c) value)
           in if significant mod 4 \<noteq> 0 then scalar_decode_base64 value else Inr decoded))"

subsection \<open>Sextets and bytes\<close>

lemma alphabet_digits:
  "list_all2 (\<lambda>c n. decode_table c = n \<and> c \<noteq> CHR ''='' \<and> \<not> c_isspace c) kAlphabet [0..<64]"
  by (simp add: kAlphabet_def decode_table_def byte_val_def c_isspace_def upt_rec)

lemma alphabet_nth:
  assumes "n < 64"
  shows "decode_table (kAlphabet ! n) = n" "kAlphabet ! n \<noteq> CHR ''=''"
    "\<not> c_isspace (kAlphabet ! n)"
  using list_all2_nthD2 [OF alphabet_digits, of n] assms by simp_all

lemma decode_table_range: "decode_table c = kInvalid \<or> decode_table c < 64"
  by (auto simp: decode_table_def kInvalid_def Let_def)

lemma decode_table_pad: "decode_table (CHR ''='') = kInvalid"
  by (simp add: decode_table_def byte_val_def kInvalid_def)

lemma regroup_bits:
  fixes x y z :: nat
  assumes "x = a * 4 + b" "y = c * 16 + d" "z = e * 64 + f"
  shows "x * 65536 + (y * 256 + z) = ((a * 64 + (b * 16 + c)) * 64 + (d * 4 + e)) * 64 + f"
  using assms by (simp add: algebra_simps)

lemma horner64:
  fixes a b :: nat
  assumes "b < 64"
  shows "(a * 64 + b) div 64 = a" "(a * 64 + b) mod 64 = b"
  using assms by simp_all

lemma sextets:
  fixes x y z :: nat
  assumes "x < 256" "y < 256" "z < 256"
  defines "chunk \<equiv> push_bit 16 x OR push_bit 8 y OR z"
  shows "drop_bit 18 chunk AND 63 = x div 4"
    "drop_bit 12 chunk AND 63 = (x mod 4) * 16 + y div 16"
    "drop_bit 6 chunk AND 63 = (y mod 16) * 4 + z div 64"
    "chunk AND 63 = z mod 64"
proof -
  have low: "push_bit 8 y OR z = y * 256 + z"
    using push_bit_or [of z 8 y] assms(3) by simp
  have "y * 256 + z < 2 ^ 16"
    using assms(2,3) by simp
  from push_bit_or [OF this, of x] have chunk: "chunk = x * 65536 + (y * 256 + z)"
    unfolding chunk_def low by simp
  define hi where "hi = x div 4"
  define mid1 where "mid1 = (x mod 4) * 16 + y div 16"
  define mid2 where "mid2 = (y mod 16) * 4 + z div 64"
  define lo where "lo = z mod 64"
  have small: "hi < 64" "mid1 < 64" "mid2 < 64" "lo < 64"
    using assms by (auto simp: hi_def mid1_def mid2_def lo_def)
  have c: "chunk = ((hi * 64 + mid1) * 64 + mid2) * 64 + lo"
    unfolding chunk mid1_def mid2_def
    by (rule regroup_bits) (simp_all add: hi_def lo_def)
  have d: "chunk div 64 = (hi * 64 + mid1) * 64 + mid2"
    unfolding c using small(4) by (rule horner64)
  have e: "chunk div 4096 = hi * 64 + mid1"
    using horner64(1) [OF small(3)] d div_mult2_eq [of chunk 64 64] by simp
  have f: "chunk div 262144 = hi"
    using horner64(1) [OF small(2)] e div_mult2_eq [of chunk 4096 64] by simp
  have db: "drop_bit 18 chunk = chunk div 262144" "drop_bit 12 chunk = chunk div 4096"
    "drop_bit 6 chunk = chunk div 64"
    by (simp_all add: drop_bit_eq_div)
  show "drop_bit 18 chunk AND 63 = x div 4"
    using small(1) by (simp add: db and_mask_mod f flip: hi_def)
  show "drop_bit 12 chunk AND 63 = (x mod 4) * 16 + y div 16"
    by (simp only: db and_mask_mod e horner64(2) [OF small(2)] flip: mid1_def)
  show "drop_bit 6 chunk AND 63 = (y mod 16) * 4 + z div 64"
    by (simp only: db and_mask_mod d horner64(2) [OF small(3)] flip: mid2_def)
  show "chunk AND 63 = z mod 64"
    by (simp only: and_mask_mod c horner64(2) [OF small(4)] flip: lo_def)
qed

lemma join_sextets:
  fixes x y z :: nat
  assumes "x < 256" "y < 256" "z < 256"
  shows "push_bit 2 (x div 4) OR drop_bit 4 ((x mod 4) * 16 + y div 16) = x"
    "push_bit 4 (((x mod 4) * 16 + y div 16) AND 15) OR drop_bit 2 ((y mod 16) * 4 + z div 64) = y"
    "push_bit 6 (((y mod 16) * 4 + z div 64) AND 3) OR (z mod 64) = z"
proof -
  have "drop_bit 4 ((x mod 4) * 16 + y div 16) = x mod 4"
    using assms by (simp add: bits_arith)
  then show "push_bit 2 (x div 4) OR drop_bit 4 ((x mod 4) * 16 + y div 16) = x"
    using push_bit_or [of "x mod 4" 2 "x div 4"] by simp
  have "drop_bit 2 ((y mod 16) * 4 + z div 64) = y mod 16"
    using assms by (simp add: bits_arith)
  moreover have "((x mod 4) * 16 + y div 16) AND 15 = y div 16"
    using assms by (simp add: bits_arith)
  ultimately show "push_bit 4 (((x mod 4) * 16 + y div 16) AND 15)
      OR drop_bit 2 ((y mod 16) * 4 + z div 64) = y"
    using push_bit_or [of "y mod 16" 4 "y div 16"] by simp
  have "((y mod 16) * 4 + z div 64) AND 3 = z div 64"
    using assms by (simp add: bits_arith)
  then show "push_bit 6 (((y mod 16) * 4 + z div 64) AND 3) OR (z mod 64) = z"
    using push_bit_or [of "z mod 64" 6 "z div 64"] by simp
qed

subsection \<open>Round trip\<close>

lemmas byte_sextets = sextets [OF byte_val_less byte_val_less byte_val_less]
  and byte_join = join_sextets [OF byte_val_less byte_val_less byte_val_less]

lemma sextet_lt:
  fixes x y :: nat
  shows "x < 256 \<Longrightarrow> x div 4 < 64" "y < 256 \<Longrightarrow> (x mod 4) * 16 + y div 16 < 64"
    "y < 256 \<Longrightarrow> (x mod 16) * 4 + y div 64 < 64" "x mod 64 < 64"
    "(x mod 4) * 16 < 64" "(x mod 16) * 4 < 64"
  by (auto simp: div_less_iff_less_mult) (presburger+)?

lemmas sextet_bounds =
  sextet_lt(1) [OF byte_val_less] sextet_lt(2) [OF byte_val_less]
  sextet_lt(3) [OF byte_val_less] sextet_lt(4) sextet_lt(5) sextet_lt(6)

lemmas sextet_chars =
  alphabet_nth [OF sextet_bounds(1)] alphabet_nth [OF sextet_bounds(2)]
  alphabet_nth [OF sextet_bounds(3)] alphabet_nth [OF sextet_bounds(4)]
  alphabet_nth [OF sextet_bounds(5)] alphabet_nth [OF sextet_bounds(6)]

text \<open>The encoder on the code's own three cases, with its digits as arithmetic.\<close>

lemma char_0: "byte_val (CHR 0x00) = 0"
  by (simp add: byte_val_def)

lemma encode_simps:
  "scalar_encode_base64 (x # y # z # rest) =
     kAlphabet ! (byte_val x div 4)
     # kAlphabet ! ((byte_val x mod 4) * 16 + byte_val y div 16)
     # kAlphabet ! ((byte_val y mod 16) * 4 + byte_val z div 64)
     # kAlphabet ! (byte_val z mod 64) # scalar_encode_base64 rest"
  "scalar_encode_base64 [x] =
     [kAlphabet ! (byte_val x div 4), kAlphabet ! ((byte_val x mod 4) * 16), CHR ''='', CHR ''='']"
  "scalar_encode_base64 [x, y] =
     [kAlphabet ! (byte_val x div 4),
      kAlphabet ! ((byte_val x mod 4) * 16 + byte_val y div 16),
      kAlphabet ! ((byte_val y mod 16) * 4), CHR ''='']"
  using byte_sextets [of x y z] byte_sextets [of x y "CHR 0x00"]
    byte_sextets [of x "CHR 0x00" "CHR 0x00"]
  by (simp_all add: or.assoc char_0 Let_def)

lemma quad_decodes:
  "\<not> bad_quad (kAlphabet ! (byte_val x div 4))
     (kAlphabet ! ((byte_val x mod 4) * 16 + byte_val y div 16))
     (kAlphabet ! ((byte_val y mod 16) * 4 + byte_val z div 64))
     (kAlphabet ! (byte_val z mod 64)) l"
  "quad_bytes (kAlphabet ! (byte_val x div 4))
     (kAlphabet ! ((byte_val x mod 4) * 16 + byte_val y div 16))
     (kAlphabet ! ((byte_val y mod 16) * 4 + byte_val z div 64))
     (kAlphabet ! (byte_val z mod 64)) = [x, y, z]"
  using sextet_bounds(1) [of x] sextet_bounds(2) [of "byte_val x" y]
    sextet_bounds(3) [of "byte_val y" z] sextet_bounds(4) [of "byte_val z"]
  by (auto simp: bad_quad_def quad_bytes_def sextet_chars byte_join kInvalid_def Let_def
      simp del: push_bit_and)

lemma pad_quads_decode:
  "\<not> bad_quad (kAlphabet ! (byte_val x div 4)) (kAlphabet ! ((byte_val x mod 4) * 16))
     (CHR ''='') (CHR ''='') True"
  "quad_bytes (kAlphabet ! (byte_val x div 4)) (kAlphabet ! ((byte_val x mod 4) * 16))
     (CHR ''='') (CHR ''='') = [x]"
  "\<not> bad_quad (kAlphabet ! (byte_val x div 4))
     (kAlphabet ! ((byte_val x mod 4) * 16 + byte_val y div 16))
     (kAlphabet ! ((byte_val y mod 16) * 4)) (CHR ''='') True"
  "quad_bytes (kAlphabet ! (byte_val x div 4))
     (kAlphabet ! ((byte_val x mod 4) * 16 + byte_val y div 16))
     (kAlphabet ! ((byte_val y mod 16) * 4)) (CHR ''='') = [x, y]"
  using sextet_bounds(1) [of x] sextet_bounds(2) [of "byte_val x" y]
    sextet_bounds(5) [of "byte_val x"] sextet_bounds(6) [of "byte_val y"]
    byte_join(1) [of x "CHR 0x00"] byte_join(1) [of x y] byte_join(2) [of x y "CHR 0x00"]
  by (auto simp: bad_quad_def quad_bytes_def kInvalid_def char_0 sextet_chars Let_def
      simp del: push_bit_and)

lemma decode_quads_encode: "decode_quads (scalar_encode_base64 d) = Inr d"
  by (induction d rule: scalar_encode_base64.induct)
    (simp_all only: encode_simps decode_quads.simps scalar_encode_base64.simps(4)
       quad_decodes pad_quads_decode if_False sum.case append.simps simp_thms refl)

lemma pad_not_space: "\<not> c_isspace (CHR ''='')"
  by (simp add: c_isspace_def byte_val_def)

lemma encode_compact:
  "compact (scalar_encode_base64 d) = scalar_encode_base64 d \<and>
   length (scalar_encode_base64 d) mod 4 = 0 \<and> (scalar_encode_base64 d = [] \<longleftrightarrow> d = [])"
  by (induction d rule: scalar_encode_base64.induct)
    (simp_all only: encode_simps, auto simp: compact_def sextet_chars pad_not_space)

subsection \<open>What the decoder accepts\<close>

definition b64_char :: "char \<Rightarrow> bool" where
  "b64_char c = (c_isalnum c \<or> c = CHR ''+'' \<or> c = CHR ''/'')"

definition padded_body :: "string \<Rightarrow> bool" where
  "padded_body cs = (\<exists>body pad. cs = body @ pad \<and> (\<forall>c \<in> set body. b64_char c)
     \<and> pad \<in> {'''', ''='', ''==''})"

lemma decode_table_char: "decode_table c \<noteq> kInvalid \<longleftrightarrow> b64_char c"
  by (auto simp: decode_table_def b64_char_def char_class_simps kInvalid_def Let_def)

lemma b64_char_pad: "\<not> b64_char (CHR ''='')"
  using decode_table_pad decode_table_char by blast

lemma padded_body_Nil [simp]: "padded_body []"
  by (simp add: padded_body_def)

lemma padded_body_Cons:
  "padded_body (c # cs) \<longleftrightarrow>
     (b64_char c \<and> padded_body cs) \<or> c # cs = ''='' \<or> c # cs = ''==''"
proof
  assume "padded_body (c # cs)"
  then obtain body pad where eq: "c # cs = body @ pad" and body: "\<forall>c \<in> set body. b64_char c"
    and pad: "pad \<in> {'''', ''='', ''==''}"
    by (auto simp: padded_body_def)
  show "(b64_char c \<and> padded_body cs) \<or> c # cs = ''='' \<or> c # cs = ''==''"
  proof (cases body)
    case Nil
    with eq pad show ?thesis by auto
  next
    case (Cons b bs)
    with eq body pad show ?thesis by (auto simp: padded_body_def)
  qed
next
  assume "(b64_char c \<and> padded_body cs) \<or> c # cs = ''='' \<or> c # cs = ''==''"
  then show "padded_body (c # cs)"
  proof (elim disjE conjE)
    assume c: "b64_char c" and "padded_body cs"
    then obtain body pad where "cs = body @ pad" "\<forall>c \<in> set body. b64_char c"
      "pad \<in> {'''', ''='', ''==''}" by (auto simp: padded_body_def)
    with c show ?thesis unfolding padded_body_def
      by (intro exI [of _ "c # body"] exI [of _ pad]) auto
  qed (auto simp: padded_body_def intro: exI [of _ "[]"])
qed

lemma bad_quad_last:
  "\<not> bad_quad c1 c2 c3 c4 True \<longleftrightarrow> padded_body [c1, c2, c3, c4]"
  using b64_char_pad by (auto simp: bad_quad_def padded_body_Cons decode_table_char)

lemma bad_quad_inner:
  "\<not> bad_quad c1 c2 c3 c4 False \<longleftrightarrow> (\<forall>c \<in> {c1, c2, c3, c4}. b64_char c)"
  using b64_char_pad by (auto simp: bad_quad_def decode_table_char)

lemma decode_quads_accepts:
  "length cs mod 4 = 0 \<Longrightarrow> is_ok (decode_quads cs) \<longleftrightarrow> padded_body cs"
proof (induction cs rule: decode_quads.induct)
  case (1 c1 c2 c3 c4 rest)
  show ?case
  proof (cases "rest = []")
    case True
    then show ?thesis using bad_quad_last [of c1 c2 c3 c4] by auto
  next
    case False
    have len: "length rest mod 4 = 0" using "1.prems" by simp
    have "rest \<noteq> ''=''" "rest \<noteq> ''==''"
      using len by (auto dest: dvd_imp_le)
    with False have "padded_body (c1 # c2 # c3 # c4 # rest) \<longleftrightarrow>
        (\<forall>c \<in> {c1, c2, c3, c4}. b64_char c) \<and> padded_body rest"
      by (auto simp: padded_body_Cons [of c1] padded_body_Cons [of c2] padded_body_Cons [of c3]
          padded_body_Cons [of c4])
    with 1 False len bad_quad_inner [of c1 c2 c3 c4] show ?thesis
      by (auto split: sum.split)
  qed
qed auto

subsection \<open>Properties\<close>

text \<open>
  C1. Decoding inverts encoding, whitespace anywhere in the wire text ignored:
  any text whose significant characters are the encoding of a non-empty
  payload decodes to exactly that payload.
\<close>

theorem base64_round_trip:
  assumes "compact value = scalar_encode_base64 d" and "d \<noteq> []"
  shows "scalar_decode_base64 value = Inr d"
  using assms encode_compact [of d] decode_quads_encode [of d]
  by (simp add: scalar_decode_base64_def)

theorem base64_round_trip_witness:
  "compact (scalar_encode_base64 ''a?'' @ '' '') = scalar_encode_base64 ''a?'' \<and>
   scalar_decode_base64 (scalar_encode_base64 ''a?'' @ '' '') = Inr ''a?''"
proof -
  have h: "compact (scalar_encode_base64 ''a?'' @ '' '') = scalar_encode_base64 ''a?''"
    by (simp add: kAlphabet_def compact_def c_isspace_def byte_val_def)
  show ?thesis using h base64_round_trip [OF h] by simp
qed

interpretation b64: codec scalar_encode_base64 scalar_decode_base64 "\<lambda>d. d \<noteq> []"
  using decode_quads_encode encode_compact
  by unfold_locales (auto simp: scalar_decode_base64_def)

text \<open>
  C2. The accept/reject decision of the scalar decoder is the wire contract
  of \<^verbatim>\<open>base64_scalar.h\<close>: after whitespace is dropped the text is not empty, its
  length is a multiple of four, and it is characters of the standard alphabet
  followed by at most two pads.
\<close>

theorem base64_accepts_contract:
  "is_ok (scalar_decode_base64 value) \<longleftrightarrow>
     compact value \<noteq> [] \<and> length (compact value) mod 4 = 0 \<and> padded_body (compact value)"
  using decode_quads_accepts [of "compact value"]
  by (auto simp: scalar_decode_base64_def Let_def)

text \<open>
  What the vector kernel documents in strict mode: a success is the RFC 4648
  spelling of the bytes it wrote, ASCII whitespace apart.
\<close>

definition kernel_strict :: "(string \<Rightarrow> string option) \<Rightarrow> bool" where
  "kernel_strict vkernel =
     (\<forall>value d. vkernel value = Some d \<longrightarrow> compact value = scalar_encode_base64 d)"

definition reference_kernel :: "string \<Rightarrow> string option" where
  "reference_kernel value =
     (case scalar_decode_base64 value of
        Inl _ \<Rightarrow> (if compact value = [] then Some [] else None)
      | Inr d \<Rightarrow> (if scalar_encode_base64 d = compact value then Some d else None))"

lemma reference_kernel_strict: "kernel_strict reference_kernel"
  by (auto simp: kernel_strict_def reference_kernel_def split: sum.splits if_splits)

text \<open>
  The fast path is invisible: with a kernel that is strict, the public
  decoder returns exactly what the scalar reference returns, value and
  exception alike, on every input that has a significant character (and on
  the empty input).
\<close>

theorem fast_path_equals_scalar:
  assumes "kernel_strict vkernel" and "value = [] \<or> compact value \<noteq> []"
  shows "decode_base64 vkernel value = scalar_decode_base64 value"
proof (cases "value = [] \<or> vkernel value = None")
  case True
  then show ?thesis
    by (auto simp: decode_base64_def scalar_decode_base64_def compact_def)
next
  case False
  then obtain d where v: "value \<noteq> []" "vkernel value = Some d" by auto
  with assms have c: "compact value = scalar_encode_base64 d" "compact value \<noteq> []"
    by (auto simp: kernel_strict_def)
  then have "d \<noteq> []" using encode_compact [of d] by auto
  with c have "scalar_decode_base64 value = Inr d"
    using encode_compact [of d] decode_quads_encode [of d] by (simp add: scalar_decode_base64_def)
  then show ?thesis using v by (simp add: decode_base64_def Let_def)
qed

theorem fast_path_equals_scalar_witness:
  "kernel_strict reference_kernel \<and>
   decode_base64 reference_kernel ''YQ=='' = scalar_decode_base64 ''YQ==''"
proof -
  have h: "''YQ=='' = [] \<or> compact ''YQ=='' \<noteq> []"
    by (simp add: compact_def c_isspace_def byte_val_def)
  show ?thesis
    using reference_kernel_strict fast_path_equals_scalar [OF reference_kernel_strict h] by simp
qed

text \<open>
  C2. The one input class where the two paths part: a non-empty text of
  whitespace alone. The contract rejects it (nothing is left after the
  whitespace is dropped), but a kernel that reports success with no bytes
  passes the structural recount, because zero is a multiple of four, and the
  public entry point returns an empty document.
\<close>

theorem whitespace_only_divergence:
  assumes "value \<noteq> []" and "compact value = []" and "vkernel value = Some []"
  shows "decode_base64 vkernel value = Inr [] \<and> scalar_decode_base64 value = Inl base64_error"
  using assms by (simp add: decode_base64_def scalar_decode_base64_def compact_def)

theorem whitespace_only_divergence_witness:
  "decode_base64 reference_kernel '' '' = Inr [] \<and> scalar_decode_base64 '' '' = Inl base64_error"
  by (rule whitespace_only_divergence)
    (simp_all add: compact_def c_isspace_def byte_val_def reference_kernel_def
      scalar_decode_base64_def)

end
