(* ===== verification/Sha256.thy ===== *)
theory Sha256
  imports Prelude
begin

text \<open>
  \<^verbatim>\<open>src/targets/sha256.cpp\<close>: the SHA-256 compression function, the digest
  over a whole buffer with its two-block tail, HMAC and the hexadecimal
  spelling. 32-bit words are \<^typ>\<open>32 word\<close>, so additions wrap as \<^verbatim>\<open>uint32_t\<close> does;
  byte buffers are strings. The digest is shown equal to the padding of FIPS
  180-4 followed by one pass over its blocks.
\<close>

subsection \<open>Words and bytes\<close>

type_synonym u32 = "32 word"

definition kRoundConstants :: "u32 list" where
  "kRoundConstants = concat [
    [0x428a2f98, 0x71374491, 0xb5c0fbcf, 0xe9b5dba5, 0x3956c25b, 0x59f111f1],
    [0x923f82a4, 0xab1c5ed5, 0xd807aa98, 0x12835b01, 0x243185be, 0x550c7dc3],
    [0x72be5d74, 0x80deb1fe, 0x9bdc06a7, 0xc19bf174, 0xe49b69c1, 0xefbe4786],
    [0x0fc19dc6, 0x240ca1cc, 0x2de92c6f, 0x4a7484aa, 0x5cb0a9dc, 0x76f988da],
    [0x983e5152, 0xa831c66d, 0xb00327c8, 0xbf597fc7, 0xc6e00bf3, 0xd5a79147],
    [0x06ca6351, 0x14292967, 0x27b70a85, 0x2e1b2138, 0x4d2c6dfc, 0x53380d13],
    [0x650a7354, 0x766a0abb, 0x81c2c92e, 0x92722c85, 0xa2bfe8a1, 0xa81a664b],
    [0xc24b8b70, 0xc76c51a3, 0xd192e819, 0xd6990624, 0xf40e3585, 0x106aa070],
    [0x19a4c116, 0x1e376c08, 0x2748774c, 0x34b0bcb5, 0x391c0cb3, 0x4ed8aa4a],
    [0x5b9cca4f, 0x682e6ff3, 0x748f82ee, 0x78a5636f, 0x84c87814, 0x8cc70208],
    [0x90befffa, 0xa4506ceb, 0xbef9a3f7, 0xc67178f2]]"

definition byte_word :: "char \<Rightarrow> u32" where
  "byte_word c = of_char c"

definition word_byte :: "u32 \<Rightarrow> char" where
  "word_byte w = char_of (uint w)"

text \<open>\<^verbatim>\<open>read_be32(block + at)\<close>.\<close>

definition read_be32 :: "string \<Rightarrow> nat \<Rightarrow> u32" where
  "read_be32 bytes at =
     push_bit 24 (byte_word (bytes ! at)) OR push_bit 16 (byte_word (bytes ! (at + 1)))
     OR push_bit 8 (byte_word (bytes ! (at + 2))) OR byte_word (bytes ! (at + 3))"

definition write_be32 :: "u32 \<Rightarrow> string" where
  "write_be32 value = [word_byte (drop_bit 24 value), word_byte (drop_bit 16 value),
     word_byte (drop_bit 8 value), word_byte value]"

definition rotr :: "nat \<Rightarrow> u32 \<Rightarrow> u32" where
  "rotr n w = word_rotr n w"

subsection \<open>One compression\<close>

text \<open>The message schedule: the first sixteen words read, the rest extended one at a time.\<close>

definition schedule_next :: "u32 list \<Rightarrow> nat \<Rightarrow> u32" where
  "schedule_next ws index =
     (let previous = ws ! (index - 15); recent = ws ! (index - 2);
          sigma0 = rotr 7 previous XOR rotr 18 previous XOR drop_bit 3 previous;
          sigma1 = rotr 17 recent XOR rotr 19 recent XOR drop_bit 10 recent
      in ws ! (index - 16) + sigma0 + ws ! (index - 7) + sigma1)"

definition schedule :: "string \<Rightarrow> u32 list" where
  "schedule block =
     fold (\<lambda>index ws. ws @ [schedule_next ws index]) [16..<64]
       (map (\<lambda>index. read_be32 block (index * 4)) [0..<16])"

text \<open>The eight working variables, in the code's order.\<close>

record working =
  va :: u32
  vb :: u32
  vc :: u32
  vd :: u32
  ve :: u32
  vf :: u32
  vg :: u32
  vh :: u32

definition round_step :: "u32 list \<Rightarrow> nat \<Rightarrow> working \<Rightarrow> working" where
  "round_step sched index w =
     (let sum1 = rotr 6 (ve w) XOR rotr 11 (ve w) XOR rotr 25 (ve w);
          choice = (ve w AND vf w) XOR (NOT (ve w) AND vg w);
          temp1 = vh w + sum1 + choice + kRoundConstants ! index + sched ! index;
          sum0 = rotr 2 (va w) XOR rotr 13 (va w) XOR rotr 22 (va w);
          majority = (va w AND vb w) XOR (va w AND vc w) XOR (vb w AND vc w);
          temp2 = sum0 + majority
      in \<lparr>va = temp1 + temp2, vb = va w, vc = vb w, vd = vc w,
          ve = vd w + temp1, vf = ve w, vg = vf w, vh = vg w\<rparr>)"

definition add_state :: "working \<Rightarrow> working \<Rightarrow> working" where
  "add_state s r = \<lparr>va = va s + va r, vb = vb s + vb r, vc = vc s + vc r, vd = vd s + vd r,
     ve = ve s + ve r, vf = vf s + vf r, vg = vg s + vg r, vh = vh s + vh r\<rparr>"

definition compress :: "working \<Rightarrow> string \<Rightarrow> working" where
  "compress state block =
     (let sched = schedule block
      in add_state state (fold (round_step sched) [0..<64] state))"

definition initial_state :: working where
  "initial_state = \<lparr>va = 0x6a09e667, vb = 0xbb67ae85, vc = 0x3c6ef372, vd = 0xa54ff53a,
     ve = 0x510e527f, vf = 0x9b05688c, vg = 0x1f83d9ab, vh = 0x5be0cd19\<rparr>"

subsection \<open>The digest\<close>

text \<open>
  The loop over whole blocks: the state reached and the remainder left, which
  the code keeps as \<^verbatim>\<open>offset\<close>.
\<close>

function whole_blocks :: "working \<Rightarrow> string \<Rightarrow> working \<times> string" where
  "whole_blocks state data =
     (if 64 \<le> length data then whole_blocks (compress state (take 64 data)) (drop 64 data)
      else (state, data))"
  by pat_completeness auto
termination
  by (relation "measure (\<lambda>(s, d). length d)") auto

declare whole_blocks.simps [simp del]

text \<open>
  The tail buffer of two blocks: the remainder, 0x80, zeros, and the 64-bit
  big-endian bit length written at the end of the last tail block.
\<close>

definition tail_blocks :: "nat \<Rightarrow> nat" where
  "tail_blocks remainder = (if remainder + 1 + 8 > 64 then 2 else 1)"

definition overwrite :: "string \<Rightarrow> nat \<Rightarrow> string \<Rightarrow> string" where
  "overwrite buf at new = take at buf @ new @ drop (at + length new) buf"

definition tail_buffer :: "string \<Rightarrow> 64 word \<Rightarrow> string" where
  "tail_buffer rest bits =
     (let tail0 = replicate 128 (CHR 0x00);
          tail1 = overwrite tail0 0 rest;
          tail2 = tail1[length rest := CHR 0x80];
          field = tail_blocks (length rest) * 64 - 8;
          tail3 = overwrite tail2 field (write_be32 (ucast (drop_bit 32 bits)))
      in overwrite tail3 (field + 4) (write_be32 (ucast bits)))"

definition sha256 :: "string \<Rightarrow> string" where
  "sha256 data =
     (let (state, rest) = whole_blocks initial_state data;
          bits = of_nat (length data) * 8 :: 64 word;
          tail = tail_buffer rest bits;
          final = fold (\<lambda>block s. compress s (substr tail (block * 64) 64))
                    [0..<tail_blocks (length rest)] state
      in concat (map write_be32 [va final, vb final, vc final, vd final,
                                 ve final, vf final, vg final, vh final]))"

subsection \<open>Hexadecimal spelling and HMAC\<close>

definition hex_digits :: string where
  "hex_digits = ''0123456789abcdef''"

definition to_hex :: "string \<Rightarrow> string" where
  "to_hex bytes = concat (map (\<lambda>byte.
     [hex_digits ! (drop_bit 4 (byte_val byte)), hex_digits ! (byte_val byte AND 15)]) bytes)"

definition sha256_hex :: "string \<Rightarrow> string" where
  "sha256_hex data = to_hex (sha256 data)"

definition xor_pad :: "nat \<Rightarrow> string \<Rightarrow> string" where
  "xor_pad pad block = map (\<lambda>c. char_of (byte_val c XOR pad)) block"

definition hmac_sha256 :: "string \<Rightarrow> string \<Rightarrow> string" where
  "hmac_sha256 key data =
     (let block0 = replicate 64 (CHR 0x00);
          block = (if 64 < length key then overwrite block0 0 (sha256 key)
                   else overwrite block0 0 key);
          inner = xor_pad 0x36 block @ data;
          outer = xor_pad 0x5c block @ sha256 inner
      in sha256 outer)"

subsection \<open>Sizes\<close>

lemma length_write_be32 [simp, length_simps]: "length (write_be32 w) = 4"
  by (simp add: write_be32_def)

lemma length_sha256 [simp, length_simps]: "length (sha256 data) = 32"
  by (simp add: sha256_def Let_def split: prod.split)

lemma length_to_hex [simp, length_simps]: "length (to_hex bytes) = 2 * length bytes"
  by (induction bytes) (simp_all add: to_hex_def)

lemma length_hmac [simp, length_simps]: "length (hmac_sha256 key data) = 32"
  by (simp add: hmac_sha256_def Let_def)

lemma length_overwrite [simp, length_simps]:
  "at + length new \<le> length buf \<Longrightarrow> length (overwrite buf at new) = length buf"
  by (simp add: overwrite_def)

lemma length_whole_blocks_rest: "length (snd (whole_blocks s d)) = length d mod 64"
proof (induction s d rule: whole_blocks.induct)
  case (1 s d)
  then show ?case
    by (subst whole_blocks.simps) (auto simp: le_mod_geq)
qed

subsection \<open>The padding of FIPS 180-4\<close>

text \<open>
  The specification: append 0x80, the least number of zero bytes that makes
  the length eight short of a multiple of 64, and the bit length; then fold
  the compression over the blocks.
\<close>

definition fips_zeros :: "nat \<Rightarrow> nat" where
  "fips_zeros len = (55 + 64 - len mod 64) mod 64"

definition fips_pad :: "string \<Rightarrow> string" where
  "fips_pad data =
     (let bits = of_nat (length data) * 8 :: 64 word
      in data @ [CHR 0x80] @ replicate (fips_zeros (length data)) (CHR 0x00)
         @ write_be32 (ucast (drop_bit 32 bits)) @ write_be32 (ucast bits))"

function blocks64 :: "string \<Rightarrow> string list" where
  "blocks64 data = (if data = [] then [] else take 64 data # blocks64 (drop 64 data))"
  by pat_completeness auto
termination
  by (relation "measure length") auto

declare blocks64.simps [simp del]

definition sha256_spec :: "string \<Rightarrow> working" where
  "sha256_spec data = fold (\<lambda>block s. compress s block) (blocks64 (fips_pad data)) initial_state"

subsection \<open>The two-phase digest is the one-pass specification\<close>

lemma blocks64_Nil [simp]: "blocks64 [] = []"
  by (subst blocks64.simps) simp

lemma blocks64_step: "data \<noteq> [] \<Longrightarrow> blocks64 data = take 64 data # blocks64 (drop 64 data)"
  by (subst blocks64.simps) simp

lemma whole_blocks_append:
  "fold (\<lambda>b s. compress s b) (blocks64 (d @ t)) s =
   fold (\<lambda>b s. compress s b) (blocks64 (snd (whole_blocks s d) @ t)) (fst (whole_blocks s d))"
proof (induction s d rule: whole_blocks.induct)
  case (1 s d)
  show ?case
  proof (cases "64 \<le> length d")
    case True
    then have "d @ t \<noteq> []" by auto
    with 1 True show ?thesis
      by (subst whole_blocks.simps, subst (2) whole_blocks.simps) (simp add: blocks64_step)
  next
    case False
    then show ?thesis by (subst whole_blocks.simps, subst (2) whole_blocks.simps) simp
  qed
qed

lemma whole_blocks_rest: "snd (whole_blocks s d) = drop (64 * (length d div 64)) d"
proof (induction s d rule: whole_blocks.induct)
  case (1 s d)
  show ?case
  proof (cases "64 \<le> length d")
    case True
    then have "length d div 64 = Suc ((length d - 64) div 64)"
      by (simp add: le_div_geq)
    with 1 True show ?thesis
      by (subst whole_blocks.simps) (simp add: add.commute)
  next
    case False
    then show ?thesis by (subst whole_blocks.simps) simp
  qed
qed

lemma overwrite_prefix:
  "at + length new \<le> length buf \<Longrightarrow>
   take (at + length new) (overwrite buf at new) = take at buf @ new"
  by (simp add: overwrite_def)

lemma tail_field_fits:
  assumes "n < 64"
  shows "n + 1 \<le> tail_blocks n * 64 - 8" "tail_blocks n * 64 \<le> 128" "8 \<le> tail_blocks n * 64"
    "tail_blocks n * 64 - 8 - (n + 1) = fips_zeros n"
  using assms by (auto simp: tail_blocks_def fips_zeros_def mod_if)

lemma tail_buffer_prefix:
  assumes "length r < 64"
  shows "take (tail_blocks (length r) * 64) (tail_buffer r bits) =
     r @ [CHR 0x80] @ replicate (fips_zeros (length r)) (CHR 0x00)
     @ write_be32 (ucast (drop_bit 32 bits)) @ write_be32 (ucast bits)"
    and "length (tail_buffer r bits) = 128"
proof -
  let ?n = "length r" and ?f = "tail_blocks (length r) * 64 - 8"
  define t2 where "t2 = (overwrite (replicate 128 (CHR 0x00)) 0 r)[?n := CHR 0x80]"
  note fits = tail_field_fits [OF assms]
  have len: "length t2 = 128"
    using assms by (simp add: t2_def)
  have "overwrite (replicate 128 (CHR 0x00)) 0 r = r @ CHR 0x00 # replicate (127 - ?n) (CHR 0x00)"
    using assms by (simp add: overwrite_def drop_replicate flip: replicate_Suc)
  then have t2: "t2 = (r @ [CHR 0x80]) @ replicate (127 - ?n) (CHR 0x00)"
    by (simp add: t2_def)
  have zeros: "?f - Suc ?n = fips_zeros ?n"
    using fits(4) by simp
  have head: "take ?f t2 = r @ [CHR 0x80] @ replicate (fips_zeros ?n) (CHR 0x00)"
  proof -
    have "?f - length (r @ [CHR 0x80]) = fips_zeros ?n" "?f - Suc ?n \<le> 127 - ?n"
      using zeros fits(1,2) by simp_all
    moreover have "take ?f (r @ [CHR 0x80]) = r @ [CHR 0x80]"
      using fits(1) by (intro take_all) simp
    moreover have "take ?f t2 = take ?f (r @ [CHR 0x80])
        @ take (?f - length (r @ [CHR 0x80])) (replicate (127 - ?n) (CHR 0x00))"
      unfolding t2 by (rule take_append)
    ultimately show ?thesis
      using zeros by (simp add: min_def)
  qed
  define t3 where "t3 = overwrite t2 ?f (write_be32 (ucast (drop_bit 32 bits)))"
  have t3: "take (?f + 4) t3 = take ?f t2 @ write_be32 (ucast (drop_bit 32 bits))"
    "length t3 = 128"
    unfolding t3_def using overwrite_prefix [of ?f "write_be32 (ucast (drop_bit 32 bits))" t2]
      len fits by simp_all
  have buf: "tail_buffer r bits = overwrite t3 (?f + 4) (write_be32 (ucast bits))"
    by (simp add: tail_buffer_def t3_def t2_def Let_def)
  show "length (tail_buffer r bits) = 128"
    unfolding buf using t3 fits by simp
  have "take (?f + 4 + 4) (tail_buffer r bits) = take (?f + 4) t3 @ write_be32 (ucast bits)"
    unfolding buf using overwrite_prefix [of "?f + 4" "write_be32 (ucast bits)" t3] t3 fits by simp
  then have "take (?f + 4 + 4) (tail_buffer r bits) =
      r @ [CHR 0x80] @ replicate (fips_zeros ?n) (CHR 0x00)
      @ write_be32 (ucast (drop_bit 32 bits)) @ write_be32 (ucast bits)"
    unfolding t3(1) head by simp
  moreover have "?f + 4 + 4 = tail_blocks ?n * 64"
    using fits by simp
  ultimately show "take (tail_blocks ?n * 64) (tail_buffer r bits) =
     r @ [CHR 0x80] @ replicate (fips_zeros ?n) (CHR 0x00)
     @ write_be32 (ucast (drop_bit 32 bits)) @ write_be32 (ucast bits)"
    by argo
qed

lemma blocks64_exact:
  "length u = k * 64 \<Longrightarrow> blocks64 u = map (\<lambda>b. substr u (b * 64) 64) [0..<k]"
proof (induction k arbitrary: u)
  case (Suc k)
  then have "u \<noteq> []" by auto
  moreover have "blocks64 (drop 64 u) = map (\<lambda>b. substr (drop 64 u) (b * 64) 64) [0..<k]"
    using Suc by simp
  ultimately show ?case
    by (simp add: blocks64_step substr_def upt_conv_Cons map_Suc_upt [symmetric] add.commute
        del: upt_Suc map_Suc_upt)
qed simp

lemma substr_take: "b < k \<Longrightarrow> substr (take (k * 64) t) (b * 64) 64 = substr t (b * 64) 64"
proof -
  assume "b < k"
  then have "64 \<le> k * 64 - b * 64" by simp
  then show ?thesis by (simp add: substr_def drop_take min_def)
qed

lemma blocks64_take:
  "k * 64 \<le> length t \<Longrightarrow> blocks64 (take (k * 64) t) = map (\<lambda>b. substr t (b * 64) 64) [0..<k]"
  by (subst blocks64_exact [of _ k]) (auto simp: substr_take)

text \<open>
  C3. The streaming digest is FIPS 180-4.
\<close>

theorem sha256_is_fips:
  "sha256 data =
     (let f = sha256_spec data
      in concat (map write_be32 [va f, vb f, vc f, vd f, ve f, vf f, vg f, vh f]))"
proof -
  obtain st r where wb: "whole_blocks initial_state data = (st, r)"
    by (cases "whole_blocks initial_state data")
  define bits where "bits = (of_nat (length data) * 8 :: 64 word)"
  define pad where "pad = [CHR 0x80] @ replicate (fips_zeros (length data)) (CHR 0x00)
     @ write_be32 (ucast (drop_bit 32 bits)) @ write_be32 (ucast bits)"
  have lr: "length r = length data mod 64"
    using length_whole_blocks_rest [of initial_state data] wb by simp
  then have z: "fips_zeros (length r) = fips_zeros (length data)"
    by (simp add: fips_zeros_def)
  have lt: "length r < 64" using lr by simp
  let ?k = "tail_blocks (length r)" and ?t = "tail_buffer r bits"
  have "r @ pad = take (?k * 64) ?t"
    using tail_buffer_prefix(1) [OF lt, of bits] by (simp add: pad_def z)
  moreover have "blocks64 (take (?k * 64) ?t) = map (\<lambda>b. substr ?t (b * 64) 64) [0..<?k]"
    using tail_buffer_prefix(2) [OF lt, of bits] tail_field_fits(2) [OF lt]
    by (intro blocks64_take) (auto simp: tail_blocks_def)
  ultimately have "sha256_spec data =
      fold (\<lambda>block s. compress s (substr ?t (block * 64) 64)) [0..<?k] st"
    using whole_blocks_append [of data pad initial_state] wb
    by (simp add: sha256_spec_def fips_pad_def pad_def bits_def Let_def fold_map comp_def)
  then show ?thesis
    by (simp add: sha256_def wb Let_def bits_def)
qed

subsection \<open>The hexadecimal spelling can be read back\<close>

definition hex_value :: "char \<Rightarrow> nat option" where
  "hex_value c = (let b = byte_val c in
     if 48 \<le> b \<and> b \<le> 57 then Some (b - 48)
     else if 97 \<le> b \<and> b \<le> 102 then Some (b - 87) else None)"

fun of_hex :: "string \<Rightarrow> unit + string" where
  "of_hex [] = Inr []"
| "of_hex [_] = Inl ()"
| "of_hex (h # l # rest) =
     (case (hex_value h, hex_value l, of_hex rest) of
        (Some a, Some b, Inr tail) \<Rightarrow> Inr (char_of (a * 16 + b) # tail)
      | _ \<Rightarrow> Inl ())"

lemma hex_digit_values:
  "list_all2 (\<lambda>c n. hex_value c = Some n) hex_digits [0..<16]"
  by (simp add: hex_digits_def hex_value_def byte_val_def upt_rec)

lemma hex_value_nth: "n < 16 \<Longrightarrow> hex_value (hex_digits ! n) = Some n"
  using list_all2_nthD2 [OF hex_digit_values, of n] by simp

lemma hex_nibbles: "drop_bit 4 (byte_val c) < 16" "byte_val c AND 15 < 16"
  "char_of (drop_bit 4 (byte_val c) * 16 + (byte_val c AND 15)) = c"
proof -
  show "drop_bit 4 (byte_val c) < 16"
    using byte_val_less [of c] by (simp add: bits_arith div_less_iff_less_mult)
  show "byte_val c AND 15 < 16" by (simp add: bits_arith)
  have "byte_val c div 16 * 16 + byte_val c mod 16 = byte_val c" by simp
  then show "char_of (drop_bit 4 (byte_val c) * 16 + (byte_val c AND 15)) = c"
    by (simp add: bits_arith del: div_mult_mod_eq)
qed

interpretation hex: codec to_hex of_hex "\<lambda>_. True"
proof (unfold_locales, goal_cases)
  case (1 d)
  show ?case
    by (induction d) (simp_all add: to_hex_def hex_value_nth hex_nibbles)
qed

text \<open>A digest of fixed size, and what a client may rely on.\<close>

locale fixed_digest =
  fixes digest :: "string \<Rightarrow> string"
    and size :: nat
  assumes digest_size: "length (digest data) = size"
begin

lemma hex_size: "length (to_hex (digest data)) = 2 * size"
  by (simp add: digest_size)

lemma hex_faithful: "to_hex (digest a) = to_hex (digest b) \<longleftrightarrow> digest a = digest b"
  using hex.enc_inj by auto

end

interpretation sha: fixed_digest sha256 32
  by unfold_locales simp

interpretation mac: fixed_digest "hmac_sha256 key" 32 for key
  by unfold_locales simp

text \<open>RFC 2104 over the digest: the block-sized key, and the two nested digests.\<close>

definition block_key :: "string \<Rightarrow> string" where
  "block_key key = (let k = (if 64 < length key then sha256 key else key)
                    in k @ replicate (64 - length k) (CHR 0x00))"

lemma overwrite_zero_block:
  "length k \<le> 64 \<Longrightarrow>
   overwrite (replicate 64 (CHR 0x00)) 0 k = k @ replicate (64 - length k) (CHR 0x00)"
  by (simp add: overwrite_def)

lemma hmac_is_rfc2104:
  "hmac_sha256 key data =
     sha256 (xor_pad 0x5c (block_key key) @ sha256 (xor_pad 0x36 (block_key key) @ data))"
  by (simp add: hmac_sha256_def block_key_def overwrite_zero_block Let_def)

text \<open>
  The signature spelling is lossless: two buffers with the same lower-case
  hexadecimal spelling are the same buffer, and the spelling of a MAC has
  exactly sixty-four digits, all of them hexadecimal.
\<close>

theorem to_hex_faithful:
  "(to_hex a = to_hex b \<longleftrightarrow> a = b) \<and> set (to_hex a) \<subseteq> set hex_digits
   \<and> length (to_hex (hmac_sha256 key a)) = 64"
proof (intro conjI)
  show "to_hex a = to_hex b \<longleftrightarrow> a = b" using hex.enc_inj by auto
  show "length (to_hex (hmac_sha256 key a)) = 64" using mac.hex_size by simp
  have "hex_digits ! n \<in> set hex_digits" if "n < 16" for n
    using that by (intro nth_mem) (simp add: hex_digits_def)
  then show "set (to_hex a) \<subseteq> set hex_digits"
    using hex_nibbles(1,2) by (auto simp: to_hex_def simp del: and_mask_mod)
qed

end
