(* ===== verification/SigV4.thy ===== *)
theory SigV4
  imports Sha256 "HOL-Library.List_Lexorder" "HOL-Library.Multiset"
begin

text \<open>
  \<^verbatim>\<open>src/targets/sigv4.cpp\<close>: the AWS Signature Version 4 signer. The request is
  a record of what \<^verbatim>\<open>SigV4Request\<close> holds; the signer normalises and sorts the
  headers itself, so its result does not depend on the caller's order.
  \<^verbatim>\<open>amz_timestamp\<close> (a \<^verbatim>\<open>gmtime_r\<close>/\<^verbatim>\<open>strftime\<close> call) is not modelled.
\<close>

subsection \<open>The request and its normal forms\<close>

type_synonym header = "string \<times> string"

record sigv4_request =
  http_method :: string
  canonical_uri :: string
  canonical_query :: string
  headers :: "header list"
  payload_sha256_hex :: string
  amz_date :: string
  region :: string
  service :: string

definition kAlgorithm :: string where "kAlgorithm = ''AWS4-HMAC-SHA256''"
definition kTerminator :: string where "kTerminator = ''aws4_request''"

definition nl :: char where "nl = CHR 0x0A"

text \<open>
  The loop of \<^verbatim>\<open>normalize_value\<close>: \<open>out\<close> is \<^verbatim>\<open>normalized\<close>, kept in order.
\<close>

definition is_blank :: "char \<Rightarrow> bool" where
  "is_blank c = (c = CHR '' '' \<or> c = CHR 0x09)"

fun normalize_loop :: "string \<Rightarrow> bool \<Rightarrow> string \<Rightarrow> string" where
  "normalize_loop out pending_space [] = out"
| "normalize_loop out pending_space (c # cs) =
     (if is_blank c then normalize_loop out (out \<noteq> []) cs
      else normalize_loop ((if pending_space then out @ '' '' else out) @ [c]) False cs)"

definition normalize_value :: "string \<Rightarrow> string" where
  "normalize_value value = normalize_loop [] False value"

text \<open>
  \<^verbatim>\<open>std::string\<close> comparison is byte-wise lexicographic; the sort is by name
  only (\<^verbatim>\<open>std::ranges::sort\<close> with a projection).
\<close>

fun bytes_le :: "string \<Rightarrow> string \<Rightarrow> bool" where
  "bytes_le [] _ = True"
| "bytes_le (_ # _) [] = False"
| "bytes_le (a # as) (b # bs) =
     (byte_val a < byte_val b \<or> (a = b \<and> bytes_le as bs))"

fun insert_header :: "header \<Rightarrow> header list \<Rightarrow> header list" where
  "insert_header h [] = [h]"
| "insert_header h (k # ks) =
     (if bytes_le (fst h) (fst k) then h # k # ks else k # insert_header h ks)"

definition sort_headers :: "header list \<Rightarrow> header list" where
  "sort_headers hs = foldr insert_header hs []"

definition sorted_headers :: "sigv4_request \<Rightarrow> header list" where
  "sorted_headers request =
     sort_headers (map (\<lambda>(name, value). (map c_tolower name, normalize_value value))
                     (headers request))"

fun signed_header_list_acc :: "string \<Rightarrow> header list \<Rightarrow> string" where
  "signed_header_list_acc out [] = out"
| "signed_header_list_acc out (h # hs) =
     signed_header_list_acc ((if out \<noteq> [] then out @ '';'' else out) @ fst h) hs"

definition signed_header_list :: "header list \<Rightarrow> string" where
  "signed_header_list hs = signed_header_list_acc [] hs"

definition scope_date :: "sigv4_request \<Rightarrow> string result" where
  "scope_date request =
     (if length (amz_date request) < 8
      then Inl (Runtime_Error ''signature v4 needs an ISO 8601 basic timestamp'')
      else Inr (take 8 (amz_date request)))"

subsection \<open>Percent encoding\<close>

definition upper_hex :: string where "upper_hex = ''0123456789ABCDEF''"

definition unreserved :: "char \<Rightarrow> bool" where
  "unreserved c = (c_isalnum c \<or> c = CHR ''-'' \<or> c = CHR ''_'' \<or> c = CHR ''.'' \<or> c = CHR ''~'')"

definition encode_byte :: "bool \<Rightarrow> char \<Rightarrow> string" where
  "encode_byte path c =
     (if unreserved c \<or> (path \<and> c = CHR ''/'') then [c]
      else [CHR ''%'', upper_hex ! (drop_bit 4 (byte_val c)), upper_hex ! (byte_val c AND 15)])"

definition uri_encode :: "string \<Rightarrow> bool \<Rightarrow> string" where
  "uri_encode value path = concat (map (encode_byte path) value)"

subsection \<open>The canonical request and the signature\<close>

definition canonical_request :: "sigv4_request \<Rightarrow> string" where
  "canonical_request request =
     (let hs = sorted_headers request
      in http_method request @ [nl] @ canonical_uri request @ [nl] @ canonical_query request @ [nl]
         @ concat (map (\<lambda>(name, value). name @ '':'' @ value @ [nl]) hs) @ [nl]
         @ signed_header_list hs @ [nl] @ payload_sha256_hex request)"

definition credential_scope :: "sigv4_request \<Rightarrow> string result" where
  "credential_scope request =
     (case scope_date request of Inl e \<Rightarrow> Inl e
      | Inr date \<Rightarrow> Inr (date @ ''/'' @ region request @ ''/'' @ service request
                        @ ''/'' @ kTerminator))"

definition string_to_sign :: "sigv4_request \<Rightarrow> string result" where
  "string_to_sign request =
     (case credential_scope request of Inl e \<Rightarrow> Inl e
      | Inr scope \<Rightarrow> Inr (kAlgorithm @ [nl] @ amz_date request @ [nl] @ scope @ [nl]
                        @ sha256_hex (canonical_request request)))"

definition signing_key :: "string \<Rightarrow> string \<Rightarrow> string \<Rightarrow> string \<Rightarrow> string" where
  "signing_key secret_key date rgn svc =
     (let dated = hmac_sha256 (''AWS4'' @ secret_key) date;
          regioned = hmac_sha256 dated rgn;
          serviced = hmac_sha256 regioned svc
      in hmac_sha256 serviced kTerminator)"

definition authorization_header :: "string \<Rightarrow> string \<Rightarrow> sigv4_request \<Rightarrow> string result" where
  "authorization_header access_key secret_key request =
     (let hs = sorted_headers request
      in case scope_date request of Inl e \<Rightarrow> Inl e | Inr date \<Rightarrow>
           (let key = signing_key secret_key date (region request) (service request)
            in case string_to_sign request of Inl e \<Rightarrow> Inl e | Inr sts \<Rightarrow>
                 (let signature = to_hex (hmac_sha256 key sts)
                  in case credential_scope request of Inl e \<Rightarrow> Inl e | Inr scope \<Rightarrow>
                       Inr (kAlgorithm @ '' Credential='' @ access_key @ ''/'' @ scope
                            @ '', SignedHeaders='' @ signed_header_list hs
                            @ '', Signature='' @ signature))))"

subsection \<open>Header order does not matter\<close>

definition name_key :: "header \<Rightarrow> nat list" where
  "name_key h = map byte_val (fst h)"

lemma bytes_le_lex: "bytes_le a b \<longleftrightarrow> map byte_val a \<le> map byte_val b"
  by (induction a b rule: bytes_le.induct) (auto simp: byte_val_inj)

lemma insert_header_insort: "insert_header h hs = insort_key name_key h hs"
  by (induction hs) (auto simp: bytes_le_lex name_key_def)

lemma sort_headers_sort_key: "sort_headers hs = sort_key name_key hs"
  unfolding sort_headers_def sort_key_def insert_header_insort [abs_def] by simp

lemma name_key_inj: "name_key h = name_key k \<longleftrightarrow> fst h = fst k"
  by (auto simp: name_key_def list_eq_iff_nth_eq byte_val_inj)

lemma sort_headers_perm:
  assumes "mset hs = mset ks" and "distinct (map fst hs)"
  shows "sort_headers hs = sort_headers ks"
proof -
  have "inj_on name_key (set hs)"
    using assms(2) by (auto simp: distinct_map inj_on_def name_key_inj)
  then show ?thesis
    unfolding sort_headers_sort_key using assms(1)
    by (intro sort_key_inj_key_eq) auto
qed

text \<open>
  The signer fixes the header order itself: two requests that differ only
  in the order of their headers get the same signature, the same canonical
  request and the same errors, as long as no two headers share a name in any
  letter case.
\<close>

theorem signature_header_order:
  assumes "mset (headers r) = mset hs"
    and "distinct (map (\<lambda>h. map c_tolower (fst h)) (headers r))"
  shows "authorization_header access_key secret_key (r\<lparr>headers := hs\<rparr>)
           = authorization_header access_key secret_key r
     \<and> canonical_request (r\<lparr>headers := hs\<rparr>) = canonical_request r"
proof -
  let ?norm = "\<lambda>(name, value). (map c_tolower name, normalize_value value)"
  have m: "mset (map ?norm (headers r)) = mset (map ?norm hs)"
    by (simp only: mset_map assms(1))
  have d: "distinct (map fst (map ?norm (headers r)))"
    using assms(2) by (simp add: comp_def split_def)
  have sh: "sorted_headers (r\<lparr>headers := hs\<rparr>) = sorted_headers r"
    using sort_headers_perm [OF m d] by (simp add: sorted_headers_def)
  then have cr: "canonical_request (r\<lparr>headers := hs\<rparr>) = canonical_request r"
    by (simp add: canonical_request_def)
  have scope: "scope_date (r\<lparr>headers := hs\<rparr>) = scope_date r"
    "credential_scope (r\<lparr>headers := hs\<rparr>) = credential_scope r"
    by (simp_all add: scope_date_def credential_scope_def)
  have "string_to_sign (r\<lparr>headers := hs\<rparr>) = string_to_sign r"
    by (simp add: string_to_sign_def scope cr split: sum.split)
  then show ?thesis by (simp add: authorization_header_def sh cr scope split: sum.split)
qed

definition sample_request :: sigv4_request where
  "sample_request = \<lparr>http_method = ''PUT'', canonical_uri = ''/b/k'', canonical_query = [],
     headers = [(''Host'', ''h''), (''x-amz-date'', ''  a   b '')], payload_sha256_hex = ''00'',
     amz_date = ''20260101T000000Z'', region = ''eu'', service = ''s3''\<rparr>"

theorem signature_header_order_witness:
  "authorization_header ''AK'' ''SK''
     (sample_request\<lparr>headers := rev (headers sample_request)\<rparr>) =
   authorization_header ''AK'' ''SK'' sample_request"
proof -
  have m: "mset (headers sample_request) = mset (rev (headers sample_request))" by simp
  have d: "distinct (map (\<lambda>h. map c_tolower (fst h)) (headers sample_request))"
    by (simp add: sample_request_def c_tolower_def c_isupper_def byte_val_def)
  show ?thesis using signature_header_order [OF m d] by simp
qed

subsection \<open>Header values in normal form\<close>

text \<open>The words of a value, and the specification's spelling of them.\<close>

lemma dropWhile_less [termination_simp]: "length (dropWhile P xs) < Suc (length xs)"
  by (simp add: length_dropWhile_le le_imp_less_Suc)

fun words_of :: "string \<Rightarrow> string list" where
  "words_of [] = []"
| "words_of (c # cs) =
     (if is_blank c then words_of cs
      else (c # takeWhile (\<lambda>d. \<not> is_blank d) cs) # words_of (dropWhile (\<lambda>d. \<not> is_blank d) cs))"

fun spaced :: "string list \<Rightarrow> string" where
  "spaced [] = []"
| "spaced [w] = w"
| "spaced (w # ws) = w @ '' '' @ spaced ws"


definition then_words :: "string list \<Rightarrow> string" where
  "then_words ws = (if ws = [] then [] else '' '' @ spaced ws)"

lemma spaced_Cons: "spaced (w # ws) = w @ then_words ws"
  by (cases ws) (simp_all add: then_words_def)

lemma words_of_nonblank_tail:
  "words_of (c # cs) = (if is_blank c then words_of cs
     else (c # takeWhile (\<lambda>d. \<not> is_blank d) cs) # words_of (dropWhile (\<lambda>d. \<not> is_blank d) cs))"
  by simp

lemma normalize_loop_spec:
  "out \<noteq> [] \<Longrightarrow> normalize_loop out p cs =
     (if p then out @ then_words (words_of cs)
      else out @ takeWhile (\<lambda>d. \<not> is_blank d) cs
             @ then_words (words_of (dropWhile (\<lambda>d. \<not> is_blank d) cs)))"
proof (induction cs arbitrary: out p)
  case (Cons c cs)
  show ?case
  proof (cases "is_blank c")
    case True
    with Cons show ?thesis by simp
  next
    case False
    with Cons show ?thesis
      by (auto simp: spaced_Cons then_words_def)
  qed
qed (simp add: then_words_def)

text \<open>
  A header value is signed in the specification's normal form: its words,
  in order, with one space between two of them and none outside.
\<close>

theorem normalize_value_words: "normalize_value v = spaced (words_of v)"
proof (induction v)
  case Nil
  show ?case by (simp add: normalize_value_def)
next
  case (Cons c cs)
  show ?case
  proof (cases "is_blank c")
    case True
    with Cons show ?thesis by (simp add: normalize_value_def)
  next
    case False
    then show ?thesis
      by (simp add: normalize_value_def normalize_loop_spec spaced_Cons)
  qed
qed

subsection \<open>Percent encoding can be undone\<close>

definition upper_hex_value :: "char \<Rightarrow> nat option" where
  "upper_hex_value c = (let b = byte_val c in
     if 48 \<le> b \<and> b \<le> 57 then Some (b - 48)
     else if 65 \<le> b \<and> b \<le> 70 then Some (b - 55) else None)"

fun uri_decode :: "string \<Rightarrow> unit + string" where
  "uri_decode [] = Inr []"
| "uri_decode (c # cs) =
     (if c = CHR ''%'' then
        (case cs of
           h # l # rest \<Rightarrow>
             (case (upper_hex_value h, upper_hex_value l, uri_decode rest) of
                (Some a, Some b, Inr tail) \<Rightarrow> Inr (char_of (a * 16 + b) # tail)
              | _ \<Rightarrow> Inl ())
         | _ \<Rightarrow> Inl ())
      else case uri_decode cs of Inl e \<Rightarrow> Inl e | Inr tail \<Rightarrow> Inr (c # tail))"

lemma upper_hex_values: "list_all2 (\<lambda>c n. upper_hex_value c = Some n) upper_hex [0..<16]"
  by (simp add: upper_hex_def upper_hex_value_def byte_val_def upt_rec)

lemma upper_hex_nth: "n < 16 \<Longrightarrow> upper_hex_value (upper_hex ! n) = Some n"
  using list_all2_nthD2 [OF upper_hex_values, of n] by simp

lemma percent_not_unreserved: "\<not> unreserved (CHR ''%'')"
  by (simp add: unreserved_def char_class_simps byte_val_def)

interpretation uri: codec "\<lambda>v. uri_encode v path" uri_decode "\<lambda>_. True" for path
proof (unfold_locales, goal_cases)
  case (1 v)
  show ?case
    by (induction v)
      (auto simp: uri_encode_def encode_byte_def upper_hex_nth hex_nibbles percent_not_unreserved)
qed

text \<open>
  A percent-encoded component names exactly one byte string, is made of
  unreserved characters, percent signs and (in a path) slashes only, and never
  grows past three bytes per byte.
\<close>

theorem uri_encode_faithful:
  "(uri_encode v path = uri_encode w path \<longleftrightarrow> v = w)
   \<and> (\<forall>c \<in> set (uri_encode v path). unreserved c \<or> c = CHR ''%'' \<or> (path \<and> c = CHR ''/''))
   \<and> length v \<le> length (uri_encode v path) \<and> length (uri_encode v path) \<le> 3 * length v"
proof (intro conjI)
  show "uri_encode v path = uri_encode w path \<longleftrightarrow> v = w"
    using uri.enc_inj by auto
  have upper: "unreserved (upper_hex ! n)" if "n < 16" for n
  proof -
    have "\<forall>c \<in> set upper_hex. unreserved c"
      by (simp add: upper_hex_def unreserved_def char_class_simps byte_val_def)
    moreover have "upper_hex ! n \<in> set upper_hex"
      using that by (intro nth_mem) (simp add: upper_hex_def)
    ultimately show ?thesis by blast
  qed
  show "\<forall>c \<in> set (uri_encode v path). unreserved c \<or> c = CHR ''%'' \<or> (path \<and> c = CHR ''/'')"
    using upper hex_nibbles(1,2)
    by (auto simp: uri_encode_def encode_byte_def simp del: and_mask_mod split: if_splits)
  show "length v \<le> length (uri_encode v path)"
    by (induction v) (auto simp: uri_encode_def encode_byte_def)
  show "length (uri_encode v path) \<le> 3 * length v"
    by (induction v) (auto simp: uri_encode_def encode_byte_def)
qed

theorem uri_encode_faithful_witness:
  "uri_encode ''a b'' True \<noteq> uri_encode ''a/b'' True
   \<and> unreserved (CHR ''2'') \<and> length (uri_encode ''a b'' True) \<le> 9"
proof -
  note f = uri_encode_faithful [of "''a b''" True "''a/b''"]
  show ?thesis using f by (simp add: unreserved_def char_class_simps byte_val_def)
qed

end
