(* ===== verification/StorageText.thy ===== *)
theory StorageText
  imports Prelude
begin

text \<open>
  \<^verbatim>\<open>src/confluence/storage_text.cpp\<close> and the format test of
  \<^verbatim>\<open>src/confluence_storage.cpp\<close>: case folding, trimming, UTF-8 output of one code
  point and the decoding of character references. Code points are \<^typ>\<open>nat\<close>
  with the code's own range checks.
\<close>

subsection \<open>Case, blanks and suffixes\<close>

definition lowercase :: "string \<Rightarrow> string" where
  "lowercase s = map c_tolower s"

definition c_toupper :: "char \<Rightarrow> char" where
  "c_toupper c = (if c_islower c then char_of (byte_val c - 32) else c)"

definition uppercase :: "string \<Rightarrow> string" where
  "uppercase s = map c_toupper s"

definition is_space :: "char \<Rightarrow> bool" where
  [char_class_simps]: "is_space c = (c = CHR '' '' \<or> c = CHR 0x09 \<or> c = CHR 0x0A
     \<or> c = CHR 0x0D \<or> c = CHR 0x0C \<or> c = CHR 0x0B)"

definition blank :: "string \<Rightarrow> bool" where
  "blank s = list_all is_space s"

definition trim :: "string \<Rightarrow> string" where
  "trim s = (let t = dropWhile is_space s in rev (dropWhile is_space (rev t)))"

definition code_points :: "string \<Rightarrow> nat" where
  "code_points s = length (filter (\<lambda>c. byte_val c AND 0xC0 \<noteq> 0x80) s)"

definition kConfluenceStorageMimetype :: string where
  "kConfluenceStorageMimetype = ''application/vnd.atlassian.confluence.storage+xhtml''"

definition confluence_storage_format :: "string \<Rightarrow> string \<Rightarrow> bool" where
  "confluence_storage_format filename content_type =
     (let name = lowercase filename; type = lowercase content_type
      in ends_with name ''.confluence'' \<or> ends_with name ''.storage.xhtml''
         \<or> type = kConfluenceStorageMimetype)"

subsection \<open>UTF-8 output\<close>

definition encode_code_point :: "nat \<Rightarrow> string" where
  "encode_code_point cp =
     (if cp < 0x80 then [char_of cp]
      else if cp < 0x800 then
        [char_of (0xC0 OR drop_bit 6 cp), char_of (0x80 OR (cp AND 0x3F))]
      else if cp < 0x10000 then
        [char_of (0xE0 OR drop_bit 12 cp), char_of (0x80 OR (drop_bit 6 cp AND 0x3F)),
         char_of (0x80 OR (cp AND 0x3F))]
      else
        [char_of (0xF0 OR drop_bit 18 cp), char_of (0x80 OR (drop_bit 12 cp AND 0x3F)),
         char_of (0x80 OR (drop_bit 6 cp AND 0x3F)), char_of (0x80 OR (cp AND 0x3F))])"

text \<open>Unicode scalar values: what a reference may name.\<close>

definition scalar_value :: "nat \<Rightarrow> bool" where
  "scalar_value cp = (cp \<le> 0x10FFFF \<and> \<not> (0xD800 \<le> cp \<and> cp \<le> 0xDFFF))"

definition append_code_point :: "nat \<Rightarrow> string \<Rightarrow> string" where
  "append_code_point cp out = out @ encode_code_point cp"

subsection \<open>Character references\<close>

definition append_named_entity :: "string \<Rightarrow> string \<Rightarrow> string option" where
  "append_named_entity name out =
     (if name = ''amp'' then Some (out @ ''&'')
      else if name = ''lt'' then Some (out @ ''<'')
      else if name = ''gt'' then Some (out @ ''>'')
      else if name = ''quot'' then Some (out @ [CHR 0x22])
      else if name = ''apos'' then Some (out @ [CHR 0x27])
      else if name = ''nbsp'' then Some (append_code_point 0xA0 out)
      else None)"

text \<open>The place value of a digit, \<open>None\<close> for the code's \<open>-1\<close>.\<close>

definition c_isxdigit :: "char \<Rightarrow> bool" where
  [char_class_simps]: "c_isxdigit c =
     (c_isdigit c \<or> (let b = byte_val c in 65 \<le> b \<and> b \<le> 70 \<or> 97 \<le> b \<and> b \<le> 102))"

definition digit_place :: "bool \<Rightarrow> char \<Rightarrow> nat option" where
  "digit_place hex d =
     (if c_isdigit d then Some (byte_val d - 48)
      else if hex \<and> c_isxdigit d then Some (byte_val (c_tolower d) - 97 + 10)
      else None)"

fun entity_digits :: "bool \<Rightarrow> nat \<Rightarrow> string \<Rightarrow> nat option" where
  "entity_digits hex acc [] = Some acc"
| "entity_digits hex acc (d # ds) =
     (case digit_place hex d of None \<Rightarrow> None
      | Some place \<Rightarrow>
          (let v = acc * (if hex then 16 else 10) + place
           in if v > 0x10FFFF then None else entity_digits hex v ds))"

definition numeric_entity_value :: "string \<Rightarrow> nat option" where
  "numeric_entity_value name =
     (let hex = (name ! 1 = CHR ''x'' \<or> name ! 1 = CHR ''X'');
          digits = drop (if hex then 2 else 1) name
      in if digits = [] then None
         else case entity_digits hex 0 digits of None \<Rightarrow> None
              | Some v \<Rightarrow> if v = 0 \<or> (0xD800 \<le> v \<and> v \<le> 0xDFFF) then None else Some v)"

definition append_entity :: "string \<Rightarrow> string \<Rightarrow> string option" where
  "append_entity name out =
     (case append_named_entity name out of Some out' \<Rightarrow> Some out'
      | None \<Rightarrow>
          (if length name \<le> 1 \<or> hd name \<noteq> CHR ''#'' then None
           else case numeric_entity_value name of None \<Rightarrow> None
                | Some cp \<Rightarrow> Some (append_code_point cp out)))"

text \<open>
  The decode loop; the argument is the rest of \<^verbatim>\<open>raw\<close> from \<^verbatim>\<open>index\<close>, and the
  semicolon is looked for in the next sixteen characters only.
\<close>

function decode_from :: "string \<Rightarrow> string \<Rightarrow> string" where
  "decode_from [] out = out"
| "decode_from (c # cs) out =
     (if c \<noteq> CHR ''&'' then decode_from cs (out @ [c])
      else case sfind '';'' (take 16 cs) of
        None \<Rightarrow> decode_from cs (out @ [c])
      | Some found \<Rightarrow>
          (case append_entity (take found cs) out of
             None \<Rightarrow> decode_from cs (out @ [c])
           | Some out' \<Rightarrow> decode_from (drop (found + 1) cs) out'))"
  by pat_completeness auto
termination
  by (relation "measure (\<lambda>(cs, out). length cs)") auto

definition decode_entities :: "string \<Rightarrow> string" where
  "decode_entities raw = decode_from raw []"

subsection \<open>Character references\<close>

definition escape_char :: "char \<Rightarrow> string" where
  "escape_char c =
     (if c = CHR ''&'' then ''&amp;'' else if c = CHR ''<'' then ''&lt;''
      else if c = CHR ''>'' then ''&gt;'' else if c = CHR 0x22 then ''&quot;''
      else if c = CHR 0x27 then ''&apos;'' else [c])"

definition escape_text :: "string \<Rightarrow> string" where
  "escape_text s = concat (map escape_char s)"

definition numeric_reference :: "nat \<Rightarrow> string" where
  "numeric_reference cp = ''&#'' @ to_dec cp @ '';''"

lemma decode_named:
  "decode_from (''&amp;'' @ rest) out = decode_from rest (out @ ''&'')"
  "decode_from (''&lt;'' @ rest) out = decode_from rest (out @ ''<'')"
  "decode_from (''&gt;'' @ rest) out = decode_from rest (out @ ''>'')"
  "decode_from (''&quot;'' @ rest) out = decode_from rest (out @ [CHR 0x22])"
  "decode_from (''&apos;'' @ rest) out = decode_from rest (out @ [CHR 0x27])"
  by (simp_all add: starts_with_def append_entity_def append_named_entity_def)

lemma decode_other:
  "c \<noteq> CHR ''&'' \<Longrightarrow> decode_from ([c] @ rest) out = decode_from rest (out @ [c])"
  by simp

lemma decode_escape: "decode_from (escape_text s @ rest) out = decode_from rest (out @ s)"
proof (induction s arbitrary: out)
  case Nil
  show ?case by (simp add: escape_text_def)
next
  case (Cons c s)
  have "decode_from (escape_char c @ (escape_text s @ rest)) out
          = decode_from (escape_text s @ rest) (out @ [c])"
    unfolding escape_char_def
    using decode_named [of "escape_text s @ rest" out]
      decode_other [of c "escape_text s @ rest" out] by (simp del: append_Cons)
  with Cons show ?case by (simp add: escape_text_def)
qed

lemma decode_plain: "CHR ''&'' \<notin> set s \<Longrightarrow> decode_from s out = out @ s"
  by (induction s arbitrary: out) auto

lemma entity_digits_dec_value:
  "dec_value_acc acc ds = Some n \<Longrightarrow> n \<le> 0x10FFFF \<Longrightarrow> entity_digits False acc ds = Some n"
proof (induction ds arbitrary: acc)
  case (Cons d ds)
  have mono: "dec_value_acc a xs = Some m \<Longrightarrow> a \<le> m" for a xs m
    by (induction xs arbitrary: a) (fastforce split: if_splits)+
  from Cons show ?case
    using mono [of "acc * 10 + (byte_val d - 48)" ds n]
    by (auto simp: digit_place_def split: if_splits)
qed simp



lemma sfind_char: "c \<notin> set xs \<Longrightarrow> sfind [c] (xs @ c # ys) = Some (length xs)"
  by (induction xs) (auto simp: starts_with_def)

lemma numeric_name:
  assumes "scalar_value cp" "cp \<noteq> 0"
  shows "append_entity (CHR ''#'' # to_dec cp) out = Some (append_code_point cp out)"
proof -
  obtain d ds where dd: "to_dec cp = d # ds" using to_dec_nonempty by (cases "to_dec cp") auto
  then have "c_isdigit d" using to_dec_digits [of d cp] by simp
  then have dx: "d \<noteq> CHR ''x''" "d \<noteq> CHR ''X''"
    by (auto simp: c_isdigit_def byte_val_def)
  have "entity_digits False 0 (to_dec cp) = Some cp"
    using assms entity_digits_dec_value dec_value_acc_to_dec by (simp add: scalar_value_def)
  then have "numeric_entity_value (CHR ''#'' # to_dec cp) = Some cp"
    using dx assms by (simp add: numeric_entity_value_def dd scalar_value_def)
  then show ?thesis
    by (simp add: append_entity_def append_named_entity_def dd)
qed

lemma decode_reference:
  assumes "CHR '';'' \<notin> set name" "length name < 16" "append_entity name out = Some out'"
  shows "decode_from (CHR ''&'' # name @ CHR '';'' # rest) out = decode_from rest out'"
proof -
  have "take 16 (name @ CHR '';'' # rest) = name @ CHR '';'' # take (15 - length name) rest"
    using assms(2) by (simp add: take_Cons')
  then have "sfind '';'' (take 16 (name @ CHR '';'' # rest)) = Some (length name)"
    using sfind_char [OF assms(1)] by metis
  then show ?thesis using assms(3) by simp
qed

lemma decode_numeric:
  assumes "scalar_value cp" "cp \<noteq> 0"
  shows "decode_from (numeric_reference cp @ rest) out
           = decode_from rest (out @ encode_code_point cp)"
proof -
  let ?name = "CHR ''#'' # to_dec cp"
  have semi: "CHR '';'' \<notin> set ?name"
    using to_dec_digits [of "CHR '';''" cp] by (auto simp: c_isdigit_def byte_val_def)
  have "length (to_dec cp) \<le> 7"
    using assms by (intro length_to_dec) (simp_all add: scalar_value_def)
  then show ?thesis
    using decode_reference [OF semi _ numeric_name [OF assms], of rest out]
    by (simp add: numeric_reference_def append_code_point_def del: decode_from.simps)
qed

text \<open>
  Character data survives its XML spelling: a text escaped with the five
  predefined references, with any Unicode scalar value written as a decimal
  reference in the middle, decodes to exactly the original bytes and the
  scalar value's UTF-8.
\<close>

theorem entities_round_trip:
  assumes "scalar_value cp" and "cp \<noteq> 0"
  shows "decode_entities (escape_text a @ numeric_reference cp @ escape_text b)
           = a @ encode_code_point cp @ b"
  using decode_escape [of a "numeric_reference cp @ escape_text b" "[]"]
    decode_numeric [OF assms, of "escape_text b" a] decode_escape [of b "[]" "a @ encode_code_point cp"]
  by (simp add: decode_entities_def)

theorem entities_round_trip_witness:
  "scalar_value 0x26 \<and> decode_entities (escape_text ''<&'' @ numeric_reference 0x26 @ escape_text ''x'')
     = ''<&&x''"
proof -
  have h: "scalar_value 0x26" "(0x26 :: nat) \<noteq> 0" by (simp_all add: scalar_value_def)
  have "encode_code_point 0x26 = ''&''" by code_simp
  then show ?thesis using h entities_round_trip [OF h, of "''<&''" "''x''"] by simp
qed

end
