(* ===== verification/ListMarker.thy ===== *)
theory ListMarker
  imports StorageText "HOL-Library.Multiset"
begin

text \<open>
  \<^verbatim>\<open>src/list_marker.cpp\<close>: reading one UTF-8 code point, the numbered-marker
  patterns, and the split of a list item's text into marker and content.
  Positions are byte offsets; \<^verbatim>\<open>kNoMatch\<close> is \<open>None\<close>.
\<close>

subsection \<open>One code point\<close>

type_synonym code_point = "nat \<times> nat" \<comment> \<open>value, encoded length\<close>

definition kMalformed :: code_point where "kMalformed = (0xFFFD, 1)"

definition lead_class :: "nat \<Rightarrow> (nat \<times> nat \<times> nat) option" where
  \<comment> \<open>length, value bits of the lead byte, smallest value that is not overlong\<close>
  "lead_class lead =
     (if lead AND 0xE0 = 0xC0 then Some (2, lead AND 0x1F, 0x80)
      else if lead AND 0xF0 = 0xE0 then Some (3, lead AND 0x0F, 0x800)
      else if lead AND 0xF8 = 0xF0 then Some (4, lead AND 0x07, 0x10000)
      else None)"

fun continuation :: "nat \<Rightarrow> string \<Rightarrow> nat option" where
  "continuation acc [] = Some acc"
| "continuation acc (c # cs) =
     (if byte_val c AND 0xC0 \<noteq> 0x80 then None
      else continuation (push_bit 6 acc OR (byte_val c AND 0x3F)) cs)"

definition decode_at :: "string \<Rightarrow> nat \<Rightarrow> code_point" where
  "decode_at text at =
     (let lead = byte_val (text ! at) in
      if lead < 0x80 then (lead, 1)
      else case lead_class lead of
        None \<Rightarrow> kMalformed
      | Some (len, bits, smallest) \<Rightarrow>
          if at + len > length text then kMalformed
          else (case continuation bits (substr text (at + 1) (len - 1)) of
              None \<Rightarrow> kMalformed
            | Some v \<Rightarrow>
                if v < smallest \<or> v > 0x10FFFF \<or> (0xD800 \<le> v \<and> v \<le> 0xDFFF) then kMalformed
                else (v, len)))"

lemma decode_at_length_pos: "0 < snd (decode_at text at)"
  by (auto simp: decode_at_def lead_class_def kMalformed_def Let_def split: option.splits if_splits)

function count_from :: "string \<Rightarrow> nat \<Rightarrow> nat" where
  "count_from text at =
     (if at < length text then Suc (count_from text (at + snd (decode_at text at))) else 0)"
  by pat_completeness auto
termination
  using decode_at_length_pos
  by (relation "measure (\<lambda>(text, at). length text - at)") (auto intro: diff_less_mono2)

declare count_from.simps [simp del]

definition count_code_points :: "string \<Rightarrow> nat" where
  "count_code_points text = count_from text 0"

subsection \<open>Character classes\<close>

definition kDecimalZeros :: "nat list" where
  "kDecimalZeros = [
    0x30,    0x660,   0x6F0,   0x7C0,   0x966,   0x9E6,   0xA66,   0xAE6,   0xB66,   0xBE6,
    0xC66,   0xCE6,   0xD66,   0xDE6,   0xE50,   0xED0,   0xF20,   0x1040,  0x1090,  0x17E0,
    0x1810,  0x1946,  0x19D0,  0x1A80,  0x1A90,  0x1B50,  0x1BB0,  0x1C40,  0x1C50,  0xA620,
    0xA8D0,  0xA900,  0xA9D0,  0xA9F0,  0xAA50,  0xABF0,  0xFF10,  0x104A0, 0x10D30, 0x10D40,
    0x11066, 0x110F0, 0x11136, 0x111D0, 0x112F0, 0x11450, 0x114D0, 0x11650, 0x116C0, 0x116D0,
    0x116DA, 0x11730, 0x118E0, 0x11950, 0x11BF0, 0x11C50, 0x11D50, 0x11DA0, 0x11F50, 0x16130,
    0x16A60, 0x16AC0, 0x16B50, 0x16D70, 0x1CCF0, 0x1D7CE, 0x1D7D8, 0x1D7E2, 0x1D7EC, 0x1D7F6,
    0x1E140, 0x1E2F0, 0x1E4F0, 0x1E5F1, 0x1E950, 0x1FBF0]"

text \<open>
  \<^verbatim>\<open>std::ranges::upper_bound\<close> on the sorted array: the first entry above \<open>c\<close>;
  the entry before it is the last one not above \<open>c\<close>.
\<close>

definition is_decimal :: "nat \<Rightarrow> bool" where
  "is_decimal c =
     (let below = takeWhile (\<lambda>z. z \<le> c) kDecimalZeros
      in below \<noteq> [] \<and> c - last below \<le> 9)"

definition kBullets :: "nat list" where
  "kBullets = [0x2022, 0x2023, 0x25E6, 0x2043, 0x204C, 0x204D, 0x2219, 0x25AA,
     0x25AB, 0x25CF, 0x25CB, 0x2D, 0x2A, 0x2B, 0xB7, 0x25BA,
     0x25B6, 0x25B8, 0x27A4, 0x27A2, 0x2713, 0x2714, 0x2717, 0x2718]"

definition is_bullet :: "nat \<Rightarrow> bool" where
  "is_bullet c = list_ex (\<lambda>bullet. c = bullet) kBullets"

definition is_py_space :: "nat \<Rightarrow> bool" where
  "is_py_space c = ((0x09 \<le> c \<and> c \<le> 0x0D) \<or> (0x1C \<le> c \<and> c \<le> 0x20) \<or> c = 0x85 \<or> c = 0xA0
     \<or> c = 0x1680 \<or> (0x2000 \<le> c \<and> c \<le> 0x200A) \<or> c = 0x2028 \<or> c = 0x2029
     \<or> c = 0x202F \<or> c = 0x205F \<or> c = 0x3000)"

definition digit_length :: "string \<Rightarrow> nat \<Rightarrow> nat" where
  "digit_length s at =
     (if length s \<le> at then 0
      else let c = decode_at s at in if is_decimal (fst c) then snd c else 0)"

definition is_digit :: "string \<Rightarrow> nat \<Rightarrow> bool" where
  "is_digit s at = (digit_length s at \<noteq> 0)"
definition is_lower :: "string \<Rightarrow> nat \<Rightarrow> bool" where
  "is_lower s at = (at < length s \<and> c_islower (s ! at))"
definition is_upper :: "string \<Rightarrow> nat \<Rightarrow> bool" where
  "is_upper s at = (at < length s \<and> c_isupper (s ! at))"
definition is_letter :: "string \<Rightarrow> nat \<Rightarrow> bool" where
  "is_letter s at = (is_lower s at \<or> is_upper s at)"
definition is_char :: "string \<Rightarrow> nat \<Rightarrow> char \<Rightarrow> bool" where
  "is_char s at c = (at < length s \<and> s ! at = c)"

subsection \<open>The numbered patterns\<close>

function digit_run :: "string \<Rightarrow> nat \<Rightarrow> nat" where
  "digit_run s at =
     (if digit_length s at \<noteq> 0 then digit_run s (at + digit_length s at) else at)"
  by pat_completeness auto
termination
  by (relation "measure (\<lambda>(s, at). length s - at)")
    (auto simp: digit_length_def Let_def intro: diff_less_mono2 split: if_splits)

declare digit_run.simps [simp del]

definition digits :: "string \<Rightarrow> nat \<Rightarrow> nat option" where
  "digits s at = (if \<not> is_digit s at then None else Some (digit_run s at))"

definition run_of :: "string \<Rightarrow> nat \<Rightarrow> string \<Rightarrow> nat option" where
  "run_of s at chars =
     (let n = length (takeWhile (\<lambda>c. c \<in> set chars) (drop at s))
      in if n = 0 then None else Some (at + n))"

definition then_char :: "string \<Rightarrow> nat option \<Rightarrow> char \<Rightarrow> nat option" where
  "then_char s at c =
     (case at of None \<Rightarrow> None | Some p \<Rightarrow> if is_char s p c then Some (p + 1) else None)"

lemma digit_run_ge: "at \<le> digit_run s at"
proof (induction s at rule: digit_run.induct)
  case (1 s at)
  then show ?case by (subst digit_run.simps) auto
qed

text \<open>The group loop of \<^verbatim>\<open>dotted_outline\<close>: the position reached and the groups read.\<close>

function outline_groups :: "string \<Rightarrow> nat \<Rightarrow> nat \<Rightarrow> nat \<times> nat" where
  "outline_groups s at groups =
     (if is_char s at (CHR ''.'') \<and> is_digit s (at + 1)
      then outline_groups s (digit_run s (at + 1)) (groups + 1)
      else (at, groups))"
  by pat_completeness auto
termination
proof (relation "measure (\<lambda>(s, at, g). length s - at)", goal_cases)
  case (2 s at groups)
  then show ?case
    using digit_run_ge [of "at + 1" s] by (auto simp: is_char_def intro!: diff_less_mono2)
qed simp

declare outline_groups.simps [simp del]

definition dotted_outline :: "string \<Rightarrow> nat option" where
  "dotted_outline s =
     (case digits s 0 of None \<Rightarrow> None
      | Some start \<Rightarrow>
          (let (at, groups) = outline_groups s start 0
           in if groups = 0 then None
              else Some (if is_char s at (CHR ''.'') then at + 1 else at)))"

definition number_letter :: "string \<Rightarrow> nat \<Rightarrow> char \<Rightarrow> nat option" where
  "number_letter s at0 close =
     (case digits s at0 of None \<Rightarrow> None
      | Some at1 \<Rightarrow>
          (let at = (if is_char s at1 (CHR ''.'') then at1 + 1 else at1)
           in if \<not> is_letter s at then None else then_char s (Some (at + 1)) close))"

definition kNumberedPatterns :: "(string \<Rightarrow> nat option) list" where
  "kNumberedPatterns = [
     dotted_outline,
     (\<lambda>t. number_letter t 0 (CHR ''.'')),
     (\<lambda>t. number_letter t 0 (CHR '')'')),
     (\<lambda>t. if is_char t 0 (CHR ''('') then number_letter t 1 (CHR '')'') else None),
     (\<lambda>t. then_char t (digits t 0) (CHR ''.'')),
     (\<lambda>t. then_char t (digits t 0) (CHR '')'')),
     (\<lambda>t. if is_char t 0 (CHR ''('') then then_char t (digits t 1) (CHR '')'') else None),
     (\<lambda>t. if is_char t 0 (CHR ''['') then then_char t (digits t 1) (CHR '']'') else None),
     (\<lambda>t. then_char t (run_of t 0 ''ivxlcdm'') (CHR ''.'')),
     (\<lambda>t. then_char t (run_of t 0 ''IVXLCDM'') (CHR ''.'')),
     (\<lambda>t. if is_lower t 0 then then_char t (Some 1) (CHR ''.'') else None),
     (\<lambda>t. if is_upper t 0 then then_char t (Some 1) (CHR ''.'') else None),
     (\<lambda>t. if is_lower t 0 then then_char t (Some 1) (CHR '')'') else None),
     (\<lambda>t. if is_upper t 0 then then_char t (Some 1) (CHR '')'') else None)]"

fun marker_end_of :: "(string \<Rightarrow> nat option) list \<Rightarrow> string \<Rightarrow> nat option" where
  "marker_end_of [] s = None"
| "marker_end_of (p # ps) s =
     (case p s of None \<Rightarrow> marker_end_of ps s
      | Some stop \<Rightarrow>
          if length s \<le> stop then marker_end_of ps s
          else (let sep = decode_at s stop
                in if is_py_space (fst sep) \<and> stop + snd sep < length s then Some stop
                   else marker_end_of ps s))"

definition numbered_marker_end :: "string \<Rightarrow> nat option" where
  "numbered_marker_end s = marker_end_of kNumberedPatterns s"

subsection \<open>Marker shapes and the split\<close>

definition is_choice_box :: "nat \<Rightarrow> bool" where
  "is_choice_box c = (0x2610 \<le> c \<and> c \<le> 0x2612)"

text \<open>The shape loop from \<open>at\<close>; \<open>shape\<close> is the output so far.\<close>

function shape_from :: "string \<Rightarrow> nat \<Rightarrow> string \<Rightarrow> string" where
  "shape_from token at shape =
     (if at < length token then
        (let digit = digit_length token at;
             read = (if digit \<noteq> 0 then CHR ''0''
                     else if is_lower token at then CHR ''a''
                     else if is_upper token at then CHR ''A''
                     else token ! at);
             step = (if digit \<noteq> 0 then digit else 1);
             run = (read = CHR ''0'' \<or> read = CHR ''a'' \<or> read = CHR ''A'')
         in shape_from token (at + step)
              (if \<not> run \<or> shape = [] \<or> last shape \<noteq> read then shape @ [read] else shape))
      else shape)"
  by pat_completeness auto
termination
  by (relation "measure (\<lambda>(t, at, sh). length t - at)") (auto intro: diff_less_mono2)

declare shape_from.simps [simp del]

definition marker_shape :: "string \<Rightarrow> string option" where
  "marker_shape token =
     (if token = [] then None
      else let first = decode_at token 0 in
        if snd first = length token \<and> is_bullet (fst first) then Some token
        else if snd first = length token \<and> is_choice_box (fst first)
          then Some (encode_code_point 0x2610)
        else if \<not> list_ex (\<lambda>p. p token = Some (length token)) kNumberedPatterns then None
        else Some (shape_from token 0 []))"

definition is_sibling_list_marker :: "string \<Rightarrow> string \<Rightarrow> bool" where
  "is_sibling_list_marker lead token =
     (marker_shape lead \<noteq> None \<and> marker_shape token = marker_shape lead)"

record list_marker_split =
  marker :: string
  text_part :: string
  enumerated :: bool
  prefix_code_points :: nat

definition bullet_end :: "string \<Rightarrow> nat option" where
  "bullet_end orig =
     (let first = decode_at orig 0 in
      if is_bullet (fst first) \<and> snd first < length orig then
        (let separator = decode_at orig (snd first)
         in if is_py_space (fst separator) \<and> snd first + snd separator < length orig
            then Some (snd first) else None)
      else None)"

definition split_list_marker :: "string \<Rightarrow> list_marker_split option" where
  "split_list_marker orig =
     (if orig = [] then None
      else let (marker_end, enum) =
                 (case bullet_end orig of Some e \<Rightarrow> (Some e, False)
                  | None \<Rightarrow> (numbered_marker_end orig, numbered_marker_end orig \<noteq> None))
           in case marker_end of None \<Rightarrow> None
              | Some e \<Rightarrow>
                  (let separator = decode_at orig e;
                       m = substr orig 0 e
                   in Some \<lparr>marker = m, text_part = drop (e + snd separator) orig,
                            enumerated = enum,
                            prefix_code_points = count_code_points m + 1\<rparr>))"

subsection \<open>One code point, written and read back\<close>

text \<open>The encoder in arithmetic: lead byte, then six bits per byte.\<close>

lemma encode_code_point_arith:
  assumes "cp \<le> 0x10FFFF"
  shows "map byte_val (encode_code_point cp) =
     (if cp < 0x80 then [cp]
      else if cp < 0x800 then [192 + cp div 64, 128 + cp mod 64]
      else if cp < 0x10000 then [224 + cp div 4096, 128 + cp div 64 mod 64, 128 + cp mod 64]
      else [240 + cp div 262144, 128 + cp div 4096 mod 64, 128 + cp div 64 mod 64, 128 + cp mod 64])"
proof -
  have b: "cp < 0x800 \<Longrightarrow> cp div 64 < 32" "cp < 0x10000 \<Longrightarrow> cp div 4096 < 16"
    "cp div 262144 < 8" "(n :: nat) mod 64 < 64" for n
    using assms by (auto simp: div_less_iff_less_mult)
  show ?thesis
    using b by (auto simp: encode_code_point_def byte_val_char_of bits_arith or_low)
qed

lemma continuation_step:
  "byte_val c = 128 + b \<Longrightarrow> b < 64 \<Longrightarrow>
   continuation acc (c # cs) = continuation (acc * 64 + b) cs"
proof -
  assume c: "byte_val c = 128 + b" and b: "b < 64"
  then have "byte_val c AND 0xC0 = 0x80" "byte_val c AND 0x3F = b"
    using horner [of b 64 2] by (simp_all add: bits_arith)
  then show ?thesis using push_bit_or [of b 6 acc] b by simp
qed

lemma decode_at_middle:
  assumes "enc = c # cs"
  shows "(pre @ enc @ post) ! length pre = c"
    "substr (pre @ enc @ post) (length pre + 1) (length cs) = cs"
    "length pre + (length cs + 1) \<le> length (pre @ enc @ post)"
  using assms by (simp_all add: substr_def nth_append)

lemma lead_class_values:
  "l < 32 \<Longrightarrow> lead_class (192 + l) = Some (2, l, 0x80)"
  "l < 16 \<Longrightarrow> lead_class (224 + l) = Some (3, l, 0x800)"
  "l < 8 \<Longrightarrow> lead_class (240 + l) = Some (4, l, 0x10000)"
  using horner [of l 32 6] horner [of l 16 14] horner [of l 8 30]
    horner [of l 32 7] horner [of l 16 15] horner [of "16 + l" 32 7]
  by (simp_all add: lead_class_def bits_arith)

lemma decode_at_multi:
  assumes "byte_val c = lead" "\<not> lead < 0x80" "lead_class lead = Some (Suc (length cs), bits, smallest)"
    and "continuation bits cs = Some v" "smallest \<le> v" "scalar_value v"
  shows "decode_at (pre @ (c # cs) @ post) (length pre) = (v, Suc (length cs))"
  using assms decode_at_middle [of "c # cs" c cs pre post]
  by (auto simp: decode_at_def scalar_value_def)

lemma decode_encode:
  assumes "scalar_value cp"
  shows "decode_at (pre @ encode_code_point cp @ post) (length pre)
           = (cp, length (encode_code_point cp))"
proof -
  let ?e = "encode_code_point cp"
  have le: "cp \<le> 0x10FFFF" using assms by (simp add: scalar_value_def)
  note bytes = encode_code_point_arith [OF le]
  consider (one) "cp < 0x80" | (two) "0x80 \<le> cp" "cp < 0x800"
    | (three) "0x800 \<le> cp" "cp < 0x10000" | (four) "0x10000 \<le> cp"
    by linarith
  then show ?thesis
  proof cases
    case one
    then show ?thesis
      by (simp add: encode_code_point_def decode_at_def nth_append byte_val_char_of)
  next
    case two
    then obtain a b where e: "?e = [a, b]" "byte_val a = 192 + cp div 64" "byte_val b = 128 + cp mod 64"
      using bytes by (auto simp: map_eq_Cons_conv)
    have l: "cp div 64 < 32" using two by (simp add: div_less_iff_less_mult)
    have "continuation (cp div 64) [b] = Some cp"
      by (simp add: continuation_step [OF e(3)] del: continuation.simps(2))
    then show ?thesis
      using decode_at_multi [OF e(2), of "[b]" "cp div 64" "0x80" cp pre post]
        lead_class_values(1) [OF l] two assms by (simp add: e)
  next
    case three
    then obtain a b c where e: "?e = [a, b, c]" "byte_val a = 224 + cp div 4096"
      "byte_val b = 128 + cp div 64 mod 64" "byte_val c = 128 + cp mod 64"
      using bytes by (auto simp: map_eq_Cons_conv)
    have l: "cp div 4096 < 16" using three by (simp add: div_less_iff_less_mult)
    have "cp div 4096 * 64 + cp div 64 mod 64 = cp div 64"
      using div_mult2_eq [of cp 64 64] by simp
    then have "continuation (cp div 4096) [b, c] = Some cp"
      by (simp add: continuation_step [OF e(3)] continuation_step [OF e(4)] del: continuation.simps(2))
    then show ?thesis
      using decode_at_multi [OF e(2), of "[b, c]" "cp div 4096" "0x800" cp pre post]
        lead_class_values(2) [OF l] three assms by (simp add: e)
  next
    case four
    then obtain a b c d where e: "?e = [a, b, c, d]" "byte_val a = 240 + cp div 262144"
      "byte_val b = 128 + cp div 4096 mod 64" "byte_val c = 128 + cp div 64 mod 64"
      "byte_val d = 128 + cp mod 64"
      using bytes by (auto simp: map_eq_Cons_conv)
    have l: "cp div 262144 < 8" using le by (simp add: div_less_iff_less_mult)
    have "cp div 262144 * 64 + cp div 4096 mod 64 = cp div 4096"
      "cp div 4096 * 64 + cp div 64 mod 64 = cp div 64"
      using div_mult2_eq [of cp 4096 64] div_mult2_eq [of cp 64 64] by simp_all
    then have "continuation (cp div 262144) [b, c, d] = Some cp"
      by (simp add: continuation_step [OF e(3)] continuation_step [OF e(4)]
          continuation_step [OF e(5)] del: continuation.simps(2))
    then show ?thesis
      using decode_at_multi [OF e(2), of "[b, c, d]" "cp div 262144" "0x10000" cp pre post]
        lead_class_values(3) [OF l] four assms by (simp add: e)
  qed
qed

lemma decode_at_bound:
  "at < length text \<Longrightarrow> at + snd (decode_at text at) \<le> length text"
  by (auto simp: decode_at_def kMalformed_def Let_def split: option.splits if_splits)

text \<open>
  C9. Reading a code point never reads past the text and always makes
  progress, whatever the bytes are; a malformed sequence costs exactly one
  byte. So every scan built on it ends, and a text of \<open>n\<close> bytes has at most
  \<open>n\<close> code points.
\<close>

theorem decode_at_progress:
  assumes "at < length text"
  shows "0 < snd (decode_at text at) \<and> at + snd (decode_at text at) \<le> length text
     \<and> snd (decode_at text at) \<le> 4
     \<and> (fst (decode_at text at) = 0xFFFD \<or> scalar_value (fst (decode_at text at)))
     \<and> count_code_points text \<le> length text"
proof (intro conjI)
  show "0 < snd (decode_at text at)" by (rule decode_at_length_pos)
  show "at + snd (decode_at text at) \<le> length text"
    using assms by (rule decode_at_bound)
  show "snd (decode_at text at) \<le> 4"
    by (auto simp: decode_at_def kMalformed_def lead_class_def Let_def split: option.splits if_splits)
  show "fst (decode_at text at) = 0xFFFD \<or> scalar_value (fst (decode_at text at))"
    by (auto simp: decode_at_def kMalformed_def scalar_value_def Let_def
        split: option.splits if_splits)
  have "count_from t i \<le> length t - i" for t i
  proof (induction t i rule: count_from.induct)
    case (1 t i)
    show ?case
    proof (cases "i < length t")
      case True
      then show ?thesis
        using 1 decode_at_length_pos [of t i]
        by (subst count_from.simps) auto
    next
      case False
      then show ?thesis by (subst count_from.simps) simp
    qed
  qed
  from this [of "text" 0] show "count_code_points text \<le> length text"
    by (simp add: count_code_points_def)
qed

theorem decode_at_progress_witness:
  "snd (decode_at [CHR 0xE2, CHR 0x80] 0) = 1 \<and> count_code_points [CHR 0xE2, CHR 0x80] \<le> 2"
proof -
  have h: "0 < length [CHR 0xE2, CHR 0x80]" by simp
  have "decode_at [CHR 0xE2, CHR 0x80] 0 = kMalformed"
    by (simp add: decode_at_def lead_class_def byte_val_def)
  then show ?thesis
    using decode_at_progress [OF h] by (simp add: kMalformed_def)
qed

text \<open>
  The UTF-8 the entity decoder writes is the UTF-8 the marker reader
  reads: any Unicode scalar value, appended anywhere in a text, is read back
  at its offset with its own length.
\<close>

theorem utf8_round_trip:
  assumes "scalar_value cp"
  shows "decode_at (append_code_point cp pre @ post) (length pre)
           = (cp, length (encode_code_point cp))"
  using decode_encode [OF assms, of pre post] by (simp add: append_code_point_def)

theorem utf8_round_trip_witness:
  "scalar_value 0x20AC \<and> decode_at (append_code_point 0x20AC ''a'' @ ''b'') 1 = (0x20AC, 3)"
proof -
  have h: "scalar_value 0x20AC" by (simp add: scalar_value_def)
  have "length (encode_code_point 0x20AC) = 3" by (simp add: encode_code_point_def)
  then show ?thesis using h utf8_round_trip [OF h, of "''a''" "''b''"] by simp
qed

subsection \<open>A split loses nothing\<close>

lemma digit_length_bound: "digit_length s at \<noteq> 0 \<Longrightarrow> at + digit_length s at \<le> length s"
  using decode_at_bound [of at s] by (auto simp: digit_length_def Let_def split: if_splits)

lemma digit_run_bound: "at \<le> length s \<Longrightarrow> digit_run s at \<le> length s"
proof (induction s at rule: digit_run.induct)
  case (1 s at)
  then show ?case
    using digit_length_bound [of s at] by (subst digit_run.simps) auto
qed

lemma digits_bound:
  assumes "digits s at = Some e"
  shows "at < e \<and> e \<le> length s"
proof -
  have d: "digit_length s at \<noteq> 0" "e = digit_run s at"
    using assms by (auto simp: digits_def is_digit_def split: if_splits)
  then have "e = digit_run s (at + digit_length s at)"
    by (metis digit_run.simps)
  then show ?thesis
    using d digit_length_bound [of s at] digit_run_bound [of "at + digit_length s at" s]
      digit_run_ge [of "at + digit_length s at" s] by auto
qed

lemma then_char_bound: "then_char s (Some p) c = Some e \<Longrightarrow> e = p + 1 \<and> e \<le> length s"
  by (auto simp: then_char_def is_char_def split: if_splits)

lemma then_char_some: "then_char s q c = Some e \<Longrightarrow> \<exists>p. q = Some p \<and> e = p + 1 \<and> e \<le> length s"
  by (auto simp: then_char_def is_char_def split: option.splits if_splits)

lemma outline_groups_bound:
  "at \<le> length s \<Longrightarrow> at \<le> fst (outline_groups s at g) \<and> fst (outline_groups s at g) \<le> length s"
proof (induction s at g rule: outline_groups.induct)
  case (1 s at g)
  show ?case
  proof (cases "is_char s at (CHR ''.'') \<and> is_digit s (at + 1)")
    case True
    then have "digit_run s (at + 1) \<le> length s" "at + 1 \<le> digit_run s (at + 1)"
      using digit_run_bound [of "at + 1" s] digit_run_ge [of "at + 1" s] by (auto simp: is_char_def)
    with 1 True show ?thesis
      by (subst (1 2) outline_groups.simps) auto
  next
    case False
    with 1 show ?thesis by (subst (1 2) outline_groups.simps) auto
  qed
qed

lemma pattern_bound:
  assumes "p \<in> set kNumberedPatterns" "p s = Some e"
  shows "0 < e \<and> e \<le> length s"
proof -
  have nl: "number_letter s a c = Some e \<Longrightarrow> 0 < e \<and> e \<le> length s" for a c
    by (auto simp: number_letter_def Let_def dest!: then_char_bound split: option.splits if_splits)
  have dot: "dotted_outline s = Some e \<Longrightarrow> 0 < e \<and> e \<le> length s"
  proof -
    assume d: "dotted_outline s = Some e"
    then obtain st where st: "digits s 0 = Some st"
      by (auto simp: dotted_outline_def split: option.splits)
    obtain a g where ag: "outline_groups s st 0 = (a, g)"
      by (cases "outline_groups s st 0")
    have "0 < a" "a \<le> length s"
      using digits_bound [OF st] outline_groups_bound [of st s 0] ag by auto
    with d st ag show ?thesis
      by (auto simp: dotted_outline_def is_char_def split: if_splits)
  qed
  show ?thesis
    using assms by (auto simp: kNumberedPatterns_def nl dot dest!: then_char_some split: if_splits)
qed

lemma marker_end_of_sound:
  "marker_end_of ps s = Some e \<Longrightarrow> set ps \<subseteq> set kNumberedPatterns \<Longrightarrow>
     0 < e \<and> e < length s \<and> is_py_space (fst (decode_at s e))
     \<and> e + snd (decode_at s e) < length s"
  by (induction ps) (auto simp: Let_def dest: pattern_bound split: option.splits if_splits)

lemma bullet_end_sound:
  "bullet_end s = Some e \<Longrightarrow>
     0 < e \<and> e < length s \<and> is_py_space (fst (decode_at s e))
     \<and> e + snd (decode_at s e) < length s"
  using decode_at_length_pos [of s 0]
  by (auto simp: bullet_end_def Let_def split: if_splits)

text \<open>
  C4. Splitting a list item's text is lossless: the marker, one whitespace
  code point and the content are exactly the original bytes, and neither the
  marker nor the content is ever empty.
\<close>

theorem split_list_marker_lossless:
  assumes "split_list_marker orig = Some sp"
  shows "\<exists>sep. orig = marker sp @ sep @ text_part sp
     \<and> marker sp \<noteq> [] \<and> text_part sp \<noteq> []
     \<and> decode_at orig (length (marker sp)) = (fst (decode_at orig (length (marker sp))), length sep)
     \<and> is_py_space (fst (decode_at orig (length (marker sp))))
     \<and> prefix_code_points sp = count_code_points (marker sp) + 1"
proof -
  obtain e where e: "bullet_end orig = Some e \<or> numbered_marker_end orig = Some e"
    and sp: "marker sp = take e orig" "text_part sp = drop (e + snd (decode_at orig e)) orig"
      "prefix_code_points sp = count_code_points (take e orig) + 1"
    using assms by (cases "bullet_end orig")
      (auto simp: split_list_marker_def substr_def Let_def intro: that split: if_splits option.splits)
  have ok: "0 < e" "e < length orig" "is_py_space (fst (decode_at orig e))"
    "e + snd (decode_at orig e) < length orig"
    using e bullet_end_sound [of orig e] marker_end_of_sound [of kNumberedPatterns orig e]
    by (auto simp: numbered_marker_end_def)
  let ?n = "snd (decode_at orig e)"
  let ?sep = "take ?n (drop e orig)"
  have "orig = take e orig @ take ?n (drop e orig) @ drop (e + ?n) orig"
    by (metis append_take_drop_id drop_drop add.commute)
  moreover have "length (take e orig) = e" "length ?sep = ?n"
    using ok decode_at_bound [of e orig] by auto
  ultimately show ?thesis
    using ok sp by (intro exI [of _ ?sep]) (auto simp: prod_eq_iff)
qed

theorem split_list_marker_lossless_witness:
  "split_list_marker ''- a'' = Some \<lparr>marker = ''-'', text_part = ''a'', enumerated = False,
      prefix_code_points = 2\<rparr> \<and> (\<exists>sep. ''- a'' = ''-'' @ sep @ ''a'')"
proof -
  have h: "split_list_marker ''- a'' = Some \<lparr>marker = ''-'', text_part = ''a'', enumerated = False,
      prefix_code_points = 2\<rparr>"
    by (simp add: split_list_marker_def bullet_end_def decode_at_def byte_val_def is_bullet_def
        kBullets_def is_py_space_def substr_def count_code_points_def count_from.simps)
  show ?thesis using h split_list_marker_lossless [OF h] by auto
qed

text \<open>
  "Sibling" markers form classes: the relation is symmetric and
  transitive, and holds of a token with itself exactly when the token is a
  marker at all.
\<close>

theorem sibling_marker_classes:
  "is_sibling_list_marker a b = is_sibling_list_marker b a
   \<and> (is_sibling_list_marker a b \<and> is_sibling_list_marker b c \<longrightarrow> is_sibling_list_marker a c)
   \<and> (is_sibling_list_marker a a \<longleftrightarrow> marker_shape a \<noteq> None)"
  by (auto simp: is_sibling_list_marker_def)


theorem sibling_marker_classes_witness:
  "is_sibling_list_marker ''-'' ''-'' \<and> \<not> is_sibling_list_marker ''-'' []"
proof -
  have m: "marker_shape ''-'' \<noteq> None"
    by (simp add: marker_shape_def decode_at_def byte_val_def is_bullet_def kBullets_def)
  show ?thesis
    using m sibling_marker_classes [of "''-''" "''-''" "''-''"]
    by (auto simp: is_sibling_list_marker_def marker_shape_def [of "[]"])
qed

end
