(* ===== verification/TextProbe.thy ===== *)
theory TextProbe
  imports ListMarker
begin

text \<open>
  The text half of the content sniffer (\<^verbatim>\<open>src/src/content_sniff.cpp\<close>): the
  probes that decide whether a body is text at all, and which text format its
  leading bytes carry. Every probe is a total function of the bytes; a
  \<^verbatim>\<open>string_view\<close> that the code advances is the remaining suffix here.
\<close>

subsection \<open>Prefixes without case, leading space\<close>

definition kTextProbeBytes :: nat where "kTextProbeBytes = 8192"

definition starts_with_nocase :: "string \<Rightarrow> string \<Rightarrow> bool" where
  "starts_with_nocase bytes prefix =
     (if length bytes < length prefix then False
      else list_all (\<lambda>i. c_tolower (bytes ! i) = c_tolower (prefix ! i)) [0..<length prefix])"

definition contains_nocase :: "string \<Rightarrow> string \<Rightarrow> bool" where
  "contains_nocase haystack needle =
     (if needle = [] \<or> length haystack < length needle then False
      else list_ex (\<lambda>i. starts_with_nocase (drop i haystack) needle)
             [0..<length haystack - length needle + 1])"

definition utf8_bom :: string where
  "utf8_bom = [CHR 0xEF, CHR 0xBB, CHR 0xBF]"

definition strip_bom_and_space :: "string \<Rightarrow> string" where
  "strip_bom_and_space bytes =
     dropWhile c_isspace (if starts_with bytes utf8_bom then drop 3 bytes else bytes)"

subsection \<open>Is it text\<close>

definition tab_char :: char where "tab_char = char_of (9 :: nat)"
definition newline :: char where "newline = char_of (10 :: nat)"
definition carriage :: char where "carriage = char_of (13 :: nat)"

definition control_byte :: "nat \<Rightarrow> bool" where
  "control_byte b = (b < 0x20 \<and> b \<noteq> 9 \<and> b \<noteq> 10 \<and> b \<noteq> 13 \<and> b \<noteq> 12 \<and> b \<noteq> 11)"

text \<open>\<open>text_from probe_length probe\<close> is the loop on the suffix that \<^verbatim>\<open>i\<close> has reached.\<close>

function text_from :: "nat \<Rightarrow> string \<Rightarrow> bool" where
  "text_from probe_length [] = True"
| "text_from probe_length (c # cs) =
     (let byte = byte_val c in
      if control_byte byte then False
      else if 0x80 \<le> byte \<and> byte < 0xC0 then False
      else
        let extra = (if byte \<ge> 0xF0 then 3 else if byte \<ge> 0xE0 then 2
                     else if byte \<ge> 0xC0 then 1 else 0)
        in if extra > length cs then probe_length = kTextProbeBytes
           else if list_all (\<lambda>d. byte_val d AND 0xC0 = 0x80) (take extra cs)
                then text_from probe_length (drop extra cs)
                else False)"
  by pat_completeness auto
termination by (relation "measure (\<lambda>(probe_length, s). length s)") auto

definition looks_like_text :: "string \<Rightarrow> bool" where
  "looks_like_text probe = text_from (length probe) probe"

definition single_byte_control :: "char \<Rightarrow> bool" where
  "single_byte_control c =
     (let b = byte_val c
      in b < 0x20 \<and> b \<noteq> 9 \<and> b \<noteq> 10 \<and> b \<noteq> 13 \<and> b \<noteq> 12 \<or> b = 0x7F)"

definition looks_like_single_byte_text :: "string \<Rightarrow> bool" where
  "looks_like_single_byte_text probe =
     (if list_ex single_byte_control probe then False
      else length (filter (\<lambda>c. byte_val c \<ge> 0x80) probe) * 4 \<le> length probe)"

subsection \<open>Lines, headers, mail\<close>

definition drop_carriage :: "string \<Rightarrow> string" where
  "drop_carriage line = (if line \<noteq> [] \<and> last line = carriage then butlast line else line)"

fun lines_of :: "string \<Rightarrow> nat \<Rightarrow> string list" where
  "lines_of s 0 = []"
| "lines_of s (Suc limit) =
     (if s = [] then []
      else
        let end_at = (case sfind [newline] s of None \<Rightarrow> length s | Some e \<Rightarrow> e)
        in drop_carriage (take end_at s) # lines_of (drop (end_at + 1) s) limit)"

definition header_line :: "string \<Rightarrow> bool" where
  "header_line line =
     (case sfind '':'' line of
        None \<Rightarrow> False
      | Some colon \<Rightarrow>
          if colon = 0 then False
          else if colon + 1 < length line \<and> line ! (colon + 1) \<noteq> CHR '' ''
                  \<and> line ! (colon + 1) \<noteq> tab_char then False
          else if list_ex (\<lambda>c. \<not> c_isalnum c \<and> c \<noteq> CHR ''-'') (take colon line) then False
          else c_isalpha (hd line))"

definition kMailHeaders :: "string list" where
  "kMailHeaders = [''from:'', ''to:'', ''subject:'', ''received:'', ''message-id:'',
     ''mime-version:'', ''return-path:'', ''delivered-to:'']"

text \<open>The header loop; \<open>None\<close> where the code returns false, else the two counters.\<close>

fun mail_scan :: "string list \<Rightarrow> nat \<Rightarrow> nat \<Rightarrow> (nat \<times> nat) option" where
  "mail_scan [] headers mail = Some (headers, mail)"
| "mail_scan (line # lines) headers mail =
     (if line = [] then Some (headers, mail)
      else if hd line = CHR '' '' \<or> hd line = tab_char then mail_scan lines headers mail
      else if \<not> header_line line then None
      else if starts_with_nocase line ''sent:'' then None
      else mail_scan lines (headers + 1)
             (mail + length (filter (starts_with_nocase line) kMailHeaders)))"

definition looks_like_mail :: "string \<Rightarrow> bool" where
  "looks_like_mail probe =
     (case mail_scan (lines_of probe 40) 0 0 of
        None \<Rightarrow> False
      | Some (headers, mail) \<Rightarrow> headers \<ge> 2 \<and> mail \<ge> 2)"

fun mhtml_scan :: "string list \<Rightarrow> bool" where
  "mhtml_scan [] = False"
| "mhtml_scan (line # lines) =
     (if line = [] then False
      else if \<not> starts_with_nocase line ''content-type:'' then mhtml_scan lines
      else contains (map c_tolower (drop (length ''content-type:'') line)) ''multipart/related'')"

definition looks_like_mhtml :: "string \<Rightarrow> bool" where
  "looks_like_mhtml probe = (if \<not> looks_like_mail probe then False else mhtml_scan (lines_of probe 40))"

subsection \<open>Markdown and markup\<close>

definition markdown_heading :: "string \<Rightarrow> bool" where
  "markdown_heading line =
     (let hashes = length (takeWhile (\<lambda>c. c = CHR ''#'') line)
      in hashes \<ge> 1 \<and> hashes \<le> 6 \<and> hashes < length line \<and> line ! hashes = CHR '' '')"

definition markdown_list_line :: "string \<Rightarrow> bool" where
  "markdown_list_line given =
     (let line = dropWhile (\<lambda>c. c = CHR '' '') given in
      if length line \<ge> 2 \<and> (line ! 0 = CHR ''-'' \<or> line ! 0 = CHR ''*'' \<or> line ! 0 = CHR ''+'')
         \<and> line ! 1 = CHR '' '' then True
      else
        let digits = length (takeWhile c_isdigit line)
        in digits \<ge> 1 \<and> digits + 1 < length line \<and> line ! digits = CHR ''.''
           \<and> line ! (digits + 1) = CHR '' '')"

fun rule_scan :: "string \<Rightarrow> bool \<Rightarrow> bool" where
  "rule_scan [] dash = dash"
| "rule_scan (c # cs) dash =
     (if c = CHR ''-'' then rule_scan cs True
      else if c \<noteq> CHR ''|'' \<and> c \<noteq> CHR '':'' \<and> c \<noteq> CHR '' '' then False
      else rule_scan cs dash)"

definition markdown_table_rule :: "string \<Rightarrow> bool" where
  "markdown_table_rule line =
     (if length line < 3 \<or> hd line \<noteq> CHR ''|'' then False else rule_scan line False)"

text \<open>\<^verbatim>\<open>rfind('[', close)\<close> finds one exactly when one stands at or before \<open>close\<close>.\<close>

definition markdown_link :: "string \<Rightarrow> bool" where
  "markdown_link line =
     (case sfind '']('' line of
        None \<Rightarrow> False
      | Some close \<Rightarrow>
          CHR ''['' \<in> set (take (close + 1) line) \<and> sfind_from '')'' line close \<noteq> None)"

fun markdown_scan :: "string list \<Rightarrow> nat \<Rightarrow> bool" where
  "markdown_scan [] list_lines = (list_lines \<ge> 2)"
| "markdown_scan (line # lines) list_lines =
     (if markdown_heading line \<or> starts_with line ''```'' \<or> markdown_table_rule line
         \<or> markdown_link line then True
      else markdown_scan lines (if markdown_list_line line then list_lines + 1 else list_lines))"

definition looks_like_markdown :: "string \<Rightarrow> bool" where
  "looks_like_markdown probe =
     (let lines = lines_of probe 400
      in if lines \<noteq> [] \<and> hd lines = ''---'' then True else markdown_scan lines 0)"

definition sniff_markup :: "string \<Rightarrow> string" where
  "sniff_markup s =
     (if starts_with_nocase s ''<!doctype html'' \<or> starts_with_nocase s ''<html''
      then ''text/html''
      else if starts_with s ''<?xml'' then
        (let rest = drop 5 s in
         if contains_nocase rest ''<html'' then ''application/xhtml+xml''
         else if contains_nocase rest ''<svg'' then ''image/svg+xml''
         else ''application/xml'')
      else if starts_with_nocase s ''<svg'' then ''image/svg+xml''
      else if hd s = CHR ''<'' \<and> (contains_nocase s ''<html'' \<or> contains_nocase s ''<body''
              \<or> contains_nocase s ''<head'')
      then ''text/html''
      else [])"

subsection \<open>Delimited records\<close>

text \<open>The scan of \<^verbatim>\<open>delimited_records\<close> over the suffix, with its three flags.\<close>

function delimited :: "char \<Rightarrow> bool \<Rightarrow> string \<Rightarrow> nat \<Rightarrow> bool \<Rightarrow> bool \<Rightarrow> nat list" where
  "delimited delimiter truncated [] nfields quoted unseen =
     (if \<not> unseen \<and> \<not> quoted \<and> \<not> truncated then [nfields] else [])"
| "delimited delimiter truncated (c # cs) nfields quoted unseen =
     (if c = CHR 0x22 then
        (if quoted \<and> cs \<noteq> [] \<and> hd cs = CHR 0x22
         then delimited delimiter truncated (tl cs) nfields quoted False
         else delimited delimiter truncated cs nfields (\<not> quoted) False)
      else if quoted then delimited delimiter truncated cs nfields quoted unseen
      else if c = delimiter then delimited delimiter truncated cs (nfields + 1) quoted False
      else if c = newline then
        (if \<not> unseen then [nfields] else []) @ delimited delimiter truncated cs 1 quoted True
      else if c \<noteq> carriage then delimited delimiter truncated cs nfields quoted False
      else delimited delimiter truncated cs nfields quoted unseen)"
  by pat_completeness auto
termination by (relation "measure (\<lambda>(d, t, s, f, q, b). length s)") auto

definition delimited_records :: "string \<Rightarrow> char \<Rightarrow> bool \<Rightarrow> nat list" where
  "delimited_records s delimiter truncated = delimited delimiter truncated s 1 False True"

definition csv_with :: "string \<Rightarrow> bool \<Rightarrow> char \<Rightarrow> bool" where
  "csv_with probe truncated delimiter =
     (let records = delimited_records probe delimiter truncated in
      if length records < 2 then False
      else
        let nfields = hd records;
            enough = (if length records \<ge> 3 then nfields \<ge> 2 else nfields \<ge> 4)
        in enough \<and> list_all (\<lambda>n. n = nfields) records)"

definition looks_like_csv :: "string \<Rightarrow> bool \<Rightarrow> bool" where
  "looks_like_csv probe truncated = list_ex (csv_with probe truncated) [CHR '','', CHR '';'']"

subsection \<open>The text ladder\<close>

definition json_space :: "char \<Rightarrow> bool" where
  "json_space c = (c = CHR '' '' \<or> c = tab_char \<or> c = carriage \<or> c = newline)"

text \<open>The first significant byte and, found from the back, the last one.\<close>

definition json_shape :: "string \<Rightarrow> bool" where
  "json_shape bytes =
     (let whole = strip_bom_and_space bytes;
          kept = rev (dropWhile json_space (rev whole))
      in kept \<noteq> [] \<and>
         (hd whole = CHR ''{'' \<and> last kept = CHR ''}''
          \<or> hd whole = CHR ''['' \<and> last kept = CHR '']''))"

definition sniff_text :: "string \<Rightarrow> string" where
  "sniff_text bytes =
     (let probe = take kTextProbeBytes bytes in
      if \<not> looks_like_text probe \<and> \<not> looks_like_single_byte_text probe then []
      else
        let s = strip_bom_and_space probe in
        if s = [] then []
        else if sniff_markup s \<noteq> [] then sniff_markup s
        else if looks_like_mhtml s then ''multipart/related''
        else if looks_like_mail s then ''message/rfc822''
        else if (hd s = CHR ''{'' \<or> hd s = CHR ''['') \<and> json_shape bytes then ''application/json''
        else if looks_like_markdown s then ''text/markdown''
        else if looks_like_csv s (length bytes > kTextProbeBytes) then ''text/csv''
        else ''text/plain'')"

subsection \<open>UTF-8 text is recognised, wherever the probe window cuts it\<close>

text \<open>Code points a text body may hold: scalar values but for the control codes.\<close>

definition text_code_point :: "nat \<Rightarrow> bool" where
  "text_code_point cp = (scalar_value cp \<and> \<not> control_byte cp)"

definition utf8 :: "nat list \<Rightarrow> string" where
  "utf8 cps = concat (map encode_code_point cps)"

lemma utf8_simps [simp]: "utf8 [] = []" "utf8 (cp # cps) = encode_code_point cp @ utf8 cps"
  by (simp_all add: utf8_def)

definition extra_bytes :: "nat \<Rightarrow> nat" where
  "extra_bytes b = (if b \<ge> 0xF0 then 3 else if b \<ge> 0xE0 then 2 else if b \<ge> 0xC0 then 1 else 0)"

definition continues :: "char \<Rightarrow> bool" where
  "continues d = (byte_val d AND 0xC0 = 0x80)"

lemma continues_arith: "b < 64 \<Longrightarrow> byte_val d = 128 + b \<Longrightarrow> continues d"
  using horner [of b 64 2] by (simp add: continues_def bits_arith)

lemma text_from_Cons:
  "text_from n (c # cs) =
     (\<not> control_byte (byte_val c) \<and> \<not> (0x80 \<le> byte_val c \<and> byte_val c < 0xC0)
      \<and> (let k = extra_bytes (byte_val c)
         in if k > length cs then n = kTextProbeBytes
            else list_all continues (take k cs) \<and> text_from n (drop k cs)))"
  by (simp add: extra_bytes_def Let_def continues_def [abs_def])

declare text_from.simps(2) [simp del]

lemma encoded_shape:
  assumes "text_code_point cp"
  obtains c cs where "encode_code_point cp = c # cs" "length cs = extra_bytes (byte_val c)"
    "list_all continues cs" "\<not> control_byte (byte_val c)" "\<not> (0x80 \<le> byte_val c \<and> byte_val c < 0xC0)"
proof -
  have cp: "cp \<le> 0x10FFFF" using assms by (simp add: text_code_point_def scalar_value_def)
  note bytes = encode_code_point_arith [OF cp]
  have low: "(n :: nat) mod 64 < 64" for n by simp
  have lead: "cp < 0x800 \<Longrightarrow> cp div 64 < 32" "cp < 0x10000 \<Longrightarrow> cp div 4096 < 16" "cp div 262144 < 8"
    using cp by (auto simp: div_less_iff_less_mult)
  consider "cp < 0x80" | "0x80 \<le> cp" "cp < 0x800" | "0x800 \<le> cp" "cp < 0x10000" | "0x10000 \<le> cp"
    by linarith
  then show thesis
  proof cases
    case 1
    with bytes obtain c where "encode_code_point cp = [c]" "byte_val c = cp" by auto
    with 1 assms that [of c "[]"] show thesis
      by (auto simp: extra_bytes_def text_code_point_def)
  next
    case 2
    with bytes obtain c d where "encode_code_point cp = [c, d]" "byte_val c = 192 + cp div 64"
      "byte_val d = 128 + cp mod 64" by (auto simp: map_eq_Cons_conv)
    with 2 lead continues_arith [OF low] that [of c "[d]"] show thesis
      by (auto simp: extra_bytes_def control_byte_def)
  next
    case 3
    with bytes obtain c d e where "encode_code_point cp = [c, d, e]" "byte_val c = 224 + cp div 4096"
      "byte_val d = 128 + cp div 64 mod 64" "byte_val e = 128 + cp mod 64"
      by (auto simp: map_eq_Cons_conv)
    with 3 lead continues_arith [OF low] that [of c "[d, e]"] show thesis
      by (auto simp: extra_bytes_def control_byte_def)
  next
    case 4
    with bytes obtain c d e g where "encode_code_point cp = [c, d, e, g]" "byte_val c = 240 + cp div 262144"
      "byte_val d = 128 + cp div 4096 mod 64" "byte_val e = 128 + cp div 64 mod 64"
      "byte_val g = 128 + cp mod 64" by (auto simp: map_eq_Cons_conv)
    with 4 lead continues_arith [OF low] that [of c "[d, e, g]"] show thesis
      by (auto simp: extra_bytes_def control_byte_def)
  qed
qed

lemma text_from_encoded:
  assumes "text_code_point cp"
  shows "text_from n (encode_code_point cp @ rest) = text_from n rest"
  by (rule encoded_shape [OF assms]) (simp add: text_from_Cons)

lemma text_from_cut:
  assumes "text_code_point cp" "k < length (encode_code_point cp)" "n = kTextProbeBytes"
  shows "text_from n (take k (encode_code_point cp))"
proof (rule encoded_shape [OF assms(1)])
  fix c cs
  assume "encode_code_point cp = c # cs" "length cs = extra_bytes (byte_val c)"
    "list_all continues cs" "\<not> control_byte (byte_val c)" "\<not> (0x80 \<le> byte_val c \<and> byte_val c < 0xC0)"
  with assms show ?thesis by (cases k) (auto simp: text_from_Cons Let_def)
qed

lemma text_from_take:
  "list_all text_code_point cps \<Longrightarrow> k \<ge> length (utf8 cps) \<or> n = kTextProbeBytes \<Longrightarrow>
     text_from n (take k (utf8 cps))"
proof (induction cps arbitrary: k)
  case (Cons cp cps)
  show ?case
  proof (cases "k < length (encode_code_point cp)")
    case True
    then have "take k (utf8 (cp # cps)) = take k (encode_code_point cp)" by simp
    moreover have "n = kTextProbeBytes" using True Cons.prems(2) by simp
    moreover have "text_code_point cp" using Cons.prems(1) by simp
    ultimately show ?thesis by (simp only: text_from_cut [OF _ True])
  next
    case False
    have cp: "text_code_point cp" and rest: "list_all text_code_point cps" using Cons.prems by simp_all
    have "k - length (encode_code_point cp) \<ge> length (utf8 cps) \<or> n = kTextProbeBytes"
      using Cons.prems(2) by auto
    note IH = Cons.IH [OF rest this]
    have "take k (utf8 (cp # cps)) = encode_code_point cp @ take (k - length (encode_code_point cp)) (utf8 cps)"
      using False by simp
    then show ?thesis by (simp only: text_from_encoded [OF cp] IH)
  qed
qed simp

text \<open>
  The text test accepts every UTF-8 body without control codes, and it
  still accepts it after the probe window has cut the body at 8192 bytes, even
  in the middle of a multi-byte character.
\<close>

theorem utf8_is_text:
  assumes "list_all text_code_point cps"
  shows "looks_like_text (utf8 cps) \<and> looks_like_text (take kTextProbeBytes (utf8 cps))"
proof
  show "looks_like_text (utf8 cps)"
    using text_from_take [OF assms, of "length (utf8 cps)"] by (simp add: looks_like_text_def)
  show "looks_like_text (take kTextProbeBytes (utf8 cps))"
    unfolding looks_like_text_def
    by (rule text_from_take [OF assms]) (auto simp: min_def)
qed

theorem utf8_is_text_witness:
  "looks_like_text (utf8 [0x41, 0xE9, 0x20AC, 0x1F600])"
  using utf8_is_text [of "[0x41, 0xE9, 0x20AC, 0x1F600]"]
  by (simp add: text_code_point_def scalar_value_def control_byte_def)

subsection \<open>Quoted records are counted whatever their fields hold\<close>

definition quote_field :: "string \<Rightarrow> string" where
  "quote_field field =
     CHR 0x22 # concat (map (\<lambda>c. if c = CHR 0x22 then [c, c] else [c]) field) @ [CHR 0x22]"

fun csv_row :: "char \<Rightarrow> string list \<Rightarrow> string" where
  "csv_row delimiter [] = [newline]"
| "csv_row delimiter [f] = quote_field f @ [newline]"
| "csv_row delimiter (f # g # fs) = quote_field f @ delimiter # csv_row delimiter (g # fs)"

declare delimited.simps(2) [simp del]

lemma delimited_in_quotes:
  assumes "rest \<noteq> [] \<longrightarrow> hd rest \<noteq> CHR 0x22"
  shows "delimited d t (concat (map (\<lambda>c. if c = CHR 0x22 then [c, c] else [c]) field) @ CHR 0x22 # rest) n True b
     = delimited d t rest n False False"
  using assms
  by (induction field arbitrary: b) (auto simp: delimited.simps(2) [of d t])

lemma delimited_field:
  assumes "rest \<noteq> [] \<longrightarrow> hd rest \<noteq> CHR 0x22"
  shows "delimited d t (quote_field field @ rest) n False b = delimited d t rest n False False"
  using delimited_in_quotes [OF assms]
  by (simp add: quote_field_def delimited.simps(2) [of d t "CHR 0x22"])

lemma newline_neq: "newline \<noteq> CHR 0x22" "newline \<noteq> CHR '',''" "newline \<noteq> CHR '';''"
  by (simp_all add: newline_def) code_simp+

lemma delimited_row:
  assumes "d \<noteq> CHR 0x22" "d \<noteq> newline" "fs \<noteq> []"
  shows "delimited d t (csv_row d fs @ rest) n False b
     = (n + length fs - 1) # delimited d t rest 1 False True"
  using assms
proof (induction d fs arbitrary: n b rule: csv_row.induct)
  case (2 d f)
  then show ?case
    using newline_neq by (simp add: delimited_field delimited.simps(2) [of d t newline])
next
  case (3 d f g fs)
  then show ?case by (simp add: delimited_field delimited.simps(2) [of d t d])
qed simp

text \<open>
  On any table written with quoted fields the record scan reports exactly
  the number of fields of each row, whatever delimiters, quotes and line
  breaks the fields hold; so a rectangular table of at least three rows and
  two columns is recognised as CSV.
\<close>

theorem quoted_csv_is_counted:
  assumes "\<forall>row\<in>set rows. row \<noteq> []" "delimiter \<noteq> CHR 0x22" "delimiter \<noteq> newline"
  shows "delimited_records (concat (map (csv_row delimiter) rows)) delimiter truncated = map length rows
     \<and> (length rows \<ge> 3 \<and> (\<exists>n\<ge>2. \<forall>row\<in>set rows. length row = n) \<and> delimiter \<in> {CHR '','', CHR '';''}
        \<longrightarrow> looks_like_csv (concat (map (csv_row delimiter) rows)) truncated)"
proof
  show counts: "delimited_records (concat (map (csv_row delimiter) rows)) delimiter truncated = map length rows"
    unfolding delimited_records_def using assms
    by (induction rows) (simp_all add: delimited_row)
  show "length rows \<ge> 3 \<and> (\<exists>n\<ge>2. \<forall>row\<in>set rows. length row = n) \<and> delimiter \<in> {CHR '','', CHR '';''}
        \<longrightarrow> looks_like_csv (concat (map (csv_row delimiter) rows)) truncated"
  proof
    assume h: "length rows \<ge> 3 \<and> (\<exists>n\<ge>2. \<forall>row\<in>set rows. length row = n) \<and> delimiter \<in> {CHR '','', CHR '';''}"
    then obtain n where n: "n \<ge> 2" "\<forall>row\<in>set rows. length row = n" by blast
    moreover have "hd (map length rows) = n"
      using h n by (cases rows) auto
    ultimately have "csv_with (concat (map (csv_row delimiter) rows)) truncated delimiter"
      using h by (simp add: csv_with_def counts Let_def list_all_iff)
    with h show "looks_like_csv (concat (map (csv_row delimiter) rows)) truncated"
      by (auto simp: looks_like_csv_def)
  qed
qed

theorem quoted_csv_is_counted_witness:
  "delimited_records (concat (map (csv_row (CHR '','')) [[''a,b'', ''c''], [''d''], [''e'', ''f'', ''g'']]))
     (CHR '','') False = [2, 1, 3]"
  using quoted_csv_is_counted [of "[[''a,b'', ''c''], [''d''], [''e'', ''f'', ''g'']]" "CHR '',''" False]
    newline_neq by simp

subsection \<open>The verdicts of the text ladder\<close>

text \<open>
  The text ladder answers exactly for the bodies that are text and not
  blank within the probe window, and then always with one of its eleven types:
  a text body never leaves the ladder without a type, and a body that is not
  text never gets one.
\<close>

theorem sniff_text_total:
  "(sniff_text bytes = [] \<longleftrightarrow>
     \<not> looks_like_text (take kTextProbeBytes bytes) \<and> \<not> looks_like_single_byte_text (take kTextProbeBytes bytes)
     \<or> strip_bom_and_space (take kTextProbeBytes bytes) = [])
   \<and> sniff_text bytes \<in> {[], ''text/html'', ''application/xhtml+xml'', ''image/svg+xml'', ''application/xml'',
     ''multipart/related'', ''message/rfc822'', ''application/json'', ''text/markdown'', ''text/csv'', ''text/plain''}"
  by (simp_all add: sniff_text_def Let_def sniff_markup_def)

end
