(* ===== verification/ZipArchive.thy ===== *)
theory ZipArchive
  imports Prelude
begin

text \<open>
  The reproducible zip writer (\<^verbatim>\<open>src/src/targets/zip_writer.cpp\<close>) and the
  central-directory reader of the content sniffer
  (\<^verbatim>\<open>src/src/content_sniff.cpp\<close>, \<^verbatim>\<open>zip_central_names\<close>). The compressor
  (\<^verbatim>\<open>tdefl_compress_mem_to_heap\<close>) and \<^verbatim>\<open>mz_crc32\<close> are miniz and stay parameters:
  \<open>tdefl\<close> returns \<open>None\<close> for the null pointer. A 16- or 32-bit field is its
  natural value; every cast to a width is written out as a remainder.
\<close>

subsection \<open>Little-endian fields\<close>

definition put16 :: "nat \<Rightarrow> string" where
  "put16 v = [char_of (v AND 255), char_of (drop_bit 8 v AND 255)]"

definition put32 :: "nat \<Rightarrow> string" where
  "put32 v = [char_of (v AND 255), char_of (drop_bit 8 v AND 255),
              char_of (drop_bit 16 v AND 255), char_of (drop_bit 24 v AND 255)]"

definition le16 :: "string \<Rightarrow> nat \<Rightarrow> nat" where
  "le16 bytes at = byte_val (bytes ! at) OR push_bit 8 (byte_val (bytes ! (at + 1)))"

definition le32 :: "string \<Rightarrow> nat \<Rightarrow> nat" where
  "le32 bytes at = le16 bytes at OR push_bit 16 (le16 bytes (at + 2))"

lemma length_put [simp, length_simps]: "length (put16 v) = 2" "length (put32 v) = 4"
  by (simp_all add: put16_def put32_def)

lemma le16_arith: "le16 bytes at = byte_val (bytes ! (at + 1)) * 256 + byte_val (bytes ! at)"
  using push_bit_or [of "byte_val (bytes ! at)" 8 "byte_val (bytes ! (at + 1))"]
  by (simp add: le16_def or.commute)

lemma le16_less: "le16 bytes at < 65536"
  using byte_val_less [of "bytes ! at"] byte_val_less [of "bytes ! (at + 1)"]
  unfolding le16_arith by linarith

lemma le32_arith: "le32 bytes at = le16 bytes (at + 2) * 65536 + le16 bytes at"
  using push_bit_or [of "le16 bytes at" 16 "le16 bytes (at + 2)"] le16_less [of bytes at]
  by (simp add: le32_def or.commute)

lemma le32_less: "le32 bytes at < 4294967296"
  using le16_less [of bytes at] le16_less [of bytes "at + 2"]
  unfolding le32_arith by linarith

lemma two_bytes: "(v div 256 mod 256) * 256 + v mod 256 = (v :: nat) mod 65536"
  using mod_mult2_eq [of v 256 256] by simp

lemma two_halves: "(v div 65536 mod 65536) * 65536 + v mod 65536 = (v :: nat) mod 4294967296"
  using mod_mult2_eq [of v 65536 65536] by simp

lemma le16_put16: "le16 (a @ put16 v @ b) (length a) = v mod 65536"
  using two_bytes [of v]
  by (simp add: le16_arith put16_def nth_append byte_val_char_of bits_arith)

lemma put32_halves: "put32 v = put16 v @ put16 (v div 65536)"
  by (simp add: put32_def put16_def bits_arith div_mult2_eq [symmetric])

lemma le32_put32: "le32 (a @ put32 v @ b) (length a) = v mod 4294967296"
  using two_halves [of v] le16_put16 [of a v "put16 (v div 65536) @ b"]
    le16_put16 [of "a @ put16 v" "v div 65536" b]
  by (simp add: le32_arith put32_halves)

lemma le_append:
  "at + 2 \<le> length s \<Longrightarrow> le16 (s @ r) at = le16 s at"
  "at + 4 \<le> length s \<Longrightarrow> le32 (s @ r) at = le32 s at"
  by (simp_all add: le32_def le16_def nth_append)

lemma le_shift:
  "le16 (a @ s) (length a + k) = le16 s k" "le32 (a @ s) (length a + k) = le32 s k"
  by (simp_all add: le32_def le16_def nth_append add.assoc numeral_3_eq_3)

subsection \<open>The writer\<close>

record bundle_file =
  path :: string
  file_bytes :: string

definition kLocalHeaderSignature :: nat where "kLocalHeaderSignature = 0x04034b50"
definition kCentralHeaderSignature :: nat where "kCentralHeaderSignature = 0x02014b50"
definition kEndOfDirectorySignature :: nat where "kEndOfDirectorySignature = 0x06054b50"
definition kVersionNeeded :: nat where "kVersionNeeded = 20"
definition kVersionMadeBy :: nat where "kVersionMadeBy = 0x031e"
definition kExternalAttributes :: nat where "kExternalAttributes = push_bit 16 33188"
definition kMethodStored :: nat where "kMethodStored = 0"
definition kMethodDeflate :: nat where "kMethodDeflate = 8"
definition kFixedDosTime :: nat where "kFixedDosTime = 0"
definition kFixedDosDate :: nat where "kFixedDosDate = 0x0021"

record compressed =
  comp_bytes :: string
  comp_method :: nat

definition deflate :: "(string \<Rightarrow> string option) \<Rightarrow> string \<Rightarrow> compressed result" where
  "deflate tdefl data =
     (if data \<noteq> []
      then (case tdefl data of
              None \<Rightarrow> Inl (Runtime_Error ''zip writer could not compress a member'')
            | Some z \<Rightarrow>
                if length z < length data
                then Inr \<lparr>comp_bytes = z, comp_method = kMethodDeflate\<rparr>
                else Inr \<lparr>comp_bytes = data, comp_method = kMethodStored\<rparr>)
      else Inr \<lparr>comp_bytes = data, comp_method = kMethodStored\<rparr>)"

definition checked_size :: "nat \<Rightarrow> string \<Rightarrow> nat result" where
  "checked_size bytes what =
     (if bytes \<ge> 2 ^ 32 - 1
      then Inl (Runtime_Error (''zip writer would need ZIP64: '' @ what))
      else Inr bytes)"

text \<open>The values one turn of the member loop computes before it writes.\<close>

record member =
  m_name :: string
  m_method :: nat
  m_crc :: nat
  m_compressed :: nat
  m_uncompressed :: nat
  m_name_length :: nat
  m_offset :: nat

definition local_header :: "member \<Rightarrow> string" where
  "local_header m =
     put32 kLocalHeaderSignature @ put16 kVersionNeeded @ put16 0 @ put16 (m_method m)
       @ put16 kFixedDosTime @ put16 kFixedDosDate @ put32 (m_crc m) @ put32 (m_compressed m)
       @ put32 (m_uncompressed m) @ put16 (m_name_length m) @ put16 0"

definition central_header :: "member \<Rightarrow> string" where
  "central_header m =
     put32 kCentralHeaderSignature @ put16 kVersionMadeBy @ put16 kVersionNeeded @ put16 0
       @ put16 (m_method m) @ put16 kFixedDosTime @ put16 kFixedDosDate @ put32 (m_crc m)
       @ put32 (m_compressed m) @ put32 (m_uncompressed m) @ put16 (m_name_length m) @ put16 0
       @ put16 0 @ put16 0 @ put16 0 @ put32 kExternalAttributes @ put32 (m_offset m)"

definition and_then :: "'a result \<Rightarrow> ('a \<Rightarrow> 'b result) \<Rightarrow> 'b result" where
  "and_then r f = (case r of Inl e \<Rightarrow> Inl e | Inr x \<Rightarrow> f x)"

lemma and_then_simps [simp]: "and_then (Inl e) f = Inl e" "and_then (Inr x) f = f x"
  by (simp_all add: and_then_def)

lemma and_then_Inr: "and_then r f = Inr y \<longleftrightarrow> (\<exists>x. r = Inr x \<and> f x = Inr y)"
  by (cases r) auto

definition write_member ::
  "(string \<Rightarrow> string option) \<Rightarrow> (string \<Rightarrow> nat) \<Rightarrow> bundle_file \<Rightarrow> string \<times> string \<Rightarrow>
     (string \<times> string) result" where
  "write_member tdefl crc32 f out =
     and_then (checked_size (length (fst out)) ''archive size'') (\<lambda>offset.
     and_then (checked_size (length (file_bytes f)) ''member size'') (\<lambda>uncompressed.
     and_then (deflate tdefl (file_bytes f)) (\<lambda>payload.
     and_then (checked_size (length (comp_bytes payload)) ''member size'') (\<lambda>compressed.
     and_then (checked_size (length (path f)) ''member name length'') (\<lambda>name_size.
       let name_length = name_size AND 65535 in
       if length (path f) \<noteq> name_length
       then Inl (Runtime_Error ''zip writer rejects a member name past 65535 bytes'')
       else
         let m = \<lparr>m_name = path f, m_method = comp_method payload,
                  m_crc = crc32 (file_bytes f) mod 2 ^ 32,
                  m_compressed = compressed, m_uncompressed = uncompressed,
                  m_name_length = name_length, m_offset = offset\<rparr>
         in Inr (fst out @ local_header m @ path f @ comp_bytes payload,
                 snd out @ central_header m @ path f))))))"

fun write_members ::
  "(string \<Rightarrow> string option) \<Rightarrow> (string \<Rightarrow> nat) \<Rightarrow> bundle_file list \<Rightarrow> string \<times> string \<Rightarrow>
     (string \<times> string) result" where
  "write_members tdefl crc32 [] out = Inr out"
| "write_members tdefl crc32 (f # fs) out =
     and_then (write_member tdefl crc32 f out) (write_members tdefl crc32 fs)"

definition end_record :: "nat \<Rightarrow> nat \<Rightarrow> nat \<Rightarrow> string" where
  "end_record entries directory_size directory_offset =
     put32 kEndOfDirectorySignature @ put16 0 @ put16 0 @ put16 entries @ put16 entries
       @ put32 directory_size @ put32 directory_offset @ put16 0"

definition write_zip ::
  "(string \<Rightarrow> string option) \<Rightarrow> (string \<Rightarrow> nat) \<Rightarrow> bundle_file list \<Rightarrow> string result" where
  "write_zip tdefl crc32 files =
     (if length files \<ge> 2 ^ 16 - 1
      then Inl (Runtime_Error ''zip writer would need ZIP64: too many members'')
      else
        and_then (write_members tdefl crc32 files ([], [])) (\<lambda>out.
        and_then (checked_size (length (fst out)) ''archive size'') (\<lambda>directory_offset.
        and_then (checked_size (length (snd out)) ''central directory size'') (\<lambda>directory_size.
          let entries = length files mod 2 ^ 16 in
          Inr (fst out @ snd out @ end_record entries directory_size directory_offset)))))"

subsection \<open>The central-directory reader\<close>

definition kEndSignature :: string where
  "kEndSignature = ''PK'' @ [CHR 0x05, CHR 0x06]"

definition kEntrySignature :: string where
  "kEntrySignature = ''PK'' @ [CHR 0x01, CHR 0x02]"

text \<open>The backward scan: \<open>find_end bytes floor_at n\<close> tries \<open>floor_at + n - 1\<close> down to \<open>floor_at\<close>.\<close>

fun find_end :: "string \<Rightarrow> nat \<Rightarrow> nat \<Rightarrow> nat option" where
  "find_end bytes floor_at 0 = None"
| "find_end bytes floor_at (Suc n) =
     (if substr bytes (floor_at + n) 4 = kEndSignature then Some (floor_at + n)
      else find_end bytes floor_at n)"

text \<open>\<open>central_names bytes end at n\<close> reads \<open>n\<close> more entries from \<open>at\<close>.\<close>

fun central_names :: "string \<Rightarrow> nat \<Rightarrow> nat \<Rightarrow> nat \<Rightarrow> string list option" where
  "central_names bytes end_at at 0 = Some []"
| "central_names bytes end_at at (Suc n) =
     (if at + 46 > end_at \<or> substr bytes at 4 \<noteq> kEntrySignature then None
      else
        let name_length = le16 bytes (at + 28);
            skip = name_length + le16 bytes (at + 30) + le16 bytes (at + 32)
        in if at + 46 + name_length > end_at then None
           else map_option (\<lambda>names. substr bytes (at + 46) name_length # names)
                  (central_names bytes end_at (at + (46 + skip)) n))"

definition zip_central_names :: "string \<Rightarrow> string list option" where
  "zip_central_names bytes =
     (if length bytes < 22 then None
      else
        let floor_at = (if length bytes > 22 + 65535 then length bytes - 22 - 65535 else 0)
        in case find_end bytes floor_at (length bytes - 22 + 1 - floor_at) of
             None \<Rightarrow> None
           | Some end_at \<Rightarrow>
               let entries = le16 bytes (end_at + 10);
                   directory_size = le32 bytes (end_at + 12);
                   directory_at = le32 bytes (end_at + 16)
               in if directory_at = 0xFFFFFFFF \<or> directory_at + directory_size > end_at then None
                  else central_names bytes end_at directory_at (min entries 65535))"

subsection \<open>The writer lays members out as the format says\<close>

lemma length_headers [simp, length_simps]:
  "length (local_header m) = 30" "length (central_header m) = 46"
  "length (end_record n s at) = 22"
  by (simp_all add: local_header_def central_header_def end_record_def)

lemma le_skip:
  "length a \<le> k \<Longrightarrow> le16 (a @ s) k = le16 s (k - length a)"
  "length a \<le> k \<Longrightarrow> le32 (a @ s) k = le32 s (k - length a)"
  using le_shift [of a s "k - length a"] by simp_all

lemma le_here:
  "le16 (put16 v @ r) 0 = v mod 65536" "le32 (put32 v @ r) 0 = v mod 4294967296"
  using le16_put16 [of "[]" v r] le32_put32 [of "[]" v r] by simp_all

lemmas le_fields = le_skip le_here

lemma checked_size_Inr: "checked_size n what = Inr k \<longleftrightarrow> k = n \<and> n < 4294967295"
  by (auto simp: checked_size_def)

text \<open>The facts a member carries after the size checks passed.\<close>

definition member_ok :: "member \<Rightarrow> bool" where
  "member_ok m \<longleftrightarrow> length (m_name m) = m_name_length m \<and> m_name_length m < 65536
     \<and> m_compressed m < 4294967295 \<and> m_uncompressed m < 4294967295
     \<and> m_offset m < 4294967295 \<and> m_crc m < 4294967296 \<and> m_method m < 65536"

text \<open>\<open>payload_of\<close> is what the member stores and how it was compressed.\<close>

definition stores :: "(string \<Rightarrow> string option) \<Rightarrow> (string \<Rightarrow> nat) \<Rightarrow> bundle_file \<Rightarrow> member \<Rightarrow> string \<Rightarrow> bool" where
  "stores tdefl crc32 f m payload \<longleftrightarrow> member_ok m \<and> m_name m = path f
     \<and> m_crc m = crc32 (file_bytes f) mod 2 ^ 32
     \<and> m_compressed m = length payload \<and> m_uncompressed m = length (file_bytes f)
     \<and> deflate tdefl (file_bytes f) = Inr \<lparr>comp_bytes = payload, comp_method = m_method m\<rparr>"

lemma deflate_method:
  "deflate tdefl data = Inr c \<Longrightarrow> comp_method c = 0 \<or> comp_method c = 8"
  by (auto simp: deflate_def kMethodStored_def kMethodDeflate_def split: if_splits option.splits)

lemma write_member_layout:
  assumes "write_member tdefl crc32 f out = Inr out'"
  shows "\<exists>m payload. stores tdefl crc32 f m payload \<and> m_offset m = length (fst out)
     \<and> fst out' = fst out @ local_header m @ path f @ payload
     \<and> snd out' = snd out @ central_header m @ path f"
proof -
  from assms obtain payload where
    d: "deflate tdefl (file_bytes f) = Inr payload"
    and sizes: "length (fst out) < 4294967295" "length (file_bytes f) < 4294967295"
      "length (comp_bytes payload) < 4294967295" "length (path f) = length (path f) mod 65536"
    and out': "out' = (fst out @ local_header \<lparr>m_name = path f, m_method = comp_method payload,
                  m_crc = crc32 (file_bytes f) mod 2 ^ 32,
                  m_compressed = length (comp_bytes payload), m_uncompressed = length (file_bytes f),
                  m_name_length = length (path f), m_offset = length (fst out)\<rparr> @ path f @ comp_bytes payload,
                 snd out @ central_header \<lparr>m_name = path f, m_method = comp_method payload,
                  m_crc = crc32 (file_bytes f) mod 2 ^ 32,
                  m_compressed = length (comp_bytes payload), m_uncompressed = length (file_bytes f),
                  m_name_length = length (path f), m_offset = length (fst out)\<rparr> @ path f)"
    by (auto simp: write_member_def and_then_Inr checked_size_Inr bits_arith Let_def
        split: if_splits)
  from deflate_method [OF d] d sizes out' show ?thesis
    by (intro exI [of _ "\<lparr>m_name = path f, m_method = comp_method payload,
                  m_crc = crc32 (file_bytes f) mod 2 ^ 32,
                  m_compressed = length (comp_bytes payload), m_uncompressed = length (file_bytes f),
                  m_name_length = length (path f), m_offset = length (fst out)\<rparr>"]
        exI [of _ "comp_bytes payload"])
      (auto simp: stores_def member_ok_def)
qed

lemma member_fields:
  assumes "member_ok m"
  shows "le32 (local_header m @ r) 18 = m_compressed m"
    "le32 (local_header m @ r) 22 = m_uncompressed m"
    "le16 (local_header m @ r) 26 = length (m_name m)" "le16 (local_header m @ r) 28 = 0"
    "le16 (central_header m @ r) 10 = m_method m" "le32 (central_header m @ r) 16 = m_crc m"
    "le32 (central_header m @ r) 20 = m_compressed m"
    "le32 (central_header m @ r) 24 = m_uncompressed m"
    "le16 (central_header m @ r) 28 = length (m_name m)"
    "le16 (central_header m @ r) 30 = 0" "le16 (central_header m @ r) 32 = 0"
    "le32 (central_header m @ r) 42 = m_offset m"
  using assms
  by (simp_all add: member_ok_def local_header_def central_header_def le_fields)

definition holds_member ::
  "(string \<Rightarrow> string option) \<Rightarrow> (string \<Rightarrow> nat) \<Rightarrow> string \<Rightarrow> bundle_file \<Rightarrow> member \<Rightarrow> bool" where
  "holds_member tdefl crc32 archive f m \<longleftrightarrow> (\<exists>before payload after.
     stores tdefl crc32 f m payload \<and> length before = m_offset m
       \<and> archive = before @ local_header m @ path f @ payload @ after)"

lemma holds_member_append: "holds_member tdefl crc32 a f m \<Longrightarrow> holds_member tdefl crc32 (a @ r) f m"
  unfolding holds_member_def by fastforce

definition directory_of :: "member list \<Rightarrow> string" where
  "directory_of ms = concat (map (\<lambda>m. central_header m @ m_name m) ms)"

lemma directory_of_simps [simp]:
  "directory_of [] = []" "directory_of (m # ms) = central_header m @ m_name m @ directory_of ms"
  by (simp_all add: directory_of_def)

lemma write_members_layout:
  assumes "write_members tdefl crc32 fs out = Inr out'"
  shows "\<exists>ms. list_all2 (holds_member tdefl crc32 (fst out')) fs ms
     \<and> (\<exists>ext. fst out' = fst out @ ext) \<and> snd out' = snd out @ directory_of ms"
  using assms
proof (induction fs arbitrary: out)
  case (Cons f fs)
  from Cons.prems obtain mid where
    one: "write_member tdefl crc32 f out = Inr mid" and rest: "write_members tdefl crc32 fs mid = Inr out'"
    by (auto simp: and_then_Inr)
  from write_member_layout [OF one] obtain m payload where
    m: "stores tdefl crc32 f m payload" "m_offset m = length (fst out)"
       "fst mid = fst out @ local_header m @ path f @ payload"
       "snd mid = snd out @ central_header m @ path f" by blast
  from Cons.IH [OF rest] obtain ms ext where
    ms: "list_all2 (holds_member tdefl crc32 (fst out')) fs ms"
      "fst out' = fst mid @ ext" "snd out' = snd mid @ directory_of ms" by blast
  have "holds_member tdefl crc32 (fst out') f m"
    unfolding ms(2) holds_member_def using m
    by - (rule exI [of _ "fst out"], rule exI [of _ payload], rule exI [of _ ext], simp)
  with m ms show ?case
    by (intro exI [of _ "m # ms"]) (auto simp: stores_def)
qed simp

lemma holds_member_ok: "holds_member tdefl crc32 a f m \<Longrightarrow> member_ok m \<and> m_name m = path f"
  by (auto simp: holds_member_def stores_def)

lemma holds_members_ok:
  "list_all2 (holds_member tdefl crc32 a) fs ms \<Longrightarrow>
     list_all member_ok ms \<and> map m_name ms = map path fs"
  by (induction rule: list_all2_induct) (auto dest: holds_member_ok)

subsection \<open>Reading the directory back\<close>

lemma starts_put32:
  "put32 kCentralHeaderSignature = kEntrySignature"
  "put32 kEndOfDirectorySignature = kEndSignature"
  by (simp_all add: put32_def kCentralHeaderSignature_def kEndOfDirectorySignature_def
      kEntrySignature_def kEndSignature_def bits_arith) code_simp+

lemma length_signatures [simp]: "length kEntrySignature = 4" "length kEndSignature = 4"
  by (simp_all add: kEntrySignature_def kEndSignature_def)

lemma central_signature: "take 4 (central_header m) = kEntrySignature"
  by (simp add: central_header_def starts_put32)

text \<open>What every reader of one directory entry sees at its position.\<close>

lemma entry_at:
  assumes "member_ok m" "bytes = before @ central_header m @ m_name m @ after"
    and "at = length before"
  shows "substr bytes at 4 = kEntrySignature" "le16 bytes (at + 28) = length (m_name m)"
    "le16 bytes (at + 30) = 0" "le16 bytes (at + 32) = 0"
    "substr bytes (at + 46) (length (m_name m)) = m_name m"
    "le16 bytes (at + 10) = m_method m" "le32 bytes (at + 20) = m_compressed m"
    "le32 bytes (at + 42) = m_offset m"
  using assms by (simp_all add: le_shift member_fields central_signature substr_def)

lemma central_names_read:
  assumes "list_all member_ok ms" "bytes = before @ directory_of ms @ after"
    and "at = length before" "length before + length (directory_of ms) \<le> end_at"
  shows "central_names bytes end_at at (length ms) = Some (map m_name ms)"
  using assms
proof (induction ms arbitrary: before at)
  case (Cons m ms)
  have bytes: "bytes = before @ central_header m @ m_name m @ (directory_of ms @ after)"
    using Cons.prems by simp
  note here = entry_at [OF _ bytes Cons.prems(3)]
  have "central_names bytes end_at (at + (46 + length (m_name m))) (length ms) = Some (map m_name ms)"
    using Cons.prems by (intro Cons.IH [of "before @ central_header m @ m_name m"]) auto
  with Cons.prems here show ?case by (simp add: Let_def)
qed simp

lemma length_directory_of: "46 * length ms \<le> length (directory_of ms)"
  by (induction ms) auto

text \<open>The backward scan meets the writer's end record first, whatever precedes it.\<close>

lemma find_end_written:
  assumes "archive = a @ end_record n s off"
  shows "find_end archive (if length archive > 22 + 65535 then length archive - 22 - 65535 else 0)
           (length archive - 22 + 1 - (if length archive > 22 + 65535 then length archive - 22 - 65535 else 0))
         = Some (length a)"
proof -
  let ?floor = "if length archive > 22 + 65535 then length archive - 22 - 65535 else 0"
  have len: "length archive = length a + 22" by (simp add: assms)
  then obtain k where k: "length archive - 22 + 1 - ?floor = Suc k" "?floor + k = length a"
    by (rule_tac that [of "length a - ?floor"]) auto
  have "substr archive (length a) 4 = kEndSignature"
    by (simp add: assms substr_def end_record_def starts_put32)
  then show ?thesis unfolding k(1) using k(2) by simp
qed

lemma end_fields:
  "le16 (a @ end_record n s off) (length a + 10) = n mod 65536"
  "le32 (a @ end_record n s off) (length a + 12) = s mod 4294967296"
  "le32 (a @ end_record n s off) (length a + 16) = off mod 4294967296"
  using le_here [of off "put16 0"]
  by (simp_all add: le_shift end_record_def le_fields)

lemma write_zip_layout:
  assumes "write_zip tdefl crc32 files = Inr archive"
  shows "\<exists>body ms. archive = body @ directory_of ms
           @ end_record (length files) (length (directory_of ms)) (length body)
         \<and> list_all2 (holds_member tdefl crc32 body) files ms
         \<and> length files < 65535 \<and> length body < 4294967295
         \<and> length (directory_of ms) < 4294967295"
proof -
  from assms obtain out where n: "length files < 65535"
    and w: "write_members tdefl crc32 files ([], []) = Inr out"
    and sizes: "length (fst out) < 4294967295" "length (snd out) < 4294967295"
    and archive: "archive = fst out @ snd out
          @ end_record (length files) (length (snd out)) (length (fst out))"
    by (auto simp: write_zip_def and_then_Inr checked_size_Inr split: if_splits)
  from write_members_layout [OF w] obtain ms where
    "list_all2 (holds_member tdefl crc32 (fst out)) files ms" "snd out = directory_of ms"
    by auto
  with n sizes archive show ?thesis
    by (intro exI [of _ "fst out"] exI [of _ ms]) auto
qed

lemma central_names_written:
  assumes "write_zip tdefl crc32 files = Inr archive"
  shows "zip_central_names archive = Some (map path files)"
proof -
  from write_zip_layout [OF assms] obtain body ms where
    archive: "archive = body @ directory_of ms
        @ end_record (length files) (length (directory_of ms)) (length body)"
    and held: "list_all2 (holds_member tdefl crc32 body) files ms"
    and sizes: "length files < 65535" "length body < 4294967295"
      "length (directory_of ms) < 4294967295" by blast
  note ok = holds_members_ok [OF held] list_all2_lengthD [OF held]
  have split_end: "archive = (body @ directory_of ms)
      @ end_record (length files) (length (directory_of ms)) (length body)"
    by (simp add: archive)
  have "central_names archive (length (body @ directory_of ms)) (length body) (length ms)
      = Some (map m_name ms)"
    using ok archive by (intro central_names_read) auto
  then show ?thesis
    unfolding zip_central_names_def Let_def find_end_written [OF split_end]
    using sizes ok end_fields [of "body @ directory_of ms"]
    by (simp add: split_end [symmetric] archive)
qed

text \<open>
  The sniffer's central-directory reader lists exactly the paths of the
  files the zip writer was given, in their order: whatever the compressor and
  the checksum do, and whatever bytes the members hold (an embedded package
  with a directory of its own cannot shadow the listing).
\<close>

theorem written_names_are_listed:
  assumes "write_zip tdefl crc32 files = Inr archive"
  shows "zip_central_names archive = Some (map path files)"
  using assms by (rule central_names_written)

definition sample_tdefl :: "string \<Rightarrow> string option" where
  "sample_tdefl data = Some (if data = ''aaaaaaaa'' then ''8a'' else data @ ''!'')"

definition sample_inflate :: "string \<Rightarrow> string option" where
  "sample_inflate data = (if data = ''8a'' then Some ''aaaaaaaa'' else Some (butlast data))"

definition sample_files :: "bundle_file list" where
  "sample_files = [\<lparr>path = ''a.txt'', file_bytes = ''aaaaaaaa''\<rparr>, \<lparr>path = ''b'', file_bytes = ''xy''\<rparr>]"

lemma sample_writes: "is_ok (write_zip sample_tdefl length sample_files)"
  by (simp add: write_zip_def write_member_def and_then_def checked_size_def deflate_def
      sample_files_def sample_tdefl_def Let_def bits_arith length_simps)

theorem written_names_are_listed_witness:
  "\<exists>archive. write_zip sample_tdefl length sample_files = Inr archive
     \<and> zip_central_names archive = Some [''a.txt'', ''b'']"
proof -
  obtain archive where a: "write_zip sample_tdefl length sample_files = Inr archive"
    using sample_writes by (rule is_okE)
  from written_names_are_listed [OF a] a show ?thesis by (simp add: sample_files_def)
qed

subsection \<open>An independent reader\<close>

text \<open>
  What the format promises a consumer: from a directory entry, the local
  header it points at, and the stored or deflated bytes behind that header.
\<close>

definition read_member :: "(string \<Rightarrow> string option) \<Rightarrow> string \<Rightarrow> nat \<Rightarrow> bundle_file option" where
  "read_member inflate bytes at =
     (let name = substr bytes (at + 46) (le16 bytes (at + 28));
          method_id = le16 bytes (at + 10);
          local = le32 bytes (at + 42);
          data_at = local + 30 + le16 bytes (local + 26) + le16 bytes (local + 28);
          data = substr bytes data_at (le32 bytes (at + 20))
      in if substr bytes at 4 \<noteq> kEntrySignature \<or> le32 bytes local \<noteq> kLocalHeaderSignature then None
         else if method_id = kMethodStored then Some \<lparr>path = name, file_bytes = data\<rparr>
         else if method_id = kMethodDeflate
              then map_option (\<lambda>d. \<lparr>path = name, file_bytes = d\<rparr>) (inflate data)
         else None)"

fun read_members :: "(string \<Rightarrow> string option) \<Rightarrow> string \<Rightarrow> nat \<Rightarrow> nat \<Rightarrow> bundle_file list option" where
  "read_members inflate bytes at 0 = Some []"
| "read_members inflate bytes at (Suc n) =
     (case read_member inflate bytes at of
        None \<Rightarrow> None
      | Some f \<Rightarrow>
          map_option ((#) f)
            (read_members inflate bytes
               (at + 46 + le16 bytes (at + 28) + le16 bytes (at + 30) + le16 bytes (at + 32)) n))"

text \<open>The end record is the last 22 bytes: the writer leaves no comment.\<close>

definition unzip :: "(string \<Rightarrow> string option) \<Rightarrow> string \<Rightarrow> bundle_file list option" where
  "unzip inflate bytes =
     (let end_at = length bytes - 22
      in if le32 bytes end_at \<noteq> kEndOfDirectorySignature then None
         else read_members inflate bytes (le32 bytes (end_at + 16)) (le16 bytes (end_at + 10)))"

lemma local_at:
  assumes "member_ok m" "bytes = before @ local_header m @ rest" "at = length before"
  shows "le16 bytes (at + 26) = length (m_name m)" "le16 bytes (at + 28) = 0"
    "le32 bytes at = kLocalHeaderSignature"
proof -
  have "le32 (local_header m @ rest) 0 = kLocalHeaderSignature"
    by (simp add: local_header_def le_fields kLocalHeaderSignature_def)
  then show "le32 bytes at = kLocalHeaderSignature"
    using assms le_shift(2) [of before "local_header m @ rest" 0] by simp
qed (use assms in \<open>simp_all add: le_shift member_fields\<close>)

lemma read_member_written:
  assumes held: "holds_member tdefl crc32 body f m"
    and bytes: "bytes = body @ front @ central_header m @ m_name m @ after"
    and at: "at = length (body @ front)"
    and law: "\<And>x y. tdefl x = Some y \<Longrightarrow> inflate y = Some x"
  shows "read_member inflate bytes at = Some f"
proof -
  from held obtain before payload rest where
    s: "stores tdefl crc32 f m payload" "length before = m_offset m"
    and body: "body = before @ local_header m @ path f @ payload @ rest"
    by (auto simp: holds_member_def)
  have ok: "member_ok m" and name: "m_name m = path f" and size: "m_compressed m = length payload"
    and d: "deflate tdefl (file_bytes f) = Inr \<lparr>comp_bytes = payload, comp_method = m_method m\<rparr>"
    using s(1) by (auto simp: stores_def)
  have bytes': "bytes = (body @ front) @ central_header m @ m_name m @ after"
    by (simp add: bytes)
  note central = entry_at [OF ok bytes' at]
  have "bytes = before @ local_header m @ (path f @ payload @ rest @ front @ central_header m @ m_name m @ after)"
    by (simp add: bytes body)
  note loc = local_at [OF ok this s(2) [symmetric]]
  have data: "substr bytes (m_offset m + 30 + length (m_name m) + 0) (m_compressed m) = payload"
    using s(2) by (simp add: bytes body substr_def name size)
  show ?thesis
    unfolding read_member_def central loc data Let_def
    using d law by (auto simp: deflate_def name kMethodStored_def kMethodDeflate_def
        split: if_splits option.splits)
qed

lemma read_members_written:
  assumes "list_all2 (holds_member tdefl crc32 body) files ms"
    and "bytes = body @ front @ directory_of ms @ after" and "at = length (body @ front)"
    and law: "\<And>x y. tdefl x = Some y \<Longrightarrow> inflate y = Some x"
  shows "read_members inflate bytes at (length files) = Some files"
  using assms(1-3)
proof (induction arbitrary: front at rule: list_all2_induct)
  case (Cons f files m ms)
  have bytes: "bytes = body @ front @ central_header m @ m_name m @ (directory_of ms @ after)"
    using Cons.prems by simp
  have ok: "member_ok m" using Cons.hyps(1) holds_member_ok by blast
  have bytes': "bytes = (body @ front) @ central_header m @ m_name m @ (directory_of ms @ after)"
    by (simp add: bytes)
  note central = entry_at [OF ok bytes' Cons.prems(2)]
  have "read_members inflate bytes (at + 46 + length (m_name m) + 0 + 0) (length files) = Some files"
    using Cons.prems by (intro Cons.IH [of "front @ central_header m @ m_name m"]) auto
  moreover have "read_member inflate bytes at = Some f"
    by (rule read_member_written [OF Cons.hyps(1) bytes Cons.prems(2) law])
  ultimately show ?case by (simp add: central)
qed simp

text \<open>
  C5. Whatever \<open>write_zip\<close> accepts, a reader that follows the format gets
  back: every file under its path with its exact bytes, in order, provided
  the inflater undoes miniz's compressor. The recorded offsets, sizes and
  methods are therefore right for every member, stored or deflated.
\<close>

theorem zip_round_trip:
  assumes "write_zip tdefl crc32 files = Inr archive"
    and "\<And>x y. tdefl x = Some y \<Longrightarrow> inflate y = Some x"
  shows "unzip inflate archive = Some files"
proof -
  from write_zip_layout [OF assms(1)] obtain body ms where
    archive: "archive = body @ directory_of ms
        @ end_record (length files) (length (directory_of ms)) (length body)"
    and held: "list_all2 (holds_member tdefl crc32 body) files ms"
    and sizes: "length files < 65535" "length body < 4294967295"
      "length (directory_of ms) < 4294967295" by blast
  let ?e = "end_record (length files) (length (directory_of ms)) (length body)"
  have split_end: "archive = (body @ directory_of ms) @ ?e" by (simp add: archive)
  have "le32 ?e 0 = kEndOfDirectorySignature"
    by (simp add: end_record_def le_fields kEndOfDirectorySignature_def)
  then have sig: "le32 archive (length archive - 22) = kEndOfDirectorySignature"
    using le_shift(2) [of "body @ directory_of ms" ?e 0] by (simp add: archive)
  have "read_members inflate archive (length body) (length files) = Some files"
    using archive by (intro read_members_written [OF held, of _ "[]"] assms(2)) auto
  with sig show ?thesis
    using sizes end_fields [of "body @ directory_of ms"] by (simp add: unzip_def archive)
qed

lemma sample_inflates: "sample_tdefl x = Some y \<Longrightarrow> sample_inflate y = Some x"
  by (auto simp: sample_tdefl_def sample_inflate_def split: if_splits)

theorem zip_round_trip_witness:
  "\<exists>archive. write_zip sample_tdefl length sample_files = Inr archive
     \<and> unzip sample_inflate archive = Some sample_files"
proof -
  obtain archive where a: "write_zip sample_tdefl length sample_files = Inr archive"
    using sample_writes by (rule is_okE)
  have "unzip sample_inflate archive = Some sample_files"
    by (rule zip_round_trip [OF a]) (rule sample_inflates)
  with a show ?thesis by blast
qed

subsection \<open>When the writer refuses\<close>

text \<open>The bytes a file list needs in the archive body when nothing is refused.\<close>

definition stored_length :: "(string \<Rightarrow> string option) \<Rightarrow> string \<Rightarrow> nat" where
  "stored_length tdefl data =
     (case deflate tdefl data of Inl _ \<Rightarrow> 0 | Inr c \<Rightarrow> length (comp_bytes c))"

lemma stored_length_le: "stored_length tdefl data \<le> length data"
  by (auto simp: stored_length_def deflate_def split: sum.splits if_splits option.splits)

definition room :: "bundle_file list \<Rightarrow> nat" where
  "room files = sum_list (map (\<lambda>f. 46 + length (path f) + length (file_bytes f)) files)"

lemma room_simps [simp]:
  "room [] = 0" "room (f # fs) = 46 + length (path f) + length (file_bytes f) + room fs"
  by (simp_all add: room_def)

lemma write_member_accepts:
  assumes "length (path f) < 65536" "file_bytes f = [] \<or> tdefl (file_bytes f) \<noteq> None"
    and "length (fst out) + length (file_bytes f) < 4294967295"
  shows "\<exists>out'. write_member tdefl crc32 f out = Inr out'
     \<and> length (fst out') \<le> length (fst out) + 30 + length (path f) + length (file_bytes f)
     \<and> length (snd out') = length (snd out) + 46 + length (path f)"
proof -
  obtain c where c: "deflate tdefl (file_bytes f) = Inr c"
    using assms(2) by (cases "deflate tdefl (file_bytes f)")
      (auto simp: deflate_def split: option.splits if_splits)
  have "length (comp_bytes c) \<le> length (file_bytes f)"
    using stored_length_le [of tdefl "file_bytes f"] c by (simp add: stored_length_def)
  then show ?thesis
    using assms c by (simp add: write_member_def checked_size_def bits_arith Let_def)
qed

lemma write_members_accepts:
  assumes "\<forall>f\<in>set fs. length (path f) < 65536 \<and> (file_bytes f = [] \<or> tdefl (file_bytes f) \<noteq> None)"
    and "length (fst out) + room fs < 4294967295" "length (snd out) + room fs < 4294967295"
  shows "\<exists>out'. write_members tdefl crc32 fs out = Inr out'
     \<and> length (fst out') \<le> length (fst out) + room fs
     \<and> length (snd out') \<le> length (snd out) + room fs"
  using assms
proof (induction fs arbitrary: out)
  case (Cons f fs)
  have fits: "length (path f) < 65536" "file_bytes f = [] \<or> tdefl (file_bytes f) \<noteq> None"
    "length (fst out) + length (file_bytes f) < 4294967295"
    using Cons.prems by auto
  have "\<exists>mid. write_member tdefl crc32 f out = Inr mid
      \<and> length (fst mid) \<le> length (fst out) + 30 + length (path f) + length (file_bytes f)
      \<and> length (snd mid) = length (snd out) + 46 + length (path f)"
    by (rule write_member_accepts) (use fits in auto)
  then obtain mid where
    mid: "write_member tdefl crc32 f out = Inr mid"
      "length (fst mid) \<le> length (fst out) + 30 + length (path f) + length (file_bytes f)"
      "length (snd mid) = length (snd out) + 46 + length (path f)" by blast
  have "\<exists>out'. write_members tdefl crc32 fs mid = Inr out'
     \<and> length (fst out') \<le> length (fst mid) + room fs
     \<and> length (snd out') \<le> length (snd mid) + room fs"
    using Cons.prems mid by (intro Cons.IH) auto
  with mid show ?case by auto
qed auto

lemma write_member_rejects:
  "is_ok (write_member tdefl crc32 f out) \<Longrightarrow>
     length (path f) < 65536 \<and> (file_bytes f = [] \<or> tdefl (file_bytes f) \<noteq> None)"
  by (cases "tdefl (file_bytes f)") (auto simp: write_member_def deflate_def and_then_def
      checked_size_def bits_arith Let_def split: sum.splits if_splits)

lemma write_members_rejects:
  "is_ok (write_members tdefl crc32 fs out) \<Longrightarrow> f \<in> set fs \<Longrightarrow>
     length (path f) < 65536 \<and> (file_bytes f = [] \<or> tdefl (file_bytes f) \<noteq> None)"
proof (induction fs arbitrary: out)
  case (Cons g fs)
  then obtain mid where mid: "write_member tdefl crc32 g out = Inr mid"
    by (auto elim!: is_okE simp: and_then_Inr)
  show ?case
  proof (cases "f = g")
    case True
    then show ?thesis using write_member_rejects [of tdefl crc32 g out] mid by simp
  next
    case False
    then show ?thesis using Cons.IH [of mid] Cons.prems mid by simp
  qed
qed simp

text \<open>
  Below the size where ZIP64 would start, the writer refuses a bundle for
  exactly three reasons: 65535 members or more, a path past 65535 bytes, or a
  member miniz could not compress. Otherwise it returns an archive.
\<close>

theorem write_zip_accepts_iff:
  assumes "room files < 2 ^ 32 - 1"
  shows "is_ok (write_zip tdefl crc32 files) \<longleftrightarrow>
     length files < 65535
     \<and> (\<forall>f\<in>set files. length (path f) \<le> 65535 \<and> (file_bytes f = [] \<or> tdefl (file_bytes f) \<noteq> None))"
    (is "?l \<longleftrightarrow> ?r")
proof
  assume ?l
  then have "length files < 65535" "is_ok (write_members tdefl crc32 files ([], []))"
    by (auto simp: write_zip_def and_then_Inr elim!: is_okE split: if_splits)
  then show ?r
    using write_members_rejects [of tdefl crc32 files "([], [])"]
    by (simp add: less_Suc_eq_le [symmetric])
next
  assume ?r
  then have "\<forall>f\<in>set files. length (path f) < 65536
      \<and> (file_bytes f = [] \<or> tdefl (file_bytes f) \<noteq> None)"
    by (simp add: less_Suc_eq_le [symmetric])
  with write_members_accepts [of files tdefl "([], [])" crc32] assms obtain out where
    "write_members tdefl crc32 files ([], []) = Inr out"
    "length (fst out) < 4294967295" "length (snd out) < 4294967295"
    by auto
  with \<open>?r\<close> show ?l by (simp add: write_zip_def checked_size_def)
qed

theorem write_zip_accepts_iff_witness:
  "is_ok (write_zip sample_tdefl length sample_files)
     \<and> \<not> is_ok (write_zip (\<lambda>_. None) length sample_files)"
  using write_zip_accepts_iff [of sample_files sample_tdefl length]
    write_zip_accepts_iff [of sample_files "\<lambda>_. None" length]
  by (simp add: sample_files_def sample_tdefl_def)

end
