(* ===== verification/CompoundFile.thy ===== *)
theory CompoundFile
  imports Prelude "HOL-Library.Tree"
begin

text \<open>
  The OLE compound-file reader of \<^verbatim>\<open>src/src/content_sniff.cpp\<close> (namespace
  \<^verbatim>\<open>cfb\<close>): header, FAT with its DIFAT chain, directory, mini stream, and on top
  of it the encrypted-document probe and the Office type of a compound file.
  Sector numbers and sizes are naturals: every one is read from a 16- or
  32-bit field and the products the code forms in 64 bits cannot wrap. Each
  chain walk of the code is capped by a counter; the model recurses on what
  that counter has left.
\<close>

subsection \<open>Constants and field access\<close>

definition kSignature :: string where
  "kSignature = [CHR 0xD0, CHR 0xCF, CHR 0x11, CHR 0xE0, CHR 0xA1, CHR 0xB1, CHR 0x1A, CHR 0xE1]"

definition kHeaderBytes :: nat where "kHeaderBytes = 512"
definition kDirectoryEntryBytes :: nat where "kDirectoryEntryBytes = 128"
definition kHeaderDifatEntries :: nat where "kHeaderDifatEntries = 109"
definition kEndOfChain :: nat where "kEndOfChain = 0xFFFFFFFE"
definition kNoStream :: nat where "kNoStream = 0xFFFFFFFF"
definition kMaxRegularSector :: nat where "kMaxRegularSector = 0xFFFFFFFA"
definition kStreamObject :: nat where "kStreamObject = 2"
definition kRootStorage :: nat where "kRootStorage = 5"
definition kMiniBytes :: nat where "kMiniBytes = 64"

definition u16 :: "string \<Rightarrow> nat \<Rightarrow> nat" where
  "u16 bytes at =
     (if at + 2 > length bytes then 0
      else byte_val (bytes ! at) OR push_bit 8 (byte_val (bytes ! (at + 1))))"

definition u32 :: "string \<Rightarrow> nat \<Rightarrow> nat" where
  "u32 bytes at =
     (if at + 4 > length bytes then 0
      else u16 bytes at OR push_bit 16 (u16 bytes (at + 2)))"

subsection \<open>The file\<close>

record cfb_entry =
  e_name :: string
  e_type :: nat
  e_left :: nat
  e_right :: nat
  e_child :: nat
  e_start :: nat
  e_size :: nat

definition empty_entry :: cfb_entry where
  "empty_entry = \<lparr>e_name = [], e_type = 0, e_left = kNoStream, e_right = kNoStream,
     e_child = kNoStream, e_start = kEndOfChain, e_size = 0\<rparr>"

record cfb_file =
  f_bytes :: string
  f_ok :: bool
  f_sector_bytes :: nat
  f_sector_count :: nat
  f_mini_cutoff :: nat
  f_fat :: "nat list"
  f_mini_fat :: "nat list"
  f_directory :: "nat list"
  f_mini_stream :: "nat list"
  f_mini_stream_bytes :: nat
  f_root :: cfb_entry

definition new_file :: "string \<Rightarrow> cfb_file" where
  "new_file bytes = \<lparr>f_bytes = bytes, f_ok = False, f_sector_bytes = 512, f_sector_count = 0,
     f_mini_cutoff = 4096, f_fat = [], f_mini_fat = [], f_directory = [], f_mini_stream = [],
     f_mini_stream_bytes = 0, f_root = empty_entry\<rparr>"

definition sector_bytes :: "cfb_file \<Rightarrow> nat \<Rightarrow> string" where
  "sector_bytes f sid =
     (if sid > kMaxRegularSector then []
      else
        let offset = (sid + 1) * f_sector_bytes f
        in if offset + f_sector_bytes f > length (f_bytes f) then []
           else substr (f_bytes f) offset (f_sector_bytes f))"

subsection \<open>Reading the FAT\<close>

text \<open>One run of sector ids, from the header's array or a DIFAT sector: position \<open>i\<close> of \<open>is\<close>
  reads the 32-bit field at \<open>base + 4 * i\<close>.\<close>

fun difat_ids :: "string \<Rightarrow> nat \<Rightarrow> nat \<Rightarrow> nat list \<Rightarrow> nat list \<Rightarrow> nat list" where
  "difat_ids sector base declared [] ids = ids"
| "difat_ids sector base declared (i # is) ids =
     (if length ids < declared
      then
        let sid = u32 sector (base + 4 * i)
        in if sid > kMaxRegularSector then ids
           else difat_ids sector base declared is (ids @ [sid])
      else ids)"

text \<open>The DIFAT chain, with what is left of \<open>f_sector_count\<close> steps.\<close>

fun difat_chain :: "cfb_file \<Rightarrow> nat \<Rightarrow> nat \<Rightarrow> nat \<Rightarrow> nat list \<Rightarrow> nat list" where
  "difat_chain f declared 0 difat ids = ids"
| "difat_chain f declared (Suc steps) difat ids =
     (if difat \<le> kMaxRegularSector \<and> length ids < declared
      then
        let sector = sector_bytes f difat;
            per_difat = f_sector_bytes f div 4 - 1
        in if sector = [] then ids
           else difat_chain f declared steps (u32 sector (4 * per_difat))
                  (difat_ids sector 0 declared [0..<per_difat] ids)
      else ids)"

definition sector_values :: "cfb_file \<Rightarrow> string \<Rightarrow> nat list" where
  "sector_values f sector = map (\<lambda>i. u32 sector (4 * i)) [0..<f_sector_bytes f div 4]"

fun load_fat :: "cfb_file \<Rightarrow> nat list \<Rightarrow> nat list \<Rightarrow> nat list option" where
  "load_fat f [] fat = Some fat"
| "load_fat f (sid # ids) fat =
     (let sector = sector_bytes f sid
      in if sector = [] then None else load_fat f ids (fat @ sector_values f sector))"

text \<open>\<open>None\<close> where \<^verbatim>\<open>read_fat\<close> returns false.\<close>

definition read_fat :: "cfb_file \<Rightarrow> cfb_file option" where
  "read_fat f =
     (let declared = u32 (f_bytes f) 44;
          in_header = difat_ids (f_bytes f) 76 declared [0..<kHeaderDifatEntries] [];
          fat_sectors = difat_chain f declared (f_sector_count f) (u32 (f_bytes f) 68) in_header
      in case load_fat f fat_sectors [] of
           None \<Rightarrow> None
         | Some fat \<Rightarrow> if fat = [] then None else Some (f\<lparr>f_fat := fat\<rparr>))"

subsection \<open>Chains and directory entries\<close>

fun chain_from :: "cfb_file \<Rightarrow> nat \<Rightarrow> nat \<Rightarrow> nat list" where
  "chain_from f 0 sid = []"
| "chain_from f (Suc remaining) sid =
     (if sid \<le> kMaxRegularSector
      then if sid \<ge> length (f_fat f) then [] else sid # chain_from f remaining (f_fat f ! sid)
      else [])"

definition chain :: "cfb_file \<Rightarrow> nat \<Rightarrow> nat list" where
  "chain f start = chain_from f (f_sector_count f) start"

fun chain_values_of :: "cfb_file \<Rightarrow> nat \<Rightarrow> nat list \<Rightarrow> nat list \<Rightarrow> nat list" where
  "chain_values_of f declared [] values = values"
| "chain_values_of f declared (sid # ids) values =
     (if length values div (f_sector_bytes f div 4) \<ge> declared then values
      else
        let sector = sector_bytes f sid
        in if sector = [] then values
           else chain_values_of f declared ids (values @ sector_values f sector))"

definition chain_values :: "cfb_file \<Rightarrow> nat \<Rightarrow> nat \<Rightarrow> nat list" where
  "chain_values f start declared = chain_values_of f declared (chain f start) []"

text \<open>The UTF-16LE name, from byte \<open>2 * k\<close> of \<open>ks\<close>, up to a NUL unit.\<close>

fun entry_name :: "string \<Rightarrow> nat list \<Rightarrow> string" where
  "entry_name raw [] = []"
| "entry_name raw (k # ks) =
     (let c = u16 raw (2 * k)
      in if c = 0 then []
         else (if c < 0x80 then char_of c else CHR ''?'') # entry_name raw ks)"

definition entry :: "cfb_file \<Rightarrow> nat \<Rightarrow> cfb_entry option" where
  "entry f sid =
     (let per_sector = f_sector_bytes f div kDirectoryEntryBytes;
          index = sid div per_sector
      in if index \<ge> length (f_directory f) then None
         else
           let sector = sector_bytes f (f_directory f ! index)
           in if sector = [] then None
              else
                let raw = substr sector ((sid mod per_sector) * kDirectoryEntryBytes) kDirectoryEntryBytes;
                    name_bytes = min (u16 raw 64) 64
                in Some \<lparr>e_name = entry_name raw [0..<name_bytes div 2],
                         e_type = byte_val (raw ! 66),
                         e_left = u32 raw 68, e_right = u32 raw 72, e_child = u32 raw 76,
                         e_start = u32 raw 116,
                         e_size = (if f_sector_bytes f = 512 then u32 raw 120
                                   else push_bit 32 (u32 raw 124) OR u32 raw 120)\<rparr>)"

definition open_file :: "string \<Rightarrow> cfb_file" where
  "open_file bytes =
     (let f = new_file bytes in
      if \<not> starts_with bytes kSignature \<or> length bytes < kHeaderBytes then f
      else
        let sector_shift = u16 bytes 30; mini_shift = u16 bytes 32 in
        if sector_shift \<noteq> 9 \<and> sector_shift \<noteq> 12 \<or> mini_shift \<noteq> 6 then f
        else
          let f = f\<lparr>f_sector_bytes := 2 ^ sector_shift, f_mini_cutoff := u32 bytes 56,
                    f_sector_count := length bytes div 2 ^ sector_shift\<rparr>
          in case read_fat f of
               None \<Rightarrow> f
             | Some f \<Rightarrow>
                 let directory = chain f (u32 bytes 48) in
                 if directory = [] then f
                 else
                   let f = f\<lparr>f_directory := directory\<rparr>;
                       f = f\<lparr>f_mini_fat := chain_values f (u32 bytes 60) (u32 bytes 64)\<rparr>
                   in case entry f 0 of
                        None \<Rightarrow> f
                      | Some root \<Rightarrow>
                          if e_type root \<noteq> kRootStorage then f
                          else f\<lparr>f_mini_stream := chain f (e_start root),
                                 f_mini_stream_bytes := e_size root, f_root := root, f_ok := True\<rparr>)"

subsection \<open>The directory walk\<close>

text \<open>The loop of \<^verbatim>\<open>root_children\<close>; the head of \<open>pending\<close> is the back of the vector.\<close>

function walk :: "cfb_file \<Rightarrow> nat \<Rightarrow> nat list \<Rightarrow> nat \<Rightarrow> cfb_entry list \<Rightarrow> cfb_entry list" where
  "walk f capacity [] visited children = children"
| "walk f capacity (sid # pending) visited children =
     (if visited < capacity
      then if sid = kNoStream then walk f capacity pending visited children
           else (case entry f sid of
                   None \<Rightarrow> walk f capacity pending visited children
                 | Some node \<Rightarrow>
                     walk f capacity (e_right node # e_left node # pending) (visited + 1)
                       (children @ [node]))
      else children)"
  by pat_completeness auto
termination
  by (relation "measures [\<lambda>(f, capacity, pending, visited, children). capacity - visited,
        \<lambda>(f, capacity, pending, visited, children). length pending]") auto

definition root_children :: "cfb_file \<Rightarrow> cfb_entry list" where
  "root_children f =
     (if \<not> f_ok f then []
      else
        let capacity = length (f_directory f) * (f_sector_bytes f div kDirectoryEntryBytes)
        in walk f capacity [e_child (f_root f)] 0 [])"

subsection \<open>The head of a stream\<close>

fun mini_head :: "cfb_file \<Rightarrow> nat \<Rightarrow> nat \<Rightarrow> nat \<Rightarrow> string \<Rightarrow> string" where
  "mini_head f wanted 0 mini out = out"
| "mini_head f wanted (Suc steps) mini out =
     (if mini \<le> kMaxRegularSector \<and> length out < wanted
      then
        let offset = mini * kMiniBytes in
        if offset + kMiniBytes > f_mini_stream_bytes f then out
        else
          let index = offset div f_sector_bytes f in
          if index \<ge> length (f_mini_stream f) then out
          else
            let sector = sector_bytes f (f_mini_stream f ! index);
                within = offset mod f_sector_bytes f
            in if length sector < within + kMiniBytes then out
               else
                 let out = out @ substr sector within (min kMiniBytes (wanted - length out))
                 in if mini \<ge> length (f_mini_fat f) then out
                    else mini_head f wanted steps (f_mini_fat f ! mini) out
      else out)"

fun regular_head :: "cfb_file \<Rightarrow> nat \<Rightarrow> nat list \<Rightarrow> string \<Rightarrow> string" where
  "regular_head f wanted [] out = out"
| "regular_head f wanted (sid # ids) out =
     (let sector = sector_bytes f sid
      in if sector = [] then out
         else
           let out = out @ substr sector 0 (min (length sector) (wanted - length out))
           in if length out \<ge> wanted then out else regular_head f wanted ids out)"

definition head :: "cfb_file \<Rightarrow> cfb_entry \<Rightarrow> nat \<Rightarrow> string" where
  "head f stream limit =
     (if \<not> f_ok f \<or> e_type stream \<noteq> kStreamObject then []
      else
        let wanted = min (e_size stream) limit
        in if wanted = 0 then []
           else if e_size stream < f_mini_cutoff f
                then mini_head f wanted (length (f_mini_fat f)) (e_start stream) []
                else regular_head f wanted (chain f (e_start stream)) [])"

subsection \<open>The Office probes\<close>

definition stream_named :: "cfb_entry list \<Rightarrow> string \<Rightarrow> cfb_entry option" where
  "stream_named entries name =
     List.find (\<lambda>e. e_type e = kStreamObject \<and> e_name e = name) entries"

definition word_fib_encrypted :: "string \<Rightarrow> bool" where
  "word_fib_encrypted h =
     (if length h < 12 then False
      else if u16 h 0 \<noteq> 0xA5EC then False
      else u16 h 10 AND 0x0100 \<noteq> 0)"

fun biff_records :: "string \<Rightarrow> nat \<Rightarrow> nat \<Rightarrow> bool" where
  "biff_records h 0 at = False"
| "biff_records h (Suc records) at =
     (if at + 4 \<le> length h
      then
        if u16 h at = 0x002F then True
        else if u16 h at = 0x000A then False
        else biff_records h records (at + (4 + u16 h (at + 2)))
      else False)"

definition biff_filepass :: "string \<Rightarrow> bool" where
  "biff_filepass h = (if length h < 4 \<or> u16 h 0 \<noteq> 0x0809 then False else biff_records h 64 0)"

definition powerpoint_encrypted :: "string \<Rightarrow> bool" where
  "powerpoint_encrypted current_user =
     (length current_user \<ge> 16 \<and> u32 current_user 12 = 0xF3D1C4DF)"

record encrypted_document =
  d_format :: string
  d_evidence :: string

definition package_encrypted :: "cfb_entry list \<Rightarrow> bool" where
  "package_encrypted root = (stream_named root ''EncryptedPackage'' \<noteq> None)"

definition word_encrypted :: "cfb_file \<Rightarrow> cfb_entry list \<Rightarrow> bool" where
  "word_encrypted f root =
     (case stream_named root ''WordDocument'' of None \<Rightarrow> False
      | Some e \<Rightarrow> word_fib_encrypted (head f e 12))"

definition workbook_encrypted :: "cfb_file \<Rightarrow> cfb_entry list \<Rightarrow> string \<Rightarrow> bool" where
  "workbook_encrypted f root name =
     (case stream_named root name of None \<Rightarrow> False
      | Some e \<Rightarrow> biff_filepass (head f e 4096))"

definition slides_encrypted :: "cfb_file \<Rightarrow> cfb_entry list \<Rightarrow> bool" where
  "slides_encrypted f root =
     (stream_named root ''PowerPoint Document'' \<noteq> None
      \<and> (case stream_named root ''Current User'' of None \<Rightarrow> False
         | Some e \<Rightarrow> powerpoint_encrypted (head f e 16)))"

definition encrypted_office_document :: "string \<Rightarrow> encrypted_document option" where
  "encrypted_office_document bytes =
     (let f = open_file bytes in
      if \<not> f_ok f then None
      else
        let root = root_children f in
        if package_encrypted root
        then Some \<lparr>d_format = ''Office Open XML package'',
                   d_evidence = ''EncryptedPackage stream under the root''\<rparr>
        else if word_encrypted f root
        then Some \<lparr>d_format = ''Word document'',
                   d_evidence = ''fEncrypted set in the WordDocument FIB''\<rparr>
        else
          case List.find (workbook_encrypted f root) [''Workbook'', ''Book''] of
            Some name \<Rightarrow> Some \<lparr>d_format = ''Excel workbook'',
                              d_evidence = ''FILEPASS record in the '' @ name @ '' stream''\<rparr>
          | None \<Rightarrow>
              if slides_encrypted f root
              then Some \<lparr>d_format = ''PowerPoint presentation'',
                         d_evidence = ''encrypted header token in the Current User stream''\<rparr>
              else None)"

definition kEncryptedOfficePackageMimetype :: string where
  "kEncryptedOfficePackageMimetype = ''application/x-tika-ooxml-protected''"

definition ole_office_mimetype :: "string \<Rightarrow> string" where
  "ole_office_mimetype bytes =
     (let f = open_file bytes in
      if \<not> f_ok f then []
      else
        let root = root_children f in
        if stream_named root ''EncryptedPackage'' \<noteq> None then kEncryptedOfficePackageMimetype
        else if stream_named root ''WordDocument'' \<noteq> None then ''application/msword''
        else if stream_named root ''Workbook'' \<noteq> None \<or> stream_named root ''Book'' \<noteq> None
        then ''application/vnd.ms-excel''
        else if stream_named root ''PowerPoint Document'' \<noteq> None
        then ''application/vnd.ms-powerpoint''
        else [])"

subsection \<open>Chains stay inside the file\<close>

lemma chain_from_bounds:
  "length (chain_from f n sid) \<le> n \<and> (\<forall>i\<in>set (chain_from f n sid). i < length (f_fat f) \<and> i \<le> kMaxRegularSector)"
  by (induction f n sid rule: chain_from.induct) auto

text \<open>Consecutive ids of a chain are linked through the FAT.\<close>

lemma chain_from_linked:
  "Suc k < length (chain_from f n sid) \<Longrightarrow>
     chain_from f n sid ! Suc k = f_fat f ! (chain_from f n sid ! k)"
proof (induction f n sid arbitrary: k rule: chain_from.induct)
  case (2 f n sid)
  show ?case
  proof (cases k)
    case 0
    with 2 show ?thesis by (cases n) (auto split: if_splits)
  next
    case (Suc j)
    with 2 show ?thesis by (auto split: if_splits)
  qed
qed simp

lemma chain_from_starts: "chain_from f n sid \<noteq> [] \<Longrightarrow> hd (chain_from f n sid) = sid"
  by (cases n) (auto split: if_splits)

text \<open>A chain shorter than its cap ended where the FAT says it ends.\<close>

lemma chain_from_ends:
  "length (chain_from f n sid) < n \<Longrightarrow> chain_from f n sid \<noteq> [] \<Longrightarrow>
     (let next_id = f_fat f ! last (chain_from f n sid)
      in next_id > kMaxRegularSector \<or> next_id \<ge> length (f_fat f))"
proof (induction f n sid rule: chain_from.induct)
  case (2 f n sid)
  show ?case
  proof (cases "chain_from f n (f_fat f ! sid) = []")
    case True
    with 2 show ?thesis by (cases n) (auto split: if_splits)
  next
    case False
    with 2 show ?thesis by (auto split: if_splits)
  qed
qed simp

text \<open>
  Walking a sector chain always ends inside the file, whatever the FAT
  holds: a chain has at most as many ids as the file has sectors, every id is
  a regular sector the FAT has an entry for, the ids follow the FAT from the
  start, and a chain that did not hit the cap stopped at an end marker or a
  sector outside the FAT.
\<close>

theorem chain_follows_fat:
  "length (chain f start) \<le> f_sector_count f
   \<and> (\<forall>i\<in>set (chain f start). i < length (f_fat f) \<and> i \<le> kMaxRegularSector)
   \<and> (\<forall>k. Suc k < length (chain f start) \<longrightarrow> chain f start ! Suc k = f_fat f ! (chain f start ! k))
   \<and> (chain f start \<noteq> [] \<longrightarrow> hd (chain f start) = start
        \<and> (length (chain f start) < f_sector_count f \<longrightarrow>
             f_fat f ! last (chain f start) > kMaxRegularSector
             \<or> f_fat f ! last (chain f start) \<ge> length (f_fat f)))"
  unfolding chain_def
  using chain_from_bounds [of f "f_sector_count f" start]
    chain_from_linked [of _ f "f_sector_count f" start]
    chain_from_starts [of f "f_sector_count f" start] chain_from_ends [of f "f_sector_count f" start]
  by (auto simp: Let_def)

lemma chain_from_numeral [simp]:
  "chain_from f (numeral v) sid =
     (if sid \<le> kMaxRegularSector
      then if sid \<ge> length (f_fat f) then [] else sid # chain_from f (pred_numeral v) (f_fat f ! sid)
      else [])"
  by (simp add: numeral_eq_Suc)

definition looping_file :: cfb_file where
  "looping_file = (new_file [])\<lparr>f_sector_count := 5, f_fat := [1, 2, 0]\<rparr>"

theorem chain_follows_fat_witness:
  "chain looping_file 1 = [1, 2, 0, 1, 2] \<and> length (chain looping_file 1) \<le> 5"
  using chain_follows_fat [of looping_file 1]
  by (simp add: chain_def looping_file_def new_file_def kMaxRegularSector_def)

subsection \<open>The head of a stream is a prefix of its content\<close>

definition stream_content :: "cfb_file \<Rightarrow> nat list \<Rightarrow> string" where
  "stream_content f ids = concat (takeWhile (\<lambda>s. s \<noteq> []) (map (sector_bytes f) ids))"

lemma regular_head_content:
  "length out < wanted \<Longrightarrow>
     regular_head f wanted ids out = out @ take (wanted - length out) (stream_content f ids)"
proof (induction f wanted ids out rule: regular_head.induct)
  case (2 f wanted sid ids out)
  let ?s = "sector_bytes f sid"
  show ?case
  proof (cases "?s = []")
    case False
    have cut: "substr ?s 0 (min (length ?s) (wanted - length out)) = take (wanted - length out) ?s"
      by (simp add: substr_def min_def)
    show ?thesis
    proof (cases "length out + length ?s < wanted")
      case True
      with False cut 2 show ?thesis by (simp add: stream_content_def Let_def)
    next
      case False
      with \<open>?s \<noteq> []\<close> cut 2 show ?thesis by (simp add: stream_content_def Let_def)
    qed
  qed (simp add: stream_content_def)
qed (simp add: stream_content_def)

text \<open>The 64-byte mini sectors a mini chain reaches, without any limit on bytes.\<close>

fun mini_sectors :: "cfb_file \<Rightarrow> nat \<Rightarrow> nat \<Rightarrow> string list" where
  "mini_sectors f 0 mini = []"
| "mini_sectors f (Suc steps) mini =
     (let offset = mini * kMiniBytes;
          index = offset div f_sector_bytes f;
          within = offset mod f_sector_bytes f;
          sector = sector_bytes f (f_mini_stream f ! index)
      in if mini > kMaxRegularSector \<or> offset + kMiniBytes > f_mini_stream_bytes f
            \<or> index \<ge> length (f_mini_stream f) \<or> length sector < within + kMiniBytes
         then []
         else substr sector within kMiniBytes
              # (if mini \<ge> length (f_mini_fat f) then []
                 else mini_sectors f steps (f_mini_fat f ! mini)))"

lemma mini_sectors_length: "s \<in> set (mini_sectors f n mini) \<Longrightarrow> length s = kMiniBytes"
  by (induction f n mini rule: mini_sectors.induct) (auto simp: Let_def substr_def split: if_splits)

lemma substr_min: "substr s a (min k n) = take n (substr s a k)"
  by (simp add: substr_def min.commute)

lemma mini_head_content:
  "length out \<le> wanted \<Longrightarrow>
     mini_head f wanted n mini out = out @ take (wanted - length out) (concat (mini_sectors f n mini))"
proof (induction f wanted n mini out rule: mini_head.induct)
  case (2 f wanted n mini out)
  show ?case
  proof (cases "mini \<le> kMaxRegularSector \<and> length out < wanted
      \<and> mini * kMiniBytes + kMiniBytes \<le> f_mini_stream_bytes f
      \<and> mini * kMiniBytes div f_sector_bytes f < length (f_mini_stream f)
      \<and> mini * kMiniBytes mod f_sector_bytes f + kMiniBytes
          \<le> length (sector_bytes f (f_mini_stream f ! (mini * kMiniBytes div f_sector_bytes f)))")
    case False
    then show ?thesis using 2(2) by (auto simp: Let_def not_less not_le)
  next
    case True
    let ?chunk = "substr (sector_bytes f (f_mini_stream f ! (mini * kMiniBytes div f_sector_bytes f)))
        (mini * kMiniBytes mod f_sector_bytes f) kMiniBytes"
    let ?out = "out @ take (wanted - length out) ?chunk"
    have "length ?out \<le> length out + (wanted - length out)"
      by (simp del: add_diff_inverse_nat)
    with True have "length ?out \<le> wanted" by linarith
    moreover have "wanted - length ?out = wanted - length out - length ?chunk"
      by (simp add: min_def)
    ultimately have IH: "mini < length (f_mini_fat f) \<Longrightarrow>
      mini_head f wanted n (f_mini_fat f ! mini) ?out
        = ?out @ take (wanted - length out - length ?chunk) (concat (mini_sectors f n (f_mini_fat f ! mini)))"
      using 2(1) [OF _ refl _ refl _ refl refl] True
      by (simp add: substr_min not_less del: length_take length_append diff_diff_left)
    show ?thesis using True IH
      by (cases "mini < length (f_mini_fat f)") (simp_all add: Let_def substr_min not_less)
  qed
qed simp

lemma cut_length: "length (if c then take n s else []) \<le> n"
  by simp

text \<open>
  C6. What \<open>head\<close> returns is the first \<open>limit\<close> bytes of the stream: the
  prefix, cut at the stream's size, of the content its chain reaches. The two
  loops that stop early give the same bytes as reading the whole chain; no
  stream yields more bytes than it declares or than was asked for.
\<close>

theorem head_is_prefix:
  "head f stream limit =
     (if f_ok f \<and> e_type stream = kStreamObject
      then take (min (e_size stream) limit)
             (if e_size stream < f_mini_cutoff f
              then concat (mini_sectors f (length (f_mini_fat f)) (e_start stream))
              else stream_content f (chain f (e_start stream)))
      else [])
   \<and> length (head f stream limit) \<le> min (e_size stream) limit"
proof -
  have eq: "head f stream limit =
     (if f_ok f \<and> e_type stream = kStreamObject
      then take (min (e_size stream) limit)
             (if e_size stream < f_mini_cutoff f
              then concat (mini_sectors f (length (f_mini_fat f)) (e_start stream))
              else stream_content f (chain f (e_start stream)))
      else [])"
    by (simp add: head_def Let_def regular_head_content mini_head_content)
  show ?thesis by (rule conjI [OF eq]) (subst eq, rule cut_length)
qed


subsection \<open>The directory walk lists the tree under the root\<close>

declare walk.simps(2) [simp del]

lemma walk_bound: "length (walk f c pending visited cs) \<le> length cs + (c - visited)"
proof (induction f c pending visited cs rule: walk.induct)
  case (2 f c sid pending visited cs)
  then show ?case
    by (cases "entry f sid") (auto simp: walk.simps(2) [of f c sid pending visited cs])
qed simp

text \<open>\<open>entry_tree f sid t\<close>: the left and right links from \<open>sid\<close> form the finite tree \<open>t\<close>.\<close>

inductive entry_tree :: "cfb_file \<Rightarrow> nat \<Rightarrow> cfb_entry tree \<Rightarrow> bool" for f where
  no_stream: "entry_tree f kNoStream Leaf"
| unreadable: "sid \<noteq> kNoStream \<Longrightarrow> entry f sid = None \<Longrightarrow> entry_tree f sid Leaf"
| readable: "sid \<noteq> kNoStream \<Longrightarrow> entry f sid = Some e \<Longrightarrow> entry_tree f (e_left e) l \<Longrightarrow>
     entry_tree f (e_right e) r \<Longrightarrow> entry_tree f sid (Node l e r)"

inductive_cases entry_tree_LeafE: "entry_tree f sid Leaf"
inductive_cases entry_tree_NodeE: "entry_tree f sid (Node l e r)"

text \<open>Pre-order with the right subtree first: the stack pops the right child first.\<close>

fun preorder_right :: "'a tree \<Rightarrow> 'a list" where
  "preorder_right Leaf = []"
| "preorder_right (Node l e r) = e # preorder_right r @ preorder_right l"

lemma set_preorder_right: "set (preorder_right t) = set_tree t"
  by (induction t) auto

lemma length_preorder_right: "length (preorder_right t) = size t"
  by (induction t) auto

text \<open>A stack of links, each over its tree; the walk empties it without meeting the cap.\<close>

lemma walk_trees:
  assumes "list_all2 (entry_tree f) pending ts"
    and "visited + sum_list (map size ts) \<le> c"
  shows "walk f c pending visited cs = cs @ concat (map preorder_right ts)"
  using assms
proof (induction f c pending visited cs arbitrary: ts rule: walk.induct)
  case (2 f c sid pending visited cs)
  note step = walk.simps(2) [of f c _ pending visited cs]
  have full: "concat (map preorder_right us) = []" if "sum_list (map size us) = 0" for us :: "cfb_entry tree list"
  proof -
    have "\<forall>t\<in>set us. t = Leaf" using that by (auto simp: sum_list_eq_0_iff)
    then show ?thesis by (auto simp: concat_eq_Nil_conv)
  qed
  from 2(4) obtain t us where ts: "ts = t # us" "entry_tree f sid t" "list_all2 (entry_tree f) pending us"
    by (auto simp: list_all2_Cons1)
  from ts(2) show ?case
  proof cases
    case no_stream
    then show ?thesis
    proof (cases "visited < c")
      case True
      then show ?thesis using 2(1) [OF True] no_stream ts 2(5) by (simp add: step)
    next
      case False
      have "visited + sum_list (map size us) \<le> c" using 2(5) ts no_stream by simp
      with False have "sum_list (map size us) = 0" by linarith
      from full [OF this] False no_stream ts show ?thesis by (simp add: step)
    qed
  next
    case unreadable
    then show ?thesis
    proof (cases "visited < c")
      case True
      then show ?thesis using 2(2) [OF True] unreadable ts 2(5) by (simp add: step)
    next
      case False
      have "visited + sum_list (map size us) \<le> c" using 2(5) ts unreadable by simp
      with False have "sum_list (map size us) = 0" by linarith
      from full [OF this] False unreadable ts show ?thesis by (simp add: step)
    qed
  next
    case (readable e l r)
    then have "visited < c" using 2(5) ts by simp
    then show ?thesis
      using 2(3) [of e "r # l # us"] readable ts 2(5) by (simp add: step)
  qed
qed simp

text \<open>
  C7. The directory walk never returns more entries than the directory has
  room for, and when the links under the root form a tree that fits, it
  returns exactly that tree's entries, each once: no entry is lost and none is
  listed twice.
\<close>

theorem root_children_lists_tree:
  "length (root_children f) \<le> length (f_directory f) * (f_sector_bytes f div kDirectoryEntryBytes)
   \<and> (\<forall>t. f_ok f \<and> entry_tree f (e_child (f_root f)) t
          \<and> size t \<le> length (f_directory f) * (f_sector_bytes f div kDirectoryEntryBytes)
        \<longrightarrow> root_children f = preorder_right t \<and> set (root_children f) = set_tree t
            \<and> length (root_children f) = size t)"
proof (intro conjI allI impI)
  show "length (root_children f) \<le> length (f_directory f) * (f_sector_bytes f div kDirectoryEntryBytes)"
    using walk_bound [of f _ "[e_child (f_root f)]" 0 "[]"]
    by (simp add: root_children_def Let_def del: walk.simps)
next
  fix t
  assume t: "f_ok f \<and> entry_tree f (e_child (f_root f)) t
      \<and> size t \<le> length (f_directory f) * (f_sector_bytes f div kDirectoryEntryBytes)"
  then show eq: "root_children f = preorder_right t"
    using walk_trees [of f "[e_child (f_root f)]" "[t]" 0 _ "[]"] by (simp add: root_children_def Let_def del: walk.simps)
  show "set (root_children f) = set_tree t" "length (root_children f) = size t"
    by (simp_all add: eq set_preorder_right length_preorder_right)
qed

definition one_entry_sector :: string where
  "one_entry_sector = replicate 68 (CHR 0x00) @ replicate 8 (CHR 0xFF) @ replicate 436 (CHR 0x00)"

definition one_entry_file :: cfb_file where
  "one_entry_file = (new_file (replicate 512 (CHR 0x00) @ one_entry_sector))
     \<lparr>f_ok := True, f_directory := [0], f_root := empty_entry\<lparr>e_child := 0\<rparr>\<rparr>"

lemma one_entry_bytes: "sector_bytes one_entry_file 0 = one_entry_sector"
  by (simp add: sector_bytes_def one_entry_file_def new_file_def kMaxRegularSector_def
      one_entry_sector_def substr_def)

lemma byte_val_ends: "byte_val (CHR 0x00) = 0" "byte_val (CHR 0xFF) = 255"
  by (simp_all add: byte_val_def)

lemma one_entry_fields:
  "u32 (take 128 one_entry_sector) 68 = kNoStream" "u32 (take 128 one_entry_sector) 72 = kNoStream"
  by (simp_all add: u32_def u16_def one_entry_sector_def nth_append byte_val_ends kNoStream_def)

lemma one_entry: "\<exists>e. entry one_entry_file 0 = Some e \<and> e_left e = kNoStream \<and> e_right e = kNoStream"
proof -
  have "one_entry_sector \<noteq> []" by (simp add: one_entry_sector_def)
  moreover have "f_directory one_entry_file = [0]" "f_sector_bytes one_entry_file = 512"
    by (simp_all add: one_entry_file_def new_file_def)
  ultimately show ?thesis
    by (simp add: entry_def one_entry_bytes Let_def substr_def one_entry_fields kDirectoryEntryBytes_def)
qed

theorem root_children_lists_tree_witness:
  "length (root_children one_entry_file) = 1"
proof -
  obtain e where e: "entry one_entry_file 0 = Some e" "e_left e = kNoStream" "e_right e = kNoStream"
    using one_entry by blast
  have "entry_tree one_entry_file 0 (Node Leaf e Leaf)"
    by (rule readable [OF _ e(1)]) (simp_all add: e(2,3) no_stream, simp add: kNoStream_def)
  then show ?thesis
    using root_children_lists_tree [of one_entry_file]
    by (auto simp: one_entry_file_def new_file_def kDirectoryEntryBytes_def)
qed

subsection \<open>Encrypted documents and their type\<close>

lemma workbook_named: "workbook_encrypted f root name \<Longrightarrow> stream_named root name \<noteq> None"
  by (auto simp: workbook_encrypted_def split: option.splits)

text \<open>
  The encryption probe and the type agree on every body: the type that
  says "encrypted Open XML package" is given exactly to what the probe calls
  one, and every other document the probe calls encrypted has one of the three
  binary Office types (an encrypted Word document the Word type), so an
  encrypted document is never handed on as an unknown compound file.
\<close>

theorem encrypted_documents_are_typed:
  "case encrypted_office_document bytes of
     None \<Rightarrow> ole_office_mimetype bytes \<noteq> kEncryptedOfficePackageMimetype
   | Some d \<Rightarrow>
       if d_format d = ''Office Open XML package''
       then ole_office_mimetype bytes = kEncryptedOfficePackageMimetype
       else if d_format d = ''Word document''
       then ole_office_mimetype bytes = ''application/msword''
       else ole_office_mimetype bytes \<in>
         {''application/msword'', ''application/vnd.ms-excel'', ''application/vnd.ms-powerpoint''}"
proof (cases "f_ok (open_file bytes)")
  case True
  let ?f = "open_file bytes" and ?root = "root_children (open_file bytes)"
  consider (package) "package_encrypted ?root"
    | (word) "\<not> package_encrypted ?root" "word_encrypted ?f ?root"
    | (book) name where "\<not> package_encrypted ?root" "\<not> word_encrypted ?f ?root"
        "List.find (workbook_encrypted ?f ?root) [''Workbook'', ''Book''] = Some name"
    | (slides) "\<not> package_encrypted ?root" "\<not> word_encrypted ?f ?root"
        "List.find (workbook_encrypted ?f ?root) [''Workbook'', ''Book''] = None" "slides_encrypted ?f ?root"
    | (plain) "\<not> package_encrypted ?root" "\<not> word_encrypted ?f ?root"
        "List.find (workbook_encrypted ?f ?root) [''Workbook'', ''Book''] = None" "\<not> slides_encrypted ?f ?root"
    by (cases "List.find (workbook_encrypted ?f ?root) [''Workbook'', ''Book'']") blast+
  then show ?thesis
  proof cases
    case package
    then show ?thesis
      using True by (simp add: encrypted_office_document_def ole_office_mimetype_def package_encrypted_def Let_def)
  next
    case word
    then have "stream_named ?root ''WordDocument'' \<noteq> None"
      by (auto simp: word_encrypted_def split: option.splits)
    with word True show ?thesis
      by (simp add: encrypted_office_document_def ole_office_mimetype_def package_encrypted_def Let_def)
  next
    case book
    then have "stream_named ?root ''Workbook'' \<noteq> None \<or> stream_named ?root ''Book'' \<noteq> None"
      by (auto split: if_splits dest: workbook_named)
    with book True show ?thesis
      by (simp add: encrypted_office_document_def ole_office_mimetype_def package_encrypted_def Let_def)
  next
    case slides
    then have "stream_named ?root ''PowerPoint Document'' \<noteq> None"
      by (simp add: slides_encrypted_def)
    with slides True show ?thesis
      by (simp add: encrypted_office_document_def ole_office_mimetype_def package_encrypted_def Let_def)
  next
    case plain
    with True show ?thesis
      by (simp add: encrypted_office_document_def ole_office_mimetype_def package_encrypted_def Let_def
          kEncryptedOfficePackageMimetype_def)
  qed
next
  case False
  then show ?thesis
    by (simp add: encrypted_office_document_def ole_office_mimetype_def kEncryptedOfficePackageMimetype_def)
qed

end
