(* ===== verification/ContentSniff.thy ===== *)
theory ContentSniff
  imports TextProbe ZipArchive CompoundFile
begin

text \<open>
  The content sniffer (\<^verbatim>\<open>src/src/content_sniff.cpp\<close>) above its probes: the
  zip container scan, the ladder of binary signatures, the type a file name
  claims, and \<^verbatim>\<open>resolve_mimetype\<close>, which ranks declaration, bytes and name.
  A \<^verbatim>\<open>std::filesystem::path\<close> is its POSIX string; \<open>path_extension\<close> writes out
  what \<^verbatim>\<open>path::extension\<close> returns for one.
\<close>

subsection \<open>Zip containers\<close>

definition kZipDirectoryBytes :: nat where "kZipDirectoryBytes = 65536"

definition rstrip_space :: "string \<Rightarrow> string" where
  "rstrip_space s = rev (dropWhile c_isspace (rev s))"

definition zip_mimetype_entry :: "string \<Rightarrow> string" where
  "zip_mimetype_entry bytes =
     (if length bytes < 30 then []
      else
        let method_id = le16 bytes 8; nbytes = le32 bytes 18;
            name_length = le16 bytes 26; extra_length = le16 bytes 28
        in if method_id \<noteq> 0 \<or> name_length \<noteq> 8 \<or> nbytes = 0 \<or> nbytes > 256 then []
           else
             let data_at = 30 + name_length + extra_length in
             if length bytes < data_at + nbytes then []
             else if substr bytes 30 8 \<noteq> ''mimetype'' then []
             else
               let mime = rstrip_space (substr bytes data_at nbytes)
               in if list_ex (\<lambda>c. \<not> c_isprint c) mime then [] else mime)"

definition zip_names_entry :: "string \<Rightarrow> string list option \<Rightarrow> string \<Rightarrow> bool" where
  "zip_names_entry bytes names part =
     (case names of
        Some ns \<Rightarrow> list_ex (\<lambda>name. starts_with name part) ns
      | None \<Rightarrow>
          if sfind part (take kZipDirectoryBytes bytes) \<noteq> None then True
          else if length bytes \<le> kZipDirectoryBytes then False
          else sfind part (drop (length bytes - kZipDirectoryBytes) bytes) \<noteq> None)"

definition sniff_zip :: "string \<Rightarrow> string" where
  "sniff_zip bytes =
     (let mime = zip_mimetype_entry bytes in
      if mime \<noteq> [] then mime
      else
        let names = zip_central_names bytes;
            names_entry = zip_names_entry bytes names
        in if names_entry ''word/document.xml''
           then ''application/vnd.openxmlformats-officedocument.wordprocessingml.document''
           else if names_entry ''xl/workbook.xml''
           then ''application/vnd.openxmlformats-officedocument.spreadsheetml.sheet''
           else if names_entry ''ppt/presentation.xml''
           then ''application/vnd.openxmlformats-officedocument.presentationml.presentation''
           else if names_entry ''META-INF/container.xml'' then ''application/epub+zip''
           else if names_entry ''Index/Document.iwa''
                   \<and> (names_entry ''Index/MasterSlide'' \<or> names_entry ''Index/Slide'')
           then ''application/vnd.apple.keynote''
           else ''application/zip'')"

subsection \<open>The ladder of binary signatures\<close>

record binary_signature =
  magic :: string
  sig_offset :: nat
  sig_mimetype :: string
  also_holds :: "(string \<Rightarrow> bool) option"
  narrow :: "(string \<Rightarrow> string) option"

definition riff_container :: "string \<Rightarrow> bool" where
  "riff_container bytes = starts_with bytes ''RIFF''"

definition bitmap_header_complete :: "string \<Rightarrow> bool" where
  "bitmap_header_complete bytes = (length bytes \<ge> 14)"

definition plain_signature :: "string \<Rightarrow> string \<Rightarrow> binary_signature" where
  "plain_signature m t = \<lparr>magic = m, sig_offset = 0, sig_mimetype = t, also_holds = None, narrow = None\<rparr>"

definition kBinarySignatures :: "binary_signature list" where
  "kBinarySignatures =
    [(plain_signature (''PK'' @ [CHR 0x03, CHR 0x04]) ''application/zip'')\<lparr>narrow := Some sniff_zip\<rparr>,
     plain_signature ''%PDF-'' ''application/pdf'',
     plain_signature ([CHR 0x89] @ ''PNG'' @ [CHR 0x0D, CHR 0x0A, CHR 0x1A, CHR 0x0A]) ''image/png'',
     plain_signature [CHR 0xFF, CHR 0xD8, CHR 0xFF] ''image/jpeg'',
     plain_signature ''GIF87a'' ''image/gif'',
     plain_signature ''GIF89a'' ''image/gif'',
     plain_signature (''II*'' @ [CHR 0x00]) ''image/tiff'',
     plain_signature (''MM'' @ [CHR 0x00] @ ''*'') ''image/tiff'',
     (plain_signature ''WEBP'' ''image/webp'')\<lparr>sig_offset := 8, also_holds := Some riff_container\<rparr>,
     (plain_signature ''BM'' ''image/bmp'')\<lparr>also_holds := Some bitmap_header_complete\<rparr>,
     plain_signature [CHR 0x1F, CHR 0x8B] ''application/gzip'',
     plain_signature ''WARC/'' ''application/warc'',
     plain_signature (CHR 0x7B # CHR 0x5C # ''rtf'') ''application/rtf'',
     plain_signature ''%!PS'' ''application/postscript'']"

definition signature_present :: "binary_signature \<Rightarrow> string \<Rightarrow> bool" where
  "signature_present s bytes =
     (if length bytes < sig_offset s + length (magic s) then False
      else if substr bytes (sig_offset s) (length (magic s)) \<noteq> magic s then False
      else (case also_holds s of None \<Rightarrow> True | Some p \<Rightarrow> p bytes))"

fun binary_ladder :: "binary_signature list \<Rightarrow> string \<Rightarrow> string" where
  "binary_ladder [] bytes = []"
| "binary_ladder (s # rows) bytes =
     (if \<not> signature_present s bytes then binary_ladder rows bytes
      else (case narrow s of
              None \<Rightarrow> sig_mimetype s
            | Some f \<Rightarrow> if f bytes \<noteq> [] then f bytes else sig_mimetype s))"

definition sniff_binary :: "string \<Rightarrow> string" where
  "sniff_binary bytes = binary_ladder kBinarySignatures bytes"

definition sniff_mimetype :: "string \<Rightarrow> string" where
  "sniff_mimetype bytes =
     (if bytes = [] then []
      else if sniff_binary bytes \<noteq> [] then sniff_binary bytes
      else if starts_with bytes kSignature then ole_office_mimetype bytes
      else sniff_text bytes)"

subsection \<open>The name's claim\<close>

text \<open>
  \<^verbatim>\<open>path::extension\<close>: of the component after the last slash, the part from its
  last dot; nothing for a component without a dot, one whose only dot leads it,
  and for \<^verbatim>\<open>.\<close> and \<^verbatim>\<open>..\<close>.
\<close>

definition path_filename :: "string \<Rightarrow> string" where
  "path_filename p = rev (takeWhile (\<lambda>c. c \<noteq> CHR ''/'') (rev p))"

definition path_extension :: "string \<Rightarrow> string" where
  "path_extension p =
     (let name = path_filename p;
          tail = rev (takeWhile (\<lambda>c. c \<noteq> CHR ''.'') (rev name))
      in if CHR ''.'' \<notin> set name \<or> name = ''..'' \<or> length tail + 1 = length name then []
         else CHR ''.'' # tail)"

definition kByExtension :: "(string \<times> string) list" where
  "kByExtension =
    [(''.pdf'', ''application/pdf''),
     (''.jpg'', ''image/jpeg''),
     (''.jpeg'', ''image/jpeg''),
     (''.tif'', ''image/tiff''),
     (''.tiff'', ''image/tiff''),
     (''.png'', ''image/png''),
     (''.gif'', ''image/gif''),
     (''.webp'', ''image/webp''),
     (''.bmp'', ''image/bmp''),
     (''.docx'', ''application/vnd.openxmlformats-officedocument.wordprocessingml.document''),
     (''.xlsx'', ''application/vnd.openxmlformats-officedocument.spreadsheetml.sheet''),
     (''.pptx'', ''application/vnd.openxmlformats-officedocument.presentationml.presentation''),
     (''.odt'', ''application/vnd.oasis.opendocument.text''),
     (''.ods'', ''application/vnd.oasis.opendocument.spreadsheet''),
     (''.odp'', ''application/vnd.oasis.opendocument.presentation''),
     (''.doc'', ''application/msword''),
     (''.xls'', ''application/vnd.ms-excel''),
     (''.ppt'', ''application/vnd.ms-powerpoint''),
     (''.csv'', ''text/csv''),
     (''.rtf'', ''application/rtf''),
     (''.epub'', ''application/epub+zip''),
     (''.eml'', ''message/rfc822''),
     (''.msg'', ''application/vnd.ms-outlook''),
     (''.mht'', ''application/x-mimearchive''),
     (''.mhtml'', ''application/x-mimearchive''),
     (''.pages'', ''application/vnd.apple.pages''),
     (''.numbers'', ''application/vnd.apple.numbers''),
     (''.key'', ''application/vnd.apple.keynote''),
     (''.afp'', ''application/x-afp''),
     (''.xml'', ''application/xml''),
     (''.nxml'', ''application/xml''),
     (''.xbrl'', ''application/xml''),
     (''.html'', ''text/html''),
     (''.htm'', ''text/html''),
     (''.xhtml'', ''application/xhtml+xml''),
     (''.md'', ''text/markdown''),
     (''.markdown'', ''text/markdown''),
     (''.txt'', ''text/plain''),
     (''.json'', ''application/json''),
     (''.warc'', ''application/warc''),
     (''.mp3'', ''audio/mpeg''),
     (''.wav'', ''audio/wav''),
     (''.m4a'', ''audio/mp4''),
     (''.flac'', ''audio/flac''),
     (''.ogg'', ''audio/ogg''),
     (''.oga'', ''audio/ogg''),
     (''.opus'', ''audio/ogg''),
     (''.mp4'', ''video/mp4''),
     (''.m4v'', ''video/mp4''),
     (''.mkv'', ''video/x-matroska''),
     (''.webm'', ''video/webm''),
     (''.mov'', ''video/quicktime'')]"

definition kOctetStream :: string where "kOctetStream = ''application/octet-stream''"

definition extension_mimetype :: "string \<Rightarrow> string" where
  "extension_mimetype filename =
     (if confluence_storage_format filename [] then kConfluenceStorageMimetype
      else
        let extension = map c_tolower (path_extension filename)
        in case map_of kByExtension extension of
             Some t \<Rightarrow> t
           | None \<Rightarrow> kOctetStream)"

subsection \<open>Resolution\<close>

record mimetype_resolution =
  mimetype :: string
  evidence :: string

definition declared_type :: "string \<Rightarrow> string" where
  "declared_type declared_content_type =
     rstrip_space
       (case sfind '';'' declared_content_type of
          None \<Rightarrow> declared_content_type
        | Some semicolon \<Rightarrow> take semicolon declared_content_type)"

definition resolve_mimetype :: "string \<Rightarrow> string \<Rightarrow> string \<Rightarrow> mimetype_resolution" where
  "resolve_mimetype declared_content_type bytes filename =
     (let declared = declared_type declared_content_type in
      if declared \<noteq> [] \<and> declared \<noteq> kOctetStream
      then \<lparr>mimetype = declared, evidence = ''declared''\<rparr>
      else if confluence_storage_format filename []
      then \<lparr>mimetype = kConfluenceStorageMimetype, evidence = ''extension''\<rparr>
      else
        let sniffed = sniff_mimetype bytes;
            by_name = extension_mimetype filename
        in if sniffed = ''text/plain'' \<and> by_name \<noteq> kOctetStream \<and> by_name \<noteq> ''text/plain''
              \<and> starts_with by_name ''text/''
           then \<lparr>mimetype = by_name, evidence = ''extension''\<rparr>
           else if sniffed = ''text/csv'' \<and> starts_with by_name ''text/''
           then \<lparr>mimetype = by_name, evidence = ''extension''\<rparr>
           else if sniffed = ''application/zip'' \<and> starts_with by_name ''application/vnd.apple.''
           then \<lparr>mimetype = by_name, evidence = ''extension''\<rparr>
           else if sniffed = kEncryptedOfficePackageMimetype \<and> contains by_name ''openxmlformats''
           then \<lparr>mimetype = by_name, evidence = ''extension''\<rparr>
           else if sniffed \<noteq> [] then \<lparr>mimetype = sniffed, evidence = ''magic''\<rparr>
           else if by_name \<noteq> kOctetStream then \<lparr>mimetype = by_name, evidence = ''extension''\<rparr>
           else \<lparr>mimetype = kOctetStream, evidence = ''fallback''\<rparr>)"

subsection \<open>Every resolution names a type\<close>

lemma extension_types_nonempty: "\<forall>t\<in>snd ` set kByExtension. t \<noteq> [] \<and> t \<noteq> kOctetStream"
  by (simp add: kByExtension_def kOctetStream_def)

lemma extension_mimetype_nonempty: "extension_mimetype filename \<noteq> []"
proof -
  have "map_of kByExtension e = Some t \<Longrightarrow> t \<noteq> []" for e t
    using extension_types_nonempty map_of_SomeD [of kByExtension e t] by force
  then show ?thesis
    by (auto simp: extension_mimetype_def kConfluenceStorageMimetype_def kOctetStream_def
        split: option.split)
qed

text \<open>The four cases in which the name outranks the bytes.\<close>

definition name_outranks :: "string \<Rightarrow> string \<Rightarrow> bool" where
  "name_outranks sniffed by_name =
     (sniffed = ''text/plain'' \<and> by_name \<noteq> kOctetStream \<and> by_name \<noteq> ''text/plain''
        \<and> starts_with by_name ''text/''
      \<or> sniffed = ''text/csv'' \<and> starts_with by_name ''text/''
      \<or> sniffed = ''application/zip'' \<and> starts_with by_name ''application/vnd.apple.''
      \<or> sniffed = kEncryptedOfficePackageMimetype \<and> contains by_name ''openxmlformats'')"

lemma if_four:
  "(if a then x else if b then x else if c then x else if d then x else y)
     = (if a \<or> b \<or> c \<or> d then x else y)"
  by simp

lemma name_outranks_sniffed: "name_outranks sniffed by_name \<Longrightarrow> sniffed \<noteq> []"
  by (auto simp: name_outranks_def kEncryptedOfficePackageMimetype_def)

text \<open>
  A resolution always names a type, and its evidence says truthfully where
  the type came from: a usable declaration is taken as it stands whatever the
  bytes say; without one the type is the bytes' or the name's, as the evidence
  says; and the octet-stream fallback is used exactly when there is no
  declaration and neither the bytes nor the name says anything.
\<close>

theorem resolve_mimetype_evidence:
  "mimetype (resolve_mimetype declared bytes name) \<noteq> []
   \<and> (evidence (resolve_mimetype declared bytes name) = ''declared''
        \<longleftrightarrow> declared_type declared \<noteq> [] \<and> declared_type declared \<noteq> kOctetStream)
   \<and> (evidence (resolve_mimetype declared bytes name) = ''fallback''
        \<longleftrightarrow> (declared_type declared = [] \<or> declared_type declared = kOctetStream)
            \<and> sniff_mimetype bytes = [] \<and> extension_mimetype name = kOctetStream)
   \<and> mimetype (resolve_mimetype declared bytes name)
      = (if evidence (resolve_mimetype declared bytes name) = ''declared'' then declared_type declared
         else if evidence (resolve_mimetype declared bytes name) = ''magic'' then sniff_mimetype bytes
         else if evidence (resolve_mimetype declared bytes name) = ''extension'' then extension_mimetype name
         else kOctetStream)"
proof (cases "declared_type declared \<noteq> [] \<and> declared_type declared \<noteq> kOctetStream")
  case True
  then show ?thesis by (simp add: resolve_mimetype_def Let_def)
next
  case undeclared: False
  have oct: "kOctetStream \<noteq> []" "kConfluenceStorageMimetype \<noteq> []" "kConfluenceStorageMimetype \<noteq> kOctetStream"
    by (simp_all add: kOctetStream_def kConfluenceStorageMimetype_def)
  show ?thesis
  proof (cases "confluence_storage_format name []")
    case True
    then have "extension_mimetype name = kConfluenceStorageMimetype" by (simp add: extension_mimetype_def)
    with True undeclared oct show ?thesis by (auto simp: resolve_mimetype_def Let_def)
  next
    case False
    let ?s = "sniff_mimetype bytes" and ?n = "extension_mimetype name"
    have by_name: "\<not> starts_with kOctetStream ''text/''" "\<not> starts_with kOctetStream ''application/vnd.apple.''"
      "\<not> contains kOctetStream ''openxmlformats''"
      by (simp_all add: kOctetStream_def starts_with_def contains_def)
    have eq: "resolve_mimetype declared bytes name =
        (if name_outranks ?s ?n then \<lparr>mimetype = ?n, evidence = ''extension''\<rparr>
         else if ?s \<noteq> [] then \<lparr>mimetype = ?s, evidence = ''magic''\<rparr>
         else if ?n \<noteq> kOctetStream then \<lparr>mimetype = ?n, evidence = ''extension''\<rparr>
         else \<lparr>mimetype = kOctetStream, evidence = ''fallback''\<rparr>)"
      unfolding resolve_mimetype_def Let_def name_outranks_def
      by (simp only: undeclared False if_False if_four)
    have "?n \<noteq> kOctetStream" if "name_outranks ?s ?n"
      using that by_name by (auto simp: name_outranks_def)
    then show ?thesis
      using undeclared extension_mimetype_nonempty [of name] name_outranks_sniffed [of ?s ?n]
      unfolding eq by (cases "name_outranks ?s ?n"; cases "?s = []"; cases "?n = kOctetStream") simp_all
  qed
qed

subsection \<open>Bundles the service writes are recognised\<close>

lemma first_member_at_front:
  assumes "write_zip tdefl crc32 (f # fs) = Inr archive"
  obtains m rest where "member_ok m" "m_name m = path f" "archive = local_header m @ path f @ rest"
proof -
  from assms obtain mid out where
    one: "write_member tdefl crc32 f ([], []) = Inr mid"
    and rest: "write_members tdefl crc32 fs mid = Inr out"
    and archive: "\<exists>tail_part. archive = fst out @ tail_part"
    by (auto simp: write_zip_def and_then_Inr split: if_splits)
  from write_member_layout [OF one] obtain m payload where
    "stores tdefl crc32 f m payload" "fst mid = local_header m @ path f @ payload" by auto
  moreover from write_members_layout [OF rest] obtain ext where "fst out = fst mid @ ext" by blast
  ultimately show thesis using archive that [of m] by (auto simp: stores_def)
qed

lemma local_header_magic: "take 4 (local_header m) = ''PK'' @ [CHR 0x03, CHR 0x04]"
proof -
  have "put32 kLocalHeaderSignature = ''PK'' @ [CHR 0x03, CHR 0x04]"
    by (simp add: put32_def kLocalHeaderSignature_def bits_arith) code_simp
  then show ?thesis by (simp add: local_header_def)
qed

lemma no_mimetype_entry:
  assumes "member_ok m" "m_name m = p" "archive = local_header m @ p @ rest" "p \<noteq> ''mimetype''"
  shows "zip_mimetype_entry archive = []"
proof (cases "length p = 8")
  case True
  then have "substr archive 30 8 = p" using assms by (simp add: substr_def)
  with assms(4) show ?thesis by (simp add: zip_mimetype_entry_def Let_def)
next
  case False
  moreover have "le16 archive 26 = length p"
    using member_fields(3) [OF assms(1), of "p @ rest"] assms by simp
  ultimately show ?thesis by (simp add: zip_mimetype_entry_def Let_def)
qed

lemma sniff_mimetype_zip:
  assumes "take 4 bytes = ''PK'' @ [CHR 0x03, CHR 0x04]" "sniff_zip bytes \<noteq> []"
  shows "sniff_mimetype bytes = sniff_zip bytes"
proof -
  have "length bytes \<ge> 4" using arg_cong [OF assms(1), of length] by simp
  then have "signature_present ((plain_signature (''PK'' @ [CHR 0x03, CHR 0x04]) ''application/zip'')
      \<lparr>narrow := Some sniff_zip\<rparr>) bytes"
    using assms(1) by (simp add: signature_present_def plain_signature_def substr_def numeral_eq_Suc)
  then have "sniff_binary bytes = sniff_zip bytes"
    unfolding sniff_binary_def kBinarySignatures_def using assms(2)
    by (simp only: binary_ladder.simps) (simp add: plain_signature_def)
  with assms show ?thesis by (auto simp: sniff_mimetype_def)
qed

text \<open>
  An archive the bundle writer produced is typed by its member names
  alone: the sniffer answers the Open XML, EPUB or Keynote type of the parts
  the bundle really has, and plain zip otherwise. Bytes inside a member, an
  embedded package or a fake directory, never change the answer.
\<close>

theorem written_bundle_type:
  assumes "write_zip tdefl crc32 (f # fs) = Inr archive" "path f \<noteq> ''mimetype''"
  shows "sniff_mimetype archive =
    (let named = (\<lambda>part. list_ex (\<lambda>g. starts_with (path g) part) (f # fs)) in
     if named ''word/document.xml''
     then ''application/vnd.openxmlformats-officedocument.wordprocessingml.document''
     else if named ''xl/workbook.xml''
     then ''application/vnd.openxmlformats-officedocument.spreadsheetml.sheet''
     else if named ''ppt/presentation.xml''
     then ''application/vnd.openxmlformats-officedocument.presentationml.presentation''
     else if named ''META-INF/container.xml'' then ''application/epub+zip''
     else if named ''Index/Document.iwa'' \<and> (named ''Index/MasterSlide'' \<or> named ''Index/Slide'')
     then ''application/vnd.apple.keynote''
     else ''application/zip'')"
proof -
  obtain m rest where m: "member_ok m" "m_name m = path f" "archive = local_header m @ path f @ rest"
    by (rule first_member_at_front [OF assms(1)])
  have "take 4 archive = ''PK'' @ [CHR 0x03, CHR 0x04]"
    using local_header_magic [of m] m(3) by simp
  moreover have names: "zip_names_entry archive (zip_central_names archive)
      = (\<lambda>part. list_ex (\<lambda>g. starts_with (path g) part) (f # fs))"
    using central_names_written [OF assms(1)]
    by (simp add: zip_names_entry_def [abs_def] list_ex_iff)
  ultimately show ?thesis
    using no_mimetype_entry [OF m assms(2)]
    by (subst sniff_mimetype_zip) (simp_all add: sniff_zip_def names Let_def)
qed

definition word_bundle :: "bundle_file list" where
  "word_bundle = [\<lparr>path = ''a'', file_bytes = ''xl/workbook.xml''\<rparr>, \<lparr>path = ''word/document.xml'', file_bytes = []\<rparr>]"

theorem written_bundle_type_witness:
  "\<exists>archive. write_zip sample_tdefl length word_bundle = Inr archive
     \<and> sniff_mimetype archive = ''application/vnd.openxmlformats-officedocument.wordprocessingml.document''"
proof -
  have "is_ok (write_zip sample_tdefl length word_bundle)"
    by (simp add: write_zip_def write_member_def and_then_def checked_size_def deflate_def
      word_bundle_def sample_tdefl_def Let_def bits_arith length_simps)
  then obtain archive where a: "write_zip sample_tdefl length word_bundle = Inr archive"
    by (rule is_okE)
  with written_bundle_type [of sample_tdefl length "hd word_bundle" "tl word_bundle" archive]
  show ?thesis by (simp add: word_bundle_def starts_with_def)
qed

end
