(* ===== verification/StorageParser.thy ===== *)
theory StorageParser
  imports StorageText
begin

text \<open>
  The pull parser of the wiki storage dialect
  (\<^verbatim>\<open>src/src/confluence/storage_parser.cpp\<close>) and its tree
  (\<^verbatim>\<open>src/src/confluence/storage_node.cpp\<close>). The cursor \<^verbatim>\<open>position_\<close> is the
  remaining suffix of the input (empty once it is at or past the end). The
  code keeps pointers to the open elements inside the tree it is building and
  only ever appends to the innermost one; the model keeps the same stack as
  the elements themselves, innermost first, and puts an element into its
  parent when it leaves the stack. While it is open the parent gains no other
  child, so it lands in the position where the code appended it.
\<close>

subsection \<open>The tree\<close>

record attribute =
  a_prefix :: string
  a_name :: string
  a_value :: string

datatype node = Node
  (text_node: bool)
  (n_prefix: string)
  (n_name: string)
  (n_text: string)
  (n_attributes: "attribute list")
  (children: "node list")

definition element_is :: "node \<Rightarrow> string \<Rightarrow> string \<Rightarrow> bool" where
  "element_is n prefix name = (\<not> text_node n \<and> n_prefix n = prefix \<and> n_name n = name)"

definition html_is :: "node \<Rightarrow> string \<Rightarrow> bool" where
  "html_is n name = element_is n [] name"

fun find_attribute :: "attribute list \<Rightarrow> string \<Rightarrow> string \<Rightarrow> string option \<Rightarrow> string option" where
  "find_attribute [] prefix name fallback = fallback"
| "find_attribute (a # as) prefix name fallback =
     (if a_name a \<noteq> name then find_attribute as prefix name fallback
      else if a_prefix a = prefix then Some (a_value a)
      else find_attribute as prefix name (if a_prefix a = [] then Some (a_value a) else fallback))"

definition attribute_of :: "node \<Rightarrow> string \<Rightarrow> string \<Rightarrow> string option" where
  "attribute_of n prefix name = find_attribute (n_attributes n) prefix name None"

definition attribute_or_empty :: "node \<Rightarrow> string \<Rightarrow> string \<Rightarrow> string" where
  "attribute_or_empty n prefix name =
     (case attribute_of n prefix name of Some v \<Rightarrow> v | None \<Rightarrow> [])"

definition find_child :: "node \<Rightarrow> string \<Rightarrow> string \<Rightarrow> node option" where
  "find_child n prefix name = List.find (\<lambda>c. element_is c prefix name) (children n)"

fun append_raw_text :: "node \<Rightarrow> string \<Rightarrow> string"
  and append_raw_texts :: "node list \<Rightarrow> string \<Rightarrow> string" where
  "append_raw_text (Node is_text p n txt as kids) out =
     (if is_text then out @ txt else append_raw_texts kids out)"
| "append_raw_texts [] out = out"
| "append_raw_texts (k # ks) out = append_raw_texts ks (append_raw_text k out)"

definition raw_text :: "node \<Rightarrow> string" where
  "raw_text n = append_raw_text n []"

definition add_child :: "node \<Rightarrow> node \<Rightarrow> node" where
  "add_child n c =
     Node (text_node n) (n_prefix n) (n_name n) (n_text n) (n_attributes n) (children n @ [c])"

definition new_text :: "string \<Rightarrow> node" where
  "new_text txt = Node True [] [] txt [] []"

subsection \<open>The parser's state\<close>

record parser =
  saw_element :: bool
  depth_warned :: bool
  warnings :: "string list"
  open_stack :: "node list"

definition kMaxDepth :: nat where "kMaxDepth = 256"

definition warn :: "string \<Rightarrow> parser \<Rightarrow> parser" where
  "warn message s = s\<lparr>warnings := warnings s @ [message]\<rparr>"

definition qualified_name :: "string \<Rightarrow> string \<Rightarrow> string" where
  "qualified_name prefix name = (if prefix = [] then name else prefix @ '':'' @ name)"

text \<open>\<^verbatim>\<open>open->back()->children.push_back(c)\<close>; the stack is never empty.\<close>

definition append_child :: "node \<Rightarrow> parser \<Rightarrow> parser" where
  "append_child c s =
     s\<lparr>open_stack := add_child (hd (open_stack s)) c # tl (open_stack s)\<rparr>"

definition append_text :: "string \<Rightarrow> parser \<Rightarrow> parser" where
  "append_text txt s = append_child (new_text txt) s"

text \<open>One open element leaves the stack: it is its parent's last child.\<close>

definition pop_open :: "node list \<Rightarrow> node list" where
  "pop_open st = add_child (st ! 1) (hd st) # drop 2 st"

subsection \<open>Names and attributes\<close>

definition skip_space :: "string \<Rightarrow> string" where
  "skip_space rest = dropWhile is_space rest"

definition name_char :: "char \<Rightarrow> bool" where
  "name_char c = (\<not> (is_space c \<or> c = CHR ''>'' \<or> c = CHR ''/'' \<or> c = CHR ''=''))"

definition split_qualified :: "string \<Rightarrow> string \<times> string" where
  "split_qualified qualified =
     (case sfind '':'' qualified of
        None \<Rightarrow> ([], lowercase qualified)
      | Some colon \<Rightarrow> (lowercase (take colon qualified), lowercase (drop (colon + 1) qualified)))"

definition read_name :: "string \<Rightarrow> (string \<times> string) \<times> string" where
  "read_name rest = (split_qualified (takeWhile name_char rest), dropWhile name_char rest)"

definition read_value :: "string \<Rightarrow> string \<times> string" where
  "read_value given =
     (let rest = skip_space given in
      case rest of
        [] \<Rightarrow> ([], rest)
      | c # cs \<Rightarrow>
          if c = CHR ''='' then
            (let r = skip_space cs in
             case r of
               [] \<Rightarrow> ([], r)
             | q # qs \<Rightarrow>
                 if q = CHR 0x22 \<or> q = CHR 0x27
                 then (decode_entities (takeWhile (\<lambda>d. d \<noteq> q) qs), drop 1 (dropWhile (\<lambda>d. d \<noteq> q) qs))
                 else
                   let bare = (\<lambda>d. \<not> is_space d \<and> d \<noteq> CHR ''>'' \<and> d \<noteq> CHR ''/'')
                   in (decode_entities (takeWhile bare r), dropWhile bare r))
          else ([], rest))"

lemma length_skip_space: "length (skip_space s) \<le> length s"
  by (simp add: skip_space_def length_dropWhile_le)

lemma length_read_value: "length (snd (read_value s)) \<le> length s"
proof -
  have drop_le: "length (dropWhile P xs) \<le> length xs" for P :: "char \<Rightarrow> bool" and xs
    by (rule length_dropWhile_le)
  have step: "skip_space s = c # cs \<Longrightarrow> length cs < length s" for c cs
    using length_skip_space [of s] by simp
  show ?thesis
  proof (cases "skip_space s")
    case (Cons c cs)
    note less = step [OF Cons]
    show ?thesis
    proof (cases "skip_space cs")
      case Nil
      with Cons less show ?thesis by (simp add: read_value_def Let_def)
    next
      case (Cons q qs)
      with less have "length (q # qs) < length s" using length_skip_space [of cs] by simp
      with \<open>skip_space s = c # cs\<close> Cons less drop_le [of _ qs] drop_le [of _ "q # qs"] show ?thesis
        by (auto simp: read_value_def Let_def intro: le_trans less_imp_le
            simp del: dropWhile.simps) (meson diff_le_self le_trans less_imp_le Suc_leD Suc_le_eq)+
    qed
  qed (simp add: read_value_def)
qed

lemma read_name_length: "length (snd (read_name s)) \<le> length s"
  by (simp add: read_name_def length_dropWhile_le)

text \<open>The attribute loop: the attributes, self-closing, terminated, and the rest.\<close>

function read_attributes ::
  "string \<Rightarrow> attribute list \<Rightarrow> attribute list \<times> bool \<times> bool \<times> string" where
  "read_attributes given as =
     (case skip_space given of
        [] \<Rightarrow> (as, False, False, [])
      | c # cs \<Rightarrow>
          if c = CHR ''>'' then (as, False, True, cs)
          else if c = CHR ''/'' then
            (case skip_space cs of
               [] \<Rightarrow> (as, False, False, [])
             | d # ds \<Rightarrow> if d = CHR ''>'' then (as, True, True, ds) else (as, False, False, d # ds))
          else
            let (qualified, rest) = read_name (c # cs) in
            if snd qualified = [] \<and> fst qualified = [] then read_attributes (drop 1 rest) as
            else
              let (v, rest) = read_value rest in
              read_attributes rest
                (as @ [\<lparr>a_prefix = fst qualified, a_name = snd qualified, a_value = v\<rparr>]))"
  by pat_completeness auto
termination
proof (relation "measure (\<lambda>(s, as). length s)")
  fix given as c cs x qn rest
  assume sp: "skip_space given = c # cs" and q: "x = read_name (c # cs)" "(qn, rest) = x"
  show "((drop 1 rest, as), given, as) \<in> measure (\<lambda>(s, as). length s)"
    using sp q read_name_length [of "c # cs"] length_skip_space [of given]
    by (cases rest) (auto simp: prod_eq_iff dest: sym)
next
  fix given as c cs x qn rest xa v rest'
  assume sp: "skip_space given = c # cs" and q: "x = read_name (c # cs)" "(qn, rest) = x"
    and some: "\<not> (snd qn = [] \<and> fst qn = [])"
    and v: "xa = read_value rest" "(v, rest') = xa"
  have "name_char c"
  proof (rule ccontr)
    assume "\<not> name_char c"
    with q have "qn = split_qualified []" by (simp add: read_name_def)
    then show False using some by (simp add: split_qualified_def lowercase_def)
  qed
  then have "length rest \<le> length cs" using q by (simp add: read_name_def length_dropWhile_le)
  moreover have "length rest' \<le> length rest" using v length_read_value [of rest] by (metis snd_conv)
  moreover have "length (c # cs) \<le> length given" using sp length_skip_space [of given] by simp
  ultimately show "((rest', as @ [\<lparr>a_prefix = fst qn, a_name = snd qn, a_value = v\<rparr>]), given, as)
     \<in> measure (\<lambda>(s, as). length s)" by simp
qed simp

declare read_attributes.simps [simp del]

lemma read_attributes_length: "length (snd (snd (snd (read_attributes s as)))) \<le> length s"
proof (induction s as rule: read_attributes.induct)
  case (1 given as)
  show ?case
  proof (cases "skip_space given")
    case (Cons c cs)
    then have l: "length (c # cs) \<le> length given" using length_skip_space [of given] by simp
    have l2: "length (skip_space cs) \<le> length cs" by (rule length_skip_space)
    have l3: "length (snd (read_name (c # cs))) \<le> length (c # cs)" by (rule read_name_length)
    have l4: "length (snd (read_value (snd (read_name (c # cs))))) \<le> length (snd (read_name (c # cs)))"
      by (rule length_read_value)
    show ?thesis
      using Cons 1 l l2 l3 l4
      by (subst read_attributes.simps)
        (auto simp: Let_def split: list.split prod.split; fastforce)
  qed (subst read_attributes.simps, simp)
qed

subsection \<open>One construct each\<close>

text \<open>Each operation takes the suffix that starts at its construct and leaves the suffix after it.\<close>

definition read_text_run :: "string \<Rightarrow> parser \<Rightarrow> string \<times> parser" where
  "read_text_run rest s =
     (dropWhile (\<lambda>c. c \<noteq> CHR ''<'') rest,
      append_text (decode_entities (takeWhile (\<lambda>c. c \<noteq> CHR ''<'') rest)) s)"

definition skip_comment :: "string \<Rightarrow> parser \<Rightarrow> string \<times> parser" where
  "skip_comment rest s =
     (case sfind ''-->'' (drop 4 rest) of
        None \<Rightarrow> ([], warn ''a comment ran to the end of the body without closing'' s)
      | Some e \<Rightarrow> (drop (4 + e + 3) rest, s))"

definition read_cdata :: "string \<Rightarrow> parser \<Rightarrow> string \<times> parser" where
  "read_cdata rest s =
     (case sfind '']]>'' (drop 9 rest) of
        None \<Rightarrow> ([], append_text (drop 9 rest)
                   (warn ''a CDATA section ran to the end of the body without closing'' s))
      | Some e \<Rightarrow> (drop (9 + e + 3) rest, append_text (take e (drop 9 rest)) s))"

definition skip_instruction :: "string \<Rightarrow> parser \<Rightarrow> string \<times> parser" where
  "skip_instruction rest s =
     (case sfind ''?>'' (drop 2 rest) of
        None \<Rightarrow> ([], s)
      | Some e \<Rightarrow> (drop (2 + e + 2) rest, s))"

text \<open>\<^verbatim>\<open>find_first_of("[>", position_ + 2)\<close> is where the prefix without either ends.\<close>

definition skip_doctype :: "string \<Rightarrow> parser \<Rightarrow> string \<times> parser" where
  "skip_doctype rest s =
     (case dropWhile (\<lambda>c. c \<noteq> CHR ''['' \<and> c \<noteq> CHR ''>'') (drop 2 rest) of
        [] \<Rightarrow> ([], s)
      | c # cs \<Rightarrow>
          if c = CHR ''['' then
            (let inner = drop 1 (dropWhile (\<lambda>d. d \<noteq> CHR '']'') cs)
             in (drop 1 (dropWhile (\<lambda>d. d \<noteq> CHR ''>'') inner), s))
          else (cs, s))"

text \<open>
  The search for the element an end tag closes: how many elements stand above
  it on the stack; \<open>None\<close> when only the root, which never matches, is left.
\<close>

fun unclosed_above :: "string \<Rightarrow> string \<Rightarrow> node list \<Rightarrow> nat option" where
  "unclosed_above prefix name (n # m # st) =
     (if n_prefix n = prefix \<and> n_name n = name then Some 0
      else map_option Suc (unclosed_above prefix name (m # st)))"
| "unclosed_above prefix name st = None"

definition close_element :: "string \<Rightarrow> parser \<Rightarrow> string \<times> parser" where
  "close_element rest s =
     (let (qualified, after_name) = read_name (drop 2 rest);
          prefix = fst qualified; name = snd qualified;
          after = drop 1 (dropWhile (\<lambda>c. c \<noteq> CHR ''>'') after_name)
      in (after,
          case unclosed_above prefix name (open_stack s) of
            None \<Rightarrow> warn (''end tag </'' @ qualified_name prefix name
                          @ ''> closes nothing that is open; it was ignored'') s
          | Some k \<Rightarrow>
              let s = (if k \<noteq> 0
                       then warn (''end tag </'' @ qualified_name prefix name @ ''> closed ''
                              @ to_dec k @ '' element(s) that had no end tag of their own'') s
                       else s)
              in s\<lparr>open_stack := (pop_open ^^ (k + 1)) (open_stack s)\<rparr>))"

definition kVoid :: "string list" where
  "kVoid = [''br'', ''hr'', ''img'', ''input'', ''col'', ''area'', ''base'', ''meta'']"

definition read_element :: "string \<Rightarrow> parser \<Rightarrow> string \<times> parser" where
  "read_element rest s =
     (let (qualified, rest) = read_name (drop 1 rest);
          prefix = fst qualified; name = snd qualified
      in if name = [] then (rest, append_text ''<'' s)
         else
           let (attributes, self_closing, terminated, rest) = read_attributes rest [];
               element = Node False prefix name [] attributes [];
               s = s\<lparr>saw_element := True\<rparr>;
               s = (if terminated then s
                    else warn (''start tag <'' @ name @ ''> ran to the end of the body'') s);
               self_closing = (\<not> terminated \<or> self_closing);
               self_closing = (prefix = [] \<and> name \<in> set kVoid \<or> self_closing);
               too_deep = (\<not> self_closing \<and> length (open_stack s) > kMaxDepth);
               s = (if too_deep \<and> \<not> depth_warned s
                    then (warn (''elements nested deeper than '' @ to_dec kMaxDepth
                            @ '' levels were flattened into their ancestor'') s)\<lparr>depth_warned := True\<rparr>
                    else s);
               self_closing = (too_deep \<or> self_closing)
           in (rest, if self_closing then append_child element s
                     else s\<lparr>open_stack := element # open_stack s\<rparr>))"

subsection \<open>The parse\<close>

definition parse_step :: "string \<Rightarrow> parser \<Rightarrow> string \<times> parser" where
  "parse_step rest s =
     (if hd rest \<noteq> CHR ''<'' then read_text_run rest s
      else if starts_with rest ''<!--'' then skip_comment rest s
      else if starts_with rest ''<![CDATA['' then read_cdata rest s
      else if starts_with rest ''<?'' then skip_instruction rest s
      else if starts_with rest ''<!'' then skip_doctype rest s
      else if starts_with rest ''</'' then close_element rest s
      else read_element rest s)"

lemma length_drop_dropWhile: "length (drop n (dropWhile P s)) \<le> length s"
  by (rule le_trans [OF _ length_dropWhile_le [of P s]]) simp

lemma length_split_read: "read_name s = (q, r) \<Longrightarrow> length r \<le> length s"
  using read_name_length [of s] by simp

lemma close_element_length: "rest \<noteq> [] \<Longrightarrow> length (fst (close_element rest s)) < length rest"
proof -
  assume ne: "rest \<noteq> []"
  have "length (fst (close_element rest s)) \<le> length (snd (read_name (drop 2 rest)))"
    by (simp add: close_element_def case_prod_unfold Let_def length_drop_dropWhile
        del: length_drop)
  also have "\<dots> \<le> length (drop 2 rest)" by (rule read_name_length)
  also have "\<dots> < length rest" using ne by simp
  finally show ?thesis .
qed

lemma read_element_length: "rest \<noteq> [] \<Longrightarrow> length (fst (read_element rest s)) < length rest"
proof -
  assume ne: "rest \<noteq> []"
  have "length (fst (read_element rest s)) \<le> length (snd (read_name (drop 1 rest)))"
    using read_attributes_length [of "snd (read_name (drop 1 rest))" "[]"]
    by (simp add: read_element_def case_prod_unfold Let_def)
  also have "\<dots> \<le> length (drop 1 rest)" by (rule read_name_length)
  also have "\<dots> < length rest" using ne by simp
  finally show ?thesis .
qed

lemma skip_doctype_length: "rest \<noteq> [] \<Longrightarrow> length (fst (skip_doctype rest s)) < length rest"
proof -
  assume ne: "rest \<noteq> []"
  let ?r = "dropWhile (\<lambda>c. c \<noteq> CHR ''['' \<and> c \<noteq> CHR ''>'') (drop 2 rest)"
  have "length ?r \<le> length (drop 2 rest)" by (rule length_dropWhile_le)
  also have "\<dots> < length rest" using ne by simp
  finally have r: "length ?r < length rest" .
  show ?thesis
  proof (cases ?r)
    case (Cons c cs)
    let ?inner = "drop 1 (dropWhile (\<lambda>d. d \<noteq> CHR '']'') cs)"
    have "length (drop 1 (dropWhile (\<lambda>d. d \<noteq> CHR ''>'') ?inner)) \<le> length ?inner"
      by (rule length_drop_dropWhile)
    also have "\<dots> \<le> length cs" by (rule length_drop_dropWhile)
    finally show ?thesis using Cons r by (simp add: skip_doctype_def Let_def)
  next
    case Nil
    have "fst (skip_doctype rest s) = []" unfolding skip_doctype_def Nil by simp
    with ne show ?thesis by simp
  qed
qed

lemma scan_lengths:
  "rest \<noteq> [] \<Longrightarrow> length (fst (skip_comment rest s)) < length rest"
  "rest \<noteq> [] \<Longrightarrow> length (fst (read_cdata rest s)) < length rest"
  "rest \<noteq> [] \<Longrightarrow> length (fst (skip_instruction rest s)) < length rest"
  by (simp_all add: skip_comment_def read_cdata_def skip_instruction_def split: option.split)

lemma parse_step_length: "rest \<noteq> [] \<Longrightarrow> length (fst (parse_step rest s)) < length rest"
proof -
  assume ne: "rest \<noteq> []"
  have run: "hd rest \<noteq> CHR ''<'' \<Longrightarrow> length (fst (read_text_run rest s)) < length rest"
    using ne length_dropWhile_le [of "\<lambda>c. c \<noteq> CHR ''<''" "tl rest"]
    by (cases rest) (simp_all add: read_text_run_def)
  show ?thesis
    using run close_element_length [OF ne] read_element_length [OF ne] skip_doctype_length [OF ne]
      scan_lengths [OF ne]
    by (simp add: parse_step_def)
qed

function parse_loop :: "string \<Rightarrow> parser \<Rightarrow> parser" where
  "parse_loop rest s =
     (if rest = [] then s
      else let (rest', s') = parse_step rest s in parse_loop rest' s')"
  by pat_completeness auto
termination
proof (relation "measure (\<lambda>(rest, s). length rest)")
  fix rest s x rest' s'
  assume ne: "rest \<noteq> []" and x: "x = parse_step rest s" "(rest', s') = x"
  then have "rest' = fst (parse_step rest s)" by (metis fst_conv)
  with parse_step_length [OF ne, of s]
  show "((rest', s'), rest, s) \<in> measure (\<lambda>(rest, s). length rest)" by simp
qed simp

declare parse_loop.simps [simp del]

definition empty_root :: node where
  "empty_root = Node False [] ''#document'' [] [] []"

definition initial_parser :: parser where
  "initial_parser = \<lparr>saw_element = False, depth_warned = False, warnings = [], open_stack = [empty_root]\<rparr>"

text \<open>The end of \<^verbatim>\<open>parse\<close>: a warning for what is still open, and the tree itself.\<close>

definition finish :: "parser \<Rightarrow> node \<times> parser" where
  "finish s =
     (let n = length (open_stack s) - 1;
          s = (if length (open_stack s) > 1
               then warn (to_dec n @ '' element(s) were still open at the end of the body'') s else s)
      in (hd ((pop_open ^^ n) (open_stack s)), s))"

definition parse :: "string \<Rightarrow> node \<times> parser" where
  "parse input = finish (parse_loop input initial_parser)"

subsection \<open>The tree's depth is bounded on every input\<close>

text \<open>\<open>fits h n\<close>: the subtree of \<open>n\<close> has at most \<open>h\<close> levels.\<close>

fun fits :: "nat \<Rightarrow> node \<Rightarrow> bool" where
  "fits 0 n = False"
| "fits (Suc h) n = list_all (fits h) (children n)"

fun frames_fit :: "node list \<Rightarrow> bool" where
  "frames_fit [] = True"
| "frames_fit (n # st) = (fits (kMaxDepth + 2 - length st) n \<and> frames_fit st)"

definition parser_ok :: "parser \<Rightarrow> bool" where
  "parser_ok s = (open_stack s \<noteq> [] \<and> length (open_stack s) \<le> kMaxDepth + 1 \<and> frames_fit (open_stack s))"

lemma fits_add_child: "fits (Suc h) (add_child n c) = (fits (Suc h) n \<and> fits h c)"
  by (simp add: add_child_def)

lemma fits_leaf: "children c = [] \<Longrightarrow> 0 < h \<Longrightarrow> fits h c"
  by (cases h) simp_all

lemma parser_ok_append:
  assumes "parser_ok s" "children c = []"
  shows "parser_ok (append_child c s)"
proof -
  from assms obtain n st where st: "open_stack s = n # st" "length st \<le> kMaxDepth"
    by (cases "open_stack s") (auto simp: parser_ok_def)
  then obtain h where h: "kMaxDepth + 2 - length st = Suc (Suc h)"
    by (metis Suc_diff_le add_2_eq_Suc' le_SucI)
  with assms st show ?thesis
    by (auto simp: parser_ok_def append_child_def fits_add_child fits_leaf simp del: fits.simps)
qed

lemma parser_ok_updates [simp]:
  "parser_ok (warn m s) = parser_ok s" "parser_ok (s\<lparr>saw_element := b\<rparr>) = parser_ok s"
  "parser_ok (s\<lparr>depth_warned := b\<rparr>) = parser_ok s"
  "open_stack (warn m s) = open_stack s"
  by (simp_all add: parser_ok_def warn_def)

lemma frames_fit_pop:
  assumes "frames_fit st" "Suc k < length st" "length st \<le> kMaxDepth + 1"
  shows "frames_fit ((pop_open ^^ Suc k) st) \<and> length ((pop_open ^^ Suc k) st) = length st - Suc k"
  using assms
proof (induction k)
  case 0
  then obtain a b us where st: "st = a # b # us" by (cases st; cases "tl st") auto
  then obtain h where "kMaxDepth + 2 - length us = Suc h" "kMaxDepth + 1 - length us = h"
    using 0 by (metis Suc_diff_le add_2_eq_Suc' add.commute plus_1_eq_Suc le_SucI Suc_leD length_Cons)
  with 0 st show ?case
    by (auto simp: pop_open_def fits_add_child simp del: fits.simps)
next
  case (Suc k)
  let ?u = "(pop_open ^^ Suc k) st"
  have u: "frames_fit ?u" "length ?u = length st - Suc k" using Suc by simp_all
  then obtain a b us where st: "?u = a # b # us" using Suc.prems(2) by (cases ?u; cases "tl ?u") auto
  then have us: "length us + 2 \<le> kMaxDepth + 1" using u Suc.prems by simp
  then obtain h where "kMaxDepth + 2 - length us = Suc h" "kMaxDepth + 1 - length us = h"
    by (metis Suc_diff_le add_2_eq_Suc' add.commute plus_1_eq_Suc le_SucI Suc_leD)
  with u st have "frames_fit (pop_open ?u)"
    by (auto simp: pop_open_def fits_add_child simp del: fits.simps funpow.simps)
  moreover have "length (pop_open ?u) = length st - Suc (Suc k)"
    using u st by (simp add: pop_open_def del: funpow.simps)
  ultimately show ?case by simp
qed

lemma unclosed_above_bound: "unclosed_above prefix name st = Some k \<Longrightarrow> Suc k < length st"
  by (induction prefix name st arbitrary: k rule: unclosed_above.induct) (auto split: if_splits)

lemma parser_ok_pop:
  assumes "parser_ok s" "Suc k < length (open_stack s)"
  shows "parser_ok (s\<lparr>open_stack := (pop_open ^^ Suc k) (open_stack s)\<rparr>)"
  using frames_fit_pop [of "open_stack s" k] assms
  by (auto simp: parser_ok_def simp del: funpow.simps)

lemma parser_ok_push:
  assumes "parser_ok r" "length (open_stack r) \<le> kMaxDepth" "children e = []"
  shows "parser_ok (s\<lparr>open_stack := e # open_stack r\<rparr>)"
  using assms by (auto simp: parser_ok_def intro!: fits_leaf)

lemma parse_step_ok: "parser_ok s \<Longrightarrow> parser_ok (snd (parse_step rest s))"
proof -
  assume ok: "parser_ok s"
  have text_ok: "parser_ok (append_text w s)" "parser_ok (append_text w (warn m s))" for w m
    using ok by (simp_all add: append_text_def new_text_def parser_ok_append)
  have "parser_ok (snd (close_element rest s))"
  proof (cases "unclosed_above (fst (fst (read_name (drop 2 rest)))) (snd (fst (read_name (drop 2 rest)))) (open_stack s)")
    case (Some k)
    note k = unclosed_above_bound [OF Some]
    with ok Some show ?thesis
      using parser_ok_pop [of s k] parser_ok_pop [of "warn _ s" k]
      by (auto simp add: close_element_def case_prod_unfold Let_def simp del: funpow.simps)
  qed (simp add: ok close_element_def case_prod_unfold Let_def)
  moreover have "parser_ok (snd (read_element rest s))"
    using ok text_ok
    by (auto simp: read_element_def case_prod_unfold Let_def append_text_def
        intro!: parser_ok_append parser_ok_push)
  ultimately show ?thesis
    using ok text_ok
    by (auto simp: parse_step_def read_text_run_def skip_comment_def read_cdata_def
        skip_instruction_def skip_doctype_def Let_def split: option.split list.split)
qed

text \<open>The parser as a machine: a configuration is the suffix left and the state.\<close>

definition parser_step :: "string \<times> parser \<Rightarrow> string \<times> parser \<Rightarrow> bool" where
  "parser_step c d = (fst c \<noteq> [] \<and> d = parse_step (fst c) (snd c))"

interpretation storage: guarded_machine
  "\<lambda>c. snd c = initial_parser" parser_step "\<lambda>c. parser_ok (snd c)"
proof unfold_locales
  show "snd c = initial_parser \<Longrightarrow> parser_ok (snd c)" for c :: "string \<times> parser"
    by (simp add: initial_parser_def parser_ok_def empty_root_def fits_leaf)
  show "parser_ok (snd c) \<Longrightarrow> parser_step c d \<Longrightarrow> parser_ok (snd d)" for c d
    by (auto simp: parser_step_def parse_step_ok)
qed

text \<open>The loop runs the machine to the end of the input.\<close>

lemma parse_loop_runs: "parser_step\<^sup>*\<^sup>* (rest, s) ([], parse_loop rest s)"
proof (induction rest s rule: parse_loop.induct)
  case (1 rest s)
  show ?case
  proof (cases "rest = []")
    case False
    obtain rest' s' where p: "parse_step rest s = (rest', s')" by fastforce
    then have "parser_step\<^sup>*\<^sup>* (rest', s') ([], parse_loop rest' s')"
      using 1 [OF False] by auto
    moreover have "parser_step (rest, s) (rest', s')" using False p by (simp add: parser_step_def)
    ultimately show ?thesis
      by (subst parse_loop.simps) (auto simp: p False intro: converse_rtranclp_into_rtranclp)
  qed (subst parse_loop.simps, simp)
qed

lemma parse_loop_ok: "parser_ok (parse_loop input initial_parser)"
  using storage.reachable_inv [OF _ parse_loop_runs [of input initial_parser]] by simp

lemma finish_fits:
  assumes "parser_ok s"
  shows "fits (kMaxDepth + 2) (fst (finish s))"
proof (cases "length (open_stack s) = 1")
  case True
  then obtain n where "open_stack s = [n]" by (cases "open_stack s") auto
  with assms show ?thesis by (simp add: finish_def Let_def parser_ok_def)
next
  case False
  then obtain k where k: "length (open_stack s) = Suc (Suc k)"
    using assms by (cases "open_stack s"; cases "tl (open_stack s)") (auto simp: parser_ok_def)
  let ?u = "(pop_open ^^ Suc k) (open_stack s)"
  have "frames_fit ?u" "length ?u = 1"
    using frames_fit_pop [of "open_stack s" k] assms k by (auto simp: parser_ok_def)
  then have "fits (kMaxDepth + 2) (hd ?u)" by (cases ?u) auto
  with k show ?thesis by (simp add: finish_def Let_def del: funpow.simps)
qed

text \<open>
  C9. On every input whatsoever the parser returns, and the tree it returns is
  at most 258 levels deep: the root, 256 open elements and one level kept
  without being opened. The depth of every recursive walk over the tree is
  therefore bounded, however the body nests.
\<close>

theorem parse_depth_bounded: "fits 258 (fst (parse input))"
  using finish_fits [OF parse_loop_ok [of input]] by (simp add: parse_def kMaxDepth_def)

subsection \<open>Printing a tree and parsing it back\<close>

definition markup_name :: "string \<Rightarrow> bool" where
  "markup_name n = (n \<noteq> [] \<and> c_islower (hd n) \<and> list_all (\<lambda>c. c_islower c \<or> c_isdigit c \<or> c = CHR ''-'') n)"

definition qualified_ok :: "string \<Rightarrow> string \<Rightarrow> bool" where
  "qualified_ok prefix name = (markup_name name \<and> (prefix = [] \<or> markup_name prefix))"

definition show_attribute :: "attribute \<Rightarrow> string" where
  "show_attribute a =
     '' '' @ qualified_name (a_prefix a) (a_name a) @ ''='' @ [CHR 0x22] @ escape_text (a_value a) @ [CHR 0x22]"

definition start_tag :: "string \<Rightarrow> string \<Rightarrow> attribute list \<Rightarrow> string" where
  "start_tag prefix name as =
     ''<'' @ qualified_name prefix name @ concat (map show_attribute as) @ ''>''"

fun show_node :: "node \<Rightarrow> string" and show_nodes :: "node list \<Rightarrow> string" where
  "show_node (Node is_text prefix name content as kids) =
     (if is_text then escape_text content
      else if prefix = [] \<and> name \<in> set kVoid then start_tag prefix name as
      else start_tag prefix name as @ show_nodes kids @ ''</'' @ qualified_name prefix name @ ''>'')"
| "show_nodes [] = []"
| "show_nodes (k # ks) = show_node k @ show_nodes ks"

text \<open>Trees a body can spell: texts are non-empty and never adjacent, void elements are empty.\<close>

fun wf_node :: "node \<Rightarrow> bool" and wf_nodes :: "node list \<Rightarrow> bool" where
  "wf_node (Node is_text prefix name content as kids) =
     (if is_text then content \<noteq> [] \<and> prefix = [] \<and> name = [] \<and> as = [] \<and> kids = []
      else content = [] \<and> qualified_ok prefix name
        \<and> list_all (\<lambda>a. qualified_ok (a_prefix a) (a_name a)) as
        \<and> (prefix = [] \<and> name \<in> set kVoid \<longrightarrow> kids = []) \<and> wf_nodes kids)"
| "wf_nodes [] = True"
| "wf_nodes (k # ks) =
     (wf_node k \<and> \<not> (text_node k \<and> ks \<noteq> [] \<and> text_node (hd ks)) \<and> wf_nodes ks)"

lemma markup_char:
  assumes "c_islower c \<or> c_isdigit c \<or> c = CHR ''-''"
  shows "name_char c" "c \<noteq> CHR '':''" "c_tolower c = c" "c \<noteq> CHR ''!''" "c \<noteq> CHR ''?''"
proof -
  have "name_char c \<and> c \<noteq> CHR '':'' \<and> c \<noteq> CHR ''!'' \<and> c \<noteq> CHR ''?'' \<and> \<not> c_isupper c"
    using assms by (auto simp: name_char_def char_class_simps byte_val_def Let_def)
  then show "name_char c" "c \<noteq> CHR '':''" "c_tolower c = c" "c \<noteq> CHR ''!''" "c \<noteq> CHR ''?''"
    by (simp_all add: c_tolower_def)
qed

lemma markup_name_chars:
  assumes "markup_name n"
  shows "list_all name_char n" "CHR '':'' \<notin> set n" "lowercase n = n"
proof -
  have each: "c \<in> set n \<Longrightarrow> c_islower c \<or> c_isdigit c \<or> c = CHR ''-''" for c
    using assms by (simp add: markup_name_def list_all_iff)
  show "list_all name_char n" using markup_char(1) [OF each] by (simp add: list_all_iff)
  show "CHR '':'' \<notin> set n" using markup_char(2) [OF each] by blast
  show "lowercase n = n" unfolding lowercase_def by (rule map_idI) (rule markup_char(3) [OF each])
qed

lemma colon_name_char: "name_char (CHR '':'')"
  by (simp add: name_char_def is_space_def)

lemma takeWhile_all: "list_all P xs \<Longrightarrow> \<not> P y \<Longrightarrow> takeWhile P (xs @ y # ys) = xs \<and> dropWhile P (xs @ y # ys) = y # ys"
  by (induction xs) auto

lemma sfind_absent: "c \<notin> set s \<Longrightarrow> sfind [c] s = None"
  by (induction s) (auto simp: starts_with_def)

lemma split_qualified_name:
  assumes "qualified_ok prefix name"
  shows "split_qualified (qualified_name prefix name) = (prefix, name)"
proof (cases "prefix = []")
  case True
  with assms show ?thesis
    using markup_name_chars [of name]
    by (simp add: qualified_ok_def qualified_name_def split_qualified_def sfind_absent)
next
  case False
  with assms show ?thesis
    using markup_name_chars [of name] markup_name_chars [of prefix] sfind_char [of "CHR '':''" prefix name]
    by (simp add: qualified_ok_def qualified_name_def split_qualified_def)
qed

lemma qualified_name_chars:
  assumes "qualified_ok prefix name"
  shows "list_all name_char (qualified_name prefix name)"
    "\<exists>c cs. qualified_name prefix name = c # cs \<and> c_islower c"
proof -
  show "list_all name_char (qualified_name prefix name)"
    using assms markup_name_chars(1) colon_name_char
    by (auto simp: qualified_ok_def qualified_name_def)
  show "\<exists>c cs. qualified_name prefix name = c # cs \<and> c_islower c"
    using assms unfolding qualified_ok_def qualified_name_def markup_name_def
    by (cases prefix; cases name) auto
qed

lemma read_qualified_name:
  assumes "qualified_ok prefix name" "\<not> name_char y"
  shows "read_name (qualified_name prefix name @ y # rest) = ((prefix, name), y # rest)"
  using takeWhile_all [OF qualified_name_chars(1) [OF assms(1)] assms(2), of rest]
    split_qualified_name [OF assms(1)]
  by (simp add: read_name_def)

lemma escape_char_free: "c \<in> set (escape_char d) \<Longrightarrow> c \<noteq> CHR ''<'' \<and> c \<noteq> CHR 0x22"
  by (auto simp: escape_char_def split: if_splits)

lemma escape_text_free: "c \<in> set (escape_text s) \<Longrightarrow> c \<noteq> CHR ''<'' \<and> c \<noteq> CHR 0x22"
  using escape_char_free by (auto simp: escape_text_def)

lemma escape_text_nonempty: "s \<noteq> [] \<Longrightarrow> escape_text s \<noteq> []"
  by (cases s) (auto simp: escape_text_def escape_char_def)

lemma decode_escaped: "decode_entities (escape_text s) = s"
  using decode_escape [of s "[]" "[]"] by (simp add: decode_entities_def)

lemma read_value_shown:
  "read_value (''='' @ [CHR 0x22] @ escape_text v @ [CHR 0x22] @ rest) = (v, rest)"
proof -
  let ?q = "\<lambda>d. d \<noteq> CHR 0x22"
  have "takeWhile ?q (escape_text v @ CHR 0x22 # rest) = escape_text v \<and>
     dropWhile ?q (escape_text v @ CHR 0x22 # rest) = CHR 0x22 # rest"
    using escape_text_free by (intro takeWhile_all) (auto simp: list_all_iff)
  then show ?thesis
    by (simp add: read_value_def skip_space_def is_space_def Let_def decode_escaped)
qed

lemma lower_not_special:
  "c_islower c \<Longrightarrow> \<not> is_space c \<and> c \<noteq> CHR ''>'' \<and> c \<noteq> CHR ''/'' \<and> c \<noteq> CHR ''!'' \<and> c \<noteq> CHR ''?'' \<and> c \<noteq> CHR ''<''"
  by (auto simp: char_class_simps byte_val_def Let_def)

lemma attribute_rebuilt: "\<lparr>a_prefix = a_prefix a, a_name = a_name a, a_value = a_value a\<rparr> = a"
  by (cases a) simp

lemma read_attributes_prefix:
  "list_all (\<lambda>a. qualified_ok (a_prefix a) (a_name a)) as \<Longrightarrow>
     read_attributes (concat (map show_attribute as) @ rest) acc = read_attributes rest (acc @ as)"
proof (induction as arbitrary: acc)
  case (Cons a as)
  let ?more = "concat (map show_attribute as) @ rest"
  let ?v = "''='' @ [CHR 0x22] @ escape_text (a_value a) @ [CHR 0x22] @ ?more"
  have ok: "qualified_ok (a_prefix a) (a_name a)" using Cons.prems by simp
  from qualified_name_chars(2) [OF ok] obtain c cs where
    c: "qualified_name (a_prefix a) (a_name a) = c # cs" "c_islower c" by blast
  have shown: "concat (map show_attribute (a # as)) @ rest
      = CHR '' '' # qualified_name (a_prefix a) (a_name a) @ ?v"
    by (simp add: show_attribute_def)
  have sp: "skip_space (CHR '' '' # qualified_name (a_prefix a) (a_name a) @ ?v)
      = c # cs @ ?v"
    using c lower_not_special [OF c(2)] by (simp add: skip_space_def is_space_def)
  have nm: "read_name (c # cs @ ?v) = ((a_prefix a, a_name a), ?v)"
    using read_qualified_name [OF ok, of "CHR ''=''"] c by (simp add: name_char_def is_space_def)
  have "a_name a \<noteq> []" using ok by (simp add: qualified_ok_def markup_name_def)
  then have "read_attributes (CHR '' '' # qualified_name (a_prefix a) (a_name a) @ ?v) acc
      = read_attributes ?more (acc @ [a])"
    using lower_not_special [OF c(2)] read_value_shown [of "a_value a" ?more]
    by (subst read_attributes.simps) (simp only: sp nm list.case if_False, simp add: attribute_rebuilt)
  then show ?case using Cons shown by simp
qed simp

lemma read_attributes_shown:
  "list_all (\<lambda>a. qualified_ok (a_prefix a) (a_name a)) as \<Longrightarrow>
     read_attributes (concat (map show_attribute as) @ CHR ''>'' # rest) acc = (acc @ as, False, True, rest)"
  unfolding read_attributes_prefix by (subst read_attributes.simps) (simp add: skip_space_def is_space_def)

text \<open>What a construct leaves behind: children under the innermost element, \<open>saw_element\<close> set or not.\<close>

definition absorbed :: "node list \<Rightarrow> bool \<Rightarrow> parser \<Rightarrow> parser" where
  "absorbed ks b s = s\<lparr>saw_element := b,
     open_stack := fold (\<lambda>k n. add_child n k) ks (hd (open_stack s)) # tl (open_stack s)\<rparr>"

lemma absorbed_stack [simp]:
  "open_stack (absorbed ks b s) = fold (\<lambda>k n. add_child n k) ks (hd (open_stack s)) # tl (open_stack s)"
  by (simp add: absorbed_def)

lemma absorbed_absorbed: "absorbed ks b (absorbed js c s) = absorbed (js @ ks) b s"
  by (simp add: absorbed_def)

lemma absorbed_Nil: "open_stack s \<noteq> [] \<Longrightarrow> absorbed [] (saw_element s) s = s"
  by (simp add: absorbed_def)

lemma fold_add_child:
  "fold (\<lambda>k n. add_child n k) ks (Node it p n t as cs) = Node it p n t as (cs @ ks)"
  by (induction ks arbitrary: cs) (simp_all add: add_child_def)

lemma parse_loop_step:
  "rest \<noteq> [] \<Longrightarrow> parse_step rest s = (rest', s') \<Longrightarrow> parse_loop rest s = parse_loop rest' s'"
  by (subst parse_loop.simps) simp

lemma parse_text:
  assumes "content \<noteq> []" "rest = [] \<or> hd rest = CHR ''<''" "open_stack s \<noteq> []"
  shows "parse_loop (escape_text content @ rest) s
     = parse_loop rest (absorbed [new_text content] (saw_element s) s)"
proof -
  let ?q = "\<lambda>c. c \<noteq> CHR ''<''"
  have q: "\<forall>c\<in>set (escape_text content). ?q c" using escape_text_free by blast
  have tw: "takeWhile ?q (escape_text content @ rest) = escape_text content"
    "dropWhile ?q (escape_text content @ rest) = rest"
    using assms(2) q by (cases rest; simp add: takeWhile_append dropWhile_append)+
  have ne: "escape_text content \<noteq> []" using assms(1) by (rule escape_text_nonempty)
  then have "hd (escape_text content @ rest) \<noteq> CHR ''<''" using q by (cases "escape_text content") auto
  then have "parse_step (escape_text content @ rest) s
      = (rest, append_text content s)"
    by (simp add: parse_step_def read_text_run_def tw decode_escaped)
  moreover have "append_text content s = absorbed [new_text content] (saw_element s) s"
    by (simp add: append_text_def append_child_def absorbed_def)
  ultimately show ?thesis using ne parse_loop_step by simp
qed

lemma element_start_dispatch:
  assumes "c_islower c"
  shows "parse_step (CHR ''<'' # c # tail_part) s = read_element (CHR ''<'' # c # tail_part) s"
  using lower_not_special [OF assms] by (simp add: parse_step_def starts_with_def)

lemma read_start_tag:
  assumes "qualified_ok prefix name" "list_all (\<lambda>a. qualified_ok (a_prefix a) (a_name a)) as"
    and "length (open_stack s) \<le> kMaxDepth \<or> prefix = [] \<and> name \<in> set kVoid"
  shows "parse_loop (start_tag prefix name as @ rest) s =
    parse_loop rest
      (let e = Node False prefix name [] as []; s = s\<lparr>saw_element := True\<rparr> in
       if prefix = [] \<and> name \<in> set kVoid then append_child e s
       else s\<lparr>open_stack := e # open_stack s\<rparr>)"
proof -
  from qualified_name_chars(2) [OF assms(1)] obtain c cs where
    c: "qualified_name prefix name = c # cs" "c_islower c" by blast
  let ?attrs = "concat (map show_attribute as) @ CHR ''>'' # rest"
  have tag: "start_tag prefix name as @ rest = CHR ''<'' # c # cs @ ?attrs"
    using c by (simp add: start_tag_def)
  have nm: "read_name (c # cs @ ?attrs) = ((prefix, name), ?attrs)"
  proof (cases as)
    case Nil
    then show ?thesis
      using read_qualified_name [OF assms(1), of "CHR ''>''" rest] c by (simp add: name_char_def)
  next
    case (Cons a bs)
    then show ?thesis
      using read_qualified_name [OF assms(1), of "CHR '' ''"] c
      by (simp add: name_char_def is_space_def show_attribute_def)
  qed
  have name: "name \<noteq> []" using assms(1) by (simp add: qualified_ok_def markup_name_def)
  have "parse_step (CHR ''<'' # c # cs @ ?attrs) s = (rest,
      let e = Node False prefix name [] as []; s = s\<lparr>saw_element := True\<rparr> in
       if prefix = [] \<and> name \<in> set kVoid then append_child e s
       else s\<lparr>open_stack := e # open_stack s\<rparr>)"
    unfolding element_start_dispatch [OF c(2)] read_element_def
    using assms(3) name by (auto simp: nm read_attributes_shown [OF assms(2)] Let_def)
  then show ?thesis unfolding tag by (intro parse_loop_step) simp_all
qed

lemma read_end_tag:
  assumes "qualified_ok prefix name" "open_stack s = Node False prefix name txt_part as kids # m # st"
  shows "parse_loop (''</'' @ qualified_name prefix name @ ''>'' @ rest) s =
    parse_loop rest (s\<lparr>open_stack := add_child m (Node False prefix name txt_part as kids) # st\<rparr>)"
proof -
  have "read_name (qualified_name prefix name @ CHR ''>'' # rest) = ((prefix, name), CHR ''>'' # rest)"
    using read_qualified_name [OF assms(1), of "CHR ''>''" rest] by (simp add: name_char_def)
  then have "parse_step (''</'' @ qualified_name prefix name @ ''>'' @ rest) s =
      (rest, s\<lparr>open_stack := add_child m (Node False prefix name txt_part as kids) # st\<rparr>)"
    using assms(2)
    by (simp add: parse_step_def starts_with_def close_element_def pop_open_def)
  then show ?thesis by (intro parse_loop_step) simp_all
qed

lemma show_node_starts: "\<not> text_node n \<Longrightarrow> \<exists>r. show_node n = CHR ''<'' # r"
  by (cases n) (simp add: start_tag_def)

lemma parse_shown:
  "wf_node n \<Longrightarrow> fits h n \<Longrightarrow> length (open_stack s) + h \<le> kMaxDepth + 1 \<Longrightarrow> open_stack s \<noteq> [] \<Longrightarrow>
     (text_node n \<Longrightarrow> rest = [] \<or> hd rest = CHR ''<'') \<Longrightarrow>
     \<exists>b. parse_loop (show_node n @ rest) s = parse_loop rest (absorbed [n] b s)"
  "wf_nodes ks \<Longrightarrow> list_all (fits h) ks \<Longrightarrow> length (open_stack s) + h \<le> kMaxDepth + 1 \<Longrightarrow>
     open_stack s \<noteq> [] \<Longrightarrow> rest = [] \<or> hd rest = CHR ''<'' \<Longrightarrow>
     \<exists>b. parse_loop (show_nodes ks @ rest) s = parse_loop rest (absorbed ks b s)"
proof (induction n and ks arbitrary: h s rest and h s rest rule: wf_node_wf_nodes.induct)
  case (1 is_text prefix name content as kids)
  show ?case
  proof (cases is_text)
    case True
    then have n: "Node is_text prefix name content as kids = new_text content"
      using 1 by (simp add: new_text_def)
    have "parse_loop (escape_text content @ rest) s = parse_loop rest (absorbed [new_text content] (saw_element s) s)"
      using 1 True by (intro parse_text) auto
    with True n show ?thesis by (auto simp: new_text_def)
  next
    case element: False
    obtain g where h: "h = Suc g" using "1.prems"(2) by (cases h) auto
    have ok: "qualified_ok prefix name" "list_all (\<lambda>a. qualified_ok (a_prefix a) (a_name a)) as"
      using 1 element by auto
    let ?e = "Node False prefix name [] as []" and ?s = "s\<lparr>saw_element := True\<rparr>"
    obtain m st where st: "open_stack s = m # st" using "1.prems" by (cases "open_stack s") auto
    show ?thesis
    proof (cases "prefix = [] \<and> name \<in> set kVoid")
      case True
      then have "parse_loop (start_tag prefix name as @ rest) s = parse_loop rest (append_child ?e ?s)"
        by (subst read_start_tag [OF ok]) (auto simp: Let_def)
      moreover have "append_child ?e ?s = absorbed [?e] True s"
        by (simp add: append_child_def absorbed_def)
      ultimately show ?thesis using True element 1 by auto
    next
      case False
      let ?o = "?s\<lparr>open_stack := ?e # m # st\<rparr>"
      let ?close = "''</'' @ qualified_name prefix name @ ''>'' @ rest"
      have deep: "length (open_stack s) \<le> kMaxDepth" using "1.prems"(3) h by simp
      have opened: "parse_loop (start_tag prefix name as @ show_nodes kids @ ?close) s
          = parse_loop (show_nodes kids @ ?close) ?o"
        using False deep by (subst read_start_tag [OF ok]) (auto simp: Let_def st)
      have kids: "wf_nodes kids" "list_all (fits g) kids" using 1 element h by auto
      have "length (open_stack ?o) + g \<le> kMaxDepth + 1" using "1.prems"(3) h st by simp
      then obtain b where body: "parse_loop (show_nodes kids @ ?close) ?o
          = parse_loop ?close (absorbed kids b ?o)"
        using "1.IH" [OF element kids, of ?o ?close] by auto
      have "open_stack (absorbed kids b ?o) = Node False prefix name [] as kids # m # st"
        by (simp add: fold_add_child)
      then have "parse_loop ?close (absorbed kids b ?o)
          = parse_loop rest ((absorbed kids b ?o)\<lparr>open_stack := add_child m (Node False prefix name [] as kids) # st\<rparr>)"
        by (rule read_end_tag [OF ok(1)])
      also have "(absorbed kids b ?o)\<lparr>open_stack := add_child m (Node False prefix name [] as kids) # st\<rparr>
          = absorbed [Node False prefix name [] as kids] b s"
        by (simp add: absorbed_def st)
      finally show ?thesis
        using opened body element False 1 by auto
    qed
  qed
next
  case 2
  then show ?case using absorbed_Nil [of s] by (intro exI [of _ "saw_element s"]) simp
next
  case (3 k ks)
  have "text_node k \<Longrightarrow> show_nodes ks @ rest = [] \<or> hd (show_nodes ks @ rest) = CHR ''<''"
    using 3 show_node_starts [of "hd ks"] by (cases ks) auto
  moreover have k: "wf_node k" "fits h k" "wf_nodes ks" "list_all (fits h) ks"
    using "3.prems" by simp_all
  ultimately obtain b where
    b: "parse_loop (show_node k @ show_nodes ks @ rest) s = parse_loop (show_nodes ks @ rest) (absorbed [k] b s)"
    using "3.IH"(1) [OF k(1,2) "3.prems"(3,4)] by blast
  have "length (open_stack (absorbed [k] b s)) + h \<le> kMaxDepth + 1" using "3.prems" by simp
  then obtain c where
    "parse_loop (show_nodes ks @ rest) (absorbed [k] b s) = parse_loop rest (absorbed ks c (absorbed [k] b s))"
    using "3.IH"(2) [OF k(3,4) _ _ "3.prems"(5), of "absorbed [k] b s"] by auto
  with b show ?case by (auto simp: absorbed_absorbed)
qed

lemma printed_parses:
  assumes "wf_nodes ks" "list_all (fits 256) ks"
  shows "fst (parse (show_nodes ks)) = Node False [] ''#document'' [] [] ks" "warnings (snd (parse (show_nodes ks))) = []"
proof -
  from parse_shown(2) [OF assms, of initial_parser "[]"] obtain b where
    "parse_loop (show_nodes ks) initial_parser = parse_loop [] (absorbed ks b initial_parser)"
    by (auto simp: initial_parser_def kMaxDepth_def)
  then have "parse_loop (show_nodes ks) initial_parser = absorbed ks b initial_parser"
    by (simp add: parse_loop.simps)
  then show "fst (parse (show_nodes ks)) = Node False [] ''#document'' [] [] ks" "warnings (snd (parse (show_nodes ks))) = []"
    by (simp_all add: parse_def finish_def Let_def absorbed_def initial_parser_def empty_root_def fold_add_child)
qed

text \<open>
  C8. Printing a tree and parsing the text gives the tree back, without a
  warning: elements with their namespace prefixes, attributes with any value,
  void elements and character data with any bytes, nested up to 256 levels.
\<close>

theorem parse_show_nodes:
  assumes "wf_nodes ks" "list_all (fits 256) ks"
  shows "fst (parse (show_nodes ks)) = Node False [] ''#document'' [] [] ks
     \<and> warnings (snd (parse (show_nodes ks))) = []"
  using printed_parses [OF assms] by (rule conjI)

definition sample_page :: "node list" where
  "sample_page =
    [Node False ''ac'' ''link'' [] [\<lparr>a_prefix = ''ri'', a_name = ''title'', a_value = ''a<b & c''\<rparr>]
       [new_text ''x > y'', Node False [] ''br'' [] [] []]]"

theorem parse_show_nodes_witness:
  "fst (parse (show_nodes sample_page)) = Node False [] ''#document'' [] [] sample_page"
proof -
  have "wf_nodes sample_page"
    by (simp add: sample_page_def new_text_def qualified_ok_def markup_name_def kVoid_def
        char_class_simps byte_val_def)
  moreover have "list_all (fits 256) sample_page"
    by (simp add: sample_page_def new_text_def numeral_eq_Suc)
  ultimately show ?thesis using parse_show_nodes by blast
qed

subsection \<open>A lone colon\<close>

lemma skip_spaces: "list_all is_space w \<Longrightarrow> \<not> is_space c \<Longrightarrow> skip_space (w @ c # rest) = c # rest"
  using takeWhile_all [of is_space w c rest] by (simp add: skip_space_def)

lemma read_lone_colon:
  assumes "list_all is_space w" "\<not> name_char x"
  shows "read_attributes (w @ CHR '':'' # x # rest) as = read_attributes rest as"
proof -
  have "read_name (CHR '':'' # x # rest) = (([], []), x # rest)"
    using assms(2) colon_name_char
    by (simp add: read_name_def split_qualified_def starts_with_def lowercase_def)
  moreover have "skip_space (w @ CHR '':'' # x # rest) = CHR '':'' # x # rest"
    using assms(1) by (intro skip_spaces) (simp_all add: is_space_def)
  ultimately show ?thesis by (subst read_attributes.simps) simp
qed

text \<open>A word of character data: nothing in it means anything to the parser.\<close>

definition plain_word :: "string \<Rightarrow> bool" where
  "plain_word t = (t \<noteq> [] \<and> list_all (\<lambda>c. name_char c \<and> c \<notin> set ''<&:'' \<and> c \<noteq> CHR 0x22 \<and> c \<noteq> CHR 0x27) t)"

lemma escape_plain: "plain_word t \<Longrightarrow> escape_text t = t"
proof -
  have "list_all (\<lambda>c. escape_char c = [c]) t" if "plain_word t"
    using that by (auto simp: plain_word_def list_all_iff escape_char_def name_char_def)
  moreover have "escape_text t = t" if "list_all (\<lambda>c. escape_char c = [c]) t"
    using that by (induction t) (simp_all add: escape_text_def)
  ultimately show "plain_word t \<Longrightarrow> escape_text t = t" by blast
qed

text \<open>The word after the swallowed end becomes an attribute, and the end tag's own name ends the list.\<close>

definition swallowed :: "string \<Rightarrow> attribute" where
  "swallowed t = \<lparr>a_prefix = [], a_name = lowercase (t @ ''<''), a_value = []\<rparr>"

lemma read_swallowed_word:
  assumes "plain_word t" "c_islower c"
  shows "read_attributes (t @ ''</'' @ c # rest) as = (as @ [swallowed t], False, False, c # rest)"
proof -
  have word: "list_all name_char (t @ ''<'')" "CHR '':'' \<notin> set (t @ ''<'')"
    using assms(1) by (auto simp: plain_word_def list_all_iff name_char_def is_space_def)
  have "read_name ((t @ ''<'') @ CHR ''/'' # c # rest) = (([], lowercase (t @ ''<'')), CHR ''/'' # c # rest)"
    using takeWhile_all [OF word(1), of "CHR ''/''" "c # rest"] sfind_absent [OF word(2)]
    by (simp add: read_name_def split_qualified_def name_char_def)
  then have name: "read_name (t @ ''</'' @ c # rest) = (([], lowercase (t @ ''<'')), CHR ''/'' # c # rest)" by simp
  have v: "read_value (CHR ''/'' # c # rest) = ([], CHR ''/'' # c # rest)"
    by (simp add: read_value_def skip_space_def is_space_def)
  obtain a t' where t: "t = a # t'" "name_char a" using assms(1) by (cases t) (auto simp: plain_word_def)
  have sp: "skip_space (t @ ''</'' @ c # rest) = a # t' @ ''</'' @ c # rest" "a \<noteq> CHR ''>''" "a \<noteq> CHR ''/''"
    using t by (auto simp: name_char_def skip_space_def)
  have "read_attributes (t @ ''</'' @ c # rest) as = read_attributes (CHR ''/'' # c # rest) (as @ [swallowed t])"
    using name v sp(2,3) by (subst read_attributes.simps) (simp only: sp(1), simp add: t(1) swallowed_def lowercase_def)
  moreover have "read_attributes (CHR ''/'' # c # rest) bs = (bs, False, False, c # rest)" for bs
    using lower_not_special [OF assms(2)] by (subst read_attributes.simps) (simp add: skip_space_def is_space_def)
  ultimately show ?thesis by simp
qed

lemma qualified_ok_plain:
  "qualified_ok prefix name \<Longrightarrow> c \<in> set (qualified_name prefix name) \<Longrightarrow> c \<noteq> CHR ''<'' \<and> c \<noteq> CHR ''&''"
  unfolding qualified_ok_def qualified_name_def markup_name_def list_all_iff
  by (auto simp: char_class_simps byte_val_def split: if_splits)

lemma read_plain_text:
  assumes "\<And>c. c \<in> set r \<Longrightarrow> c \<noteq> CHR ''<'' \<and> c \<noteq> CHR ''&''" "r \<noteq> []"
  shows "parse_loop r s = append_text r s"
proof -
  have run: "takeWhile (\<lambda>c. c \<noteq> CHR ''<'') r = r" "dropWhile (\<lambda>c. c \<noteq> CHR ''<'') r = []" using assms(1) by auto
  have "decode_entities r = r" using assms(1) decode_plain [of r "[]"] by (auto simp: decode_entities_def)
  then have "parse_step r s = ([], append_text r s)"
    unfolding parse_step_def read_text_run_def run using assms(1) [of "hd r"] assms(2) by simp
  then show ?thesis using assms(2) parse_loop_step by (simp add: parse_loop.simps [of "[]"])
qed

text \<open>
  C10. An attribute list that holds a colon standing alone swallows the
  character after the colon, whatever follows it: the attributes before it are
  kept and reading goes on behind that character. When the character is the
  tag's own end, an element holding one word loses it: the word becomes an
  attribute, the element has no content, the name of its end tag becomes text
  beside it, and the only warning says that the start tag ran to the end of the
  body. The same markup without the colon reads as the element with its word
  and warns of nothing.
\<close>

theorem lone_colon_swallows_tag_end:
  assumes "qualified_ok prefix name" "\<not> (prefix = [] \<and> name \<in> set kVoid)"
    and "list_all (\<lambda>a. qualified_ok (a_prefix a) (a_name a)) as"
    and "w \<noteq> []" "list_all is_space w" "plain_word t"
  defines "tag \<equiv> ''<'' @ qualified_name prefix name @ concat (map show_attribute as)"
    and "end_tag \<equiv> ''</'' @ qualified_name prefix name @ ''>''"
    and "document \<equiv> Node False [] ''#document'' [] []"
  shows "(\<forall>x rest. \<not> name_char x \<longrightarrow>
        read_attributes (concat (map show_attribute as) @ w @ '':'' @ [x] @ rest) [] = read_attributes rest as)
    \<and> fst (parse (tag @ w @ '':>'' @ t @ end_tag)) =
        document [Node False prefix name [] (as @ [swallowed t]) [], new_text (qualified_name prefix name @ ''>'')]
    \<and> warnings (snd (parse (tag @ w @ '':>'' @ t @ end_tag))) = [''start tag <'' @ name @ ''> ran to the end of the body'']
    \<and> fst (parse (tag @ ''>'' @ t @ end_tag)) = document [Node False prefix name [] as [new_text t]]
    \<and> warnings (snd (parse (tag @ ''>'' @ t @ end_tag))) = []"
proof (intro conjI allI impI)
  let ?q = "qualified_name prefix name"
  have skipped: "read_attributes (concat (map show_attribute as) @ w @ '':'' @ [x] @ rest) [] = read_attributes rest as"
    if "\<not> name_char x" for x rest
    using read_lone_colon [OF assms(5) that, of rest as] read_attributes_prefix [OF assms(3)] by simp
  then show "\<not> name_char x \<Longrightarrow> read_attributes (concat (map show_attribute as) @ w @ '':'' @ [x] @ rest) [] = read_attributes rest as" for x rest .
  from qualified_name_chars(2) [OF assms(1)] obtain c cs where c: "?q = c # cs" "c_islower c" by blast
  have name: "name \<noteq> []" using assms(1) by (simp add: qualified_ok_def markup_name_def)
  define input where "input = concat (map show_attribute as) @ w @ '':>'' @ t @ end_tag"
  have "\<exists>y more. input = y # more \<and> \<not> name_char y"
  proof (cases as)
    case Nil
    then show ?thesis using assms(4,5) by (cases w) (auto simp: input_def name_char_def)
  qed (simp add: input_def show_attribute_def name_char_def is_space_def)
  then have read: "read_name (c # cs @ input) = ((prefix, name), input)"
    using read_qualified_name [OF assms(1)] c(1) by (metis append_Cons)
  have "\<not> name_char (CHR ''>'')" by (simp add: name_char_def)
  from skipped [OF this, of "t @ end_tag"] have "read_attributes input [] = read_attributes (t @ ''</'' @ c # cs @ ''>'') as"
    by (simp add: input_def end_tag_def c(1))
  also have "\<dots> = (as @ [swallowed t], False, False, c # cs @ ''>'')" using read_swallowed_word [OF assms(6) c(2)] by simp
  finally have attributes: "read_attributes input [] = (as @ [swallowed t], False, False, c # cs @ ''>'')" .
  define e where "e = Node False prefix name [] (as @ [swallowed t]) []"
  define s where "s = append_child e (warn (''start tag <'' @ name @ ''> ran to the end of the body'') (initial_parser\<lparr>saw_element := True\<rparr>))"
  have "parse_step (CHR ''<'' # c # cs @ input) initial_parser = (c # cs @ ''>'', s)"
    unfolding element_start_dispatch [OF c(2)] read_element_def using name by (simp add: read attributes e_def s_def Let_def)
  then have "parse_loop (CHR ''<'' # c # cs @ input) initial_parser = parse_loop (c # cs @ ''>'') s"
    by (intro parse_loop_step) simp_all
  also have "\<dots> = append_text (c # cs @ ''>'') s"
    using read_plain_text [of "c # cs @ ''>''"] qualified_ok_plain [OF assms(1)] by (auto simp: c(1))
  finally have broken: "parse (tag @ w @ '':>'' @ t @ end_tag) = finish (append_text (?q @ ''>'') s)"
    by (simp add: parse_def tag_def input_def c(1))
  show "fst (parse (tag @ w @ '':>'' @ t @ end_tag)) =
      document [Node False prefix name [] (as @ [swallowed t]) [], new_text (?q @ ''>'')]"
    "warnings (snd (parse (tag @ w @ '':>'' @ t @ end_tag))) = [''start tag <'' @ name @ ''> ran to the end of the body'']"
    unfolding broken document_def
    by (simp_all add: finish_def append_text_def append_child_def s_def e_def warn_def initial_parser_def empty_root_def add_child_def)
  have "wf_nodes [Node False prefix name [] as [new_text t]]" "list_all (fits 256) [Node False prefix name [] as [new_text t]]"
    using assms(1-3,6) by (simp_all add: new_text_def plain_word_def numeral_eq_Suc)
  moreover have "show_nodes [Node False prefix name [] as [new_text t]] = tag @ ''>'' @ t @ end_tag"
    using assms(2) escape_plain [OF assms(6)] by (simp add: tag_def end_tag_def start_tag_def new_text_def)
  ultimately show "fst (parse (tag @ ''>'' @ t @ end_tag)) = document [Node False prefix name [] as [new_text t]]"
    "warnings (snd (parse (tag @ ''>'' @ t @ end_tag))) = []"
    using printed_parses by (metis document_def)+
qed

theorem lone_colon_swallows_tag_end_witness:
  "fst (parse ''<p :>hi</p>'') \<noteq> fst (parse ''<p>hi</p>'')
   \<and> raw_text (fst (parse ''<p>hi</p>'')) = ''hi'' \<and> raw_text (fst (parse ''<p :>hi</p>'')) = ''p>''"
proof -
  have "qualified_ok [] ''p''" "plain_word ''hi''" "list_all is_space '' ''" "''p'' \<notin> set kVoid"
    by (simp_all add: qualified_ok_def markup_name_def plain_word_def name_char_def kVoid_def char_class_simps byte_val_def)
  then show ?thesis
    using lone_colon_swallows_tag_end [of "[]" "''p''" "[]" "'' ''" "''hi''"]
    by (simp add: qualified_name_def raw_text_def new_text_def)
qed

end
