(* ===== verification/Message.thy ===== *)
theory Message
  imports Complex_Main Prelude
begin

text \<open>
  Protobuf messages as the reflection API shows them to
  \<^verbatim>\<open>src/src/document_merge.cpp\<close> and \<^verbatim>\<open>src/src/stream_delta.cpp\<close>: a message is
  the list of its descriptor's fields, each with its content, in descriptor
  order, whatever the schema is. Two messages of one type have their fields in
  the same order (\<open>same_shape\<close>).
\<close>

subsection \<open>Values and fields\<close>

text \<open>A finite \<^verbatim>\<open>double\<close> or \<^verbatim>\<open>float\<close> is the rational it stands for.\<close>

datatype scalar = Str string | Num int | Bool bool | Flt rat

text \<open>
  \<open>Singular name presence is_string v\<close>: a singular scalar field; \<open>v = None\<close> is
  \<^verbatim>\<open>HasField\<close> false, which for a field without presence is its default value.
  \<open>Messages name is_map element es\<close>: a repeated message field, \<open>element\<close> its
  message type; the entries of a map field are messages whose first field is
  the key.
\<close>

datatype msg = Msg (package: string) (full_name: string) (slots: "slot list")
and slot =
    Singular string bool bool "scalar option"
  | Submessage string "msg option"
  | Repeated string "scalar list"
  | Messages string bool string "msg list"

fun slot_name :: "slot \<Rightarrow> string" where
  "slot_name (Singular name _ _ _) = name"
| "slot_name (Submessage name _) = name"
| "slot_name (Repeated name _) = name"
| "slot_name (Messages name _ _ _) = name"

definition field_of :: "string \<Rightarrow> msg \<Rightarrow> slot option" where
  "field_of name m = List.find (\<lambda>s. slot_name s = name) (slots m)"

text \<open>The accessors a generated class has for a field; an absent one reads as its default.\<close>

definition get_string :: "string \<Rightarrow> msg \<Rightarrow> string" where
  "get_string name m =
     (case field_of name m of
        Some (Singular _ _ _ (Some (Str s))) \<Rightarrow> s
      | _ \<Rightarrow> [])"

definition get_flt :: "string \<Rightarrow> msg \<Rightarrow> rat option" where
  "get_flt name m =
     (case field_of name m of
        Some (Singular _ _ _ (Some (Flt x))) \<Rightarrow> Some x
      | _ \<Rightarrow> None)"

definition get_sub :: "string \<Rightarrow> msg \<Rightarrow> msg option" where
  "get_sub name m =
     (case field_of name m of
        Some (Submessage _ v) \<Rightarrow> v
      | _ \<Rightarrow> None)"

definition get_list :: "string \<Rightarrow> msg \<Rightarrow> msg list" where
  "get_list name m =
     (case field_of name m of
        Some (Messages _ _ _ es) \<Rightarrow> es
      | _ \<Rightarrow> [])"

definition get_num :: "string \<Rightarrow> msg \<Rightarrow> int" where
  "get_num name m =
     (case field_of name m of
        Some (Singular _ _ _ (Some (Num n))) \<Rightarrow> n
      | _ \<Rightarrow> 0)"

definition get_bool :: "string \<Rightarrow> msg \<Rightarrow> bool" where
  "get_bool name m =
     (case field_of name m of
        Some (Singular _ _ _ (Some (Bool b))) \<Rightarrow> b
      | _ \<Rightarrow> False)"

definition get_dbl :: "string \<Rightarrow> msg \<Rightarrow> rat" where
  "get_dbl name m = (case get_flt name m of None \<Rightarrow> 0 | Some x \<Rightarrow> x)"

text \<open>An unset submessage reads as its default instance.\<close>

definition sub_or_default :: "string \<Rightarrow> msg \<Rightarrow> msg" where
  "sub_or_default name m = (case get_sub name m of None \<Rightarrow> Msg [] [] [] | Some s \<Rightarrow> s)"

definition child_refs :: "msg \<Rightarrow> string list" where
  "child_refs m = map (get_string ''ref'') (get_list ''children'' m)"

text \<open>\<^verbatim>\<open>ClearField\<close>, and the setters, on the field of that name.\<close>

fun clear_slot :: "slot \<Rightarrow> slot" where
  "clear_slot (Singular name p s _) = Singular name p s None"
| "clear_slot (Submessage name _) = Submessage name None"
| "clear_slot (Repeated name _) = Repeated name []"
| "clear_slot (Messages name b e _) = Messages name b e []"

definition update_field :: "string \<Rightarrow> (slot \<Rightarrow> slot) \<Rightarrow> msg \<Rightarrow> msg" where
  "update_field name f m =
     Msg (package m) (full_name m) (map (\<lambda>s. if slot_name s = name then f s else s) (slots m))"

definition clear_field :: "string \<Rightarrow> msg \<Rightarrow> msg" where
  "clear_field name m = update_field name clear_slot m"

fun with_list :: "msg list \<Rightarrow> slot \<Rightarrow> slot" where
  "with_list es (Messages name b e _) = Messages name b e es"
| "with_list es s = s"

definition set_list :: "string \<Rightarrow> msg list \<Rightarrow> msg \<Rightarrow> msg" where
  "set_list name es m = update_field name (with_list es) m"

fun with_sub :: "msg option \<Rightarrow> slot \<Rightarrow> slot" where
  "with_sub v (Submessage name _) = Submessage name v"
| "with_sub v s = s"

definition set_sub :: "string \<Rightarrow> msg option \<Rightarrow> msg \<Rightarrow> msg" where
  "set_sub name v m = update_field name (with_sub v) m"

text \<open>\<^verbatim>\<open>SetString\<close>: the empty string in a field without presence is its default.\<close>

definition set_string_value :: "bool \<Rightarrow> string \<Rightarrow> scalar option" where
  "set_string_value presence v = (if \<not> presence \<and> v = [] then None else Some (Str v))"

fun with_string :: "string \<Rightarrow> slot \<Rightarrow> slot" where
  "with_string v (Singular name p s _) = Singular name p s (set_string_value p v)"
| "with_string v s = s"

definition set_string :: "string \<Rightarrow> string \<Rightarrow> msg \<Rightarrow> msg" where
  "set_string name v m = update_field name (with_string v) m"

definition ref_item :: "string \<Rightarrow> msg" where
  "ref_item ref =
     Msg ''ai.pipestream.document.v1'' ''ai.pipestream.document.v1.RefItem'' [Singular ''ref'' False True (set_string_value False ref)]"

text \<open>What \<^verbatim>\<open>HasField\<close> and \<^verbatim>\<open>FieldSize\<close> say: whether a field holds anything.\<close>

fun slot_set :: "slot \<Rightarrow> bool" where
  "slot_set (Singular _ _ _ v) = (v \<noteq> None)"
| "slot_set (Submessage _ v) = (v \<noteq> None)"
| "slot_set (Repeated _ vs) = (vs \<noteq> [])"
| "slot_set (Messages _ _ _ es) = (es \<noteq> [])"

definition has_field :: "string \<Rightarrow> msg \<Rightarrow> bool" where
  "has_field name m = (case field_of name m of Some s \<Rightarrow> slot_set s | None \<Rightarrow> False)"

subsection \<open>Shapes\<close>

text \<open>Two fields of the same descriptor; two field lists of one message type.\<close>

fun same_field :: "slot \<Rightarrow> slot \<Rightarrow> bool" where
  "same_field (Singular n p s _) (Singular n' p' s' _) = (n = n' \<and> p = p' \<and> s = s')"
| "same_field (Submessage n _) (Submessage n' _) = (n = n')"
| "same_field (Repeated n _) (Repeated n' _) = (n = n')"
| "same_field (Messages n b e _) (Messages n' b' e' _) = (n = n' \<and> b = b' \<and> e = e')"
| "same_field _ _ = False"

lemma same_field_name: "same_field s t \<Longrightarrow> slot_name s = slot_name t"
  by (cases s; cases t) auto

lemma slot_name_updates [simp]:
  "slot_name (clear_slot s) = slot_name s" "slot_name (with_list es s) = slot_name s"
  "slot_name (with_sub v s) = slot_name s" "slot_name (with_string t s) = slot_name s"
  by (cases s; simp)+

lemma find_map_update:
  assumes "\<And>s. slot_name (f s) = slot_name s"
  shows "List.find (\<lambda>s. slot_name s = n) (map (\<lambda>s. if slot_name s = k then f s else s) ss)
     = map_option (\<lambda>s. if n = k then f s else s) (List.find (\<lambda>s. slot_name s = n) ss)"
  by (induction ss) (auto simp: assms)

lemma field_of_update:
  assumes "\<And>s. slot_name (f s) = slot_name s"
  shows "field_of n (update_field k f m)
     = map_option (\<lambda>s. if n = k then f s else s) (field_of n m)"
  by (simp add: field_of_def update_field_def find_map_update assms)

lemma get_list_set_list:
  "get_list n (set_list k es m) =
     (if n = k \<and> (\<exists>nm b e old. field_of k m = Some (Messages nm b e old)) then es else get_list n m)"
proof (cases "field_of n m")
  case (Some s)
  then show ?thesis
    by (cases s) (auto simp: get_list_def set_list_def field_of_update)
qed (auto simp: get_list_def set_list_def field_of_update)

lemma get_list_clear: "get_list n (clear_field k m) = (if n = k then [] else get_list n m)"
proof (cases "field_of n m")
  case (Some s)
  then show ?thesis
    by (cases s) (auto simp: get_list_def clear_field_def field_of_update)
qed (simp add: get_list_def clear_field_def field_of_update)

lemma get_list_set_sub [simp]: "get_list n (set_sub k v m) = get_list n m"
proof (cases "field_of n m")
  case (Some s)
  then show ?thesis by (cases s) (auto simp: get_list_def set_sub_def field_of_update)
qed (simp add: get_list_def set_sub_def field_of_update)

lemma get_list_set_string [simp]: "get_list n (set_string k v m) = get_list n m"
proof (cases "field_of n m")
  case (Some s)
  then show ?thesis by (cases s) (auto simp: get_list_def set_string_def field_of_update)
qed (simp add: get_list_def set_string_def field_of_update)

lemma get_sub_set_list [simp]: "get_sub n (set_list k es m) = get_sub n m"
proof (cases "field_of n m")
  case (Some s)
  then show ?thesis by (cases s) (auto simp: get_sub_def set_list_def field_of_update)
qed (simp add: get_sub_def set_list_def field_of_update)

lemma get_sub_set_sub:
  "get_sub n (set_sub k v m) =
     (if n = k \<and> (\<exists>nm old. field_of k m = Some (Submessage nm old)) then v else get_sub n m)"
proof (cases "field_of n m")
  case (Some s)
  then show ?thesis by (cases s) (auto simp: get_sub_def set_sub_def field_of_update)
qed (auto simp: get_sub_def set_sub_def field_of_update)

lemma get_string_set [simp]:
  "get_string n (set_list k es m) = get_string n m" "get_string n (set_sub k v m) = get_string n m"
proof -
  show "get_string n (set_list k es m) = get_string n m"
  proof (cases "field_of n m")
    case (Some s)
    then show ?thesis by (cases s) (auto simp: get_string_def set_list_def field_of_update)
  qed (simp add: get_string_def set_list_def field_of_update)
  show "get_string n (set_sub k v m) = get_string n m"
  proof (cases "field_of n m")
    case (Some s)
    then show ?thesis by (cases s) (auto simp: get_string_def set_sub_def field_of_update)
  qed (simp add: get_string_def set_sub_def field_of_update)
qed

lemma list_field: "get_list k m \<noteq> [] \<Longrightarrow> \<exists>nm b e old. field_of k m = Some (Messages nm b e old)"
  by (auto simp: get_list_def split: option.splits slot.splits)

lemma sub_field: "get_sub k m \<noteq> None \<Longrightarrow> \<exists>nm old. field_of k m = Some (Submessage nm old)"
  by (auto simp: get_sub_def split: option.splits slot.splits)

lemma get_list_set_list_same: "get_list k m \<noteq> [] \<Longrightarrow> get_list k (set_list k es m) = es"
  using list_field [of k m] by (simp add: get_list_set_list)

lemma get_list_set_list_length: "length es = length (get_list k m) \<Longrightarrow> get_list k (set_list k es m) = es"
proof (cases "get_list k m = []")
  case False
  then show ?thesis by (rule get_list_set_list_same)
qed (simp add: get_list_set_list)

lemma get_list_set_list_other: "n \<noteq> k \<Longrightarrow> get_list n (set_list k es m) = get_list n m"
  by (simp add: get_list_set_list)

lemma get_sub_set_sub_same: "get_sub k m \<noteq> None \<Longrightarrow> get_sub k (set_sub k v m) = v"
  using sub_field [of k m] by (simp add: get_sub_set_sub)

lemma ref_of_ref_item [simp]: "get_string ''ref'' (ref_item r) = r"
  by (simp add: get_string_def ref_item_def field_of_def set_string_value_def)

subsection \<open>Rewriting references\<close>

type_synonym ref_map = "string \<rightharpoonup> string"

definition reference_field :: "string \<Rightarrow> bool" where
  "reference_field name = (name = ''ref'' \<or> name = ''self_ref'' \<or> name = ''item_ref'')"

definition rewrite_value :: "ref_map \<Rightarrow> bool \<Rightarrow> scalar option \<Rightarrow> scalar option" where
  "rewrite_value mapping presence v =
     (if presence \<and> v = None then v
      else (case mapping (case v of Some (Str s) \<Rightarrow> s | _ \<Rightarrow> []) of
              Some new_ref \<Rightarrow> set_string_value presence new_ref
            | None \<Rightarrow> v))"

primrec rewrite_refs :: "ref_map \<Rightarrow> msg \<Rightarrow> msg"
  and rewrite_slot :: "ref_map \<Rightarrow> slot \<Rightarrow> slot" where
  "rewrite_refs mapping (Msg p n ss) = Msg p n (map (rewrite_slot mapping) ss)"
| "rewrite_slot mapping (Singular name presence is_string v) =
     Singular name presence is_string
       (if is_string \<and> reference_field name then rewrite_value mapping presence v else v)"
| "rewrite_slot mapping (Submessage name v) = Submessage name (map_option (rewrite_refs mapping) v)"
| "rewrite_slot mapping (Repeated name vs) = Repeated name vs"
| "rewrite_slot mapping (Messages name b e es) = Messages name b e (map (rewrite_refs mapping) es)"

end
