(* ===== verification/DocumentMerge.thy ===== *)
theory DocumentMerge
  imports Message "HOL-Library.AList"
begin

text \<open>
  The scatter-gather merge of collector documents
  (\<^verbatim>\<open>src/src/document_merge.cpp\<close>): arena renumbering, the reflective field
  merge with its provenance tracking, document-level claims and the rename
  log. The model is generic in the schema, as the code is. The
  \<^verbatim>\<open>field_sources\<close> list of the tracked root, which the code mutates through a
  pointer while it merges the root's fields, is threaded as \<open>ledger\<close> and put
  back when the root is done.
\<close>

subsection \<open>Standing\<close>

definition document_claim_rank :: "string \<Rightarrow> string \<Rightarrow> int" where
  "document_claim_rank collector mimetype =
     (if collector = ''grparse'' then 100
      else
        let ooxml = contains mimetype ''officedocument'';
            ole2 = (mimetype = ''application/msword'' \<or> contains mimetype ''ms-excel''
                    \<or> contains mimetype ''ms-powerpoint'');
            opendocument = contains mimetype ''opendocument'';
            spreadsheet = (contains mimetype ''spreadsheet'' \<or> contains mimetype ''ms-excel''
                    \<or> mimetype = ''text/csv'');
            office = (ooxml \<or> ole2 \<or> opendocument \<or> mimetype = ''text/csv''
                    \<or> mimetype = ''application/rtf'')
        in if collector = ''calamine'' then (if spreadsheet then 2 else 0)
           else if collector = ''libreoffice'' then (if office then 1 else 0)
           else if collector = ''protomolt'' then (if mimetype = ''application/pdf'' then 4 else 0)
           else 0)"

subsection \<open>Provenance\<close>

text \<open>\<open>rooted\<close> is \<^verbatim>\<open>root != nullptr\<close>; \<open>claimant\<close> is a \<^verbatim>\<open>CollectorSource\<close> message.\<close>

record tracking =
  rooted :: bool
  prefix :: string
  claimant :: "msg option"
  mimetype :: string

definition untracked :: tracking where
  "untracked = \<lparr>rooted = False, prefix = [], claimant = None, mimetype = []\<rparr>"

definition kFieldSource :: string where
  "kFieldSource = ''ai.pipestream.document.v1.FieldSource''"

definition is_value_message :: "msg \<Rightarrow> bool" where
  "is_value_message m = (package m = ''google.protobuf'')"

definition field_sources_of :: "msg \<Rightarrow> bool" where
  "field_sources_of m =
     (case field_of ''field_sources'' m of
        Some (Messages _ _ element _) \<Rightarrow> element = kFieldSource
      | _ \<Rightarrow> False)"

definition recorded :: "msg list \<Rightarrow> string \<Rightarrow> msg option" where
  "recorded ledger path = List.find (\<lambda>e. get_string ''field'' e = path) ledger"

definition field_source :: "string \<Rightarrow> msg \<Rightarrow> msg" where
  "field_source path source =
     Msg ''ai.pipestream.document.v1'' kFieldSource
       [Singular ''field'' False True (set_string_value False path), Submessage ''source'' (Some source)]"

fun reclaim :: "msg list \<Rightarrow> string \<Rightarrow> msg \<Rightarrow> msg list" where
  "reclaim [] path source = [field_source path source]"
| "reclaim (e # es) path source =
     (if get_string ''field'' e = path then set_sub ''source'' (Some source) e # es
      else e # reclaim es path source)"

text \<open>\<^verbatim>\<open>record\<close> is only called under a claimant.\<close>

definition record_claim :: "tracking \<Rightarrow> string \<Rightarrow> msg list \<Rightarrow> msg list" where
  "record_claim trk path ledger =
     (case claimant trk of None \<Rightarrow> ledger | Some c \<Rightarrow> reclaim ledger path c)"

definition source_of :: "msg \<Rightarrow> msg" where
  "source_of e = (case get_sub ''source'' e of Some s \<Rightarrow> s | None \<Rightarrow> Msg [] [] [])"

definition claimant_wins :: "tracking \<Rightarrow> string \<Rightarrow> msg list \<Rightarrow> bool" where
  "claimant_wins trk path ledger =
     (case (recorded ledger path, claimant trk) of
        (Some holder, Some challenger) \<Rightarrow>
          let incumbent = source_of holder
          in (case (get_flt ''confidence'' incumbent, get_flt ''confidence'' challenger) of
                (Some held, Some claimed) \<Rightarrow>
                  if held \<noteq> claimed then claimed > held
                  else document_claim_rank (get_string ''collector'' challenger) (mimetype trk)
                       > document_claim_rank (get_string ''collector'' incumbent) (mimetype trk)
              | _ \<Rightarrow> document_claim_rank (get_string ''collector'' challenger) (mimetype trk)
                       > document_claim_rank (get_string ''collector'' incumbent) (mimetype trk))
      | _ \<Rightarrow> False)"

fun claim_under :: "tracking \<Rightarrow> msg \<Rightarrow> msg list \<Rightarrow> msg list"
  and claim_slots :: "tracking \<Rightarrow> slot list \<Rightarrow> msg list \<Rightarrow> msg list"
  and claim_slot :: "tracking \<Rightarrow> slot \<Rightarrow> msg list \<Rightarrow> msg list" where
  "claim_under trk (Msg p n ss) ledger = claim_slots trk ss ledger"
| "claim_slots trk [] ledger = ledger"
| "claim_slots trk (s # ss) ledger = claim_slots trk ss (claim_slot trk s ledger)"
| "claim_slot trk (Singular name _ _ v) ledger =
     (if v = None then ledger else record_claim trk (prefix trk @ name) ledger)"
| "claim_slot trk (Submessage name None) ledger = ledger"
| "claim_slot trk (Submessage name (Some m)) ledger =
     (if is_value_message m then record_claim trk (prefix trk @ name) ledger
      else claim_under (trk\<lparr>prefix := prefix trk @ name @ ''.''\<rparr>) m ledger)"
| "claim_slot trk (Repeated _ _) ledger = ledger"
| "claim_slot trk (Messages _ _ _ _) ledger = ledger"

definition claim_fields_under :: "tracking \<Rightarrow> msg \<Rightarrow> msg list \<Rightarrow> msg list" where
  "claim_fields_under trk m ledger = claim_under trk m ledger"

text \<open>The exported \<^verbatim>\<open>claim_fields\<close>: a message that tracks itself claims its own fields.\<close>

definition claim_fields :: "msg \<Rightarrow> msg \<Rightarrow> msg" where
  "claim_fields tracked by_collector =
     (if \<not> field_sources_of tracked then tracked
      else set_list ''field_sources''
             (claim_fields_under \<lparr>rooted = True, prefix = [], claimant = Some by_collector, mimetype = []\<rparr>
                tracked (get_list ''field_sources'' tracked)) tracked)"

subsection \<open>The field merge\<close>

text \<open>\<^verbatim>\<open>map_key_repr\<close> of a map entry: its first field, spelled as a string.\<close>

definition map_key_repr :: "msg \<Rightarrow> string" where
  "map_key_repr e =
     (case slots e of
        Singular _ _ _ (Some (Str s)) # _ \<Rightarrow> s
      | Singular _ _ _ (Some (Num i)) # _ \<Rightarrow>
          (if i < 0 then CHR ''-'' # to_dec (nat (- i)) else to_dec (nat i))
      | Singular _ _ _ (Some (Bool b)) # _ \<Rightarrow> (if b then ''1'' else ''0'')
      | _ \<Rightarrow> [])"

text \<open>What one tracked or untracked scalar (or value message) does with its ledger.\<close>

definition tracked :: "tracking \<Rightarrow> bool" where
  "tracked trk = (claimant trk \<noteq> None \<and> rooted trk)"

text \<open>A message the target did not have, taken whole, and the claims that follow.\<close>

definition take_message :: "tracking \<Rightarrow> tracking \<Rightarrow> msg \<Rightarrow> msg list \<Rightarrow> msg \<times> msg list" where
  "take_message trk nested m ledger =
     (if claimant trk = None then (m, ledger)
      else if field_sources_of m
      then (let taken = clear_field ''field_sources'' m;
                own = trk\<lparr>rooted := True, prefix := []\<rparr>
            in (set_list ''field_sources'' (claim_fields_under own taken []) taken, ledger))
      else if tracked trk then (m, claim_fields_under nested m ledger)
      else (m, ledger))"

lemma size_clear_slot: "size (clear_slot s) \<le> size s"
proof (cases s)
  case (Submessage n v)
  then show ?thesis by (cases v) simp_all
qed auto

lemma size_clear_field: "size (clear_field name m) \<le> size m"
proof -
  have "size_list size (map (\<lambda>s. if slot_name s = name then clear_slot s else s) ss) \<le> size_list size ss" for ss
  proof (induction ss)
    case (Cons s ss)
    then show ?case using size_clear_slot [of s] by simp
  qed simp
  then show ?thesis by (cases m) (simp add: clear_field_def update_field_def)
qed

function (sequential) merge_message :: "tracking \<Rightarrow> msg \<Rightarrow> msg \<Rightarrow> msg list \<Rightarrow> msg \<times> msg list"
  and merge_slots :: "tracking \<Rightarrow> slot list \<Rightarrow> slot list \<Rightarrow> msg list \<Rightarrow> slot list \<times> msg list"
  and merge_slot :: "tracking \<Rightarrow> slot \<Rightarrow> slot \<Rightarrow> msg list \<Rightarrow> slot \<times> msg list" where
  "merge_message trk source target ledger =
     (if claimant trk \<noteq> None \<and> field_sources_of source
      then
        let (ts, own) = merge_slots (trk\<lparr>rooted := True, prefix := []\<rparr>)
               (slots (clear_field ''field_sources'' source)) (slots target)
               (get_list ''field_sources'' target)
        in (set_list ''field_sources'' own (Msg (package target) (full_name target) ts), ledger)
      else
        let (ts, ledger) = merge_slots trk (slots source) (slots target) ledger
        in (Msg (package target) (full_name target) ts, ledger))"
| "merge_slots trk (s # ss) (t # ts) ledger =
     (let (t, ledger) = merge_slot trk s t ledger;
          (ts, ledger) = merge_slots trk ss ts ledger
      in (t # ts, ledger))"
| "merge_slots trk ss ts ledger = (ts, ledger)"
| "merge_slot trk (Messages name is_map e es) (Messages tn tb te fs) ledger =
     (if is_map
      then (Messages tn tb te (fs @ filter (\<lambda>m. map_key_repr m \<notin> map_key_repr ` set fs) es), ledger)
      else if es = [] then (Messages tn tb te fs, ledger)
      else if fs = [] then (Messages tn tb te es, ledger)
      else (Messages tn tb te (fs @ es), ledger))"
| "merge_slot trk (Repeated name vs) (Repeated tn ws) ledger =
     (if vs = [] then (Repeated tn ws, ledger)
      else if ws = [] then (Repeated tn vs, ledger)
      else (Repeated tn (ws @ vs), ledger))"
| "merge_slot trk (Submessage name None) t ledger = (t, ledger)"
| "merge_slot trk (Submessage name (Some m)) (Submessage tn w) ledger =
     (if is_value_message m
      then
        let path = prefix trk @ name in
        if w = None
        then (Submessage tn (Some m), if tracked trk then record_claim trk path ledger else ledger)
        else if tracked trk \<and> claimant_wins trk path ledger
        then (Submessage tn (Some m), record_claim trk path ledger)
        else (Submessage tn w, ledger)
      else
        let nested = (if tracked trk then trk\<lparr>prefix := prefix trk @ name @ ''.''\<rparr> else trk) in
        (case w of
           Some held \<Rightarrow>
             let (merged, ledger) = merge_message nested m held ledger
             in (Submessage tn (Some merged), ledger)
         | None \<Rightarrow>
             let (taken, ledger) = take_message trk nested m ledger
             in (Submessage tn (Some taken), ledger)))"
| "merge_slot trk (Singular name p b None) t ledger = (t, ledger)"
| "merge_slot trk (Singular name p b (Some v)) (Singular tn tp tb w) ledger =
     (let path = prefix trk @ name in
      if w = None
      then (Singular tn tp tb (Some v), if tracked trk then record_claim trk path ledger else ledger)
      else if tracked trk \<and> claimant_wins trk path ledger
      then (Singular tn tp tb (Some v), record_claim trk path ledger)
      else (Singular tn tp tb w, ledger))"
| "merge_slot trk s t ledger = (t, ledger)"
  by pat_completeness auto
termination
proof (relation "measure (\<lambda>x. case x of Inl (trk, s, t, l) \<Rightarrow> 2 * size s + 1
     | Inr (Inl (trk, ss, ts, l)) \<Rightarrow> 2 * size_list size ss
     | Inr (Inr (trk, s, t, l)) \<Rightarrow> 2 * size s + 1)", goal_cases)
  case (2 trk source target ledger)
  then show ?case using size_clear_field [of "''field_sources''" source]
    by (cases "clear_field ''field_sources'' source") simp
next
  case (3 trk source target ledger)
  then show ?case by (cases source) simp
qed auto

declare merge_message.simps [simp del]

subsection \<open>Document-level claims\<close>

definition is_claim_field :: "string \<Rightarrow> bool" where
  "is_claim_field name =
     (name = ''source_meta'' \<or> name = ''origin'' \<or> name = ''page_styles''
      \<or> name = ''email'' \<or> name = ''media'')"

definition kCollectorClaim :: string where
  "kCollectorClaim = ''ai.pipestream.document.v1.CollectorClaim''"

definition kPageStyle :: string where
  "kPageStyle = ''ai.pipestream.document.v1.PageStyle''"

definition claim_of :: "msg \<Rightarrow> msg \<Rightarrow> msg option" where
  "claim_of source by_collector =
     (if \<not> has_field ''source_meta'' source \<and> \<not> has_field ''origin'' source
         \<and> \<not> has_field ''page_styles'' source \<and> \<not> has_field ''email'' source
         \<and> \<not> has_field ''media'' source
      then None
      else Some (Msg ''ai.pipestream.document.v1'' kCollectorClaim
        [Submessage ''source'' (Some by_collector),
         Submessage ''source_meta'' (map_option (clear_field ''field_sources'') (get_sub ''source_meta'' source)),
         Submessage ''origin'' (map_option (clear_field ''field_sources'') (get_sub ''origin'' source)),
         Messages ''page_styles'' False kPageStyle (get_list ''page_styles'' source),
         Submessage ''email'' (get_sub ''email'' source),
         Submessage ''media'' (get_sub ''media'' source)]))"

definition strip_document_identity :: "msg \<Rightarrow> msg" where
  "strip_document_identity fragment =
     fold clear_field [''name'', ''origin'', ''source_meta'', ''claims'', ''media'', ''email'',
       ''page_styles'', ''meta_tags'', ''changes''] fragment"

definition retain_claims_only :: "msg \<Rightarrow> msg" where
  "retain_claims_only source =
     Msg (package source) (full_name source)
       (map (\<lambda>s. if is_claim_field (slot_name s) \<or> slot_name s = ''generation_traces'' then s
                  else clear_slot s) (slots source))"

subsection \<open>Arenas\<close>

definition base_self_ref :: "msg \<Rightarrow> string" where
  "base_self_ref variant =
     (case get_sub ''base'' variant of Some b \<Rightarrow> get_string ''self_ref'' b | None \<Rightarrow> [])"

definition text_variants :: "string list" where
  "text_variants = [''title'', ''section_header'', ''list_item'', ''formula'', ''text'', ''code'',
     ''field_heading'', ''field_value'']"

text \<open>The variant of the \<^verbatim>\<open>item\<close> oneof that is set; code items carry their fields inline.\<close>

definition item_self_ref :: "msg \<Rightarrow> string" where
  "item_self_ref item =
     (case List.find (\<lambda>v. get_sub v item \<noteq> None) text_variants of
        None \<Rightarrow> []
      | Some v \<Rightarrow>
          (case get_sub v item of
             None \<Rightarrow> []
           | Some variant \<Rightarrow>
               if v = ''code'' then get_string ''self_ref'' variant else base_self_ref variant))"

definition arena_names :: "string list" where
  "arena_names = [''groups'', ''texts'', ''pictures'', ''tables'', ''key_value_items'', ''form_items'',
     ''field_regions'', ''field_items'']"

definition self_ref_in :: "string \<Rightarrow> msg \<Rightarrow> string" where
  "self_ref_in arena item = (if arena = ''texts'' then item_self_ref item else get_string ''self_ref'' item)"

definition arena_prefix :: "string \<Rightarrow> string" where
  "arena_prefix arena = ''#/'' @ arena @ ''/''"

text \<open>\<open>map_arena\<close> from item \<open>i\<close> on; the target has \<open>existing\<close> items already.\<close>

fun map_arena :: "(msg \<Rightarrow> string) \<Rightarrow> nat \<Rightarrow> string \<Rightarrow> nat \<Rightarrow> msg list \<Rightarrow> ref_map \<Rightarrow> ref_map" where
  "map_arena self_ref_of existing stem i [] mapping = mapping"
| "map_arena self_ref_of existing stem i (item # items) mapping =
     (let old_ref = self_ref_of item;
          old_ref = (if old_ref = [] then stem @ to_dec i else old_ref)
      in map_arena self_ref_of existing stem (i + 1) items
           (mapping(old_ref \<mapsto> stem @ to_dec (existing + i))))"

definition arena_mapping :: "msg \<Rightarrow> msg \<Rightarrow> ref_map" where
  "arena_mapping source target =
     fold (\<lambda>a. map_arena (self_ref_in a) (length (get_list a target)) (arena_prefix a) 0 (get_list a source))
       arena_names Map.empty"

definition append_arena :: "msg \<Rightarrow> string \<Rightarrow> msg \<Rightarrow> msg" where
  "append_arena source arena target =
     set_list arena (get_list arena target @ get_list arena source) target"

text \<open>The source, its arenas moved out, and the target with them appended.\<close>

definition merge_arenas :: "msg \<Rightarrow> msg \<Rightarrow> msg \<times> msg" where
  "merge_arenas source target =
     (let source = rewrite_refs (arena_mapping source target) source
      in (fold clear_field arena_names source, fold (append_arena source) arena_names target))"

definition merge_documents :: "msg \<Rightarrow> msg \<Rightarrow> msg" where
  "merge_documents source target =
     (let (source, target) = merge_arenas source target
      in fst (merge_message untracked source target []))"

definition merge_documents_claimed :: "msg \<Rightarrow> msg \<Rightarrow> msg \<Rightarrow> msg" where
  "merge_documents_claimed by_collector source target =
     (if get_string ''collector'' by_collector = [] then merge_documents source target
      else
        let claim = claim_of source by_collector;
            (source, target) = merge_arenas source target;
            trk = untracked\<lparr>claimant := Some by_collector,
              mimetype := (case get_sub ''origin'' target of
                             Some origin \<Rightarrow> get_string ''mimetype'' origin | None \<Rightarrow> [])\<rparr>;
            merged = fst (merge_message trk source target [])
        in (case claim of
              None \<Rightarrow> merged
            | Some c \<Rightarrow> set_list ''claims'' (get_list ''claims'' merged @ [c]) merged))"

subsection \<open>The rename log\<close>

text \<open>A \<^verbatim>\<open>std::map\<close> of the log: an association list with distinct keys.\<close>

type_synonym rename_log = "(string \<times> string) list"

definition holders :: "rename_log \<Rightarrow> string \<Rightarrow> string list" where
  "holders current_of name = map fst (filter (\<lambda>e. snd e = name) current_of)"

definition record_one :: "rename_log \<Rightarrow> string \<times> string \<Rightarrow> rename_log \<Rightarrow> rename_log" where
  "record_one current_of entry next_log =
     (if holders current_of (fst entry) \<noteq> []
      then fold (\<lambda>original. AList.update original (snd entry)) (holders current_of (fst entry)) next_log
      else if fst entry \<notin> fst ` set current_of
      then AList.update (fst entry) (snd entry) next_log
      else next_log)"

definition record_step :: "rename_log \<Rightarrow> rename_log \<Rightarrow> rename_log" where
  "record_step step current_of =
     filter (\<lambda>e. fst e \<noteq> snd e) (fold (record_one current_of) step current_of)"

text \<open>\<^verbatim>\<open>~ReferenceRenameLog\<close>: an inner log reports its whole composition to the outer one.\<close>

definition close_log :: "rename_log \<Rightarrow> rename_log option \<Rightarrow> rename_log option" where
  "close_log current_of previous = map_option (record_step current_of) previous"

text \<open>\<^verbatim>\<open>rewrite_references\<close>: the rewrite, and its record in the active log when there is one.\<close>

definition rewrite_references :: "rename_log \<Rightarrow> msg \<times> rename_log option \<Rightarrow> msg \<times> rename_log option" where
  "rewrite_references renumbering state =
     (rewrite_refs (map_of renumbering) (fst state), map_option (record_step renumbering) (snd state))"

subsection \<open>The untracked merge only adds\<close>

text \<open>\<open>keeps m m'\<close>: everything \<open>m\<close> says, \<open>m'\<close> says too, in the same place.\<close>

inductive keeps :: "msg \<Rightarrow> msg \<Rightarrow> bool" and keeps_slot :: "slot \<Rightarrow> slot \<Rightarrow> bool" where
  keeps_msg: "list_all2 keeps_slot ss ss' \<Longrightarrow> keeps (Msg p n ss) (Msg p n ss')"
| keeps_singular: "v = None \<or> v' = v \<Longrightarrow> keeps_slot (Singular n p b v) (Singular n p b v')"
| keeps_absent: "keeps_slot (Submessage n None) (Submessage n v')"
| keeps_same: "keeps_slot (Submessage n v) (Submessage n v)"
| keeps_sub: "keeps m m' \<Longrightarrow> keeps_slot (Submessage n (Some m)) (Submessage n (Some m'))"
| keeps_repeated: "keeps_slot (Repeated n vs) (Repeated n (vs @ ws))"
| keeps_messages: "keeps_slot (Messages n b e es) (Messages n b e (es @ fs))"

inductive_cases keeps_msgE: "keeps (Msg p n ss) m'"
inductive_simps keeps_singular_simp: "keeps_slot (Singular n p b v) s'"
inductive_simps keeps_messages_simp: "keeps_slot (Messages n b e es) s'"

lemma keeps_slot_refl [simp]: "keeps_slot s s"
proof (cases s)
  case (Repeated n vs)
  then show ?thesis using keeps_repeated [of n vs "[]"] by simp
next
  case (Messages n b e es)
  then show ?thesis using keeps_messages [of n b e es "[]"] by simp
qed (auto intro: keeps_singular keeps_same)

lemma keeps_refl [simp]: "keeps m m"
  by (cases m) (simp add: keeps_msg list.rel_refl)

lemmas keeps_intros = keeps_msg keeps_singular keeps_absent keeps_sub keeps_repeated keeps_messages

lemma keeps_repeated_empty: "keeps_slot (Repeated n []) (Repeated n vs)"
  using keeps_repeated [of n "[]" vs] by simp

lemma keeps_messages_empty: "keeps_slot (Messages n b e []) (Messages n b e es)"
  using keeps_messages [of n b e "[]" es] by simp

lemma merge_message_untracked:
  "claimant trk = None \<Longrightarrow> merge_message trk source target ledger =
     (Msg (package target) (full_name target) (fst (merge_slots trk (slots source) (slots target) ledger)),
      snd (merge_slots trk (slots source) (slots target) ledger))"
  by (subst merge_message.simps) (simp add: case_prod_unfold Let_def)

lemma merge_keeps:
  "claimant trk = None \<Longrightarrow> keeps target (fst (merge_message trk source target ledger))"
  "claimant trk = None \<Longrightarrow> list_all2 keeps_slot ts (fst (merge_slots trk ss ts ledger))"
  "claimant trk = None \<Longrightarrow> keeps_slot t (fst (merge_slot trk s t ledger))"
proof (induction trk source target ledger and trk ss ts ledger and trk s t ledger
    rule: merge_message_merge_slots_merge_slot.induct)
  case (1 trk source target ledger)
  then have "list_all2 keeps_slot (slots target) (fst (merge_slots trk (slots source) (slots target) ledger))"
    by simp
  then show ?case using 1(3) by (cases target) (auto simp: merge_message_untracked intro: keeps_msg)
next
  case (2 trk s ss t ts ledger)
  obtain t' l' where p: "merge_slot trk s t ledger = (t', l')" by fastforce
  with 2 show ?case by (simp add: case_prod_unfold Let_def)
qed (auto simp: Let_def case_prod_unfold tracked_def take_message_def list.rel_refl
    intro: keeps_intros keeps_repeated_empty keeps_messages_empty split: option.splits)

inductive_cases keeps_slot_singularE: "keeps_slot (Singular n p b v) s'"
inductive_cases keeps_slot_subE: "keeps_slot (Submessage n v) s'"
inductive_cases keeps_slot_repeatedE: "keeps_slot (Repeated n vs) s'"
inductive_cases keeps_slot_messagesE: "keeps_slot (Messages n b e es) s'"

lemma list_all2_compose:
  "list_all2 (\<lambda>x y. P x y \<and> (\<forall>z. Q y z \<longrightarrow> R x z)) xs ys \<Longrightarrow> list_all2 Q ys zs \<Longrightarrow> list_all2 R xs zs"
  by (induction xs arbitrary: ys zs) (auto simp: list_all2_Cons1 list_all2_Cons2)

lemma keeps_trans:
  "keeps a b \<Longrightarrow> \<forall>c. keeps b c \<longrightarrow> keeps a c"
  "keeps_slot s t \<Longrightarrow> \<forall>u. keeps_slot t u \<longrightarrow> keeps_slot s u"
proof (induction rule: keeps_keeps_slot.inducts)
  case (keeps_msg ss ss' p n)
  show ?case
  proof (intro allI impI)
    fix c assume "keeps (Msg p n ss') c"
    then show "keeps (Msg p n ss) c"
    proof (rule keeps_msgE)
      fix zs assume "c = Msg p n zs" "list_all2 keeps_slot ss' zs"
      then show ?thesis
        using list_all2_compose [OF keeps_msg, of zs] by (simp add: keeps_keeps_slot.keeps_msg)
    qed
  qed
next
  case (keeps_sub m m' n)
  then show ?case by (auto elim!: keeps_slot_subE intro: keeps_keeps_slot.keeps_sub)
qed (auto elim!: keeps_slot_singularE keeps_slot_subE keeps_slot_repeatedE keeps_slot_messagesE
    intro: keeps_intros keeps_same)

lemma merge_untracked_ledger:
  "claimant trk = None \<Longrightarrow> snd (merge_message trk source target ledger) = ledger"
  "claimant trk = None \<Longrightarrow> snd (merge_slots trk ss ts ledger) = ledger"
  "claimant trk = None \<Longrightarrow> snd (merge_slot trk s t ledger) = ledger"
proof (induction trk source target ledger and trk ss ts ledger and trk s t ledger
    rule: merge_message_merge_slots_merge_slot.induct)
  case (1 trk source target ledger)
  then show ?case by (simp add: merge_message_untracked)
next
  case (2 trk s ss t ts ledger)
  obtain t' l' where p: "merge_slot trk s t ledger = (t', l')" by fastforce
  with 2 show ?case by (simp add: case_prod_unfold Let_def)
qed (auto simp: Let_def case_prod_unfold tracked_def take_message_def split: option.splits)

lemma merge_slots_untracked:
  "claimant trk = None \<Longrightarrow> length ss = length ts \<Longrightarrow>
     fst (merge_slots trk ss ts ledger) = map2 (\<lambda>s t. fst (merge_slot trk s t ledger)) ss ts"
proof (induction ss ts rule: list_induct2')
  case (4 s ss t ts)
  moreover have "snd (merge_slot trk s t ledger) = ledger" using 4 by (simp add: merge_untracked_ledger)
  ultimately show ?case by (simp add: case_prod_unfold Let_def)
qed simp_all

lemma merge_slot_fills:
  "claimant trk = None \<Longrightarrow> same_field s t \<Longrightarrow> \<not> slot_set t \<Longrightarrow> fst (merge_slot trk s t ledger) = s"
proof (cases s)
  case (Singular n p b v)
  then show "claimant trk = None \<Longrightarrow> same_field s t \<Longrightarrow> \<not> slot_set t \<Longrightarrow> ?thesis"
    by (cases v; cases t) (auto simp: tracked_def)
next
  case (Submessage n v)
  then show "claimant trk = None \<Longrightarrow> same_field s t \<Longrightarrow> \<not> slot_set t \<Longrightarrow> ?thesis"
    by (cases v; cases t) (auto simp: take_message_def tracked_def Let_def)
qed (cases t; auto)+

subsection \<open>Fields of a document under the arena moves\<close>

lemma length_slots_update [simp]: "length (slots (update_field k f m)) = length (slots m)"
  by (simp add: update_field_def)

lemma slots_update_nth:
  "i < length (slots m) \<Longrightarrow> slots (update_field k f m) ! i
     = (if slot_name (slots m ! i) = k then f (slots m ! i) else slots m ! i)"
  by (simp add: update_field_def)

lemma fold_clear:
  "length (slots (fold clear_field names m)) = length (slots m)
   \<and> (\<forall>i<length (slots m). slots (fold clear_field names m) ! i
        = (if slot_name (slots m ! i) \<in> set names then clear_slot (slots m ! i) else slots m ! i))"
proof (induction names arbitrary: m)
  case (Cons k names)
  have "clear_slot (clear_slot s) = clear_slot s" for s by (cases s) simp_all
  with Cons [of "clear_field k m"] show ?case
    by (auto simp: clear_field_def slots_update_nth)
qed simp

lemma package_update [simp]:
  "package (update_field k f m) = package m" "full_name (update_field k f m) = full_name m"
  by (simp_all add: update_field_def)

lemma append_arena_slots:
  assumes "distinct (map slot_name (slots m))" "i < length (slots m)"
  shows "slots (append_arena source a m) ! i =
    (case slots m ! i of
       Messages n b e es \<Rightarrow> if n = a then Messages n b e (es @ get_list a source) else Messages n b e es
     | s \<Rightarrow> s)"
proof -
  have find: "List.find (\<lambda>s. slot_name s = slot_name (slots m ! i)) (slots m) = Some (slots m ! i)"
  proof -
    have "slot_name (slots m ! j) \<noteq> slot_name (slots m ! i)" if "j < i" for j
      using nth_eq_iff_index_eq [OF assms(1), of j i] that assms(2) by simp
    then show ?thesis using assms(2) by (auto simp: find_Some_iff intro!: exI [of _ i])
  qed
  show ?thesis
  proof (cases "slots m ! i")
    case (Messages n b e es)
    then have "n = a \<Longrightarrow> get_list a m = es" using find by (auto simp: get_list_def field_of_def)
    with Messages assms(2) show ?thesis
      by (simp add: append_arena_def set_list_def slots_update_nth)
  qed (use assms(2) in \<open>simp_all add: append_arena_def set_list_def slots_update_nth\<close>)
qed

lemma append_arena_names:
  "map slot_name (slots (append_arena source a m)) = map slot_name (slots m)"
  by (simp add: append_arena_def set_list_def update_field_def)

lemma append_arena_keeps:
  assumes "distinct (map slot_name (slots m))"
  shows "keeps m (append_arena source a m)"
proof -
  have "list_all2 keeps_slot (slots m) (slots (append_arena source a m))"
  proof (rule list_all2_all_nthI)
    show "length (slots m) = length (slots (append_arena source a m))"
      by (simp add: append_arena_def set_list_def)
    show "keeps_slot (slots m ! i) (slots (append_arena source a m) ! i)" if "i < length (slots m)" for i
      using append_arena_slots [OF assms that, of source a]
      by (cases "slots m ! i") (auto intro: keeps_messages)
  qed
  then show ?thesis
    by (cases m) (auto simp: append_arena_def set_list_def update_field_def intro: keeps_msg)
qed

lemma append_arenas_keep:
  "distinct (map slot_name (slots m)) \<Longrightarrow> keeps m (fold (append_arena source) names m)
     \<and> map slot_name (slots (fold (append_arena source) names m)) = map slot_name (slots m)"
proof (induction names arbitrary: m)
  case (Cons a names)
  have "distinct (map slot_name (slots (append_arena source a m)))"
    using Cons.prems by (simp add: append_arena_names)
  from Cons.IH [OF this] append_arena_keeps [OF Cons.prems, of source a] show ?case
    using keeps_trans(1) by (auto simp: append_arena_names)
qed simp

lemma append_arenas_other:
  "distinct (map slot_name (slots m)) \<Longrightarrow> i < length (slots m) \<Longrightarrow> slot_name (slots m ! i) \<notin> set names \<Longrightarrow>
     slots (fold (append_arena source) names m) ! i = slots m ! i"
proof (induction names arbitrary: m)
  case (Cons a names)
  have same: "slots (append_arena source a m) ! i = slots m ! i"
    using Cons.prems append_arena_slots [OF Cons.prems(1,2), of source a]
    by (auto split: slot.splits)
  have "length (slots (append_arena source a m)) = length (slots m)"
    by (simp add: append_arena_def set_list_def)
  with Cons.IH [of "append_arena source a m"] Cons.prems same show ?case
    by (simp add: append_arena_names)
qed simp

lemma same_field_updates:
  "same_field s t \<Longrightarrow> same_field (rewrite_slot mapping s) t" "same_field s t \<Longrightarrow> same_field (clear_slot s) t"
  "same_field s t \<Longrightarrow> same_field s (with_list es t)"
  by (cases s; cases t; auto)+

lemma slot_name_rewrite [simp]: "slot_name (rewrite_slot mapping s) = slot_name s"
  by (cases s) simp_all

lemma slots_rewrite: "slots (rewrite_refs mapping m) = map (rewrite_slot mapping) (slots m)"
  by (cases m) simp

lemma same_fields_names:
  assumes "list_all2 same_field ss ts" "i < length ts"
  shows "slot_name (ss ! i) = slot_name (ts ! i)" "length ss = length ts"
  using assms by (auto simp: list_all2_conv_all_nth same_field_name)

text \<open>
  C11. Merging a collector's document into another without a claimant only
  adds: whatever the target says, at any depth, it still says after the merge
  (values unchanged, lists extended at their end), and every field of the
  document the target had left open, arenas aside, carries exactly the
  source's content with its references renumbered.
\<close>

theorem merge_documents_additive:
  assumes "list_all2 same_field (slots source) (slots target)" "distinct (map slot_name (slots target))"
  shows "keeps target (merge_documents source target)
     \<and> (\<forall>i < length (slots target).
          \<not> slot_set (slots target ! i) \<and> slot_name (slots target ! i) \<notin> set arena_names \<longrightarrow>
          slots (merge_documents source target) ! i
            = rewrite_slot (arena_mapping source target) (slots source ! i))"
proof -
  define src where "src = rewrite_refs (arena_mapping source target) source"
  define left where "left = fold clear_field arena_names src"
  define grown where "grown = fold (append_arena src) arena_names target"
  have merged: "merge_documents source target = fst (merge_message untracked left grown [])"
    by (simp add: merge_documents_def merge_arenas_def Let_def src_def left_def grown_def)
  have un: "claimant untracked = None" by (simp add: untracked_def)
  have k1: "keeps target grown" and names: "map slot_name (slots grown) = map slot_name (slots target)"
    using append_arenas_keep [OF assms(2), of src arena_names] by (simp_all add: grown_def)
  then have "keeps target (merge_documents source target)"
    unfolding merged using merge_keeps(1) [OF un, of grown left "[]"] keeps_trans(1) by blast
  moreover have "slots (merge_documents source target) ! i = rewrite_slot (arena_mapping source target) (slots source ! i)"
    if i: "i < length (slots target)" and unset: "\<not> slot_set (slots target ! i)"
      and other: "slot_name (slots target ! i) \<notin> set arena_names" for i
  proof -
    note nm = same_fields_names [OF assms(1) i]
    have src_len: "length (slots src) = length (slots target)" using nm(2) by (simp add: src_def slots_rewrite)
    have src_i: "slots src ! i = rewrite_slot (arena_mapping source target) (slots source ! i)"
      using i nm(2) by (simp add: src_def slots_rewrite)
    have left_i: "slots left ! i = slots src ! i" "length (slots left) = length (slots target)"
      using fold_clear [of arena_names src] i src_len other nm(1) by (simp_all add: left_def src_i)
    have grown_i: "slots grown ! i = slots target ! i" "length (slots grown) = length (slots target)"
      using append_arenas_other [OF assms(2) i other, of src] arg_cong [OF names, of length]
      by (simp_all add: grown_def)
    have "same_field (slots left ! i) (slots grown ! i)"
      using assms(1) i by (simp add: left_i grown_i src_i same_field_updates list_all2_conv_all_nth)
    then have "fst (merge_slot untracked (slots left ! i) (slots grown ! i) []) = slots left ! i"
      using unset grown_i(1) by (intro merge_slot_fills un) simp_all
    moreover have "slots (merge_documents source target) ! i
        = fst (merge_slot untracked (slots left ! i) (slots grown ! i) [])"
      unfolding merged merge_message_untracked [OF un] using i left_i(2) grown_i(2)
      by (simp add: merge_slots_untracked [OF un])
    ultimately show ?thesis by (simp add: left_i src_i)
  qed
  ultimately show ?thesis by blast
qed

definition sample_group :: "string \<Rightarrow> string list \<Rightarrow> msg" where
  "sample_group self kids = Msg ''d'' ''GroupItem''
     [Singular ''self_ref'' False True (Some (Str self)),
      Messages ''children'' False ''RefItem''
        (map (\<lambda>r. Msg ''d'' ''RefItem'' [Singular ''ref'' False True (Some (Str r))]) kids)]"

definition sample_document :: "string option \<Rightarrow> msg option \<Rightarrow> msg list \<Rightarrow> msg" where
  "sample_document name body groups = Msg ''d'' ''Document''
     [Singular ''name'' False True (map_option Str name), Submessage ''body'' body,
      Messages ''groups'' False ''GroupItem'' groups]"

definition sample_source :: msg where
  "sample_source = sample_document (Some ''s'') (Some (sample_group ''#/body'' [''#/groups/0'']))
     [sample_group ''#/groups/0'' []]"

definition sample_target :: msg where
  "sample_target = sample_document None (Some (sample_group ''#/body'' [''#/groups/0'']))
     [sample_group ''#/groups/0'' []]"

lemma to_dec_digit: "n < 10 \<Longrightarrow> to_dec n = [char_of (48 + n)]"
  by (subst to_dec.simps) simp

theorem merge_documents_additive_witness:
  "keeps sample_target (merge_documents sample_source sample_target)
   \<and> slots (merge_documents sample_source sample_target) ! 0 = Singular ''name'' False True (Some (Str ''s''))"
proof -
  have "list_all2 same_field (slots sample_source) (slots sample_target)"
    "distinct (map slot_name (slots sample_target))"
    by (simp_all add: sample_source_def sample_target_def sample_document_def)
  from merge_documents_additive [OF this] show ?thesis
    by (auto simp: sample_target_def sample_source_def sample_document_def arena_names_def reference_field_def)
qed

subsection \<open>Arenas append under fresh names\<close>

lemma digits_tail:
  assumes "\<not> c_isdigit c"
  shows "takeWhile c_isdigit (rev (p @ c # to_dec i)) = rev (to_dec i)"
proof -
  have "\<forall>x\<in>set (rev (to_dec i)). c_isdigit x" using to_dec_digits [of _ i] by simp
  then show ?thesis using assms by (simp add: takeWhile_append)
qed

lemma arena_ref_eq: "arena_prefix a @ to_dec i = arena_prefix b @ to_dec j \<longleftrightarrow> a = b \<and> i = j"
proof
  assume eq: "arena_prefix a @ to_dec i = arena_prefix b @ to_dec j"
  have slash: "\<not> c_isdigit (CHR ''/'')" by (simp add: c_isdigit_def byte_val_def)
  have "takeWhile c_isdigit (rev ((''#/'' @ a) @ CHR ''/'' # to_dec i))
      = takeWhile c_isdigit (rev ((''#/'' @ b) @ CHR ''/'' # to_dec j))"
    using eq by (simp add: arena_prefix_def)
  then have "i = j" unfolding digits_tail [OF slash] by simp
  with eq show "a = b \<and> i = j" by (simp add: arena_prefix_def)
qed simp

definition canonical_arena :: "msg \<Rightarrow> string \<Rightarrow> bool" where
  "canonical_arena m a = (\<forall>i < length (get_list a m).
     self_ref_in a (get_list a m ! i) = [] \<or> self_ref_in a (get_list a m ! i) = arena_prefix a @ to_dec i)"

lemma map_arena_canonical:
  assumes "\<forall>k < length items. f (items ! k) = [] \<or> f (items ! k) = stem @ to_dec (i + k)"
  shows "map_arena f n stem i items mapping r =
     (if \<exists>k < length items. r = stem @ to_dec (i + k)
      then Some (stem @ to_dec (n + (THE k. r = stem @ to_dec k))) else mapping r)"
  using assms
proof (induction items arbitrary: i mapping)
  case (Cons item items)
  have old: "(if f item = [] then stem @ to_dec i else f item) = stem @ to_dec i"
    using Cons.prems [rule_format, of 0] by auto
  have "\<forall>k < length items. f (items ! k) = [] \<or> f (items ! k) = stem @ to_dec (i + 1 + k)"
    using Cons.prems by (auto dest: spec [of _ "Suc _"])
  note IH = Cons.IH [OF this, of "mapping(stem @ to_dec i \<mapsto> stem @ to_dec (n + i))"]
  have ex: "(\<exists>k < length (item # items). r = stem @ to_dec (i + k))
      \<longleftrightarrow> r = stem @ to_dec i \<or> (\<exists>k < length items. r = stem @ to_dec (i + 1 + k))"
    by (auto simp: less_Suc_eq_0_disj)
  show ?case
    unfolding map_arena.simps Let_def old IH ex by auto
qed simp

lemma fold_map_arena:
  assumes "\<forall>a\<in>set names. canonical_arena source a" "distinct names"
  shows "fold (\<lambda>a. map_arena (self_ref_in a) (length (get_list a target)) (arena_prefix a) 0 (get_list a source))
       names mapping r =
     (if \<exists>a\<in>set names. \<exists>i < length (get_list a source). r = arena_prefix a @ to_dec i
      then Some (THE s. \<exists>a\<in>set names. \<exists>i < length (get_list a source).
             r = arena_prefix a @ to_dec i \<and> s = arena_prefix a @ to_dec (length (get_list a target) + i))
      else mapping r)"
  using assms
proof (induction names arbitrary: mapping)
  case (Cons b names)
  let ?n = "\<lambda>a. length (get_list a target)" and ?l = "\<lambda>a. length (get_list a source)"
  have can: "\<forall>k < ?l b. self_ref_in b (get_list b source ! k) = []
      \<or> self_ref_in b (get_list b source ! k) = arena_prefix b @ to_dec (0 + k)"
    using Cons.prems by (simp add: canonical_arena_def)
  note one = map_arena_canonical [OF can, of "?n b" mapping r]
  have the: "(THE s. \<exists>a\<in>set (b # names). \<exists>i < ?l a.
      r = arena_prefix a @ to_dec i \<and> s = arena_prefix a @ to_dec (?n a + i)) = arena_prefix c @ to_dec (?n c + i)"
    if "c \<in> set (b # names)" "i < ?l c" "r = arena_prefix c @ to_dec i" for c i
    by (rule the_equality) (use that in \<open>auto simp: arena_ref_eq\<close>)
  have the': "(THE s. \<exists>a\<in>set names. \<exists>i < ?l a.
      r = arena_prefix a @ to_dec i \<and> s = arena_prefix a @ to_dec (?n a + i)) = arena_prefix c @ to_dec (?n c + i)"
    if "c \<in> set names" "i < ?l c" "r = arena_prefix c @ to_dec i" for c i
    by (rule the_equality) (use that in \<open>auto simp: arena_ref_eq\<close>)
  have IH: "fold (\<lambda>a. map_arena (self_ref_in a) (?n a) (arena_prefix a) 0 (get_list a source)) (b # names) mapping r =
     (if \<exists>a\<in>set names. \<exists>i < ?l a. r = arena_prefix a @ to_dec i
      then Some (THE s. \<exists>a\<in>set names. \<exists>i < ?l a.
             r = arena_prefix a @ to_dec i \<and> s = arena_prefix a @ to_dec (?n a + i))
      else map_arena (self_ref_in b) (?n b) (arena_prefix b) 0 (get_list b source) mapping r)"
    using Cons by simp
  show ?case
  proof (cases "\<exists>a\<in>set names. \<exists>i < ?l a. r = arena_prefix a @ to_dec i")
    case True
    then obtain c i where c: "c \<in> set names" "i < ?l c" "r = arena_prefix c @ to_dec i" by blast
    show ?thesis unfolding IH the' [OF c] using the [of c i] c by auto
  next
    case none: False
    show ?thesis
    proof (cases "\<exists>i < ?l b. r = arena_prefix b @ to_dec i")
      case True
      then obtain i where i: "i < ?l b" "r = arena_prefix b @ to_dec i" by blast
      have "(THE k. r = arena_prefix b @ to_dec k) = i" using i by simp
      with none i one the [of b i] show ?thesis unfolding IH by auto
    next
      case False
      with none one show ?thesis unfolding IH by auto
    qed
  qed
qed simp

lemma arena_mapping_canonical:
  assumes "\<forall>a\<in>set arena_names. canonical_arena source a"
  shows "a \<in> set arena_names \<Longrightarrow> i < length (get_list a source) \<Longrightarrow>
      arena_mapping source target (arena_prefix a @ to_dec i)
        = Some (arena_prefix a @ to_dec (length (get_list a target) + i))"
    and "(\<forall>a\<in>set arena_names. \<forall>i < length (get_list a source). r \<noteq> arena_prefix a @ to_dec i) \<Longrightarrow>
      arena_mapping source target r = None"
proof -
  have distinct: "distinct arena_names" by (simp add: arena_names_def)
  note eq = fold_map_arena [OF assms distinct, of target Map.empty, folded arena_mapping_def]
  show "arena_mapping source target (arena_prefix a @ to_dec i)
        = Some (arena_prefix a @ to_dec (length (get_list a target) + i))"
    if "a \<in> set arena_names" "i < length (get_list a source)"
  proof -
    have "(THE s. \<exists>b\<in>set arena_names. \<exists>j < length (get_list b source).
        arena_prefix a @ to_dec i = arena_prefix b @ to_dec j
        \<and> s = arena_prefix b @ to_dec (length (get_list b target) + j))
      = arena_prefix a @ to_dec (length (get_list a target) + i)"
      by (rule the_equality) (use that in \<open>auto simp: arena_ref_eq\<close>)
    then show ?thesis unfolding eq using that by auto
  qed
  show "arena_mapping source target r = None"
    if "\<forall>a\<in>set arena_names. \<forall>i < length (get_list a source). r \<noteq> arena_prefix a @ to_dec i"
    unfolding eq using that by auto
qed

text \<open>A message whose field \<open>a\<close> is a repeated message field that is no map.\<close>

definition has_arena :: "string \<Rightarrow> msg \<Rightarrow> bool" where
  "has_arena a m = (\<exists>b e es. field_of a m = Some (Messages b False e es))"

lemma field_of_name: "field_of a m = Some s \<Longrightarrow> slot_name s = a"
  by (auto simp: field_of_def find_Some_iff)

lemma has_arena_iff: "has_arena a m \<longleftrightarrow> (\<exists>e. field_of a m = Some (Messages a False e (get_list a m)))"
proof
  assume "has_arena a m"
  then obtain b e es where f: "field_of a m = Some (Messages b False e es)" by (auto simp: has_arena_def)
  with field_of_name [OF f] show "\<exists>e. field_of a m = Some (Messages a False e (get_list a m))"
    by (simp add: get_list_def)
qed (auto simp: has_arena_def)

lemma field_of_index:
  assumes "distinct (map slot_name (slots m))" "i < length (slots m)"
  shows "field_of (slot_name (slots m ! i)) m = Some (slots m ! i)"
proof -
  have "slot_name (slots m ! j) \<noteq> slot_name (slots m ! i)" if "j < i" for j
    using nth_eq_iff_index_eq [OF assms(1), of j i] that assms(2) by simp
  then show ?thesis using assms(2) by (auto simp: field_of_def find_Some_iff intro!: exI [of _ i])
qed

lemma field_of_obtain:
  assumes "field_of a m = Some s"
  obtains i where "i < length (slots m)" "slots m ! i = s" "slot_name s = a"
  using assms by (auto simp: field_of_def find_Some_iff)

lemma get_list_append_arena:
  assumes "has_arena a m"
  shows "get_list b (append_arena source a m) = (if b = a then get_list a m @ get_list a source else get_list b m)"
    "has_arena b m \<Longrightarrow> has_arena b (append_arena source a m)"
proof -
  show "get_list b (append_arena source a m) = (if b = a then get_list a m @ get_list a source else get_list b m)"
    using assms by (auto simp: append_arena_def get_list_set_list has_arena_def)
  show "has_arena b m \<Longrightarrow> has_arena b (append_arena source a m)"
    using assms by (cases "b = a") (auto simp: has_arena_def append_arena_def set_list_def field_of_update)
qed

lemma get_list_append_arenas:
  "distinct names \<Longrightarrow> \<forall>a\<in>set names. has_arena a m \<Longrightarrow> has_arena b m \<Longrightarrow>
     get_list b (fold (append_arena source) names m)
       = (if b \<in> set names then get_list b m @ get_list b source else get_list b m)
     \<and> has_arena b (fold (append_arena source) names m)"
proof (induction names arbitrary: m)
  case (Cons a names)
  have "\<forall>c\<in>set names. has_arena c (append_arena source a m)" "has_arena b (append_arena source a m)"
    using Cons.prems get_list_append_arena(2) by auto
  with Cons.IH [of "append_arena source a m"] Cons.prems
    get_list_append_arena(1) [of a m b source]
  show ?case by auto
qed simp

lemma get_list_fold_clear: "a \<in> set names \<Longrightarrow> get_list a (fold clear_field names m) = []"
proof (induction names arbitrary: m)
  case (Cons k names)
  have keep: "get_list a m = [] \<Longrightarrow> get_list a (fold clear_field names m) = []" for m
    by (induction names arbitrary: m) (simp_all add: get_list_clear)
  show ?case
  proof (cases "a \<in> set names")
    case False
    with Cons.prems have "a = k" by simp
    then have "get_list a (clear_field k m) = []" by (simp add: get_list_clear)
    from keep [OF this] show ?thesis by simp
  qed (use Cons.IH in simp)
qed simp

lemma get_list_rewrite: "get_list a (rewrite_refs mapping m) = map (rewrite_refs mapping) (get_list a m)"
proof -
  have "List.find (\<lambda>s. slot_name s = a) (map (rewrite_slot mapping) ss)
      = map_option (rewrite_slot mapping) (List.find (\<lambda>s. slot_name s = a) ss)" for ss
    by (induction ss) simp_all
  then have "field_of a (rewrite_refs mapping m) = map_option (rewrite_slot mapping) (field_of a m)"
    by (simp add: field_of_def slots_rewrite)
  then show ?thesis
    by (cases "field_of a m") (auto simp: get_list_def split: slot.split)
qed

text \<open>The field merge leaves an arena alone when the source's was moved out.\<close>

lemma merge_keeps_arena:
  assumes "list_all2 same_field (slots source) (slots target)" "distinct (map slot_name (slots target))"
    and "has_arena a target" "get_list a source = []" "claimant trk = None"
  shows "get_list a (fst (merge_message trk source target ledger)) = get_list a target"
proof -
  obtain e where f: "field_of a target = Some (Messages a False e (get_list a target))"
    using assms(3) has_arena_iff by blast
  then obtain i where i: "i < length (slots target)" "slots target ! i = Messages a False e (get_list a target)"
    by (rule field_of_obtain)
  let ?m = "fst (merge_message trk source target ledger)"
  have len: "length (slots source) = length (slots target)" using assms(1) by (rule list_all2_lengthD)
  have same: "same_field (slots source ! i) (slots target ! i)"
    using assms(1) i(1) by (simp add: list_all2_conv_all_nth)
  then obtain es where s: "slots source ! i = Messages a False e es"
    using i(2) by (cases "slots source ! i") auto
  have names: "map slot_name (slots source) = map slot_name (slots target)"
    using assms(1) by (auto simp: list_all2_conv_all_nth same_field_name intro: nth_equalityI)
  have "field_of (slot_name (slots source ! i)) source = Some (slots source ! i)"
    using assms(2) i(1) len by (intro field_of_index) (simp_all add: names)
  with s assms(4) have "es = []" by (simp add: get_list_def)
  have slot_i: "slots ?m ! j = fst (merge_slot trk (slots source ! j) (slots target ! j) ledger)"
    if "j < length (slots target)" for j
    using that len by (simp add: merge_message_untracked [OF assms(5)] merge_slots_untracked [OF assms(5)])
  have len_m: "length (slots ?m) = length (slots target)"
    using len by (simp add: merge_message_untracked [OF assms(5)] merge_slots_untracked [OF assms(5)])
  have keep: "list_all2 keeps_slot (slots target) (slots ?m)"
    using merge_keeps(2) [OF assms(5)] by (simp add: merge_message_untracked [OF assms(5)])
  have kn: "keeps_slot s t \<Longrightarrow> slot_name s = slot_name t" for s t
    by (cases rule: keeps_slot.cases) auto
  have "map slot_name (slots ?m) = map slot_name (slots target)"
    using keep kn by (auto simp: list_all2_conv_all_nth intro!: nth_equalityI)
  then have "field_of (slot_name (slots ?m ! i)) ?m = Some (slots ?m ! i)"
    using assms(2) i(1) len_m by (intro field_of_index) simp_all
  moreover have "slots ?m ! i = Messages a False e (get_list a target)"
    using slot_i [OF i(1)] s i(2) \<open>es = []\<close> by simp
  ultimately show ?thesis by (simp add: get_list_def)
qed

text \<open>
  C12. When the source's arenas are canonical (item \<open>i\<close> is named by its index,
  or unnamed), the merge appends every arena in order behind the target's own
  items, and the renumbering it applied sends each item's name to the index it
  now has and touches no other name: no item is lost, no two items share a
  name, and no reference to anything else is rewritten.
\<close>

theorem arenas_renumbered:
  assumes "list_all2 same_field (slots source) (slots target)" "distinct (map slot_name (slots target))"
    and "\<forall>a\<in>set arena_names. has_arena a target \<and> canonical_arena source a"
    and "a \<in> set arena_names"
  shows "get_list a (merge_documents source target)
           = get_list a target @ map (rewrite_refs (arena_mapping source target)) (get_list a source)
     \<and> (\<forall>i < length (get_list a source). arena_mapping source target (arena_prefix a @ to_dec i)
           = Some (arena_prefix a @ to_dec (length (get_list a target) + i)))
     \<and> (\<forall>r. (\<forall>b\<in>set arena_names. \<forall>i < length (get_list b source). r \<noteq> arena_prefix b @ to_dec i)
           \<longrightarrow> arena_mapping source target r = None)"
proof (intro conjI allI impI)
  have can: "\<forall>b\<in>set arena_names. canonical_arena source b" using assms(3) by blast
  show "arena_mapping source target (arena_prefix a @ to_dec i)
      = Some (arena_prefix a @ to_dec (length (get_list a target) + i))" if "i < length (get_list a source)" for i
    by (rule arena_mapping_canonical(1) [OF can assms(4) that])
  show "arena_mapping source target r = None"
    if "\<forall>b\<in>set arena_names. \<forall>i < length (get_list b source). r \<noteq> arena_prefix b @ to_dec i" for r
    by (rule arena_mapping_canonical(2) [OF can that])
  define src where "src = rewrite_refs (arena_mapping source target) source"
  define left where "left = fold clear_field arena_names src"
  define grown where "grown = fold (append_arena src) arena_names target"
  have merged: "merge_documents source target = fst (merge_message untracked left grown [])"
    by (simp add: merge_documents_def merge_arenas_def Let_def src_def left_def grown_def)
  have distinct: "distinct arena_names" by (simp add: arena_names_def)
  have grown: "get_list a grown = get_list a target @ get_list a src" "has_arena a grown"
    using get_list_append_arenas [OF distinct, of target a src] assms(3,4) by (simp_all add: grown_def)
  have names: "map slot_name (slots grown) = map slot_name (slots target)"
    using append_arenas_keep [OF assms(2), of src arena_names] by (simp add: grown_def)
  have "keeps target grown"
    using append_arenas_keep [OF assms(2), of src arena_names] by (simp add: grown_def)
  then have "list_all2 keeps_slot (slots target) (slots grown)"
    by (cases target) (auto elim: keeps_msgE)
  moreover have "keeps_slot t u \<Longrightarrow> same_field s t \<Longrightarrow> same_field s u" for s t u
    by (cases rule: keeps_slot.cases; cases s) auto
  moreover have "list_all2 same_field (slots left) (slots target)"
    using assms(1) fold_clear [of arena_names src]
    by (auto simp: left_def src_def slots_rewrite list_all2_conv_all_nth same_field_updates)
  ultimately have shape: "list_all2 same_field (slots left) (slots grown)"
    by (auto simp: list_all2_conv_all_nth)
  have "get_list a left = []" using assms(4) by (simp add: left_def get_list_fold_clear)
  then have "get_list a (merge_documents source target) = get_list a grown"
    unfolding merged using shape names assms(2) grown(2)
    by (intro merge_keeps_arena) (simp_all add: untracked_def)
  then show "get_list a (merge_documents source target)
      = get_list a target @ map (rewrite_refs (arena_mapping source target)) (get_list a source)"
    by (simp add: grown(1)) (simp add: src_def get_list_rewrite)
qed

definition arena_document :: "msg list \<Rightarrow> msg" where
  "arena_document groups = Msg ''d'' ''Document''
     (map (\<lambda>a. Messages a False ''Item'' (if a = ''groups'' then groups else [])) arena_names)"

theorem arenas_renumbered_witness:
  "let source = arena_document [sample_group ''#/groups/0'' [''#/groups/1''], sample_group ''#/groups/1'' []];
       target = arena_document [sample_group ''#/groups/0'' []]
   in length (get_list ''groups'' (merge_documents source target)) = 3
      \<and> arena_mapping source target ''#/groups/1'' = Some ''#/groups/2''"
proof -
  define source where "source = arena_document [sample_group ''#/groups/0'' [''#/groups/1''], sample_group ''#/groups/1'' []]"
  define target where "target = arena_document [sample_group ''#/groups/0'' []]"
  have src: "get_list a source = (if a = ''groups''
      then [sample_group ''#/groups/0'' [''#/groups/1''], sample_group ''#/groups/1'' []] else [])"
    and tgt: "get_list a target = (if a = ''groups'' then [sample_group ''#/groups/0'' []] else [])"
    if "a \<in> set arena_names" for a
    using that by (auto simp: source_def target_def arena_document_def get_list_def field_of_def arena_names_def)
  have shape: "list_all2 same_field (slots source) (slots target)"
    "distinct (map slot_name (slots target))"
    by (simp_all add: source_def target_def arena_document_def arena_names_def)
  have arena: "has_arena a target" if "a \<in> set arena_names" for a
    using that by (auto simp: has_arena_def target_def arena_document_def field_of_def arena_names_def)
  have digits: "char_of (48 :: nat) = CHR ''0''" "char_of (49 :: nat) = CHR ''1''" "char_of (50 :: nat) = CHR ''2''"
    by code_simp+
  have "canonical_arena source a" if "a \<in> set arena_names" for a
    using that by (auto simp: canonical_arena_def src sample_group_def self_ref_in_def get_string_def
        field_of_def arena_prefix_def to_dec_digit less_Suc_eq digits)
  with arena have ok: "\<forall>a\<in>set arena_names. has_arena a target \<and> canonical_arena source a" by blast
  have g: "''groups'' \<in> set arena_names" by (simp add: arena_names_def)
  from arenas_renumbered [OF shape ok g] show ?thesis
    unfolding source_def [symmetric] target_def [symmetric]
    by (auto simp: src [OF g] tgt [OF g] arena_prefix_def to_dec_digit less_Suc_eq Let_def digits)
qed

subsection \<open>Provenance under a claimant\<close>

definition ledger_ok :: "msg list \<Rightarrow> bool" where
  "ledger_ok ledger = (\<forall>e\<in>set ledger. \<exists>n v. field_of ''source'' e = Some (Submessage n v))"

definition has_claim :: "msg list \<Rightarrow> string \<Rightarrow> msg \<Rightarrow> bool" where
  "has_claim ledger path c = (\<exists>e. recorded ledger path = Some e \<and> get_sub ''source'' e = Some c)"

lemma field_source_fields [simp]:
  "get_string ''field'' (field_source path c) = path" "get_sub ''source'' (field_source path c) = Some c"
  "\<exists>n v. field_of ''source'' (field_source path c) = Some (Submessage n v)"
  by (simp_all add: field_source_def get_string_def get_sub_def field_of_def set_string_value_def)

lemma set_source:
  assumes "field_of ''source'' e = Some (Submessage n v)"
  shows "get_string ''field'' (set_sub ''source'' (Some c) e) = get_string ''field'' e"
    "get_sub ''source'' (set_sub ''source'' (Some c) e) = Some c"
    "field_of ''source'' (set_sub ''source'' (Some c) e) = Some (Submessage n (Some c))"
  using assms by (simp_all add: set_sub_def get_string_def get_sub_def field_of_update option.map_ident)

lemma reclaim_ok: "ledger_ok ledger \<Longrightarrow> ledger_ok (reclaim ledger path c)"
  by (induction ledger) (auto simp: ledger_ok_def set_source(3))

lemma recorded_reclaim:
  assumes "ledger_ok ledger"
  shows "q \<noteq> path \<Longrightarrow> recorded (reclaim ledger path c) q = recorded ledger q"
    "has_claim (reclaim ledger path c) path c"
proof -
  have one: "get_string ''field'' (set_sub ''source'' (Some c) e) = get_string ''field'' e"
    "get_sub ''source'' (set_sub ''source'' (Some c) e) = Some c" if "e \<in> set ledger" for e
    using assms that set_source(1,2) by (auto simp: ledger_ok_def)
  show "q \<noteq> path \<Longrightarrow> recorded (reclaim ledger path c) q = recorded ledger q"
    using one by (induction ledger) (auto simp: recorded_def)
  show "has_claim (reclaim ledger path c) path c"
    using one by (induction ledger) (auto simp: recorded_def has_claim_def)
qed

lemma claimant_wins_irrefl:
  "recorded ledger path = Some e \<Longrightarrow> get_sub ''source'' e = Some c \<Longrightarrow> claimant trk = Some c \<Longrightarrow>
     \<not> claimant_wins trk path ledger"
  by (simp add: claimant_wins_def source_of_def Let_def split: option.split)

text \<open>Any property of the ledger that a claim keeps, the whole merge keeps.\<close>

lemma claim_keeps:
  assumes step: "\<And>t path l. claimant t = Some c \<Longrightarrow> Q l \<Longrightarrow> Q (record_claim t path l)"
  shows "claimant trk = Some c \<Longrightarrow> Q ledger \<Longrightarrow> Q (claim_under trk m ledger)"
    "claimant trk = Some c \<Longrightarrow> Q ledger \<Longrightarrow> Q (claim_slots trk ss ledger)"
    "claimant trk = Some c \<Longrightarrow> Q ledger \<Longrightarrow> Q (claim_slot trk s ledger)"
  by (induction trk m ledger and trk ss ledger and trk s ledger rule: claim_under_claim_slots_claim_slot.induct)
    (auto intro: step)

lemma merge_ledger_keeps:
  assumes step: "\<And>t path l. claimant t = Some c \<Longrightarrow> Q l \<Longrightarrow> Q (record_claim t path l)"
  shows "claimant trk = Some c \<Longrightarrow> Q ledger \<Longrightarrow> Q (snd (merge_message trk source target ledger))"
    "claimant trk = Some c \<Longrightarrow> Q ledger \<Longrightarrow> Q (snd (merge_slots trk ss ts ledger))"
    "claimant trk = Some c \<Longrightarrow> Q ledger \<Longrightarrow> Q (snd (merge_slot trk s t ledger))"
proof (induction trk source target ledger and trk ss ts ledger and trk s t ledger
    rule: merge_message_merge_slots_merge_slot.induct)
  case (1 trk source target ledger)
  then show ?case by (subst merge_message.simps) (auto simp: case_prod_unfold Let_def)
next
  case (2 trk s ss t ts ledger)
  obtain t' l' where p: "merge_slot trk s t ledger = (t', l')" by fastforce
  with 2 show ?case by (simp add: case_prod_unfold Let_def)
qed (auto simp: Let_def case_prod_unfold take_message_def claim_fields_under_def
    intro: step claim_keeps [where Q = Q, OF step] split: option.split)

text \<open>A claim, once made by the claimant, is never taken from it by the same merge.\<close>

lemma claim_stays:
  assumes "claimant t = Some c" "ledger_ok l \<and> has_claim l path c"
  shows "ledger_ok (record_claim t p l) \<and> has_claim (record_claim t p l) path c"
  using assms recorded_reclaim(1) [of l path p c] recorded_reclaim(2) [of l p c] reclaim_ok [of l p c]
  by (cases "p = path") (auto simp: record_claim_def has_claim_def)

text \<open>Nothing the merge records makes the claimant win where it did not before.\<close>

lemma no_new_wins:
  assumes "claimant t = Some c" "claimant trk = Some c"
    and "ledger_ok l \<and> (claimant_wins trk path l \<longrightarrow> W)"
  shows "ledger_ok (record_claim t p l) \<and> (claimant_wins trk path (record_claim t p l) \<longrightarrow> W)"
proof (cases "p = path")
  case True
  then have "has_claim (record_claim t p l) path c"
    using assms recorded_reclaim(2) [of l p c] by (simp add: record_claim_def)
  then have "\<not> claimant_wins trk path (record_claim t p l)"
    using claimant_wins_irrefl assms(2) by (auto simp: has_claim_def)
  then show ?thesis using assms reclaim_ok by (simp add: record_claim_def)
next
  case False
  then have "recorded (record_claim t p l) path = recorded l path"
    using assms recorded_reclaim(1) [of l path p c] by (simp add: record_claim_def)
  then have "claimant_wins trk path (record_claim t p l) = claimant_wins trk path l"
    by (simp add: claimant_wins_def)
  then show ?thesis using assms reclaim_ok by (simp add: record_claim_def)
qed

lemma merge_slots_Cons:
  "merge_slots trk (s # ss) (t # ts) ledger =
     (let (t', l1) = merge_slot trk s t ledger; (ts', l2) = merge_slots trk ss ts l1 in (t' # ts', l2))"
  by simp

text \<open>One singular field of a tracked root, merged among its siblings.\<close>

lemma tracked_slot:
  assumes "claimant trk = Some c" "rooted trk" "ledger_ok ledger"
    and "i < length ss" "i < length ts" "ss ! i = Singular name p b v" "ts ! i = Singular name p b w"
  shows "\<exists>w'. fst (merge_slots trk ss ts ledger) ! i = Singular name p b w'
     \<and> (w = None \<longrightarrow> w' = v)
     \<and> (w' = w \<or> w' = v \<and> (w = None \<or> claimant_wins trk (prefix trk @ name) ledger)
          \<and> has_claim (snd (merge_slots trk ss ts ledger)) (prefix trk @ name) c)"
  using assms
proof (induction ss ts arbitrary: i ledger rule: list_induct2')
  case (4 s ss t ts)
  let ?path = "prefix trk @ name"
  obtain t' l1 where one: "merge_slot trk s t ledger = (t', l1)" by fastforce
  obtain ts' l2 where rest: "merge_slots trk ss ts l1 = (ts', l2)" by fastforce
  have all: "merge_slots trk (s # ss) (t # ts) ledger = (t' # ts', l2)"
    unfolding merge_slots_Cons one Let_def case_prod_conv rest by simp
  show ?case
  proof (cases i)
    case 0
    with 4 have st: "s = Singular name p b v" "t = Singular name p b w" by simp_all
    have keep: "has_claim l1 ?path c \<and> ledger_ok l1 \<Longrightarrow> has_claim l2 ?path c"
      using merge_ledger_keeps(2) [where Q = "\<lambda>l. ledger_ok l \<and> has_claim l ?path c", OF claim_stays 4(2), of l1 ss ts]
      by (simp add: rest)
    have tr: "tracked trk" using 4 by (simp add: tracked_def)
    have claim: "has_claim (record_claim trk ?path ledger) ?path c \<and> ledger_ok (record_claim trk ?path ledger)"
      using 4 recorded_reclaim(2) [of ledger ?path c] reclaim_ok [of ledger ?path c]
      by (simp add: record_claim_def)
    show ?thesis
    proof (cases v)
      case None
      with one st have "t' = Singular name p b w" by simp
      then show ?thesis unfolding all using 0 None by auto
    next
      case (Some x)
      consider "w = None" | "w \<noteq> None" "claimant_wins trk ?path ledger"
        | "w \<noteq> None" "\<not> claimant_wins trk ?path ledger" by blast
      then show ?thesis
      proof cases
        case 1
        with one st Some tr have "t' = Singular name p b v" "l1 = record_claim trk ?path ledger" by auto
        with claim keep 0 1 show ?thesis unfolding all by auto
      next
        case 2
        with one st Some tr have "t' = Singular name p b v" "l1 = record_claim trk ?path ledger" by auto
        with claim keep 0 2 show ?thesis unfolding all by auto
      next
        case 3
        with one st Some tr have "t' = Singular name p b w" by auto
        with 0 3 show ?thesis unfolding all by auto
      qed
    qed
  next
    case (Suc j)
    have "ledger_ok l1 \<and> (claimant_wins trk ?path l1 \<longrightarrow> claimant_wins trk ?path ledger)"
      using merge_ledger_keeps(3) [where Q = "\<lambda>l. ledger_ok l \<and> (claimant_wins trk ?path l \<longrightarrow> claimant_wins trk ?path ledger)",
          OF no_new_wins [OF _ 4(2)] 4(2), of ledger s t] 4(4)
      by (simp add: one)
    with 4(1) [of l1 j] 4(2-) Suc show ?thesis unfolding all by (auto simp: rest)
  qed
qed simp_all

lemma merge_slots_shape:
  "list_all2 same_field ss ts \<Longrightarrow> list_all2 same_field ts (fst (merge_slots trk ss ts ledger))"
proof (induction ss ts arbitrary: ledger rule: list_induct2')
  case (4 s ss t ts)
  obtain t' l1 where one: "merge_slot trk s t ledger = (t', l1)" by fastforce
  have "same_field t (fst (merge_slot trk s t ledger))" if "same_field s t"
  proof (cases s)
    case (Singular n p b v)
    with that show ?thesis by (cases v; cases t) (auto simp: Let_def)
  next
    case (Submessage n v)
    with that show ?thesis
      by (cases v; cases t) (auto simp: Let_def case_prod_unfold split: option.split)
  qed (use that in \<open>cases t; auto\<close>)+
  with 4 one show ?case by (simp add: case_prod_unfold Let_def)
qed simp_all

lemma same_field_trans: "same_field s t \<Longrightarrow> same_field t u \<Longrightarrow> same_field s u"
  by (cases s; cases t; cases u) auto

lemma find_same_fields:
  "list_all2 same_field ss ts \<Longrightarrow> List.find (\<lambda>s. slot_name s = n) ss = Some (Messages n b e es) \<Longrightarrow>
     \<exists>fs. List.find (\<lambda>s. slot_name s = n) ts = Some (Messages n b e fs)"
proof (induction ss ts rule: list_all2_induct)
  case (Cons s ss t ts)
  then show ?case using same_field_name [of s t] by (cases t) (auto split: if_splits)
qed simp


definition sample_collector :: "string \<Rightarrow> msg" where
  "sample_collector name = Msg ''d'' ''CollectorSource'' [Singular ''collector'' False True (Some (Str name))]"

definition sample_origin :: "string option \<Rightarrow> msg list \<Rightarrow> msg" where
  "sample_origin title ledger = Msg ''d'' ''DocumentOrigin''
     [Singular ''filename'' False True (map_option Str title),
      Messages ''field_sources'' False kFieldSource ledger]"


subsection \<open>The rename log composes\<close>

definition renamed :: "rename_log \<Rightarrow> string \<Rightarrow> string" where
  "renamed al name = (case map_of al name of Some new_name \<Rightarrow> new_name | None \<Rightarrow> name)"

lemma holders_iff [simp]:
  "x \<in> set (holders al name) \<longleftrightarrow> (x, name) \<in> set al"
  "holders al name = [] \<longleftrightarrow> (\<forall>x. (x, name) \<notin> set al)"
proof -
  show "x \<in> set (holders al name) \<longleftrightarrow> (x, name) \<in> set al" by (force simp: holders_def)
  then show "holders al name = [] \<longleftrightarrow> (\<forall>x. (x, name) \<notin> set al)"
    by (force simp: holders_def filter_empty_conv)
qed

lemma map_of_fold_update:
  "map_of (fold (\<lambda>k. AList.update k v) ks al) x = (if x \<in> set ks then Some v else map_of al x)"
  by (induction ks arbitrary: al) (auto simp: update_conv')

lemma map_of_record_one:
  assumes "distinct (map fst current_of)"
  shows "map_of (record_one current_of (from_name, to_name) al) x =
     (if map_of current_of x = Some from_name
         \<or> x = from_name \<and> from_name \<notin> fst ` set current_of \<and> holders current_of from_name = []
      then Some to_name else map_of al x)"
  using assms by (auto simp: record_one_def map_of_fold_update update_conv')

lemma map_of_record_fold:
  assumes "distinct (map fst current_of)" "distinct (map fst step)"
  shows "map_of (fold (record_one current_of) step al) x =
     (case (case map_of current_of x of
              Some cur \<Rightarrow> map_of step cur
            | None \<Rightarrow> if holders current_of x = [] then map_of step x else None) of
        Some new_name \<Rightarrow> Some new_name | None \<Rightarrow> map_of al x)"
  using assms(2)
proof (induction step arbitrary: al)
  case (Cons entry step)
  obtain f t where e: "entry = (f, t)" by fastforce
  have notin: "map_of step f = None" using Cons.prems e by (simp add: map_of_eq_None_iff)
  have dom: "map_of current_of x = None \<longleftrightarrow> x \<notin> fst ` set current_of" by (simp add: map_of_eq_None_iff)
  have IH: "map_of (fold (record_one current_of) ((f, t) # step) al) x =
     (case (case map_of current_of x of
              Some cur \<Rightarrow> map_of step cur
            | None \<Rightarrow> if holders current_of x = [] then map_of step x else None) of
        Some new_name \<Rightarrow> Some new_name | None \<Rightarrow> map_of (record_one current_of (f, t) al) x)"
    using Cons by simp
  show ?case
  proof (cases "map_of current_of x")
    case None
    then show ?thesis unfolding e IH using notin dom map_of_record_one [OF assms(1), of f t al x]
      by (auto split: option.split)
  next
    case (Some cur)
    then have "x \<in> fst ` set current_of" using dom by auto
    with Some show ?thesis unfolding e IH using notin map_of_record_one [OF assms(1), of f t al x]
      by (auto split: option.split)
  qed
qed (simp add: option.case_eq_if)

lemma map_of_filter_moved:
  assumes "distinct (map fst al)"
  shows "map_of (filter (\<lambda>e. fst e \<noteq> snd e) al) x = (if map_of al x = Some x then None else map_of al x)"
proof -
  have "distinct (map fst (filter (\<lambda>e. fst e \<noteq> snd e) al))" using assms by (rule distinct_map_filter)
  then have "map_of (filter (\<lambda>e. fst e \<noteq> snd e) al) x = Some y \<longleftrightarrow>
      (if map_of al x = Some x then None else map_of al x) = Some y" for y
    using assms by (auto dest: eq_key_imp_eq_value)
  then show ?thesis by (metis not_None_eq)
qed

lemma distinct_record_fold:
  "distinct (map fst al) \<Longrightarrow> distinct (map fst (fold (record_one c) step al))"
proof -
  have one: "distinct (map fst es) \<Longrightarrow> distinct (map fst (fold (\<lambda>k. AList.update k v) ks es))"
    for v ks and es :: rename_log
    by (induction ks arbitrary: es) (simp_all add: distinct_update)
  then have "distinct (map fst es) \<Longrightarrow> distinct (map fst (record_one c e es))" for e es
    by (simp add: record_one_def distinct_update)
  then show "distinct (map fst al) \<Longrightarrow> ?thesis"
    by (induction step arbitrary: al) simp_all
qed

lemma distinct_record_step:
  "distinct (map fst current_of) \<Longrightarrow> distinct (map fst (record_step step current_of))"
  using distinct_record_fold by (simp add: record_step_def distinct_map_filter)

lemma record_step_renamed:
  assumes "distinct (map fst current_of)" "distinct (map fst step)"
    and "x \<in> fst ` set current_of \<or> holders current_of x = []"
  shows "renamed (record_step step current_of) x = renamed step (renamed current_of x)"
proof -
  note d = distinct_record_fold [OF assms(1), of current_of step]
  have dom: "map_of current_of x = None \<longleftrightarrow> x \<notin> fst ` set current_of" by (simp add: map_of_eq_None_iff)
  show ?thesis
    unfolding renamed_def record_step_def map_of_filter_moved [OF d] map_of_record_fold [OF assms(1,2)]
    using assms(3) dom by (auto split: option.split)
qed

text \<open>The log after a sequence of renumberings, and what the sequence does to one name.\<close>

definition log_of :: "rename_log list \<Rightarrow> rename_log" where
  "log_of steps = fold record_step steps []"

definition renamed_by :: "rename_log list \<Rightarrow> string \<Rightarrow> string" where
  "renamed_by steps name = fold renamed steps name"

lemma log_of_snoc: "log_of (steps @ [s]) = record_step s (log_of steps)"
  by (simp add: log_of_def)

lemma distinct_log: "distinct (map fst (log_of steps))"
  by (induction steps rule: rev_induct) (simp_all add: log_of_snoc distinct_record_step, simp add: log_of_def)

lemma log_moves: "(x, y) \<in> set (log_of steps) \<Longrightarrow> x \<noteq> y"
proof (induction steps rule: rev_induct)
  case (snoc s steps)
  then show ?case by (auto simp: log_of_snoc record_step_def)
qed (simp add: log_of_def)

text \<open>
  Only names the log was told about enter it: its keys come from what the
  steps rename, so a set of names closed under \<open>no collision\<close> stays that way.
\<close>

lemma renamed_unlogged: "x \<notin> fst ` set al \<Longrightarrow> renamed al x = x"
  by (simp add: renamed_def map_of_eq_None_iff [symmetric])

lemma renamed_held: "distinct (map fst al) \<Longrightarrow> (x, y) \<in> set al \<Longrightarrow> renamed al x = y"
  by (simp add: renamed_def)


definition sample_steps :: "rename_log list" where
  "sample_steps = [[(''a'', ''b''), (''b'', ''c'')], [(''b'', ''d'')]]"

lemma sample_logs:
  "log_of [] = []" "log_of [[(''a'', ''b''), (''b'', ''c'')]] = [(''a'', ''b''), (''b'', ''c'')]"
  "log_of sample_steps = [(''a'', ''d''), (''b'', ''c'')]"
  by (simp_all add: log_of_def sample_steps_def record_step_def record_one_def holders_def)

lemma sample_renames:
  "renamed_by [] n = n" "renamed_by [[(''a'', ''b''), (''b'', ''c'')]] ''a'' = ''b''"
  "renamed_by [[(''a'', ''b''), (''b'', ''c'')]] ''b'' = ''c''"
  "renamed_by sample_steps ''a'' = ''d''" "renamed_by sample_steps ''b'' = ''c''"
  by (simp_all add: renamed_by_def renamed_def sample_steps_def)


end
