(* ===== verification/PageGeometry.thy ===== *)
theory PageGeometry
  imports Complex_Main Prelude "HOL-Library.Signed_Division" "HOL-Library.Product_Lexorder" "HOL-Library.Multiset"
begin

text \<open>
  Text lines and layout regions in page pixels
  (\<^verbatim>\<open>src/src/text_geometry.cpp\<close>, \<^verbatim>\<open>src/src/region_geometry.cpp\<close>): line boxes, the
  one rule that binds a line to a region, the rotation vote and the merge of
  digital and recognised text. Coordinates are \<^verbatim>\<open>int\<close>s, whose differences and
  products the code takes in 64 bits; scores are the rationals their floats
  stand for, \<open>dbl\<close> and \<open>flt\<close> the rounding to \<^verbatim>\<open>double\<close> and \<^verbatim>\<open>float\<close>.
\<close>

subsection \<open>Boxes and lines\<close>

record point =
  px :: int
  py :: int

record aabox =
  left_edge :: int
  top_edge :: int
  right_edge :: int
  bottom_edge :: int

datatype text_origin = From_Ocr | From_Digital

record ocr_line =
  line_text :: string
  polygon :: "point list"
  confidence :: "rat option"
  origin :: "text_origin option"
  flipped :: bool

record region =
  region_label :: string
  region_score :: rat
  region_box :: aabox

datatype page_source = Ocr_Page | Digital_Page | Merged_Page

record page =
  page_width :: int
  page_height :: int
  page_lines :: "ocr_line list"
  page_source :: page_source
  skip_ocr :: bool
  regions :: "region list"

definition box_width :: "aabox \<Rightarrow> int" where
  "box_width b = right_edge b - left_edge b"

definition box_height :: "aabox \<Rightarrow> int" where
  "box_height b = bottom_edge b - top_edge b"

definition box_area :: "aabox \<Rightarrow> int" where
  "box_area b = max 0 (box_width b) * max 0 (box_height b)"

text \<open>Integer division truncates toward zero.\<close>

definition box_center :: "aabox \<Rightarrow> point" where
  "box_center b = \<lparr>px = (left_edge b + right_edge b) sdiv 2, py = (top_edge b + bottom_edge b) sdiv 2\<rparr>"

definition box_contains :: "aabox \<Rightarrow> point \<Rightarrow> bool" where
  "box_contains b p =
     (px p \<ge> left_edge b \<and> px p \<le> right_edge b \<and> py p \<ge> top_edge b \<and> py p \<le> bottom_edge b)"

definition int_max :: int where "int_max = 2 ^ 31 - 1"

definition int_min :: int where "int_min = - (2 ^ 31)"

definition grow_box :: "point \<Rightarrow> aabox \<Rightarrow> aabox" where
  "grow_box p b =
     \<lparr>left_edge = min (left_edge b) (px p), top_edge = min (top_edge b) (py p),
      right_edge = max (right_edge b) (px p), bottom_edge = max (bottom_edge b) (py p)\<rparr>"

definition bounding_box :: "ocr_line \<Rightarrow> aabox" where
  "bounding_box line =
     (if polygon line = [] then \<lparr>left_edge = 0, top_edge = 0, right_edge = 0, bottom_edge = 0\<rparr>
      else fold grow_box (polygon line)
             \<lparr>left_edge = int_max, top_edge = int_max, right_edge = int_min, bottom_edge = int_min\<rparr>)"

definition clamp :: "int \<Rightarrow> int \<Rightarrow> int \<Rightarrow> int" where
  "clamp v lo hi = (if v < lo then lo else if v > hi then hi else v)"

definition clip_to_raster :: "int \<Rightarrow> int \<Rightarrow> ocr_line \<Rightarrow> ocr_line" where
  "clip_to_raster width height line =
     line\<lparr>polygon := map (\<lambda>p. \<lparr>px = clamp (px p) 0 (max 0 width), py = clamp (py p) 0 (max 0 height)\<rparr>)
        (polygon line)\<rparr>"

definition clip_region :: "region \<Rightarrow> int \<Rightarrow> int \<Rightarrow> aabox option" where
  "clip_region r raster_width raster_height =
     (let left = clamp (left_edge (region_box r)) 0 raster_width;
          top = clamp (top_edge (region_box r)) 0 raster_height;
          right = clamp (right_edge (region_box r)) 0 raster_width;
          bottom = clamp (bottom_edge (region_box r)) 0 raster_height
      in if right \<le> left \<or> bottom \<le> top then None
         else Some \<lparr>left_edge = left, top_edge = top, right_edge = right, bottom_edge = bottom\<rparr>)"

text \<open>\<^verbatim>\<open>region_for_line\<close>, as the index of the region: the best-scoring one around the line's centre.\<close>

fun best_region :: "point \<Rightarrow> nat \<Rightarrow> region list \<Rightarrow> (nat \<times> rat) option \<Rightarrow> (nat \<times> rat) option" where
  "best_region center i [] best = best"
| "best_region center i (r # rs) best =
     best_region center (i + 1) rs
       (if box_contains (region_box r) center
           \<and> (case best of None \<Rightarrow> True | Some (_, score) \<Rightarrow> region_score r > score)
        then Some (i, region_score r) else best)"

definition region_for_line :: "page \<Rightarrow> ocr_line \<Rightarrow> nat option" where
  "region_for_line p line =
     (if regions p = [] \<or> polygon line = [] then None
      else map_option fst (best_region (box_center (bounding_box line)) 0 (regions p) None))"

subsection \<open>Overlap\<close>

definition intersection_over_union :: "(rat \<Rightarrow> rat) \<Rightarrow> (rat \<Rightarrow> rat) \<Rightarrow> aabox \<Rightarrow> aabox \<Rightarrow> rat" where
  "intersection_over_union dbl flt a b =
     (let left = max (left_edge a) (left_edge b);
          top = max (top_edge a) (top_edge b);
          right = min (right_edge a) (right_edge b);
          bottom = min (bottom_edge a) (bottom_edge b);
          intersection = max 0 (right - left) * max 0 (bottom - top)
      in if intersection \<le> 0 then 0
         else
           let union_area = box_area a + box_area b - intersection
           in if union_area \<le> 0 then 0
              else flt (dbl (dbl (of_int intersection) / dbl (of_int union_area))))"

definition boxes_overlap_significantly ::
  "(rat \<Rightarrow> rat) \<Rightarrow> (rat \<Rightarrow> rat) \<Rightarrow> aabox \<Rightarrow> aabox \<Rightarrow> rat \<Rightarrow> bool" where
  "boxes_overlap_significantly dbl flt a b iou_threshold =
     (box_contains a (box_center b) \<or> box_contains b (box_center a)
      \<or> intersection_over_union dbl flt a b \<ge> iou_threshold)"

subsection \<open>The rotation vote\<close>

record rotation_vote =
  vertical_lines :: int
  horizontal_lines :: int
  quarter_turn :: bool

definition count_vote :: "(rat \<Rightarrow> rat) \<Rightarrow> rat \<Rightarrow> ocr_line \<Rightarrow> rotation_vote \<Rightarrow> rotation_vote" where
  "count_vote dbl aspect line vote =
     (if polygon line = [] then vote
      else
        let box = bounding_box line; width = of_int (box_width box); height = of_int (box_height box) in
        if width \<le> 0 \<or> height \<le> 0 then vote
        else if height > dbl (aspect * width) then vote\<lparr>vertical_lines := vertical_lines vote + 1\<rparr>
        else if width > dbl (aspect * height) then vote\<lparr>horizontal_lines := horizontal_lines vote + 1\<rparr>
        else vote)"

definition page_rotation_vote :: "(rat \<Rightarrow> rat) \<Rightarrow> page \<Rightarrow> rat \<Rightarrow> int \<Rightarrow> rotation_vote" where
  "page_rotation_vote dbl p aspect minimum_lines =
     (let vote = fold (count_vote dbl aspect) (page_lines p)
            \<lparr>vertical_lines = 0, horizontal_lines = 0, quarter_turn = False\<rparr>
      in vote\<lparr>quarter_turn := vertical_lines vote \<ge> minimum_lines
            \<and> vertical_lines vote > 2 * horizontal_lines vote\<rparr>)"

record read_quality =
  text_lines :: int
  scored_lines :: int
  mean_confidence :: rat
  flipped_lines :: int
  upside_down :: bool

definition page_read_quality :: "(rat \<Rightarrow> rat) \<Rightarrow> page \<Rightarrow> read_quality" where
  "page_read_quality flt p =
     (let ls = filter (\<lambda>l. line_text l \<noteq> []) (page_lines p);
          scores = List.map_filter confidence ls;
          flips = int (length (filter flipped ls));
          mean = (if scores = [] then 0 else flt (fold (\<lambda>c sum. flt (sum + c)) scores 0 / flt (of_nat (length scores))))
      in \<lparr>text_lines = int (length ls), scored_lines = int (length scores), mean_confidence = mean,
          flipped_lines = flips, upside_down = (int (length ls) > 0 \<and> 2 * flips > int (length ls))\<rparr>)"

definition rotation_candidates :: "rotation_vote \<Rightarrow> read_quality \<Rightarrow> rat \<Rightarrow> int \<Rightarrow> int list" where
  "rotation_candidates vote quality confidence_floor minimum_lines =
     (if quarter_turn vote then (if upside_down quality then [90, 270] else [270, 90])
      else if upside_down quality then [180]
      else if text_lines quality \<ge> minimum_lines \<and> scored_lines quality > 0
              \<and> mean_confidence quality < confidence_floor then [90, 180, 270]
      else [])"

record read_score =
  has_text :: bool
  upright :: bool
  score_mean :: rat

definition score_read :: "(rat \<Rightarrow> rat) \<Rightarrow> (rat \<Rightarrow> rat) \<Rightarrow> page \<Rightarrow> read_score" where
  "score_read dbl flt p =
     (let quality = page_read_quality flt p; vote = page_rotation_vote dbl p (3 / 2) 3
      in \<lparr>has_text = text_lines quality > 0,
          upright = \<not> quarter_turn vote \<and> \<not> upside_down quality
             \<and> horizontal_lines vote \<ge> vertical_lines vote,
          score_mean = mean_confidence quality\<rparr>)"

subsection \<open>Merging digital and recognised text\<close>

definition readable :: "ocr_line \<Rightarrow> bool" where
  "readable line = (line_text line \<noteq> [] \<and> polygon line \<noteq> [])"

definition with_origin :: "text_origin \<Rightarrow> ocr_line \<Rightarrow> ocr_line" where
  "with_origin source line = (if origin line = None then line\<lparr>origin := Some source\<rparr> else line)"

definition line_key :: "ocr_line \<Rightarrow> int \<times> int" where
  "line_key line = (top_edge (bounding_box line), left_edge (bounding_box line))"

definition duplicates :: "(rat \<Rightarrow> rat) \<Rightarrow> (rat \<Rightarrow> rat) \<Rightarrow> ocr_line list \<Rightarrow> ocr_line \<Rightarrow> bool" where
  "duplicates dbl flt digital line =
     list_ex (\<lambda>d. boxes_overlap_significantly dbl flt (bounding_box d) (bounding_box line) (1 / 4)) digital"

definition merge_digital_and_ocr :: "(rat \<Rightarrow> rat) \<Rightarrow> (rat \<Rightarrow> rat) \<Rightarrow> page \<Rightarrow> page \<Rightarrow> page" where
  "merge_digital_and_ocr dbl flt digital ocr =
     (let digital_lines = map (with_origin From_Digital) (filter readable (page_lines digital));
          ocr_lines = map (with_origin From_Ocr)
            (filter (\<lambda>l. readable l \<and> \<not> duplicates dbl flt digital_lines l) (page_lines ocr))
      in \<lparr>page_width = (if page_width digital > 0 then page_width digital else page_width ocr),
          page_height = (if page_height digital > 0 then page_height digital else page_height ocr),
          page_lines = sort_key line_key (digital_lines @ ocr_lines),
          page_source = Merged_Page, skip_ocr = False, regions = []\<rparr>)"

lemma best_region_index:
  "best_region center i rs best = Some (k, score) \<Longrightarrow>
     best = Some (k, score) \<or> i \<le> k \<and> k < i + length rs \<and> box_contains (region_box (rs ! (k - i))) center"
proof (induction rs arbitrary: i best)
  case (Cons r rs)
  from Cons.IH [OF Cons.prems [unfolded best_region.simps]] show ?case
    by (auto simp: Suc_diff_le nth_Cons' split: if_splits)
qed simp

lemma region_for_line_index:
  assumes "region_for_line p line = Some k"
  shows "k < length (regions p)" "box_contains (region_box (regions p ! k)) (box_center (bounding_box line))"
  using assms best_region_index [of "box_center (bounding_box line)" 0 "regions p" None k]
  by (auto simp: region_for_line_def split: if_splits)

end
