(* ===== verification/ReadingOrder.thy ===== *)
theory ReadingOrder
  imports PageGeometry
begin

text \<open>
  Reading order by recursive XY-cut (\<^verbatim>\<open>src/src/reading_order.cpp\<close>). A
  \<^verbatim>\<open>double\<close> edge is \<open>Some\<close> of the rational it stands for, \<open>None\<close> when it is not
  finite; \<open>rnd\<close> is the rounding of double arithmetic, which no result here
  depends on. The recursion of \<^verbatim>\<open>order_members\<close> carries fuel: \<open>None\<close> is a
  recursion that has not ended.
\<close>

subsection \<open>Boxes and the cut policy\<close>

record order_box =
  box_left :: "rat option"
  box_top :: "rat option"
  box_right :: "rat option"
  box_bottom :: "rat option"

record cut_policy =
  band_over_gutter :: rat
  gutter_side_share :: rat
  gutter_parallel_share :: rat

definition default_policy :: cut_policy where
  "default_policy = \<lparr>band_over_gutter = 1, gutter_side_share = 0, gutter_parallel_share = 1 / 4\<rparr>"

definition edge :: "rat option \<Rightarrow> rat" where
  "edge e = (case e of None \<Rightarrow> 0 | Some x \<Rightarrow> x)"

type_synonym rows = "(rat \<times> rat) list"

text \<open>A box's extent along one axis.\<close>

definition span_of :: "bool \<Rightarrow> order_box \<Rightarrow> rat \<times> rat" where
  "span_of horizontal b =
     (if horizontal then (edge (box_top b), edge (box_bottom b)) else (edge (box_left b), edge (box_right b)))"

subsection \<open>Gaps and gutters\<close>

record gap =
  gap_width :: rat
  gap_at :: rat

fun gap_scan :: "(rat \<Rightarrow> rat) \<Rightarrow> rows \<Rightarrow> rat \<Rightarrow> gap option \<Rightarrow> gap option" where
  "gap_scan rnd [] band_end best = best"
| "gap_scan rnd ((start, finish) # spans) band_end best =
     gap_scan rnd spans (max band_end finish)
       (if start > band_end \<and> (case best of None \<Rightarrow> True | Some g \<Rightarrow> rnd (start - band_end) > gap_width g)
        then Some \<lparr>gap_width = rnd (start - band_end), gap_at = band_end\<rparr> else best)"

definition widest_gap :: "(rat \<Rightarrow> rat) \<Rightarrow> order_box list \<Rightarrow> nat list \<Rightarrow> bool \<Rightarrow> gap option" where
  "widest_gap rnd boxes members horizontal =
     (let spans = sort (map (\<lambda>i. span_of horizontal (boxes ! i)) members)
      in gap_scan rnd spans (snd (hd spans)) None)"

text \<open>The height of the hull of some boxes; \<open>None\<close> is the \<open>-\<infinity>\<close> of no boxes.\<close>

definition hull_height :: "(rat \<Rightarrow> rat) \<Rightarrow> order_box list \<Rightarrow> rat option" where
  "hull_height rnd bs =
     (if bs = [] then None
      else Some (rnd (Max (set (map (\<lambda>b. edge (box_bottom b)) bs)) - Min (set (map (\<lambda>b. edge (box_top b)) bs)))))"

definition gutter_has_two_sides :: "(rat \<Rightarrow> rat) \<Rightarrow> order_box list \<Rightarrow> nat list \<Rightarrow> gap \<Rightarrow> rat \<Rightarrow> bool" where
  "gutter_has_two_sides rnd boxes members g side_share =
     (if side_share \<le> 0 then True
      else
        let members = map (\<lambda>i. boxes ! i) members;
            before = hull_height rnd (filter (\<lambda>b. edge (box_left b) \<le> gap_at g) members);
            after = hull_height rnd (filter (\<lambda>b. \<not> edge (box_left b) \<le> gap_at g) members)
        in case hull_height rnd members of
             None \<Rightarrow> True
           | Some whole \<Rightarrow>
               if whole \<le> 0 then True
               else (case before of None \<Rightarrow> False | Some h \<Rightarrow> h \<ge> rnd (side_share * whole))
                  \<and> (case after of None \<Rightarrow> False | Some h \<Rightarrow> h \<ge> rnd (side_share * whole)))"

fun merge_rows :: "rows \<Rightarrow> rows \<Rightarrow> rows" where
  "merge_rows merged [] = merged"
| "merge_rows merged ((start, finish) # spans) =
     (if merged \<noteq> [] \<and> start \<le> snd (last merged)
      then merge_rows (butlast merged @ [(fst (last merged), max (snd (last merged)) finish)]) spans
      else merge_rows (merged @ [(start, finish)]) spans)"

definition side_rows :: "order_box list \<Rightarrow> nat list \<Rightarrow> gap \<Rightarrow> bool \<Rightarrow> rows" where
  "side_rows boxes members g after =
     merge_rows []
       (sort (map (\<lambda>i. (edge (box_top (boxes ! i)), edge (box_bottom (boxes ! i))))
         (filter (\<lambda>i. (edge (box_left (boxes ! i)) > gap_at g) = after) members)))"

definition total_length :: "(rat \<Rightarrow> rat) \<Rightarrow> rows \<Rightarrow> rat" where
  "total_length rnd rs = fold (\<lambda>(start, finish) sum. rnd (sum + rnd (finish - start))) rs 0"

definition shared_length :: "(rat \<Rightarrow> rat) \<Rightarrow> rows \<Rightarrow> rows \<Rightarrow> rat" where
  "shared_length rnd a b =
     fold (\<lambda>(a_start, a_finish) sum.
        fold (\<lambda>(b_start, b_finish) sum.
           rnd (sum + max 0 (rnd (min a_finish b_finish - max a_start b_start)))) b sum) a 0"

definition gutter_sides_run_parallel :: "(rat \<Rightarrow> rat) \<Rightarrow> order_box list \<Rightarrow> nat list \<Rightarrow> gap \<Rightarrow> rat \<Rightarrow> bool" where
  "gutter_sides_run_parallel rnd boxes members g share =
     (if share \<le> 0 then True
      else
        let before = side_rows boxes members g False;
            after = side_rows boxes members g True;
            shorter = min (total_length rnd before) (total_length rnd after)
        in if shorter \<le> 0 then True else shared_length rnd before after \<ge> rnd (share * shorter))"

subsection \<open>The recursive cut\<close>

definition usable_gutter :: "(rat \<Rightarrow> rat) \<Rightarrow> cut_policy \<Rightarrow> order_box list \<Rightarrow> nat list \<Rightarrow> gap option" where
  "usable_gutter rnd policy boxes members =
     (case widest_gap rnd boxes members False of
        None \<Rightarrow> None
      | Some g \<Rightarrow>
          if \<not> gutter_has_two_sides rnd boxes members g (gutter_side_share policy)
             \<or> \<not> gutter_sides_run_parallel rnd boxes members g (gutter_parallel_share policy)
          then None else Some g)"

definition cut_horizontal :: "(rat \<Rightarrow> rat) \<Rightarrow> cut_policy \<Rightarrow> gap option \<Rightarrow> gap option \<Rightarrow> bool" where
  "cut_horizontal rnd policy y_gap x_gap =
     (case y_gap of
        None \<Rightarrow> False
      | Some y \<Rightarrow>
          (case x_gap of
             None \<Rightarrow> True
           | Some x \<Rightarrow> gap_width y \<ge> rnd (band_over_gutter policy * gap_width x)))"

definition geometric_key :: "order_box list \<Rightarrow> nat \<Rightarrow> rat \<times> rat" where
  "geometric_key boxes i = (edge (box_top (boxes ! i)), edge (box_left (boxes ! i)))"

fun order_members :: "nat \<Rightarrow> (rat \<Rightarrow> rat) \<Rightarrow> cut_policy \<Rightarrow> order_box list \<Rightarrow> nat list \<Rightarrow> nat list option" where
  "order_members 0 rnd policy boxes members = None"
| "order_members (Suc fuel) rnd policy boxes members =
     (if length members \<le> 1 then Some members
      else
        let y_gap = widest_gap rnd boxes members True;
            x_gap = usable_gutter rnd policy boxes members;
            horizontal = cut_horizontal rnd policy y_gap x_gap
        in case (if horizontal then y_gap else x_gap) of
             Some g \<Rightarrow>
               let starts_before = (\<lambda>i. fst (span_of horizontal (boxes ! i)) \<le> gap_at g)
               in (case order_members fuel rnd policy boxes (filter starts_before members) of
                     None \<Rightarrow> None
                   | Some first \<Rightarrow>
                       map_option (\<lambda>second. first @ second)
                         (order_members fuel rnd policy boxes (filter (\<lambda>i. \<not> starts_before i) members)))
           | None \<Rightarrow> Some (sort_key (geometric_key boxes) members))"

definition finite_box :: "order_box \<Rightarrow> bool" where
  "finite_box b = (box_left b \<noteq> None \<and> box_top b \<noteq> None \<and> box_right b \<noteq> None \<and> box_bottom b \<noteq> None)"

definition xy_cut_order :: "(rat \<Rightarrow> rat) \<Rightarrow> cut_policy \<Rightarrow> order_box list \<Rightarrow> nat \<Rightarrow> nat list option" where
  "xy_cut_order rnd policy boxes fuel =
     (let members = filter (\<lambda>i. finite_box (boxes ! i)) [0..<length boxes];
          unplaced = filter (\<lambda>i. \<not> finite_box (boxes ! i)) [0..<length boxes]
      in map_option (\<lambda>ordered. ordered @ unplaced) (order_members fuel rnd policy boxes members))"

subsection \<open>A gap separates its two sides\<close>

definition proper_box :: "order_box \<Rightarrow> bool" where
  "proper_box b \<longleftrightarrow> edge (box_left b) \<le> edge (box_right b) \<and> edge (box_top b) \<le> edge (box_bottom b)"

definition separates :: "rat \<Rightarrow> (rat \<times> rat) set \<Rightarrow> bool" where
  "separates c spans \<longleftrightarrow> (\<exists>(s, f)\<in>spans. s \<le> c) \<and> (\<exists>(s, f)\<in>spans. s > c)
     \<and> (\<forall>(s, f)\<in>spans. s \<le> c \<longrightarrow> f \<le> c)"

lemma gap_scan_separates:
  assumes "gap_scan rnd rest band_end best = Some g" "seen \<noteq> []" "sorted (seen @ rest)"
    and "\<forall>(s, f)\<in>set (seen @ rest). s \<le> f" "\<forall>(s, f)\<in>set seen. f \<le> band_end"
    and "\<forall>g. best = Some g \<longrightarrow> separates (gap_at g) (set (seen @ rest))"
  shows "separates (gap_at g) (set (seen @ rest))"
  using assms
proof (induction rest arbitrary: seen band_end best)
  case (Cons p rest)
  obtain start finish where p: "p = (start, finish)" by force
  let ?best = "if start > band_end \<and> (case best of None \<Rightarrow> True | Some g \<Rightarrow> rnd (start - band_end) > gap_width g)
        then Some \<lparr>gap_width = rnd (start - band_end), gap_at = band_end\<rparr> else best"
  have later: "\<forall>(s, f)\<in>set (p # rest). s \<ge> start"
    using Cons.prems(3) by (fastforce simp: p sorted_append less_eq_prod_def)
  have "separates band_end (set (seen @ p # rest))" if "start > band_end"
  proof -
    obtain s f where "(s, f) \<in> set seen" "s \<le> band_end"
      using Cons.prems(2,4,5) by (cases seen) (auto intro: order_trans)
    then show ?thesis
      using Cons.prems(5) later that by (force simp: separates_def p)
  qed
  then have best: "\<forall>g. ?best = Some g \<longrightarrow> separates (gap_at g) (set ((seen @ [p]) @ rest))"
    using Cons.prems(6) by auto
  have seen: "\<forall>(s, f)\<in>set (seen @ [p]). f \<le> max band_end finish"
    using Cons.prems(5) by (auto simp: p intro: order_trans)
  have "separates (gap_at g) (set ((seen @ [p]) @ rest))"
    by (rule Cons.IH [of "max band_end finish" ?best])
      (use Cons.prems(1,3,4) best seen in \<open>simp_all add: p\<close>)
  then show ?case by simp
qed simp

lemma widest_gap_separates:
  assumes "widest_gap rnd boxes members horizontal = Some g" "members \<noteq> []"
    and "\<forall>i\<in>set members. proper_box (boxes ! i)"
  shows "separates (gap_at g) ((\<lambda>i. span_of horizontal (boxes ! i)) ` set members)"
proof -
  let ?spans = "sort (map (\<lambda>i. span_of horizontal (boxes ! i)) members)"
  have set: "set ?spans = (\<lambda>i. span_of horizontal (boxes ! i)) ` set members" by simp
  have "length ?spans \<noteq> 0" using assms(2) by simp
  then obtain p rest where spans: "?spans = p # rest" by (cases ?spans) auto
  obtain start finish where p: "p = (start, finish)" by force
  have proper: "\<forall>(s, f)\<in>set ?spans. s \<le> f"
    using assms(3) unfolding set by (auto simp: proper_box_def span_of_def)
  have "gap_scan rnd (p # rest) finish None = Some g"
    using assms(1) by (simp add: widest_gap_def spans p)
  moreover have "\<not> start > finish" using proper by (simp add: spans p)
  ultimately have "gap_scan rnd rest finish None = Some g" by (simp add: p)
  moreover have "sorted ([p] @ rest)" using sorted_sort [of "map (\<lambda>i. span_of horizontal (boxes ! i)) members"]
    unfolding spans by simp
  moreover have "\<forall>(s, f)\<in>set ([p] @ rest). s \<le> f" using proper unfolding spans by simp
  ultimately have "separates (gap_at g) (set ([p] @ rest))"
    by (intro gap_scan_separates [of rnd rest finish None]) (simp_all add: p)
  then show ?thesis using set unfolding spans by simp
qed

subsection \<open>The widest gap\<close>

text \<open>
  A gap of some extents: a stretch from where one of them ends to where
  another starts that every extent ends before or starts behind. The widest
  is the one whose rounded width no other exceeds, the first of equals.
\<close>

definition gap_on :: "(rat \<times> rat) set \<Rightarrow> rat \<Rightarrow> rat \<Rightarrow> bool" where
  "gap_on spans lo hi \<longleftrightarrow> lo < hi \<and> (\<exists>p\<in>spans. snd p = lo) \<and> (\<exists>p\<in>spans. fst p = hi)
     \<and> (\<forall>p\<in>spans. snd p \<le> lo \<or> hi \<le> fst p)"

definition widest_on :: "(rat \<Rightarrow> rat) \<Rightarrow> (rat \<times> rat) set \<Rightarrow> gap \<Rightarrow> bool" where
  "widest_on rnd spans g \<longleftrightarrow>
     (\<exists>hi. gap_on spans (gap_at g) hi \<and> gap_width g = rnd (hi - gap_at g))
     \<and> (\<forall>lo hi. gap_on spans lo hi \<longrightarrow>
          rnd (hi - lo) < gap_width g \<or> rnd (hi - lo) = gap_width g \<and> gap_at g \<le> lo)"

lemma gap_on_added:
  assumes "spans \<noteq> {}" "\<forall>p\<in>spans. fst p \<le> start" "\<forall>p\<in>spans. fst p \<le> snd p" "start \<le> finish"
    and last: "\<forall>p\<in>spans. snd p \<le> e" "\<exists>p\<in>spans. snd p = e"
  shows "gap_on (insert (start, finish) spans) lo hi \<longleftrightarrow> gap_on spans lo hi \<or> start > e \<and> lo = e \<and> hi = start"
proof
  assume g: "gap_on (insert (start, finish) spans) lo hi"
  then have lt: "lo < hi" and each: "\<And>p. p \<in> spans \<Longrightarrow> snd p \<le> lo \<or> hi \<le> fst p" by (auto simp: gap_on_def)
  have hi: "hi \<le> start" using g assms(2) by (auto simp: gap_on_def)
  have lo: "\<exists>p\<in>spans. snd p = lo" using g lt hi assms(4) by (auto simp: gap_on_def)
  show "gap_on spans lo hi \<or> start > e \<and> lo = e \<and> hi = start"
  proof (cases "\<exists>p\<in>spans. fst p = hi")
    case True
    then show ?thesis using lt lo each by (auto simp: gap_on_def)
  next
    case False
    then have "hi = start" using g by (auto simp: gap_on_def)
    moreover have "snd p \<le> lo" if "p \<in> spans" for p
      using each [OF that] assms(2) that False \<open>hi = start\<close> by (metis order_antisym)
    then have "e = lo" using last lo by (metis order_antisym)
    ultimately show ?thesis using lt by simp
  qed
next
  assume "gap_on spans lo hi \<or> start > e \<and> lo = e \<and> hi = start"
  then show "gap_on (insert (start, finish) spans) lo hi"
    using assms(2) last by (auto simp: gap_on_def)
qed

lemma gap_scan_widest:
  assumes "seen \<noteq> []" "sorted (seen @ rest)" "\<forall>p\<in>set (seen @ rest). fst p \<le> snd p"
    and "\<forall>p\<in>set seen. snd p \<le> e" "\<exists>p\<in>set seen. snd p = e"
    and "case best of None \<Rightarrow> \<forall>lo hi. \<not> gap_on (set seen) lo hi | Some g \<Rightarrow> widest_on rnd (set seen) g"
  shows "case gap_scan rnd rest e best of
      None \<Rightarrow> \<forall>lo hi. \<not> gap_on (set (seen @ rest)) lo hi | Some g \<Rightarrow> widest_on rnd (set (seen @ rest)) g"
  using assms
proof (induction rest arbitrary: seen e best)
  case (Cons p rest)
  obtain start finish where p: "p = (start, finish)" by force
  let ?best = "if start > e \<and> (case best of None \<Rightarrow> True | Some g \<Rightarrow> rnd (start - e) > gap_width g)
        then Some \<lparr>gap_width = rnd (start - e), gap_at = e\<rparr> else best"
  have before: "\<forall>q\<in>set seen. fst q \<le> start"
    using Cons.prems(2) by (force simp: p sorted_append less_eq_prod_def)
  have proper: "\<forall>q\<in>set seen. fst q \<le> snd q" "start \<le> finish" using Cons.prems(3) by (auto simp: p)
  have gaps: "gap_on (set (seen @ [p])) lo hi \<longleftrightarrow> gap_on (set seen) lo hi \<or> start > e \<and> lo = e \<and> hi = start" for lo hi
    using gap_on_added [OF _ before proper Cons.prems(4,5)] Cons.prems(1) by (simp add: p)
  have earlier: "lo \<le> e" if "gap_on (set seen) lo hi" for lo hi
    using that Cons.prems(4) by (auto simp: gap_on_def)
  have best: "case ?best of None \<Rightarrow> \<forall>lo hi. \<not> gap_on (set (seen @ [p])) lo hi | Some g \<Rightarrow> widest_on rnd (set (seen @ [p])) g"
  proof (cases best)
    case None
    then show ?thesis using Cons.prems(6) unfolding widest_on_def gaps by (auto simp: None)
  next
    case (Some g)
    then have g: "widest_on rnd (set seen) g" using Cons.prems(6) by simp
    then have "gap_at g \<le> e" using earlier by (auto simp: widest_on_def)
    have most: "rnd (hi - lo) \<le> gap_width g" if "gap_on (set seen) lo hi" for lo hi
      using g that unfolding widest_on_def by (metis order.strict_implies_order order_refl)
    show ?thesis
    proof (cases "start > e \<and> rnd (start - e) > gap_width g")
      case True
      then have "widest_on rnd (set (seen @ [p])) \<lparr>gap_width = rnd (start - e), gap_at = e\<rparr>"
        using most unfolding widest_on_def gaps by (auto dest: order.strict_trans1)
      then show ?thesis using True by (simp add: Some)
    next
      case False
      then have "widest_on rnd (set (seen @ [p])) g"
        using g \<open>gap_at g \<le> e\<close> unfolding widest_on_def gaps by (auto simp: not_less le_less)
      then show ?thesis using False by (auto simp: Some)
    qed
  qed
  have "case gap_scan rnd rest (max e finish) ?best of
      None \<Rightarrow> \<forall>lo hi. \<not> gap_on (set ((seen @ [p]) @ rest)) lo hi | Some g \<Rightarrow> widest_on rnd (set ((seen @ [p]) @ rest)) g"
    using Cons.prems best by (intro Cons.IH) (auto simp: p max_def)
  moreover have "gap_scan rnd (p # rest) e best = gap_scan rnd rest (max e finish) ?best" by (simp only: p gap_scan.simps)
  ultimately show ?case by (simp only: append_assoc append_Cons append_Nil)
qed (simp only: append_Nil2 gap_scan.simps)

lemma widest_gap_widest:
  fixes horizontal :: bool
  assumes "members \<noteq> []" "\<forall>i\<in>set members. proper_box (boxes ! i)"
  defines "spans \<equiv> (\<lambda>i. span_of horizontal (boxes ! i)) ` set members"
  shows "case widest_gap rnd boxes members horizontal of
      None \<Rightarrow> \<forall>lo hi. \<not> gap_on spans lo hi | Some g \<Rightarrow> widest_on rnd spans g"
proof -
  let ?spans = "sort (map (\<lambda>i. span_of horizontal (boxes ! i)) members)"
  have set: "set ?spans = spans" by (simp add: spans_def)
  have "length ?spans \<noteq> 0" using assms(1) by simp
  then obtain p rest where ps: "?spans = p # rest" by (cases ?spans) auto
  obtain start finish where p: "p = (start, finish)" by force
  have proper: "\<forall>q\<in>set ?spans. fst q \<le> snd q"
    using assms(2) unfolding set by (auto simp: spans_def proper_box_def span_of_def)
  then have one: "\<not> start > finish" by (simp add: ps p)
  have "sorted ([p] @ rest)" using sorted_sort [of "map (\<lambda>i. span_of horizontal (boxes ! i)) members"] unfolding ps by simp
  then have "case gap_scan rnd rest finish None of
      None \<Rightarrow> \<forall>lo hi. \<not> gap_on (set ([p] @ rest)) lo hi | Some g \<Rightarrow> widest_on rnd (set ([p] @ rest)) g"
    using proper one by (intro gap_scan_widest) (auto simp: ps p gap_on_def)
  moreover have "widest_gap rnd boxes members horizontal = gap_scan rnd rest finish None"
    using one by (simp add: widest_gap_def ps p)
  moreover have "set ([p] @ rest) = spans" using set by (simp add: ps)
  ultimately show ?thesis by (simp only:)
qed

lemma widest_on_unique: "widest_on rnd spans g \<Longrightarrow> widest_on rnd spans h \<Longrightarrow> g = h"
proof -
  assume g: "widest_on rnd spans g" and h: "widest_on rnd spans h"
  then have "gap_width g = gap_width h \<and> gap_at g = gap_at h"
    unfolding widest_on_def by (metis order.asym order_antisym order.strict_implies_not_eq)
  then show "g = h" by simp
qed

lemma widest_gap_iff:
  assumes "members \<noteq> []" "\<forall>i\<in>set members. proper_box (boxes ! i)"
  shows "widest_gap rnd boxes members horizontal = Some g
      \<longleftrightarrow> widest_on rnd ((\<lambda>i. span_of horizontal (boxes ! i)) ` set members) g"
proof (cases "widest_gap rnd boxes members horizontal")
  case None
  then show ?thesis using widest_gap_widest [OF assms, of horizontal rnd] by (auto simp: widest_on_def)
next
  case (Some h)
  then have h: "widest_on rnd ((\<lambda>i. span_of horizontal (boxes ! i)) ` set members) h"
    using widest_gap_widest [OF assms, of horizontal rnd] by simp
  show ?thesis unfolding Some option.inject using h widest_on_unique [OF h] by blast
qed


subsection \<open>What the recursion returns\<close>

text \<open>The widest gap of some boxes along an axis, and the widest column gap when it passes the policy's tests.\<close>

definition widest_between :: "(rat \<Rightarrow> rat) \<Rightarrow> order_box list \<Rightarrow> nat list \<Rightarrow> bool \<Rightarrow> gap \<Rightarrow> bool" where
  "widest_between rnd boxes members horizontal = widest_on rnd ((\<lambda>i. span_of horizontal (boxes ! i)) ` set members)"

definition gutter_between :: "(rat \<Rightarrow> rat) \<Rightarrow> cut_policy \<Rightarrow> order_box list \<Rightarrow> nat list \<Rightarrow> gap \<Rightarrow> bool" where
  "gutter_between rnd policy boxes members g \<longleftrightarrow> widest_between rnd boxes members False g
     \<and> gutter_has_two_sides rnd boxes members g (gutter_side_share policy)
     \<and> gutter_sides_run_parallel rnd boxes members g (gutter_parallel_share policy)"

text \<open>The cut a block is read by: across it unless a gutter's weighed width is the greater.\<close>

definition cuts_at :: "(rat \<Rightarrow> rat) \<Rightarrow> cut_policy \<Rightarrow> order_box list \<Rightarrow> nat list \<Rightarrow> bool \<Rightarrow> gap \<Rightarrow> bool" where
  "cuts_at rnd policy boxes members horizontal g \<longleftrightarrow>
     (if horizontal
      then widest_between rnd boxes members True g
        \<and> (\<forall>x. gutter_between rnd policy boxes members x \<longrightarrow> rnd (band_over_gutter policy * gap_width x) \<le> gap_width g)
      else gutter_between rnd policy boxes members g
        \<and> (\<forall>y. widest_between rnd boxes members True y \<longrightarrow> gap_width y < rnd (band_over_gutter policy * gap_width g)))"

definition clear_cut :: "order_box list \<Rightarrow> bool \<Rightarrow> nat list \<Rightarrow> nat list \<Rightarrow> bool" where
  "clear_cut boxes horizontal before after \<longleftrightarrow>
     (\<forall>i\<in>set before. \<forall>j\<in>set after.
        snd (span_of horizontal (boxes ! i)) < fst (span_of horizontal (boxes ! j)))"

text \<open>
  \<open>cut_order rnd policy boxes members out\<close>: \<open>out\<close> reads \<open>members\<close> by cuts. A block
  of two boxes or more with no gap across it and no usable gutter is read by
  top, then left, then input order. Any other is cut at the widest gap the
  policy prefers: the boxes that start before it, none of which reaches the
  start of another, are read in full before the rest.
\<close>

inductive cut_order :: "(rat \<Rightarrow> rat) \<Rightarrow> cut_policy \<Rightarrow> order_box list \<Rightarrow> nat list \<Rightarrow> nat list \<Rightarrow> bool"
  for rnd policy boxes where
  small: "length members \<le> 1 \<Longrightarrow> cut_order rnd policy boxes members members"
| uncut: "length members > 1 \<Longrightarrow>
     \<not> (\<exists>lo hi. gap_on ((\<lambda>i. span_of True (boxes ! i)) ` set members) lo hi) \<Longrightarrow>
     \<not> (\<exists>x. gutter_between rnd policy boxes members x) \<Longrightarrow>
     cut_order rnd policy boxes members (sort_key (geometric_key boxes) members)"
| cut: "length members > 1 \<Longrightarrow> cuts_at rnd policy boxes members horizontal g \<Longrightarrow>
     before = filter (\<lambda>i. fst (span_of horizontal (boxes ! i)) \<le> gap_at g) members \<Longrightarrow>
     after = filter (\<lambda>i. \<not> fst (span_of horizontal (boxes ! i)) \<le> gap_at g) members \<Longrightarrow>
     before \<noteq> [] \<Longrightarrow> after \<noteq> [] \<Longrightarrow> clear_cut boxes horizontal before after \<Longrightarrow>
     cut_order rnd policy boxes before first \<Longrightarrow> cut_order rnd policy boxes after second \<Longrightarrow>
     cut_order rnd policy boxes members (first @ second)"

lemma cut_order_mset: "cut_order rnd policy boxes members out \<Longrightarrow> mset out = mset members"
proof (induction rule: cut_order.induct)
  case (cut members horizontal g before after first second)
  then show ?case
    using multiset_partition [of "mset members" "\<lambda>i. fst (span_of horizontal (boxes ! i)) \<le> gap_at g"] by (simp flip: mset_filter)
qed simp_all

lemma separates_image:
  "separates c (f ` A) \<longleftrightarrow> (\<exists>i\<in>A. fst (f i) \<le> c) \<and> (\<exists>i\<in>A. \<not> fst (f i) \<le> c)
     \<and> (\<forall>i\<in>A. fst (f i) \<le> c \<longrightarrow> snd (f i) \<le> c)"
  by (simp add: separates_def case_prod_beta not_le)

lemma separates_sides:
  fixes c :: rat
  assumes "separates c ((\<lambda>i. span_of horizontal (boxes ! i)) ` set members)"
    and P_def: "\<And>i. P i \<longleftrightarrow> fst (span_of horizontal (boxes ! i)) \<le> c"
  shows "filter P members \<noteq> []" "filter (\<lambda>i. \<not> P i) members \<noteq> []"
    "clear_cut boxes horizontal (filter P members) (filter (\<lambda>i. \<not> P i) members)"
proof -
  have sep: "\<exists>i\<in>set members. P i" "\<exists>i\<in>set members. \<not> P i"
    "\<And>i. i \<in> set members \<Longrightarrow> P i \<Longrightarrow> snd (span_of horizontal (boxes ! i)) \<le> c"
    using assms(1) unfolding separates_image P_def by blast+
  then show "filter P members \<noteq> []" "filter (\<lambda>i. \<not> P i) members \<noteq> []"
    by (simp_all add: filter_empty_conv)
  have "snd (span_of horizontal (boxes ! i)) < fst (span_of horizontal (boxes ! j))"
    if "i \<in> set members" "P i" "\<not> P j" for i j
    using sep(3) [OF that(1,2)] that(3) by (simp add: P_def)
  then show "clear_cut boxes horizontal (filter P members) (filter (\<lambda>i. \<not> P i) members)"
    by (simp add: clear_cut_def)
qed

lemma usable_gutter_iff:
  assumes "members \<noteq> []" "\<forall>i\<in>set members. proper_box (boxes ! i)"
  shows "usable_gutter rnd policy boxes members = Some g \<longleftrightarrow> gutter_between rnd policy boxes members g"
proof -
  have "usable_gutter rnd policy boxes members = Some g \<longleftrightarrow> widest_gap rnd boxes members False = Some g
     \<and> gutter_has_two_sides rnd boxes members g (gutter_side_share policy)
     \<and> gutter_sides_run_parallel rnd boxes members g (gutter_parallel_share policy)"
    by (auto simp: usable_gutter_def split: option.split)
  then show ?thesis by (simp add: gutter_between_def widest_between_def widest_gap_iff [OF assms])
qed

lemma chosen_gap:
  fixes rnd policy boxes members
  defines "y \<equiv> widest_gap rnd boxes members True" and "x \<equiv> usable_gutter rnd policy boxes members"
  assumes "members \<noteq> []" "\<forall>i\<in>set members. proper_box (boxes ! i)"
    and "(if cut_horizontal rnd policy y x then y else x) = Some g"
  shows "cuts_at rnd policy boxes members (cut_horizontal rnd policy y x) g"
    "widest_gap rnd boxes members (cut_horizontal rnd policy y x) = Some g"
proof -
  note iffs = widest_gap_iff [OF assms(3,4), of rnd True, folded widest_between_def y_def] usable_gutter_iff [OF assms(3,4), of rnd policy, folded x_def]
  show "cuts_at rnd policy boxes members (cut_horizontal rnd policy y x) g"
    using assms(5) unfolding cuts_at_def iffs [symmetric]
    by (cases y; cases x) (auto simp: cut_horizontal_def not_le split: if_splits)
  show "widest_gap rnd boxes members (cut_horizontal rnd policy y x) = Some g"
    using assms(5) by (auto simp: x_def y_def usable_gutter_def split: if_splits option.splits)
qed

lemma no_chosen_gap:
  fixes rnd policy boxes members
  defines "y \<equiv> widest_gap rnd boxes members True" and "x \<equiv> usable_gutter rnd policy boxes members"
  assumes "members \<noteq> []" "\<forall>i\<in>set members. proper_box (boxes ! i)"
    and "(if cut_horizontal rnd policy y x then y else x) = None"
  shows "\<not> (\<exists>lo hi. gap_on ((\<lambda>i. span_of True (boxes ! i)) ` set members) lo hi)"
    "\<not> (\<exists>x. gutter_between rnd policy boxes members x)"
proof -
  have none: "y = None" "x = None" using assms(5) by (auto simp: cut_horizontal_def split: option.splits if_splits)
  show "\<not> (\<exists>lo hi. gap_on ((\<lambda>i. span_of True (boxes ! i)) ` set members) lo hi)"
    using widest_gap_widest [OF assms(3,4), of True rnd] none(1) by (simp add: y_def)
  show "\<not> (\<exists>x. gutter_between rnd policy boxes members x)"
    using usable_gutter_iff [OF assms(3,4), of rnd policy] none(2) by (simp add: x_def)
qed

lemma order_members_cuts:
  assumes "length members < fuel" "\<forall>i\<in>set members. proper_box (boxes ! i)"
  shows "\<exists>out. order_members fuel rnd policy boxes members = Some out \<and> cut_order rnd policy boxes members out"
  using assms
proof (induction fuel arbitrary: members)
  case (Suc fuel)
  show ?case
  proof (cases "length members \<le> 1")
    case False
    let ?y = "widest_gap rnd boxes members True" and ?x = "usable_gutter rnd policy boxes members"
    define horizontal where "horizontal = cut_horizontal rnd policy ?y ?x"
    have some: "members \<noteq> []" "length members > 1" using False by auto
    show ?thesis
    proof (cases "if horizontal then ?y else ?x")
      case None
      from no_chosen_gap [OF some(1) Suc.prems(2) None [unfolded horizontal_def]]
      have "cut_order rnd policy boxes members (sort_key (geometric_key boxes) members)" by (rule cut_order.uncut [OF some(2)])
      then show ?thesis using False None by (simp add: horizontal_def)
    next
      case (Some g)
      note chosen = chosen_gap [OF some(1) Suc.prems(2) Some [unfolded horizontal_def], folded horizontal_def]
      have sep: "separates (gap_at g) ((\<lambda>i. span_of horizontal (boxes ! i)) ` set members)"
        using chosen(2) some(1) Suc.prems(2) widest_gap_separates by blast
      define P where "P i \<longleftrightarrow> fst (span_of horizontal (boxes ! i)) \<le> gap_at g" for i
      note sides = separates_sides [OF sep P_def]
      have "length (filter P members) < length members" "length (filter (\<lambda>i. \<not> P i) members) < length members"
        using sides(1,2) [folded length_greater_0_conv] sum_length_filter_compl [of P members]
        by linarith+
      then obtain first second where parts:
        "order_members fuel rnd policy boxes (filter P members) = Some first"
        "cut_order rnd policy boxes (filter P members) first"
        "order_members fuel rnd policy boxes (filter (\<lambda>i. \<not> P i) members) = Some second"
        "cut_order rnd policy boxes (filter (\<lambda>i. \<not> P i) members) second"
        using Suc.IH [of "filter P members"] Suc.IH [of "filter (\<lambda>i. \<not> P i) members"] Suc.prems by auto
      have "cut_order rnd policy boxes members (first @ second)"
        by (rule cut_order.cut [OF some(2) chosen(1) _ _ sides parts(2,4)]) (simp_all add: P_def [abs_def])
      moreover have "order_members (Suc fuel) rnd policy boxes members = Some (first @ second)"
        using False Some parts(1,3) unfolding order_members.simps Let_def horizontal_def [symmetric]
        by (simp flip: P_def)
      ultimately show ?thesis by blast
    qed
  qed (use cut_order.small in \<open>simp add: Let_def\<close>)
qed simp

lemma xy_cut_order_places:
  assumes "\<forall>b\<in>set boxes. finite_box b \<longrightarrow> proper_box b" "length boxes < fuel"
  shows "\<exists>out. xy_cut_order rnd policy boxes fuel = Some (out @ filter (\<lambda>i. \<not> finite_box (boxes ! i)) [0..<length boxes])
     \<and> cut_order rnd policy boxes (filter (\<lambda>i. finite_box (boxes ! i)) [0..<length boxes]) out
     \<and> mset (out @ filter (\<lambda>i. \<not> finite_box (boxes ! i)) [0..<length boxes]) = mset [0..<length boxes]"
proof -
  let ?members = "filter (\<lambda>i. finite_box (boxes ! i)) [0..<length boxes]"
  have "length ?members < fuel"
    using assms(2) length_filter_le [of "\<lambda>i. finite_box (boxes ! i)" "[0..<length boxes]"] by simp
  moreover have "\<forall>i\<in>set ?members. proper_box (boxes ! i)" using assms(1) by simp
  ultimately obtain out where out: "order_members fuel rnd policy boxes ?members = Some out"
      "cut_order rnd policy boxes ?members out"
    using order_members_cuts by blast
  have "mset out + mset (filter (\<lambda>i. \<not> finite_box (boxes ! i)) [0..<length boxes]) = mset [0..<length boxes]"
    unfolding cut_order_mset [OF out(2)] mset_filter by (rule multiset_partition [symmetric])
  then show ?thesis using out by (auto simp: xy_cut_order_def)
qed

text \<open>The rules leave no choice: the cuts determine the order.\<close>

lemma cuts_at_unique:
  assumes "cuts_at rnd policy boxes members h g" "cuts_at rnd policy boxes members h' g'"
  shows "h = h' \<and> g = g'"
proof -
  have "gutter_between rnd policy boxes members x \<Longrightarrow> gutter_between rnd policy boxes members x' \<Longrightarrow> x = x'"
    "widest_between rnd boxes members True y \<Longrightarrow> widest_between rnd boxes members True y' \<Longrightarrow> y = y'" for x x' y y'
    using widest_on_unique by (auto simp: gutter_between_def widest_between_def)
  with assms show ?thesis unfolding cuts_at_def by (auto simp: not_le [symmetric] split: if_splits)
qed

lemma cuts_at_divides: "cuts_at rnd policy boxes members h g \<Longrightarrow>
    (\<exists>lo hi. gap_on ((\<lambda>i. span_of True (boxes ! i)) ` set members) lo hi) \<or> (\<exists>x. gutter_between rnd policy boxes members x)"
  by (auto simp: cuts_at_def widest_between_def widest_on_def split: if_splits)

lemma cut_order_unique: "cut_order rnd policy boxes members out \<Longrightarrow> cut_order rnd policy boxes members out' \<Longrightarrow> out' = out"
proof (induction arbitrary: out' rule: cut_order.induct)
  case (small members)
  then show ?case by (auto elim: cut_order.cases)
next
  case (uncut members)
  from uncut.prems show ?case
  proof (cases rule: cut_order.cases)
    case (cut h g before after first second)
    from cuts_at_divides [OF cut(3)] uncut.hyps(2,3) show ?thesis by blast
  qed (use uncut.hyps(1) in auto)
next
  case (cut members horizontal g before after first second)
  note divided = cuts_at_divides [OF cut.hyps(2)] and IH = cut.IH and sides = cut.hyps(3,4) and at = cut.hyps(2)
  from cut.prems show ?case
  proof (cases rule: cut_order.cases)
    case small
    then show ?thesis using cut.hyps(1) by simp
  next
    case uncut
    then show ?thesis using divided by blast
  next
    case (cut h' g' before' after' first' second')
    with cuts_at_unique [OF cut(3) at] sides IH
    show ?thesis by simp
  qed
qed

text \<open>
  C18. The XY-cut returns on every page of well-formed boxes, after at most as
  many nested cuts as boxes, whatever the rounding, and every box is placed
  exactly once. The finite boxes are read by clean cuts: a block of two boxes
  or more is cut at the widest gap the policy prefers, no box of one side
  reaching into the other and one side read in full before the other, until
  no gap runs across the block and no gutter of it is usable; such a block is
  read by top, then left. These rules leave one order, the returned one. Boxes
  with a non-finite edge follow in input order.
\<close>

theorem xy_cut_order_reads:
  assumes "\<forall>b\<in>set boxes. finite_box b \<longrightarrow> proper_box b" "length boxes < fuel"
  shows "\<exists>out. xy_cut_order rnd policy boxes fuel = Some (out @ filter (\<lambda>i. \<not> finite_box (boxes ! i)) [0..<length boxes])
     \<and> cut_order rnd policy boxes (filter (\<lambda>i. finite_box (boxes ! i)) [0..<length boxes]) out
     \<and> (\<forall>other. cut_order rnd policy boxes (filter (\<lambda>i. finite_box (boxes ! i)) [0..<length boxes]) other \<longrightarrow> other = out)
     \<and> mset (out @ filter (\<lambda>i. \<not> finite_box (boxes ! i)) [0..<length boxes]) = mset [0..<length boxes]"
  using xy_cut_order_places [OF assms] cut_order_unique by blast

text \<open>
  A box whose bottom lies above its top is outside the precondition, and the
  cut then never ends: the gap it finds leaves all boxes on one side.
\<close>

definition inverted_pair :: "order_box list" where
  "inverted_pair = replicate 2 \<lparr>box_left = Some 0, box_top = Some 5, box_right = Some 1, box_bottom = Some 0\<rparr>"

lemma inverted_spans:
  "fst (span_of True (inverted_pair ! 0)) = 5" "fst (span_of True (inverted_pair ! Suc 0)) = 5"
  by (simp_all add: inverted_pair_def span_of_def edge_def numeral_2_eq_2)

theorem inverted_boxes_never_end:
  "xy_cut_order (\<lambda>x. x) default_policy inverted_pair fuel = None"
proof -
  have gap: "widest_gap (\<lambda>x. x) inverted_pair [0, Suc 0] True = Some \<lparr>gap_width = 5, gap_at = 0\<rparr>"
    by (simp add: widest_gap_def inverted_pair_def span_of_def edge_def numeral_2_eq_2)
  have no_gap: "usable_gutter (\<lambda>x. x) default_policy inverted_pair [0, Suc 0] = None"
    by (simp add: usable_gutter_def widest_gap_def inverted_pair_def span_of_def edge_def numeral_2_eq_2)
  have "order_members fuel (\<lambda>x. x) default_policy inverted_pair [0, Suc 0] = None" for fuel
  proof (induction fuel)
    case (Suc fuel)
    then show ?case by (simp add: gap no_gap cut_horizontal_def inverted_spans split: option.splits)
  qed simp
  moreover have "filter (\<lambda>i. finite_box (inverted_pair ! i)) [0..<length inverted_pair] = [0, Suc 0]"
    by (simp add: inverted_pair_def finite_box_def upt_rec numeral_2_eq_2)
  ultimately show ?thesis by (simp add: xy_cut_order_def)
qed

theorem xy_cut_order_reads_witness:
  "\<exists>out. xy_cut_order (\<lambda>x. x) default_policy
       [\<lparr>box_left = Some 0, box_top = Some 0, box_right = Some 4, box_bottom = Some 1\<rparr>,
        \<lparr>box_left = None, box_top = Some 0, box_right = Some 4, box_bottom = Some 1\<rparr>,
        \<lparr>box_left = Some 0, box_top = Some 2, box_right = Some 4, box_bottom = Some 3\<rparr>] 4 = Some (out @ [1])
     \<and> mset (out @ [1]) = {#0, 1, 2#}"
proof -
  let ?boxes = "[\<lparr>box_left = Some 0, box_top = Some 0, box_right = Some 4, box_bottom = Some 1\<rparr>,
        \<lparr>box_left = None, box_top = Some 0, box_right = Some 4, box_bottom = Some 1\<rparr>,
        \<lparr>box_left = Some 0, box_top = Some 2, box_right = Some 4, box_bottom = Some 3\<rparr>] :: order_box list"
  have "\<forall>b\<in>set ?boxes. finite_box b \<longrightarrow> proper_box b" "length ?boxes < 4"
    by (simp_all add: finite_box_def proper_box_def edge_def)
  from xy_cut_order_reads [OF this, of "\<lambda>x. x" default_policy] show ?thesis
    by (auto simp: finite_box_def upt_rec numeral_2_eq_2 numeral_3_eq_3)
qed

subsection \<open>Reading a page\<close>

text \<open>A unit of the page: its box and the lines bound to it, by index.\<close>

type_synonym unit_box = "aabox \<times> nat list"

definition box_hull :: "aabox \<Rightarrow> aabox \<Rightarrow> aabox" where
  "box_hull a b =
     \<lparr>left_edge = min (left_edge a) (left_edge b), top_edge = min (top_edge a) (top_edge b),
      right_edge = max (right_edge a) (right_edge b), bottom_edge = max (bottom_edge a) (bottom_edge b)\<rparr>"

definition add_line :: "page \<Rightarrow> nat \<Rightarrow> unit_box list \<Rightarrow> unit_box list" where
  "add_line p i units =
     (let line = page_lines p ! i in
      if \<not> readable line then units
      else
        let box = bounding_box line in
        case region_for_line p line of
          None \<Rightarrow> units @ [(box, [i])]
        | Some k \<Rightarrow>
            let (unit_box, indices) = units ! k
            in units[k := (if indices = [] then box else box_hull unit_box box, indices @ [i])])"

definition page_units :: "page \<Rightarrow> nat list \<Rightarrow> unit_box list" where
  "page_units p is = fold (add_line p) is (map (\<lambda>r. (region_box r, [])) (regions p))"

definition order_box_of :: "aabox \<Rightarrow> order_box" where
  "order_box_of b =
     \<lparr>box_left = Some (of_int (left_edge b)), box_top = Some (of_int (top_edge b)),
      box_right = Some (of_int (right_edge b)), box_bottom = Some (of_int (bottom_edge b))\<rparr>"

definition reading_order :: "(rat \<Rightarrow> rat) \<Rightarrow> page \<Rightarrow> bool \<Rightarrow> nat \<Rightarrow> nat list option" where
  "reading_order rnd p trust_source_order fuel =
     (let with_lines = filter (\<lambda>u. snd u \<noteq> []) (page_units p [0..<length (page_lines p)])
      in if trust_source_order
         then Some (concat (map (\<lambda>u. sort (snd u)) (sort_key (\<lambda>u. hd (snd u)) with_lines)))
         else map_option
                (\<lambda>order. concat (map (\<lambda>k. sort_key (\<lambda>i. line_key (page_lines p ! i)) (snd (with_lines ! k))) order))
                (xy_cut_order rnd default_policy (map (\<lambda>u. order_box_of (fst u)) with_lines) fuel))"

definition well_formed :: "aabox \<Rightarrow> bool" where
  "well_formed b \<longleftrightarrow> left_edge b \<le> right_edge b \<and> top_edge b \<le> bottom_edge b"

lemma grow_box_fold:
  "left_edge b \<le> right_edge b \<Longrightarrow> top_edge b \<le> bottom_edge b \<Longrightarrow> well_formed (fold grow_box ps b)"
  by (induction ps arbitrary: b) (auto simp: well_formed_def grow_box_def min_def max_def)

lemma bounding_box_well_formed: "well_formed (bounding_box line)"
proof (cases "polygon line")
  case (Cons p ps)
  have "left_edge (grow_box p b) \<le> right_edge (grow_box p b)" "top_edge (grow_box p b) \<le> bottom_edge (grow_box p b)" for b
    by (auto simp: grow_box_def min_def max_def)
  then show ?thesis by (simp add: bounding_box_def Cons grow_box_fold)
qed (simp add: bounding_box_def well_formed_def)

lemma box_hull_well_formed: "well_formed a \<Longrightarrow> well_formed b \<Longrightarrow> well_formed (box_hull a b)"
  by (auto simp: well_formed_def box_hull_def)

lemma page_units_snoc: "page_units p (is @ [i]) = add_line p i (page_units p is)"
  by (simp add: page_units_def)

text \<open>The lines of each unit: those bound to region \<open>k\<close>, then each free line by itself.\<close>

definition bound_to :: "page \<Rightarrow> nat option \<Rightarrow> nat \<Rightarrow> bool" where
  "bound_to p k i \<longleftrightarrow> readable (page_lines p ! i) \<and> region_for_line p (page_lines p ! i) = k"

definition next_indices :: "page \<Rightarrow> nat \<Rightarrow> nat list list \<Rightarrow> nat list list" where
  "next_indices p i blocks =
     (if \<not> readable (page_lines p ! i) then blocks
      else case region_for_line p (page_lines p ! i) of
             None \<Rightarrow> blocks @ [[i]]
           | Some k \<Rightarrow> blocks[k := (blocks ! k) @ [i]])"

lemma add_line_indices:
  assumes "\<And>k. region_for_line p (page_lines p ! i) = Some k \<Longrightarrow> k < length us"
  shows "map snd (add_line p i us) = next_indices p i (map snd us)"
  using assms by (auto simp: add_line_def next_indices_def Let_def map_update case_prod_beta split: option.splits)

lemma page_units_lines:
  "map snd (page_units p is) =
     map (\<lambda>k. filter (bound_to p (Some k)) is) [0..<length (regions p)] @ map (\<lambda>i. [i]) (filter (bound_to p None) is)"
proof (induction "is" rule: rev_induct)
  case Nil
  then show ?case by (simp add: page_units_def comp_def map_replicate_const)
next
  case (snoc i "is")
  let ?line = "page_lines p ! i" and ?n = "length (regions p)"
  have "k < length (page_units p is)" if "region_for_line p ?line = Some k" for k
    using region_for_line_index(1) [OF that] snoc [THEN arg_cong [where f = length]] by simp
  then have added: "map snd (page_units p (is @ [i])) = next_indices p i (map snd (page_units p is))"
    unfolding page_units_snoc by (intro add_line_indices)
  show ?case
  proof (cases "region_for_line p ?line")
    case (Some k)
    have here: "bound_to p j i \<longleftrightarrow> readable ?line \<and> j = Some k" for j by (auto simp: bound_to_def Some)
    have "(map (\<lambda>k. filter (bound_to p (Some k)) is) [0..<?n])[k := filter (bound_to p (Some k)) is @ [i]]
        = map (\<lambda>k. filter (bound_to p (Some k)) (is @ [i])) [0..<?n]" if "readable ?line"
      by (rule nth_equalityI) (simp_all add: here nth_list_update that)
    then show ?thesis
      unfolding added snoc using region_for_line_index(1) [OF Some]
      by (simp add: next_indices_def Some list_update_append nth_append here)
  next
    case None
    have "bound_to p j i \<longleftrightarrow> readable ?line \<and> j = None" for j by (auto simp: bound_to_def None)
    then show ?thesis unfolding added snoc by (simp add: next_indices_def None)
  qed
qed

lemma page_units_length: "length (regions p) \<le> length (page_units p is)"
  using page_units_lines [of p "is", THEN arg_cong [where f = length]] by simp

lemma all_updated: "\<forall>u\<in>set us. P u \<Longrightarrow> P x \<Longrightarrow> \<forall>u\<in>set (us[k := x]). P u"
  using set_update_subset_insert [of us k x] by blast

lemma page_units_well_formed:
  "\<forall>u\<in>set (page_units p is). snd u \<noteq> [] \<longrightarrow> well_formed (fst u)"
proof (induction "is" rule: rev_induct)
  case Nil
  then show ?case by (auto simp: page_units_def)
next
  case (snoc i "is")
  let ?us = "page_units p is" and ?box = "bounding_box (page_lines p ! i)"
  show ?case
  proof (cases "region_for_line p (page_lines p ! i)")
    case (Some k)
    have "k < length ?us" using region_for_line_index(1) [OF Some] page_units_length [of p "is"] by simp
    then have "snd (?us ! k) \<noteq> [] \<longrightarrow> well_formed (fst (?us ! k))" using snoc by simp
    then have "well_formed (if snd (?us ! k) = [] then ?box else box_hull (fst (?us ! k)) ?box)"
      by (simp add: box_hull_well_formed bounding_box_well_formed)
    then have "\<forall>u\<in>set (?us[k := (if snd (?us ! k) = [] then ?box else box_hull (fst (?us ! k)) ?box, snd (?us ! k) @ [i])]).
        snd u \<noteq> [] \<longrightarrow> well_formed (fst u)"
      by (intro all_updated [OF snoc]) simp
    then show ?thesis using snoc by (simp add: page_units_snoc add_line_def Some case_prod_beta Let_def)
  qed (use snoc in \<open>auto simp: page_units_snoc add_line_def bounding_box_well_formed Let_def\<close>)
qed

lemma mset_concat_perm:
  assumes "mset xs = mset ys" "\<And>x. x \<in> set xs \<Longrightarrow> mset (f x) = mset (g x)"
  shows "mset (concat (map f xs)) = mset (concat (map g ys))"
proof -
  have "mset (concat (map f xs)) = mset (concat (map g xs))"
    using assms(2) by (induction xs) auto
  also have "\<dots> = (\<Sum>x\<in>#mset xs. mset (g x))" by (simp add: mset_concat comp_def flip: sum_mset_sum_list)
  also have "\<dots> = mset (concat (map g ys))"
    unfolding assms(1) by (simp add: mset_concat comp_def flip: sum_mset_sum_list)
  finally show ?thesis .
qed

lemma mset_concat_added: "k < length xs \<Longrightarrow> mset (concat (xs[k := xs ! k @ [i]])) = add_mset i (mset (concat xs))"
  by (induction xs arbitrary: k) (auto split: nat.split)

lemma page_units_all:
  "mset (concat (map snd (page_units p is))) = mset (filter (\<lambda>i. readable (page_lines p ! i)) is)"
proof (induction "is" rule: rev_induct)
  case Nil
  then show ?case by (simp add: page_units_def)
next
  case (snoc i "is")
  have less: "k < length (page_units p is)" if "region_for_line p (page_lines p ! i) = Some k" for k
    using region_for_line_index(1) [OF that] page_units_length [of p "is"] by simp
  then have added: "map snd (page_units p (is @ [i])) = next_indices p i (map snd (page_units p is))"
    unfolding page_units_snoc by (intro add_line_indices)
  show ?case
    unfolding added using snoc less mset_concat_added [of _ "map snd (page_units p is)" i]
    by (auto simp: next_indices_def split: option.splits)
qed

lemma concat_nonempty: "concat (map snd (filter (\<lambda>u. snd u \<noteq> []) us)) = concat (map snd us)"
  by (induction us) auto

text \<open>
  C17. A page is read completely and by regions: the reading order returns (for
  fuel above the number of regions and lines), lists every line with text and
  a polygon exactly once and no other line, and is a sequence of blocks, each
  all the lines of one layout region or one line outside every region, so no
  foreign line is read between two lines of a region.
\<close>

theorem page_reading_order:
  assumes "length (regions p) + length (page_lines p) < fuel"
  shows "\<exists>blocks. reading_order rnd p trusted fuel = Some (concat blocks)
     \<and> mset (concat blocks) = mset (filter (\<lambda>i. readable (page_lines p ! i)) [0..<length (page_lines p)])
     \<and> (\<forall>block\<in>set blocks. block \<noteq> [] \<and> ((\<exists>i. block = [i] \<and> bound_to p None i)
          \<or> (\<exists>k. set block = {i. i < length (page_lines p) \<and> bound_to p (Some k) i})))"
proof -
  let ?all = "[0..<length (page_lines p)]"
  define us where "us = filter (\<lambda>u. snd u \<noteq> []) (page_units p ?all)"
  have concat: "concat (map snd us) = concat (map snd (page_units p ?all))"
    unfolding us_def by (rule concat_nonempty)
  have block: "snd u \<noteq> [] \<and> ((\<exists>i. snd u = [i] \<and> bound_to p None i)
      \<or> (\<exists>k. set (snd u) = {i. i < length (page_lines p) \<and> bound_to p (Some k) i}))" if "u \<in> set us" for u
  proof -
    have "snd u \<in> set (map snd (page_units p ?all))" "snd u \<noteq> []" using that by (auto simp: us_def)
    then show ?thesis unfolding page_units_lines by auto
  qed
  have conclude: "mset (concat (map f vs)) = mset (filter (\<lambda>i. readable (page_lines p ! i)) ?all)
      \<and> (\<forall>block\<in>set (map f vs). block \<noteq> [] \<and> ((\<exists>i. block = [i] \<and> bound_to p None i)
          \<or> (\<exists>k. set block = {i. i < length (page_lines p) \<and> bound_to p (Some k) i})))"
    if "mset vs = mset us" "\<And>u. mset (f u) = mset (snd u)" for f vs
  proof -
    have "mset (concat (map f vs)) = mset (concat (map snd us))" using that by (intro mset_concat_perm) auto
    moreover have "f u \<noteq> [] \<and> ((\<exists>i. f u = [i] \<and> bound_to p None i)
          \<or> (\<exists>k. set (f u) = {i. i < length (page_lines p) \<and> bound_to p (Some k) i}))" if "u \<in> set us" for u
    proof -
      have "set (f u) = set (snd u)" "length (f u) = length (snd u)"
        using \<open>\<And>u. mset (f u) = mset (snd u)\<close> [of u] by (auto dest: mset_eq_setD mset_eq_length)
      then show ?thesis using block [OF that] by (cases "f u") (auto simp: length_Suc_conv)
    qed
    moreover have "set vs = set us" using that(1) by (rule mset_eq_setD)
    ultimately show ?thesis unfolding concat page_units_all by auto
  qed
  show ?thesis
  proof (cases trusted)
    case True
    then show ?thesis
      using conclude [of "sort_key (\<lambda>u. hd (snd u)) us" "\<lambda>u. sort (snd u)"]
      by (intro exI [of _ "map (\<lambda>u. sort (snd u)) (sort_key (\<lambda>u. hd (snd u)) us)"])
        (simp add: reading_order_def flip: us_def)
  next
    case False
    let ?boxes = "map (\<lambda>u. order_box_of (fst u)) us"
    have "\<forall>b\<in>set ?boxes. proper_box b"
      using page_units_well_formed [of p ?all]
      by (auto simp: us_def order_box_of_def proper_box_def edge_def well_formed_def)
    moreover have finite: "\<forall>b\<in>set ?boxes. finite_box b" by (auto simp: order_box_of_def finite_box_def)
    moreover have "length us \<le> length (regions p) + length (page_lines p)"
    proof -
      have "length us \<le> length (page_units p ?all)" unfolding us_def by (rule length_filter_le)
      also have "\<dots> \<le> length (regions p) + length (page_lines p)"
        using page_units_lines [of p ?all, THEN arg_cong [where f = length]]
          length_filter_le [of "bound_to p None" ?all] by simp
      finally show ?thesis .
    qed
    ultimately obtain order where order: "xy_cut_order rnd default_policy ?boxes fuel = Some order"
        "mset order = mset [0..<length us]"
      using xy_cut_order_places [of ?boxes fuel rnd default_policy] assms by auto
    have "mset (map (\<lambda>k. us ! k) order) = mset us"
      unfolding mset_map order(2) by (simp only: map_nth flip: mset_map)
    from conclude [OF this, of "\<lambda>u. sort_key (\<lambda>i. line_key (page_lines p ! i)) (snd u)"]
    show ?thesis using False order(1)
      by (intro exI [of _ "map (\<lambda>k. sort_key (\<lambda>i. line_key (page_lines p ! i)) (snd (us ! k))) order"])
        (simp add: reading_order_def comp_def flip: us_def)
  qed
qed

definition sample_line :: "string \<Rightarrow> int \<Rightarrow> int \<Rightarrow> ocr_line" where
  "sample_line words x y =
     \<lparr>line_text = words, polygon = [\<lparr>px = x, py = y\<rparr>, \<lparr>px = x + 10, py = y + 2\<rparr>],
      confidence = None, origin = None, flipped = False\<rparr>"

theorem page_reading_order_witness:
  "\<exists>blocks. reading_order (\<lambda>x. x)
       \<lparr>page_width = 40, page_height = 40, page_lines = [sample_line ''b'' 0 20, sample_line [] 0 9, sample_line ''a'' 0 0],
        page_source = Ocr_Page, skip_ocr = False, regions = []\<rparr> False 4 = Some (concat blocks)
     \<and> mset (concat blocks) = {#0, 2#}"
proof -
  let ?p = "\<lparr>page_width = 40, page_height = 40, page_lines = [sample_line ''b'' 0 20, sample_line [] 0 9, sample_line ''a'' 0 0],
        page_source = Ocr_Page, skip_ocr = False, regions = []\<rparr>"
  have "length (regions ?p) + length (page_lines ?p) < 4" by simp
  moreover have "filter (\<lambda>i. readable (page_lines ?p ! i)) [0..<length (page_lines ?p)] = [0, 2]"
    by (simp add: readable_def sample_line_def upt_rec numeral_2_eq_2 numeral_3_eq_3)
  ultimately show ?thesis using page_reading_order [of ?p 4 "\<lambda>x. x" False] by auto
qed

end
