(* ===== verification/InflightBytes.thy ===== *)
theory InflightBytes
  imports Prelude
begin

text \<open>
  The in-flight byte budget (\<^verbatim>\<open>src/include/grparse/inflight_bytes.h\<close>): the
  compare-and-swap loop of \<^verbatim>\<open>InflightBytes::try_acquire\<close> taken apart into its
  atomic actions, and the move-only \<^verbatim>\<open>InflightCharge\<close> handles over it. A state
  holds the counter, the threads inside \<^verbatim>\<open>try_acquire\<close> and every handle made so
  far; a step is one atomic action of one thread. A reactor that calls
  \<^verbatim>\<open>try_acquire\<close> and later \<^verbatim>\<open>release\<close> itself, with the same number of bytes,
  is a handle of the model too: it owns those bytes from the exchange that
  takes them to its release (a stream that takes them chunk by chunk and gives
  them back in one call owns one handle per chunk).
\<close>

subsection \<open>The budget and its handles\<close>

text \<open>\<open>attempts t\<close>: thread \<open>t\<close> wants that many bytes and last saw that counter value.
  A handle is the charge it owns, \<open>None\<close> for an empty one.\<close>

record inflight =
  limit :: "64 word"
  used :: "64 word"
  attempts :: "nat \<rightharpoonup> 64 word \<times> 64 word"
  handles :: "64 word option list"

definition fresh_budget :: "64 word \<Rightarrow> inflight" where
  "fresh_budget n = \<lparr>limit = n, used = 0, attempts = Map.empty, handles = []\<rparr>"

definition refuses :: "64 word \<Rightarrow> 64 word \<Rightarrow> 64 word \<Rightarrow> bool" where
  "refuses ceiling bytes seen = (bytes > ceiling \<or> seen > ceiling - bytes)"

definition release_bytes :: "64 word \<Rightarrow> inflight \<Rightarrow> inflight" where
  "release_bytes bytes s = s\<lparr>used := used s - bytes\<rparr>"

definition empty_handle :: "64 word option" where
  "empty_handle = None"

definition release_handle :: "nat \<Rightarrow> inflight \<Rightarrow> inflight" where
  "release_handle h s =
     (case handles s ! h of
        None \<Rightarrow> s
      | Some bytes \<Rightarrow> (release_bytes bytes s)\<lparr>handles := (handles s)[h := None]\<rparr>)"

definition move_construct :: "nat \<Rightarrow> inflight \<Rightarrow> inflight" where
  "move_construct other s = s\<lparr>handles := (handles s)[other := None] @ [handles s ! other]\<rparr>"

definition move_assign :: "nat \<Rightarrow> nat \<Rightarrow> inflight \<Rightarrow> inflight" where
  "move_assign this other s =
     (if this = other then s
      else let s = release_handle this s
           in s\<lparr>handles := (handles s)[this := handles s ! other, other := None]\<rparr>)"

subsection \<open>The atomic actions\<close>

inductive budget_step :: "inflight \<Rightarrow> inflight \<Rightarrow> bool" where
  load: "attempts s t = None \<Longrightarrow>
     budget_step s (s\<lparr>attempts := (attempts s)(t \<mapsto> (bytes, used s))\<rparr>)"
| refuse: "attempts s t = Some (bytes, seen) \<Longrightarrow> refuses (limit s) bytes seen \<Longrightarrow>
     budget_step s (s\<lparr>attempts := (attempts s)(t := None)\<rparr>)"
| swap: "attempts s t = Some (bytes, seen) \<Longrightarrow> \<not> refuses (limit s) bytes seen \<Longrightarrow> used s = seen \<Longrightarrow>
     budget_step s (s\<lparr>used := seen + bytes, attempts := (attempts s)(t := None),
       handles := handles s @ [Some bytes]\<rparr>)"
| swap_fails: "attempts s t = Some (bytes, seen) \<Longrightarrow> \<not> refuses (limit s) bytes seen \<Longrightarrow>
     budget_step s (s\<lparr>attempts := (attempts s)(t \<mapsto> (bytes, used s))\<rparr>)"
| unbudgeted: "budget_step s (s\<lparr>handles := handles s @ [empty_handle]\<rparr>)"
| moved: "other < length (handles s) \<Longrightarrow> budget_step s (move_construct other s)"
| assigned: "this < length (handles s) \<Longrightarrow> other < length (handles s) \<Longrightarrow>
     budget_step s (move_assign this other s)"
| destroyed: "h < length (handles s) \<Longrightarrow> budget_step s (release_handle h s)"

inductive_cases budget_stepE: "budget_step s t"

subsection \<open>The counter is the sum of the live charges\<close>

definition charge :: "64 word option \<Rightarrow> nat" where
  "charge handle = (case handle of None \<Rightarrow> 0 | Some bytes \<Rightarrow> unat bytes)"

lemma charge_simps [simp]: "charge None = 0" "charge (Some bytes) = unat bytes"
  by (simp_all add: charge_def)

definition charged :: "inflight \<Rightarrow> nat" where
  "charged s = sum_list (map charge (handles s))"

definition budget_inv :: "inflight \<Rightarrow> bool" where
  "budget_inv s \<longleftrightarrow> unat (used s) = charged s \<and> charged s \<le> unat (limit s)"

lemma refuses_iff: "refuses ceiling bytes seen \<longleftrightarrow> unat seen + unat bytes > unat ceiling"
proof (cases "bytes > ceiling")
  case False
  then have "unat (ceiling - bytes) = unat ceiling - unat bytes"
    by (simp add: unat_sub_if_size word_le_nat_alt not_less)
  with False show ?thesis by (auto simp: refuses_def word_less_nat_alt)
qed (auto simp: refuses_def word_less_nat_alt)

lemma charge_nth: "h < length hs \<Longrightarrow> charge (hs ! h) \<le> sum_list (map charge hs)"
  using elem_le_sum_list [of h "map charge hs"] by simp

lemma sum_charge_update:
  "h < length hs \<Longrightarrow> sum_list (map charge (hs[h := x])) + charge (hs ! h) = sum_list (map charge hs) + charge x"
  using sum_list_update [of h "map charge hs" "charge x"] charge_nth [of h hs]
  by (simp add: map_update)

lemma release_charged:
  assumes "budget_inv s" "h < length (handles s)"
  shows "charged (release_handle h s) + charge (handles s ! h) = charged s"
    "unat (used (release_handle h s)) + charge (handles s ! h) = unat (used s)"
proof -
  have le: "charge (handles s ! h) \<le> unat (used s)"
    using assms charge_nth [of h "handles s"] by (simp add: budget_inv_def charged_def)
  show "charged (release_handle h s) + charge (handles s ! h) = charged s"
    using sum_charge_update [OF assms(2), of None]
    by (auto simp: release_handle_def release_bytes_def charged_def split: option.splits)
  show "unat (used (release_handle h s)) + charge (handles s ! h) = unat (used s)"
    using le by (auto simp: release_handle_def release_bytes_def unat_sub word_le_nat_alt split: option.splits)
qed

lemma handle_release_frame [simp]:
  "limit (release_handle h s) = limit s" "length (handles (release_handle h s)) = length (handles s)"
  "other \<noteq> h \<Longrightarrow> handles (release_handle h s) ! other = handles s ! other"
  by (simp_all add: release_handle_def release_bytes_def split: option.splits)

lemma release_empties: "h < length (handles s) \<Longrightarrow> handles (release_handle h s) ! h = None"
  by (simp add: release_handle_def split: option.splits)

lemma handle_release_inv: "budget_inv s \<Longrightarrow> h < length (handles s) \<Longrightarrow> budget_inv (release_handle h s)"
  using release_charged [of s h] by (auto simp: budget_inv_def)

lemma move_assign_charged:
  assumes "this < length (handles s)" "other < length (handles s)" "this \<noteq> other"
  shows "charged (move_assign this other s) = charged (release_handle this s)"
proof -
  let ?hs = "handles (release_handle this s)"
  have "sum_list (map charge (?hs[this := ?hs ! other])) = sum_list (map charge ?hs) + charge (?hs ! other)"
    using sum_charge_update [of this ?hs "?hs ! other"] assms by (simp add: release_empties)
  moreover have "sum_list (map charge (?hs[this := ?hs ! other, other := None])) + charge (?hs ! other)
      = sum_list (map charge (?hs[this := ?hs ! other]))"
    using sum_charge_update [of other "?hs[this := ?hs ! other]" None] assms by simp
  ultimately show ?thesis using assms(3) by (simp add: move_assign_def Let_def charged_def)
qed

lemma swap_inv:
  assumes "budget_inv s" "\<not> refuses (limit s) bytes (used s)"
  shows "budget_inv (s\<lparr>used := used s + bytes, attempts := pending, handles := handles s @ [Some bytes]\<rparr>)"
proof -
  have le: "unat (used s) + unat bytes \<le> unat (limit s)" using assms(2) by (simp add: refuses_iff)
  moreover have "unat (limit s) < 2 ^ 64" using unsigned_less [of "limit s"] by simp
  ultimately have "unat (used s + bytes) = unat (used s) + unat bytes"
    by (intro unat_plus_simple [THEN iffD1]) (simp add: no_olen_add_nat)
  then show ?thesis using assms(1) le by (simp add: budget_inv_def charged_def)
qed

lemma move_construct_inv:
  "budget_inv s \<Longrightarrow> other < length (handles s) \<Longrightarrow> budget_inv (move_construct other s)"
  using sum_charge_update [of other "handles s" None]
  by (simp add: move_construct_def budget_inv_def charged_def)

lemma move_assign_inv:
  "budget_inv s \<Longrightarrow> this < length (handles s) \<Longrightarrow> other < length (handles s) \<Longrightarrow>
     budget_inv (move_assign this other s)"
  using move_assign_charged [of this s other] handle_release_inv [of s this]
  by (cases "this = other") (auto simp: budget_inv_def move_assign_def Let_def)

lemma budget_inv_frame:
  "budget_inv (s\<lparr>attempts := pending\<rparr>) = budget_inv s"
  "budget_inv (s\<lparr>handles := handles s @ [empty_handle]\<rparr>) = budget_inv s"
  by (simp_all add: budget_inv_def charged_def empty_handle_def)

lemma budget_inv_step: "budget_inv s \<Longrightarrow> budget_step s t \<Longrightarrow> budget_inv t"
  by (erule budget_stepE)
    (simp_all add: budget_inv_frame swap_inv move_construct_inv move_assign_inv handle_release_inv)

lemma budget_inv_fresh: "budget_inv (fresh_budget n)"
  by (simp add: fresh_budget_def budget_inv_def charged_def)

interpretation budget: guarded_machine "\<lambda>s. \<exists>n. s = fresh_budget n" budget_step budget_inv
  by unfold_locales (use budget_inv_fresh budget_inv_step in blast)+

lemma budget_limit: "budget_step\<^sup>*\<^sup>* s t \<Longrightarrow> limit t = limit s"
  by (induction rule: rtranclp_induct)
    (auto elim!: budget_stepE simp: move_construct_def move_assign_def Let_def)

text \<open>
  C21. However the threads' loads, swaps, moves and releases interleave, the
  counter is exactly the sum of the charges the live handles own, that sum
  never passes the limit, and no addition wraps; and a request is refused
  exactly when the charges the loop last saw leave no room for it.
\<close>

theorem inflight_bytes_bounded:
  assumes "budget_step\<^sup>*\<^sup>* (fresh_budget n) s"
  shows "unat (used s) = charged s \<and> charged s \<le> unat n
     \<and> (refuses n bytes (used s) \<longleftrightarrow> charged s + unat bytes > unat n)"
proof -
  have "budget_inv s" using budget.reachable_inv [OF _ assms] by blast
  moreover have "limit s = n" using budget_limit [OF assms] by (simp add: fresh_budget_def)
  ultimately show ?thesis by (auto simp: budget_inv_def refuses_iff)
qed

theorem inflight_bytes_bounded_witness:
  "\<exists>s. budget_step\<^sup>*\<^sup>* (fresh_budget 10) s \<and> charged s = 7 \<and> refuses 10 4 (used s) \<and> \<not> refuses 10 3 (used s)"
proof -
  let ?a = "(fresh_budget 10)\<lparr>attempts := [0 \<mapsto> (7, 0)]\<rparr>"
  let ?b = "?a\<lparr>used := 7, attempts := Map.empty, handles := [Some 7]\<rparr>"
  have "budget_step (fresh_budget 10) ?a"
    using budget_step.load [of "fresh_budget 10" 0 7] by (simp add: fresh_budget_def)
  moreover have "budget_step ?a ?b"
    using budget_step.swap [of ?a 0 7 0] by (simp add: fresh_budget_def refuses_def)
  ultimately have reach: "budget_step\<^sup>*\<^sup>* (fresh_budget 10) ?b" by simp
  have "charged ?b = 7" by (simp add: charged_def)
  with reach inflight_bytes_bounded [OF reach, of 4] inflight_bytes_bounded [OF reach, of 3]
  show ?thesis by (intro exI [of _ ?b]) simp
qed

end
