(* ===== verification/FetchSlots.thy ===== *)
theory FetchSlots
  imports Prelude
begin

text \<open>
  The cap on concurrent remote fetches
  (\<^verbatim>\<open>src/include/grparse/remote_fetch_slots.h\<close>): \<^verbatim>\<open>RemoteFetchSlots\<close> as a
  machine whose steps are its critical sections. A caller is outside, waiting
  in \<^verbatim>\<open>acquire\<close> (which gives the mutex up only inside \<^verbatim>\<open>wait_for\<close>), or holds a
  \<^verbatim>\<open>Slot\<close>. The counters are integers, so an underflow would show as a negative.
\<close>

subsection \<open>Callers and critical sections\<close>

datatype caller = Outside | Waiting | Holding

record fetch_slots =
  slot_limit :: nat
  in_use :: int
  waiting :: int
  callers :: "caller list"

definition make_slots :: "nat \<Rightarrow> nat \<Rightarrow> fetch_slots result" where
  "make_slots limit n =
     (if limit = 0 then Inl (Invalid_Argument ''RemoteFetchSlots needs at least one slot'')
      else Inr \<lparr>slot_limit = limit, in_use = 0, waiting = 0, callers = replicate n Outside\<rparr>)"

definition set_caller :: "nat \<Rightarrow> caller \<Rightarrow> fetch_slots \<Rightarrow> fetch_slots" where
  "set_caller t phase s = s\<lparr>callers := (callers s)[t := phase]\<rparr>"

text \<open>\<open>stop\<close> is what the caller's \<^verbatim>\<open>stop()\<close> answers, asked only while no slot is free.\<close>

definition poll :: "nat \<Rightarrow> bool \<Rightarrow> fetch_slots \<Rightarrow> fetch_slots" where
  "poll t stop s =
     (if in_use s = int (slot_limit s)
      then if stop then set_caller t Outside (s\<lparr>waiting := waiting s - 1\<rparr>) else s
      else set_caller t Holding (s\<lparr>waiting := waiting s - 1, in_use := in_use s + 1\<rparr>))"

definition acquire :: "nat \<Rightarrow> bool \<Rightarrow> fetch_slots \<Rightarrow> fetch_slots" where
  "acquire t stop s =
     (if in_use s = int (slot_limit s)
      then poll t stop (set_caller t Waiting (s\<lparr>waiting := waiting s + 1\<rparr>))
      else set_caller t Holding (s\<lparr>in_use := in_use s + 1\<rparr>))"

definition release :: "nat \<Rightarrow> fetch_slots \<Rightarrow> fetch_slots" where
  "release t s = set_caller t Outside (s\<lparr>in_use := in_use s - 1\<rparr>)"

text \<open>A \<^verbatim>\<open>Slot\<close> releases once, when it is destroyed or reset; moving it moves the hold.\<close>

inductive slots_step :: "fetch_slots \<Rightarrow> fetch_slots \<Rightarrow> bool" where
  enter: "t < length (callers s) \<Longrightarrow> callers s ! t = Outside \<Longrightarrow> slots_step s (acquire t stop s)"
| wake: "t < length (callers s) \<Longrightarrow> callers s ! t = Waiting \<Longrightarrow> slots_step s (poll t stop s)"
| reset: "t < length (callers s) \<Longrightarrow> callers s ! t = Holding \<Longrightarrow> slots_step s (release t s)"

inductive_cases slots_stepE: "slots_step s t"

subsection \<open>The counters count the callers\<close>

definition slots_inv :: "fetch_slots \<Rightarrow> bool" where
  "slots_inv s \<longleftrightarrow> in_use s = int (count_list (callers s) Holding)
     \<and> waiting s = int (count_list (callers s) Waiting) \<and> in_use s \<le> int (slot_limit s)"

lemma poll_inv:
  "slots_inv s \<Longrightarrow> t < length (callers s) \<Longrightarrow> callers s ! t = Waiting \<Longrightarrow> slots_inv (poll t stop s)"
  by (auto simp: slots_inv_def poll_def set_caller_def count_list_update)

lemma acquire_inv:
  assumes "slots_inv s" "t < length (callers s)" "callers s ! t = Outside"
  shows "slots_inv (acquire t stop s)"
proof (cases "in_use s = int (slot_limit s)")
  case True
  have "slots_inv (set_caller t Waiting (s\<lparr>waiting := waiting s + 1\<rparr>))"
    using assms by (simp add: slots_inv_def set_caller_def count_list_update)
  then show ?thesis using assms(2) True by (simp add: acquire_def poll_inv set_caller_def)
qed (use assms in \<open>simp add: acquire_def slots_inv_def set_caller_def count_list_update\<close>)

lemma slots_release_inv:
  "slots_inv s \<Longrightarrow> t < length (callers s) \<Longrightarrow> callers s ! t = Holding \<Longrightarrow> slots_inv (release t s)"
  by (simp add: slots_inv_def release_def set_caller_def count_list_update)

lemma slots_inv_step: "slots_inv s \<Longrightarrow> slots_step s t \<Longrightarrow> slots_inv t"
  by (erule slots_stepE) (simp_all add: acquire_inv poll_inv slots_release_inv)

lemma slots_inv_made: "make_slots limit n = Inr s \<Longrightarrow> slots_inv s"
  by (auto simp: make_slots_def slots_inv_def count_list_replicate split: if_splits)

interpretation fetching: guarded_machine "\<lambda>s. \<exists>limit n. make_slots limit n = Inr s" slots_step slots_inv
  by unfold_locales (use slots_inv_made slots_inv_step in blast)+

lemma slots_limit: "slots_step\<^sup>*\<^sup>* s t \<Longrightarrow> slot_limit t = slot_limit s"
  by (induction rule: rtranclp_induct)
    (auto elim!: slots_stepE simp: acquire_def poll_def release_def set_caller_def)

text \<open>What a caller is after it asked for a slot in state \<open>s\<close>.\<close>

definition asked :: "bool \<Rightarrow> fetch_slots \<Rightarrow> caller" where
  "asked stop s =
     (if count_list (callers s) Holding < slot_limit s then Holding else if stop then Outside else Waiting)"

lemma poll_asks:
  "slots_inv s \<Longrightarrow> t < length (callers s) \<Longrightarrow> callers s ! t = Waiting \<Longrightarrow> callers (poll t stop s) = (callers s)[t := asked stop s]"
  using list_update_id [of "callers s" t] by (auto simp: asked_def poll_def set_caller_def slots_inv_def)

lemma acquire_asks:
  "slots_inv s \<Longrightarrow> t < length (callers s) \<Longrightarrow> callers (acquire t stop s) = (callers s)[t := asked stop s]"
  by (auto simp: asked_def acquire_def poll_def set_caller_def slots_inv_def)

text \<open>
  C22. At every moment of every interleaving at most \<open>limit\<close> fetches hold a
  slot, and the two counters are exactly the holders and the waiters (neither
  ever underflows). A caller that asks for a slot, on arrival or when it polls
  as a waiter, takes one exactly when one is free, whatever its \<open>stop\<close> says;
  with none free it leaves if \<open>stop\<close> says so and waits otherwise. Nobody else
  gains or loses a slot by it, and a holder that releases leaves.
\<close>

theorem fetch_slots_bounded:
  assumes "make_slots limit n = Inr s\<^sub>0" "slots_step\<^sup>*\<^sup>* s\<^sub>0 s"
  shows "in_use s = int (count_list (callers s) Holding) \<and> count_list (callers s) Holding \<le> limit
     \<and> waiting s = int (count_list (callers s) Waiting) \<and> slot_limit s = limit
     \<and> (\<forall>t stop. t < length (callers s) \<longrightarrow>
          (callers s ! t = Outside \<longrightarrow> callers (acquire t stop s) = (callers s)[t := asked stop s])
          \<and> (callers s ! t = Waiting \<longrightarrow> callers (poll t stop s) = (callers s)[t := asked stop s])
          \<and> (callers s ! t = Holding \<longrightarrow> callers (release t s) = (callers s)[t := Outside]))"
proof -
  have inv: "slots_inv s" using fetching.reachable_inv [OF _ assms(2)] assms(1) by blast
  moreover have "slot_limit s = limit"
    using slots_limit [OF assms(2)] assms(1) by (auto simp: make_slots_def split: if_splits)
  ultimately show ?thesis
    using poll_asks [OF inv] acquire_asks [OF inv] by (simp add: slots_inv_def release_def set_caller_def)
qed

theorem fetch_slots_bounded_witness:
  "\<exists>s\<^sub>0 s. make_slots 1 2 = Inr s\<^sub>0 \<and> slots_step\<^sup>*\<^sup>* s\<^sub>0 s \<and> callers s = [Holding, Waiting]
     \<and> count_list (callers s) Holding \<le> 1"
proof -
  let ?init = "\<lparr>slot_limit = 1, in_use = 0, waiting = 0, callers = [Outside, Outside]\<rparr>"
  let ?one = "\<lparr>slot_limit = 1, in_use = 1, waiting = 0, callers = [Holding, Outside]\<rparr>"
  let ?two = "\<lparr>slot_limit = 1, in_use = 1, waiting = 1, callers = [Holding, Waiting]\<rparr>"
  have made: "make_slots 1 2 = Inr ?init" by (simp add: make_slots_def numeral_2_eq_2)
  have "slots_step ?init ?one"
    using slots_step.enter [of 0 ?init False] by (simp add: acquire_def set_caller_def)
  moreover have "slots_step ?one ?two"
    using slots_step.enter [of 1 ?one False] by (simp add: acquire_def poll_def set_caller_def)
  ultimately have reach: "slots_step\<^sup>*\<^sup>* ?init ?two" by simp
  from fetch_slots_bounded [OF made this] made reach show ?thesis
    by (intro exI [of _ ?init] exI [of _ ?two]) simp
qed

end
