(* ===== verification/ResourcePool.thy ===== *)
theory ResourcePool
  imports Prelude "HOL-Library.Multiset"
begin

text \<open>
  The leased resource pool (\<^verbatim>\<open>src/include/grparse/resource_pool.h\<close>): slots filled
  on first use, a stack of free slots under the mutex, and threads that hold
  a slot while they build, use or discard its resource. The steps are the
  critical sections and the actions a thread does on the slot it owns; what
  a factory call gives is an argument of the step.
\<close>

subsection \<open>The pool\<close>

record 'r pool =
  slots :: "'r option list"
  free_slots :: "nat list"
  live :: int
  acquires :: nat
  discards :: nat

definition make_pool :: "nat \<Rightarrow> bool \<Rightarrow> 'r pool result" where
  "make_pool capacity has_factory =
     (if capacity = 0 then Inl (Invalid_Argument ''Resource pool capacity must be positive'')
      else if \<not> has_factory then Inl (Invalid_Argument ''Resource pool factory is required'')
      else Inr \<lparr>slots = replicate capacity None, free_slots = rev [0..<capacity],
             live = 0, acquires = 0, discards = 0\<rparr>)"

text \<open>What \<^verbatim>\<open>factory_()\<close> does: throws, returns a null pointer, or returns a resource.\<close>

datatype 'r built = Throws cpp_error | Null | Built 'r

definition release_slot :: "nat \<Rightarrow> 'r pool \<Rightarrow> 'r pool" where
  "release_slot slot p = p\<lparr>free_slots := free_slots p @ [slot]\<rparr>"

text \<open>
  The part of \<^verbatim>\<open>acquire\<close> under the mutex: the call is counted, then takes the
  last free slot, waiting while there is none.
\<close>

definition arrive :: "'r pool \<Rightarrow> 'r pool" where
  "arrive p = p\<lparr>acquires := acquires p + 1\<rparr>"

definition take_slot :: "'r pool \<Rightarrow> (nat \<times> 'r pool) option" where
  "take_slot p =
     (if free_slots p = [] then None
      else Some (last (free_slots p), p\<lparr>free_slots := butlast (free_slots p)\<rparr>))"

text \<open>The rest of it: an empty slot is built; a failed build gives the slot back and throws.\<close>

definition fill :: "'r built \<Rightarrow> nat \<Rightarrow> 'r pool \<Rightarrow> 'r result \<times> 'r pool" where
  "fill made slot p =
     (case slots p ! slot of
        Some r \<Rightarrow> (Inr r, p)
      | None \<Rightarrow>
          (case made of
             Throws e \<Rightarrow> (Inl e, release_slot slot p)
           | Null \<Rightarrow> (Inl (Runtime_Error ''Resource pool factory returned no resource''), release_slot slot p)
           | Built r \<Rightarrow> (Inr r, p\<lparr>slots := (slots p)[slot := Some r], live := live p + 1\<rparr>)))"

definition discard_slot :: "nat \<Rightarrow> 'r pool \<Rightarrow> 'r pool" where
  "discard_slot slot p =
     release_slot slot (p\<lparr>slots := (slots p)[slot := None], live := live p - 1, discards := discards p + 1\<rparr>)"

text \<open>\<^verbatim>\<open>acquire\<close> by a thread running alone, and \<^verbatim>\<open>prime\<close>: \<open>mades\<close> are the factory's answers, in order.\<close>

definition acquire_lease :: "'r built \<Rightarrow> 'r pool \<Rightarrow> (nat result \<times> 'r pool) option" where
  "acquire_lease made p =
     (case take_slot (arrive p) of
        None \<Rightarrow> None
      | Some (slot, p) \<Rightarrow>
          (case fill made slot p of (Inl e, p) \<Rightarrow> Some (Inl e, p) | (Inr _, p) \<Rightarrow> Some (Inr slot, p)))"

text \<open>The leases taken so far are released, first to last, however \<^verbatim>\<open>prime\<close> is left.\<close>

fun prime_from :: "'r built list \<Rightarrow> nat list \<Rightarrow> 'r pool \<Rightarrow> (unit result \<times> 'r pool) option" where
  "prime_from [] leases p = Some (Inr (), fold release_slot leases p)"
| "prime_from (made # mades) leases p =
     (case acquire_lease made p of
        None \<Rightarrow> None
      | Some (Inl e, p) \<Rightarrow> Some (Inl e, fold release_slot leases p)
      | Some (Inr slot, p) \<Rightarrow> prime_from mades (leases @ [slot]) p)"

definition prime :: "(nat \<Rightarrow> 'r built) \<Rightarrow> 'r pool \<Rightarrow> (unit result \<times> 'r pool) option" where
  "prime factory p = prime_from (map factory [0..<length (slots p)]) [] p"

subsection \<open>Threads\<close>

datatype holder = Idle | Arrived | Building nat | Leased nat

fun owned :: "holder \<Rightarrow> nat option" where
  "owned Idle = None"
| "owned Arrived = None"
| "owned (Building slot) = Some slot"
| "owned (Leased slot) = Some slot"

inductive pool_step :: "'r pool \<times> (nat \<Rightarrow> holder) \<Rightarrow> 'r pool \<times> (nat \<Rightarrow> holder) \<Rightarrow> bool" where
  arrived: "th t = Idle \<Longrightarrow> pool_step (p, th) (arrive p, th(t := Arrived))"
| taken: "th t = Arrived \<Longrightarrow> take_slot p = Some (slot, p') \<Longrightarrow>
     pool_step (p, th) (p', th(t := Building slot))"
| filled: "th t = Building slot \<Longrightarrow> fill made slot p = (Inr r, p') \<Longrightarrow>
     pool_step (p, th) (p', th(t := Leased slot))"
| failed: "th t = Building slot \<Longrightarrow> fill made slot p = (Inl e, p') \<Longrightarrow>
     pool_step (p, th) (p', th(t := Idle))"
| released: "th t = Leased slot \<Longrightarrow> pool_step (p, th) (release_slot slot p, th(t := Idle))"
| discarded: "th t = Leased slot \<Longrightarrow> pool_step (p, th) (discard_slot slot p, th(t := Idle))"

inductive_cases pool_stepE: "pool_step s s'"

subsection \<open>Leases are exclusive\<close>

definition filled_slots :: "'r option list \<Rightarrow> nat" where
  "filled_slots rs = length (filter (\<lambda>r. r \<noteq> None) rs)"

text \<open>The free slots and those the threads own split the pool's slots, no two threads sharing one.\<close>

definition splits :: "(nat \<rightharpoonup> nat) \<Rightarrow> nat list \<Rightarrow> nat \<Rightarrow> bool" where
  "splits own free n \<longleftrightarrow> distinct free \<and> inj_on own (dom own)
     \<and> ran own \<inter> set free = {} \<and> ran own \<union> set free = {..<n}"

fun pool_inv :: "'r pool \<times> (nat \<Rightarrow> holder) \<Rightarrow> bool" where
  "pool_inv (p, th) \<longleftrightarrow>
     splits (owned \<circ> th) (free_slots p) (length (slots p))
     \<and> (\<forall>t slot. th t = Leased slot \<longrightarrow> slots p ! slot \<noteq> None)
     \<and> live p = int (filled_slots (slots p))"

declare pool_inv.simps [simp del]

lemma owned_upd: "owned \<circ> th(t := phase) = (owned \<circ> th)(t := owned phase)"
  by (rule ext) simp

lemma splits_take:
  assumes "splits own (free @ [slot]) n" "own t = None"
  shows "splits (own(t \<mapsto> slot)) free n"
proof -
  have ran: "ran (own(t \<mapsto> slot)) = insert slot (ran own)"
    using assms(2) by (rule ran_map_upd)
  have "slot \<notin> ran own" using assms(1) by (simp add: splits_def)
  then have "inj_on (own(t \<mapsto> slot)) (dom (own(t \<mapsto> slot)))"
    using assms by (auto simp: splits_def inj_on_def ran_def)
  then show ?thesis using assms unfolding splits_def ran by auto
qed

lemma splits_own:
  assumes "splits own free n" "own t = Some slot"
  shows "slot < n" "own u = Some slot \<longleftrightarrow> u = t"
proof -
  have "slot \<in> ran own" using assms(2) by (auto simp: ran_def)
  then show "slot < n" using assms(1) by (auto simp: splits_def)
  show "own u = Some slot \<longleftrightarrow> u = t"
    using assms by (metis domI inj_on_contraD splits_def)
qed

lemma splits_give:
  assumes "splits own free n" "own t = Some slot"
  shows "splits (own(t := None)) (free @ [slot]) n"
proof -
  have ran: "ran (own(t := None)) = ran own - {slot}"
  proof (intro set_eqI iffI)
    fix x assume "x \<in> ran own - {slot}"
    then obtain u where "own u = Some x" "x \<noteq> slot" by (auto simp: ran_def)
    moreover from this have "u \<noteq> t" using assms(2) by auto
    ultimately show "x \<in> ran (own(t := None))" by (intro ranI [of _ u]) simp
  next
    fix x assume "x \<in> ran (own(t := None))"
    then obtain u where "u \<noteq> t" "own u = Some x" by (auto simp: ran_def split: if_splits)
    then show "x \<in> ran own - {slot}" using splits_own(2) [OF assms, of u] by (auto intro: ranI)
  qed
  have "slot \<in> ran own" using assms(2) by (auto simp: ran_def)
  moreover have "inj_on (own(t := None)) (dom (own(t := None)))"
    using assms(1) by (auto simp: splits_def inj_on_def)
  ultimately show ?thesis using assms(1) unfolding splits_def ran by auto
qed

lemma take_slot_parts:
  assumes "take_slot p = Some (slot, p')"
  shows "free_slots p = free_slots p' @ [slot]" "slots p' = slots p" "live p' = live p"
  using assms by (auto simp: take_slot_def split: if_splits)

lemma fill_cases:
  assumes "fill made slot p = (res, p')"
  obtains (held) r where "res = Inr r" "p' = p" "slots p ! slot = Some r"
  | (built) r where "res = Inr r" "slots p ! slot = None"
      "p' = p\<lparr>slots := (slots p)[slot := Some r], live := live p + 1\<rparr>"
  | (failed) e where "res = Inl e" "p' = release_slot slot p" "slots p ! slot = None"
  using assms by (auto simp: fill_def split: option.splits built.splits)

lemma filled_update:
  "slot < length rs \<Longrightarrow> int (filled_slots (rs[slot := r]))
     = int (filled_slots rs) - of_bool (rs ! slot \<noteq> None) + of_bool (r \<noteq> None)"
  by (simp add: filled_slots_def length_filter_update del: not_None_eq)

lemma arrive_frame [simp]:
  "slots (arrive p) = slots p" "free_slots (arrive p) = free_slots p"
  by (simp_all add: arrive_def)

lemma arrived_inv: "pool_inv (p, th) \<Longrightarrow> th t = Idle \<Longrightarrow> pool_inv (arrive p, th(t := Arrived))"
  by (auto simp: pool_inv.simps owned_upd arrive_def fun_upd_triv fun_upd_idem)

lemma taken_inv:
  assumes "pool_inv (p, th)" "th t = Arrived" "take_slot p = Some (slot, p')"
  shows "pool_inv (p', th(t := Building slot))"
  using assms(1,2) take_slot_parts [OF assms(3)] splits_take [of "owned \<circ> th" "free_slots p'" slot _ t]
  by (simp add: pool_inv.simps owned_upd filled_slots_def)

lemma pool_release_inv:
  assumes "pool_inv (p, th)" "owned (th t) = Some slot"
  shows "pool_inv (release_slot slot p, th(t := Idle))"
  using assms splits_give [of "owned \<circ> th" "free_slots p" _ t slot]
  by (simp add: pool_inv.simps owned_upd release_slot_def filled_slots_def)

lemma others_leased:
  assumes "pool_inv (p, th)" "owned (th t) = Some slot" "th u = Leased other" "u \<noteq> t"
  shows "other \<noteq> slot"
  using splits_own(2) [of "owned \<circ> th" "free_slots p" "length (slots p)" t slot u] assms
  by (auto simp: pool_inv.simps)

lemma filled_inv:
  assumes inv: "pool_inv (p, th)" and th: "th t = Building slot" and "fill made slot p = (Inr r, p')"
  shows "pool_inv (p', th(t := Leased slot))"
proof -
  have own: "(owned \<circ> th) t = Some slot" using th by simp
  then have same: "(owned \<circ> th)(t \<mapsto> slot) = owned \<circ> th" by (rule map_upd_triv)
  have less: "slot < length (slots p)" using inv own splits_own(1) by (auto simp: pool_inv.simps)
  have others: "th u = Leased other \<Longrightarrow> u \<noteq> t \<Longrightarrow> other \<noteq> slot" for u other
    using others_leased [OF inv] own by simp
  from assms(3) show ?thesis
  proof (cases rule: fill_cases)
    case held
    then show ?thesis using inv by (simp add: pool_inv.simps owned_upd same)
  next
    case built
    then show ?thesis
      using inv filled_update [OF less, of "Some r"] less others
      by (auto simp: pool_inv.simps owned_upd same nth_list_update)
  qed simp
qed

lemma discard_inv:
  assumes inv: "pool_inv (p, th)" and th: "th t = Leased slot"
  shows "pool_inv (discard_slot slot p, th(t := Idle))"
proof -
  have own: "(owned \<circ> th) t = Some slot" using th by simp
  have less: "slot < length (slots p)" using inv own splits_own(1) by (auto simp: pool_inv.simps)
  have others: "th u = Leased other \<Longrightarrow> u \<noteq> t \<Longrightarrow> other \<noteq> slot" for u other
    using others_leased [OF inv] own by simp
  have "slots p ! slot \<noteq> None" using inv th by (auto simp: pool_inv.simps)
  then show ?thesis
    using inv filled_update [OF less, of None] less others splits_give [of "owned \<circ> th", OF _ own]
    by (auto simp: pool_inv.simps owned_upd discard_slot_def release_slot_def nth_list_update)
qed

lemma pool_inv_step: "pool_inv s \<Longrightarrow> pool_step s s' \<Longrightarrow> pool_inv s'"
proof (erule pool_stepE)
  fix th t slot made p e p'
  assume "pool_inv s" "s = (p, th)" "s' = (p', th(t := Idle))" "th t = Building slot"
    "fill made slot p = (Inl e, p')"
  then show "pool_inv s'" by (elim fill_cases) (simp_all add: pool_release_inv)
qed (simp_all add: arrived_inv taken_inv filled_inv pool_release_inv discard_inv)

lemma splits_fresh: "splits (owned \<circ> (\<lambda>_. Idle)) (rev [0..<n]) n"
proof -
  have "owned \<circ> (\<lambda>_ :: nat. Idle) = Map.empty" by (rule ext) simp
  then show ?thesis by (auto simp: splits_def)
qed

lemma pool_inv_made: "make_pool n f = Inr p \<Longrightarrow> pool_inv (p, \<lambda>_. Idle)"
  using splits_fresh [of n]
  by (auto simp: make_pool_def pool_inv.simps filled_slots_def split: if_splits)

interpretation leasing: guarded_machine
  "\<lambda>s. \<exists>n p. make_pool n True = Inr p \<and> s = (p, \<lambda>_. Idle)" pool_step pool_inv
  by unfold_locales (use pool_inv_made pool_inv_step in blast)+

lemma pool_release_frame [simp]:
  "slots (release_slot slot p) = slots p" "free_slots (release_slot slot p) = free_slots p @ [slot]"
  by (simp_all add: release_slot_def)

lemma pool_step_capacity: "pool_step s s' \<Longrightarrow> length (slots (fst s')) = length (slots (fst s))"
proof (erule pool_stepE)
  fix th t slot p p' assume "s = (p, th)" "s' = (p', th(t := Building slot))" "take_slot p = Some (slot, p')"
  then show ?thesis using take_slot_parts by fastforce
qed (auto elim!: fill_cases simp: discard_slot_def)

lemma pool_capacity: "pool_step\<^sup>*\<^sup>* s s' \<Longrightarrow> length (slots (fst s')) = length (slots (fst s))"
  by (induction rule: rtranclp_induct) (simp_all add: pool_step_capacity)

lemma splits_full:
  assumes "splits own free n"
  shows "free = [] \<longleftrightarrow> (\<forall>slot < n. \<exists>t. own t = Some slot)"
proof
  assume "free = []"
  then have "ran own = {..<n}" using assms by (simp add: splits_def)
  then show "\<forall>slot < n. \<exists>t. own t = Some slot" unfolding ran_def by blast
next
  assume "\<forall>slot < n. \<exists>t. own t = Some slot"
  then have "{..<n} \<subseteq> ran own" by (auto simp: ran_def)
  moreover have "ran own \<inter> set free = {}" "set free \<subseteq> {..<n}" using assms by (auto simp: splits_def)
  ultimately have "set free = {}" by (metis inf.absorb_iff2 order_trans)
  then show "free = []" by simp
qed

text \<open>
  C20. Whatever the interleaving of threads that take, build, fail to build,
  use, release and discard: a slot belongs to at most one thread, a lease
  always holds a built resource, a caller blocks only while every slot of the
  pool belongs to some thread (a failed factory call gives its slot back), and
  the live counter is the number of built resources.
\<close>

theorem leases_are_exclusive:
  assumes "make_pool n True = Inr p\<^sub>0" "pool_step\<^sup>*\<^sup>* (p\<^sub>0, \<lambda>_. Idle) (p, th)"
  shows "(\<forall>t u slot. owned (th t) = Some slot \<longrightarrow> owned (th u) = Some slot \<longrightarrow> t = u)
     \<and> (\<forall>t slot. th t = Leased slot \<longrightarrow> slot < n \<and> slots p ! slot \<noteq> None)
     \<and> (take_slot p = None \<longleftrightarrow> (\<forall>slot < n. \<exists>t. owned (th t) = Some slot))
     \<and> live p = int (filled_slots (slots p))"
proof -
  have "pool_inv (p, th)" using leasing.reachable_inv [OF _ assms(2)] assms(1) by blast
  then have split: "splits (owned \<circ> th) (free_slots p) (length (slots p))"
    and leased: "\<forall>t slot. th t = Leased slot \<longrightarrow> slots p ! slot \<noteq> None"
    and live: "live p = int (filled_slots (slots p))"
    by (simp_all add: pool_inv.simps)
  have n: "length (slots p) = n"
    using pool_capacity [OF assms(2)] assms(1) by (auto simp: make_pool_def split: if_splits)
  have own: "owned (th t) = Some slot \<Longrightarrow> slot < n \<and> (owned (th u) = Some slot \<longleftrightarrow> u = t)" for t u slot
    using splits_own(1) [OF split, of t slot] splits_own(2) [OF split, of t slot u] n by simp
  have "take_slot p = None \<longleftrightarrow> (\<forall>slot < n. \<exists>t. owned (th t) = Some slot)"
    using splits_full [OF split] n by (simp add: take_slot_def)
  moreover have "th t = Leased slot \<Longrightarrow> slot < n" for t slot using own [of t slot] by simp
  ultimately show ?thesis using own leased live by blast
qed

theorem leases_are_exclusive_witness:
  "\<exists>p\<^sub>0 p th. make_pool 1 True = Inr p\<^sub>0 \<and> pool_step\<^sup>*\<^sup>* (p\<^sub>0, \<lambda>_. Idle) (p, th) \<and> th 3 = Leased 0
     \<and> take_slot p = None \<and> slots p = [Some ''session'']"
proof -
  let ?p0 = "\<lparr>slots = [None], free_slots = [0], live = 0, acquires = 0, discards = 0\<rparr> :: string pool"
  let ?p1 = "\<lparr>slots = [None], free_slots = [], live = 0, acquires = 1, discards = 0\<rparr> :: string pool"
  let ?p2 = "\<lparr>slots = [Some ''session''], free_slots = [], live = 1, acquires = 1, discards = 0\<rparr>"
  let ?th = "(\<lambda>_ :: nat. Idle)(3 := Arrived, 3 := Building 0, 3 := Leased 0)"
  have made: "make_pool 1 True = Inr ?p0" by (simp add: make_pool_def)
  have "pool_step (?p0, \<lambda>_. Idle) (arrive ?p0, (\<lambda>_. Idle)(3 := Arrived))"
    by (rule pool_step.arrived) simp
  moreover have "pool_step (arrive ?p0, (\<lambda>_. Idle)(3 := Arrived)) (?p1, (\<lambda>_. Idle)(3 := Arrived, 3 := Building 0))"
    by (rule pool_step.taken) (simp_all add: take_slot_def arrive_def)
  moreover have "pool_step (?p1, (\<lambda>_. Idle)(3 := Arrived, 3 := Building 0)) (?p2, ?th)"
    by (rule pool_step.filled [where made = "Built ''session''" and r = "''session''"]) (simp_all add: fill_def)
  ultimately have reach: "pool_step\<^sup>*\<^sup>* (?p0, \<lambda>_. Idle) (?p2, ?th)" by simp
  have "take_slot ?p2 = None \<longleftrightarrow> (\<forall>slot < 1. \<exists>t. owned (?th t) = Some slot)"
    using leases_are_exclusive [OF made reach] by (elim conjE) assumption
  moreover have owned: "owned (?th 3) = Some 0" by simp
  ultimately have blocked: "take_slot ?p2 = None" by (metis less_one)
  have leased: "?th 3 = Leased 0" by simp
  show ?thesis
    by (rule exI [of _ ?p0], rule exI [of _ ?p2], rule exI [of _ ?th], intro conjI made reach leased blocked) simp
qed

subsection \<open>Priming\<close>

lemma fold_release: "slots (fold release_slot leases p) = slots p"
  "free_slots (fold release_slot leases p) = free_slots p @ leases"
  by (induction leases arbitrary: p) simp_all

lemma acquire_lease_free:
  assumes "acquire_lease made p = Some (res, p')"
  shows "mset (free_slots p) = mset (free_slots p') + (case res of Inl _ \<Rightarrow> {#} | Inr slot \<Rightarrow> {#slot#})"
proof -
  obtain slot p1 where taken: "take_slot (arrive p) = Some (slot, p1)"
    using assms by (auto simp: acquire_lease_def split: option.splits)
  obtain filled p2 where fill: "fill made slot p1 = (filled, p2)" by force
  from this show ?thesis
  proof (cases rule: fill_cases)
    case failed
    then show ?thesis
      using assms take_slot_parts(1) [OF taken] fill by (auto simp: acquire_lease_def taken)
  qed (use assms take_slot_parts(1) [OF taken] fill in \<open>auto simp: acquire_lease_def taken\<close>)
qed

text \<open>However \<^verbatim>\<open>prime\<close> ends, every slot it took is free again.\<close>

lemma prime_from_frees:
  "prime_from mades leases p = Some (res, p') \<Longrightarrow> mset (free_slots p') = mset (free_slots p) + mset leases"
proof (induction mades leases p rule: prime_from.induct)
  case (2 made mades leases p)
  then show ?case
    by (auto simp: fold_release dest: acquire_lease_free split: option.splits sum.splits prod.splits)
qed (auto simp: fold_release)

lemma prime_from_fills:
  "slots p = map (\<lambda>i. Some (f i)) [0..<k] @ replicate m None \<Longrightarrow> free_slots p = rev [k..<k + m] \<Longrightarrow>
   \<exists>p'. prime_from (map (\<lambda>i. Built (f i)) [k..<k + m]) leases p = Some (Inr (), p')
     \<and> slots p' = map (\<lambda>i. Some (f i)) [0..<k + m]"
proof (induction m arbitrary: k p leases)
  case (Suc m)
  let ?p = "p\<lparr>acquires := acquires p + 1, free_slots := rev [Suc k..<Suc k + m],
              slots := map (\<lambda>i. Some (f i)) [0..<Suc k] @ replicate m None, live := live p + 1\<rparr>"
  have range: "[k..<k + Suc m] = k # [Suc k..<Suc k + m]" by (simp add: upt_conv_Cons del: upt_Suc)
  have "free_slots p = rev [Suc k..<Suc k + m] @ [k]" unfolding Suc.prems(2) range by simp
  then have "take_slot (arrive p) = Some (k, p\<lparr>acquires := acquires p + 1, free_slots := rev [Suc k..<Suc k + m]\<rparr>)"
    by (simp add: take_slot_def arrive_def del: upt_Suc)
  then have acquired: "acquire_lease (Built (f k)) p = Some (Inr k, ?p)"
    using Suc.prems(1) by (simp add: acquire_lease_def fill_def nth_append list_update_append del: upt_Suc) simp
  have "\<exists>p'. prime_from (map (\<lambda>i. Built (f i)) [Suc k..<Suc k + m]) (leases @ [k]) ?p = Some (Inr (), p')
     \<and> slots p' = map (\<lambda>i. Some (f i)) [0..<Suc k + m]"
    by (rule Suc.IH) simp_all
  then show ?case unfolding range by (simp add: acquired del: upt_Suc)
qed (simp add: fold_release)

end
