(* ===== verification/CallExecutor.thy ===== *)
theory CallExecutor
  imports Prelude "HOL-Library.Multiset"
begin

text \<open>
  The call executor (\<^verbatim>\<open>src/src/call_executor.cpp\<close>): a bounded queue, a fixed
  set of workers and a shutdown that drains. The steps are the critical
  sections of \<^verbatim>\<open>submit\<close>, \<^verbatim>\<open>run\<close> and the destructor, and the end of a task. The
  ghost lists \<open>accepted\<close> and \<open>finished\<close> record what \<^verbatim>\<open>submit\<close> answered \<^verbatim>\<open>true\<close> for
  and which tasks returned or threw.
\<close>

subsection \<open>The pool\<close>

datatype 'task worker = Free | Running 'task | Exited

record 'task executor =
  tasks :: "'task list"
  workers :: "'task worker list"
  queue_capacity :: nat
  stopping :: bool
  accepted :: "'task list"
  finished :: "'task list"

definition make_executor :: "nat \<Rightarrow> nat \<Rightarrow> 'task executor" where
  "make_executor worker_count capacity =
     \<lparr>tasks = [], workers = replicate (max 1 worker_count) Free, queue_capacity = max 1 capacity,
      stopping = False, accepted = [], finished = []\<rparr>"

definition submit :: "'task \<Rightarrow> 'task executor \<Rightarrow> bool \<times> 'task executor" where
  "submit task e =
     (if stopping e \<or> length (tasks e) \<ge> queue_capacity e then (False, e)
      else (True, e\<lparr>tasks := tasks e @ [task], accepted := accepted e @ [task]\<rparr>))"

definition queued :: "'task executor \<Rightarrow> nat" where
  "queued e = length (tasks e)"

text \<open>A free worker's turn in \<^verbatim>\<open>run\<close>: \<open>None\<close> while it waits.\<close>

definition next_task :: "nat \<Rightarrow> 'task executor \<Rightarrow> 'task executor option" where
  "next_task w e =
     (if \<not> (stopping e \<or> tasks e \<noteq> []) then None
      else case tasks e of
             [] \<Rightarrow> Some (e\<lparr>workers := (workers e)[w := Exited]\<rparr>)
           | task # rest \<Rightarrow> Some (e\<lparr>tasks := rest, workers := (workers e)[w := Running task]\<rparr>))"

text \<open>A task's end, thrown or not: the worker swallows what it threw.\<close>

definition finish_task :: "nat \<Rightarrow> 'task \<Rightarrow> 'task executor \<Rightarrow> 'task executor" where
  "finish_task w task e = e\<lparr>workers := (workers e)[w := Free], finished := finished e @ [task]\<rparr>"

definition shut_down :: "'task executor \<Rightarrow> 'task executor" where
  "shut_down e = e\<lparr>stopping := True\<rparr>"

text \<open>The destructor returns once every worker has been joined.\<close>

definition joined :: "'task executor \<Rightarrow> bool" where
  "joined e = (\<forall>w\<in>set (workers e). w = Exited)"

inductive worker_step :: "'task executor \<Rightarrow> 'task executor \<Rightarrow> bool" where
  turn: "w < length (workers e) \<Longrightarrow> workers e ! w = Free \<Longrightarrow> next_task w e = Some e' \<Longrightarrow> worker_step e e'"
| done_task: "w < length (workers e) \<Longrightarrow> workers e ! w = Running task \<Longrightarrow>
     worker_step e (finish_task w task e)"

inductive executor_step :: "'task executor \<Rightarrow> 'task executor \<Rightarrow> bool" where
  submitted: "executor_step e (snd (submit task e))"
| worked: "worker_step e e' \<Longrightarrow> executor_step e e'"
| destroyed: "executor_step e (shut_down e)"

inductive_cases worker_stepE: "worker_step e e'"
inductive_cases executor_stepE: "executor_step e e'"

subsection \<open>No accepted task is lost\<close>

fun task_of :: "'task worker \<Rightarrow> 'task multiset" where
  "task_of (Running task) = {#task#}"
| "task_of _ = {#}"

definition running :: "'task executor \<Rightarrow> 'task multiset" where
  "running e = sum_list (map task_of (workers e))"

definition executor_inv :: "'task executor \<Rightarrow> bool" where
  "executor_inv e \<longleftrightarrow> length (tasks e) \<le> queue_capacity e \<and> workers e \<noteq> []
     \<and> mset (accepted e) = mset (tasks e) + running e + mset (finished e)
     \<and> (Exited \<in> set (workers e) \<longrightarrow> stopping e \<and> tasks e = [])"

lemma running_update:
  assumes "w < length ws"
  shows "sum_list (map task_of (ws[w := x])) + task_of (ws ! w) = sum_list (map task_of ws) + task_of x"
proof -
  have split: "ws = take w ws @ ws ! w # drop (Suc w) ws" "ws[w := x] = take w ws @ x # drop (Suc w) ws"
    using assms by (simp_all add: id_take_nth_drop upd_conv_take_nth_drop)
  have "sum_list (map task_of ws)
      = sum_list (map task_of (take w ws)) + task_of (ws ! w) + sum_list (map task_of (drop (Suc w) ws))"
    by (subst split(1)) (simp add: add.assoc)
  then show ?thesis unfolding split(2) by (simp add: ac_simps)
qed

lemma submit_inv: "executor_inv e \<Longrightarrow> executor_inv (snd (submit task e))"
  by (auto simp: executor_inv_def submit_def running_def)

lemma exited_updated: "Exited \<in> set (ws[w := x]) \<Longrightarrow> x = Exited \<or> Exited \<in> set ws"
  using set_update_subset_insert [of ws w x] by auto

lemma next_task_inv:
  assumes "executor_inv e" "w < length (workers e)" "workers e ! w = Free" "next_task w e = Some e'"
  shows "executor_inv e'"
  using assms running_update [OF assms(2), of Exited] running_update [OF assms(2), of "Running (hd (tasks e))"]
  by (auto simp: executor_inv_def next_task_def running_def dest: exited_updated split: if_splits list.splits)

lemma finish_task_inv:
  assumes "executor_inv e" "w < length (workers e)" "workers e ! w = Running task"
  shows "executor_inv (finish_task w task e)"
  using assms running_update [OF assms(2), of Free]
  by (auto simp: executor_inv_def finish_task_def running_def dest: exited_updated)

lemma worker_step_inv: "executor_inv e \<Longrightarrow> worker_step e e' \<Longrightarrow> executor_inv e'"
  by (erule worker_stepE) (simp_all add: next_task_inv finish_task_inv)

lemma executor_inv_step: "executor_inv e \<Longrightarrow> executor_step e e' \<Longrightarrow> executor_inv e'"
  by (erule executor_stepE)
    (simp_all add: submit_inv worker_step_inv, simp add: executor_inv_def shut_down_def running_def)

lemma idle_workers: "sum_list (replicate n ({#} :: 'a multiset)) = {#}"
  by (induction n) simp_all

lemma executor_inv_made: "executor_inv (make_executor n capacity)"
  by (auto simp: executor_inv_def make_executor_def running_def idle_workers)

interpretation executing: guarded_machine "\<lambda>e. \<exists>n capacity. e = make_executor n capacity"
  executor_step executor_inv
  by unfold_locales (use executor_inv_made executor_inv_step in blast)+

subsection \<open>Shutdown drains the queue\<close>

fun worker_weight :: "'task worker \<Rightarrow> nat" where
  "worker_weight Free = 1"
| "worker_weight (Running _) = 2"
| "worker_weight Exited = 0"

definition remaining :: "'task executor \<Rightarrow> nat" where
  "remaining e = 3 * length (tasks e) + sum_list (map worker_weight (workers e))"

lemma weight_update:
  "w < length ws \<Longrightarrow>
     sum_list (map worker_weight (ws[w := x])) + worker_weight (ws ! w) = sum_list (map worker_weight ws) + worker_weight x"
  using sum_list_update [of w "map worker_weight ws" "worker_weight x"] elem_le_sum_list [of w "map worker_weight ws"]
  by (simp add: map_update)

lemma next_task_remaining:
  assumes "w < length (workers e)" "workers e ! w = Free" "next_task w e = Some e'"
  shows "remaining e' < remaining e"
proof (cases "tasks e")
  case Nil
  then show ?thesis
    using assms(3) weight_update [OF assms(1), of Exited] assms(2)
    by (auto simp: next_task_def remaining_def split: if_splits)
next
  case (Cons task rest)
  then show ?thesis
    using assms(3) weight_update [OF assms(1), of "Running task"] assms(2)
    by (auto simp: next_task_def remaining_def)
qed

lemma finish_task_remaining:
  "w < length (workers e) \<Longrightarrow> workers e ! w = Running task \<Longrightarrow> remaining (finish_task w task e) < remaining e"
  using weight_update [of w "workers e" Free] by (simp add: finish_task_def remaining_def)

lemma worker_step_remaining: "worker_step e e' \<Longrightarrow> remaining e' < remaining e"
  by (erule worker_stepE) (simp_all add: next_task_remaining finish_task_remaining)

lemma worker_steps_bound: "(worker_step ^^ n) e e' \<Longrightarrow> n + remaining e' \<le> remaining e"
proof (induction n arbitrary: e')
  case (Suc n)
  then obtain d where "(worker_step ^^ n) e d" "worker_step d e'" by auto
  then show ?case using Suc.IH [of d] worker_step_remaining [of d e'] by simp
qed simp

lemma worker_step_frame: "worker_step e e' \<Longrightarrow> stopping e' = stopping e \<and> accepted e' = accepted e"
  by (erule worker_stepE) (auto simp: next_task_def finish_task_def split: if_splits list.splits)

lemma worker_steps_frame: "worker_step\<^sup>*\<^sup>* e e' \<Longrightarrow> stopping e' = stopping e \<and> accepted e' = accepted e"
  by (induction rule: rtranclp_induct) (auto dest: worker_step_frame)

lemma worker_steps_inv: "worker_step\<^sup>*\<^sup>* e e' \<Longrightarrow> executor_inv e \<Longrightarrow> executor_inv e'"
  by (induction rule: rtranclp_induct) (auto intro: worker_step_inv)

lemma stuck_joined:
  assumes "stopping e" "\<nexists>e'. worker_step e e'"
  shows "joined e"
  unfolding joined_def
proof
  fix x assume "x \<in> set (workers e)"
  then obtain w where w: "w < length (workers e)" "workers e ! w = x" by (auto simp: in_set_conv_nth)
  show "x = Exited"
  proof (cases x)
    case Free
    obtain e' where "next_task w e = Some e'"
      using assms(1) by (cases "tasks e") (auto simp: next_task_def)
    then have "worker_step e e'" using w Free by (intro worker_step.turn) simp_all
    then show ?thesis using assms(2) by blast
  next
    case (Running task)
    then have "worker_step e (finish_task w task e)" using w by (intro worker_step.done_task) simp_all
    then show ?thesis using assms(2) by blast
  qed
qed

lemma joined_drained:
  assumes "executor_inv e" "joined e"
  shows "mset (finished e) = mset (accepted e)"
proof -
  have "workers e \<noteq> []" using assms(1) by (simp add: executor_inv_def)
  then have "Exited \<in> set (workers e)"
    using assms(2) by (cases "workers e") (auto simp: joined_def)
  then have "tasks e = []" using assms(1) by (simp add: executor_inv_def)
  moreover have "running e = {#}"
  proof -
    have "map task_of (workers e) = map (\<lambda>_. {#}) (workers e)"
      using assms(2) by (intro map_cong) (auto simp: joined_def)
    then show ?thesis by (simp add: running_def map_replicate_const idle_workers)
  qed
  ultimately show ?thesis using assms(1) by (simp add: executor_inv_def)
qed

text \<open>
  C19. The destructor drains: from any reachable state of the executor that is
  shutting down, the workers take at most \<open>remaining\<close> more steps, and when no
  worker can step any more every worker has been joined and the tasks that
  ran are exactly the tasks \<open>submit\<close> accepted, each once. No state reached on
  the way holds more queued tasks than the capacity.
\<close>

theorem shutdown_drains:
  assumes "executor_step\<^sup>*\<^sup>* (make_executor n capacity) e" "stopping e"
  shows "(\<forall>k e'. (worker_step ^^ k) e e' \<longrightarrow> k \<le> remaining e \<and> queued e' \<le> queue_capacity e')
     \<and> (\<forall>e'. worker_step\<^sup>*\<^sup>* e e' \<longrightarrow> (\<nexists>e''. worker_step e' e'') \<longrightarrow>
          joined e' \<and> mset (finished e') = mset (accepted e) \<and> tasks e' = [])"
proof -
  have inv: "executor_inv e" using executing.reachable_inv [OF _ assms(1)] by blast
  show ?thesis
  proof (intro conjI allI impI)
    fix k e' assume steps: "(worker_step ^^ k) e e'"
    then show "k \<le> remaining e" using worker_steps_bound by fastforce
    show "queued e' \<le> queue_capacity e'"
      using worker_steps_inv [OF relpowp_imp_rtranclp [OF steps] inv]
      by (simp add: executor_inv_def queued_def)
  next
    fix e' assume steps: "worker_step\<^sup>*\<^sup>* e e'" and stuck: "\<nexists>e''. worker_step e' e''"
    have inv': "executor_inv e'" using worker_steps_inv [OF steps inv] .
    show "joined e'" using worker_steps_frame [OF steps] assms(2) stuck by (intro stuck_joined) simp_all
    from joined_drained [OF inv' this] show "mset (finished e') = mset (accepted e)"
      using worker_steps_frame [OF steps] by simp
    show "tasks e' = []"
      using \<open>joined e'\<close> inv' by (cases "workers e'") (auto simp: executor_inv_def joined_def)
  qed
qed

theorem shutdown_drains_witness:
  "\<exists>e. executor_step\<^sup>*\<^sup>* (make_executor 1 4) e \<and> stopping e \<and> queued e = 1
     \<and> (\<forall>e'. worker_step\<^sup>*\<^sup>* e e' \<longrightarrow> (\<nexists>e''. worker_step e' e'') \<longrightarrow> mset (finished e') = {#''call''#})"
proof -
  let ?a = "snd (submit ''call'' (make_executor 1 4))" and ?b = "shut_down (snd (submit ''call'' (make_executor 1 4)))"
  have reach: "executor_step\<^sup>*\<^sup>* (make_executor 1 4) ?b"
    using executor_step.submitted executor_step.destroyed by (rule converse_rtranclp_into_rtranclp [OF _ r_into_rtranclp])
  have state: "stopping ?b" "queued ?b = 1" "accepted ?b = [''call'']"
    by (simp_all add: shut_down_def submit_def make_executor_def queued_def)
  have "\<forall>e'. worker_step\<^sup>*\<^sup>* ?b e' \<longrightarrow> (\<nexists>e''. worker_step e' e'') \<longrightarrow> mset (finished e') = {#''call''#}"
    using shutdown_drains [OF reach state(1)] unfolding state(3) by simp
  with reach state(1,2) show ?thesis by blast
qed

end
