(* ===== verification/Status.thy ===== *)
theory Status
  imports Prelude
begin

text \<open>
  The outcome of a call: \<^verbatim>\<open>grpc::Status\<close>, and the typed rejection of an option
  (\<^verbatim>\<open>option_rejected\<close> in \<^verbatim>\<open>src/src/source_parse.cpp\<close>) that a status carries as its
  serialized detail; packing a generated message does not fail.
\<close>

datatype status_code =
    Status_Ok | Cancelled | Unknown | Invalid | Deadline_Exceeded | Not_Found | Already_Exists
  | Permission_Denied | Unauthenticated | Resource_Exhausted | Failed_Precondition | Aborted
  | Out_Of_Range | Unimplemented | Internal | Unavailable | Data_Loss

datatype rejection_reason =
    Reason_Unspecified | Not_Implemented | Reason_Out_Of_Range | Unknown_Value | Conflict | Duplicate | Not_Allowed | Reason_Invalid

record option_rejection =
  option_path :: string
  rejection_reason :: rejection_reason
  rejected_value_raw :: string

record status =
  status_of :: status_code
  status_message :: string
  rejection :: "option_rejection option"

definition ok_status :: status where
  "ok_status = \<lparr>status_of = Status_Ok, status_message = [], rejection = None\<rparr>"

definition plain_status :: "status_code \<Rightarrow> string \<Rightarrow> status" where
  "plain_status code message = \<lparr>status_of = code, status_message = message, rejection = None\<rparr>"

definition option_rejected :: "string \<Rightarrow> rejection_reason \<Rightarrow> string \<Rightarrow> string \<Rightarrow> status" where
  "option_rejected path reason raw message =
     \<lparr>status_of = Invalid, status_message = message,
      rejection = Some \<lparr>option_path = path, rejection_reason = reason, rejected_value_raw = raw\<rparr>\<rparr>"

definition succeeds :: "status \<Rightarrow> bool" where
  "succeeds s = (status_of s = Status_Ok)"

text \<open>\<^verbatim>\<open>if (auto s = a; !s.ok()) return s;\<close> followed by \<open>b\<close>.\<close>

definition and_status :: "status \<Rightarrow> status \<Rightarrow> status" where
  "and_status a b = (if succeeds a then b else a)"

lemma succeeds_simps [simp]:
  "succeeds ok_status" "succeeds (plain_status code m) \<longleftrightarrow> code = Status_Ok" "\<not> succeeds (option_rejected p r v m)"
  "succeeds (and_status a b) \<longleftrightarrow> succeeds a \<and> succeeds b"
  by (auto simp: succeeds_def ok_status_def plain_status_def option_rejected_def and_status_def)

end
