(* ===== verification/Collectors.thy ===== *)
theory Collectors
  imports ContentSniff DocumentMerge Status "HOL-Library.Sublist"
begin

text \<open>
  Routing a document to its collectors and gathering what they return
  (\<^verbatim>\<open>src/src/collector_coordinator.cpp\<close>). Times are system-clock ticks
  (nanoseconds), kept in the 64 bits of the code: \<open>None\<close> is an overflow, which
  C++ leaves undefined. \<^verbatim>\<open>adopt_calamine_cells\<close> (\<^verbatim>\<open>src/src/workbook_cells.cpp\<close>) is
  the parameter \<open>adopt\<close>: the document with the cells adopted, and the warnings.
\<close>

subsection \<open>Collectors, statuses and deadlines\<close>

datatype collector =
    Unspecified | Grparse_Cv | Libreoffice | Calamine | Asr | Email | Xml | Ebcdic | Epub | Markup
  | Lol_Html | Fastwarc | Pdf | Confluence | Vlm

fun collector_name :: "collector \<Rightarrow> string" where
  "collector_name Grparse_Cv = ''grparse-cv''"
| "collector_name Libreoffice = ''libreoffice''"
| "collector_name Calamine = ''calamine''"
| "collector_name Asr = ''asr''"
| "collector_name Email = ''email''"
| "collector_name Xml = ''xml''"
| "collector_name Ebcdic = ''ebcdic''"
| "collector_name Epub = ''epub''"
| "collector_name Markup = ''markup''"
| "collector_name Lol_Html = ''lol-html''"
| "collector_name Fastwarc = ''fastwarc''"
| "collector_name Pdf = ''pdf''"
| "collector_name Confluence = ''confluence-storage''"
| "collector_name Vlm = ''vlm-convert''"
| "collector_name Unspecified = ''unspecified''"

datatype failure_category = Unknown_Failure | Timeout | Capacity | Backend_Failure | Internal_Failure

fun failure_category_for :: "status_code \<Rightarrow> failure_category" where
  "failure_category_for Deadline_Exceeded = Timeout"
| "failure_category_for Resource_Exhausted = Capacity"
| "failure_category_for Unavailable = Backend_Failure"
| "failure_category_for Invalid = Backend_Failure"
| "failure_category_for Failed_Precondition = Backend_Failure"
| "failure_category_for Unimplemented = Backend_Failure"
| "failure_category_for Out_Of_Range = Backend_Failure"
| "failure_category_for Cancelled = Internal_Failure"
| "failure_category_for Internal = Internal_Failure"
| "failure_category_for Unknown = Internal_Failure"
| "failure_category_for Data_Loss = Internal_Failure"
| "failure_category_for _ = Unknown_Failure"

definition int64 :: "int \<Rightarrow> int option" where
  "int64 n = (if - (2 ^ 63) \<le> n \<and> n < 2 ^ 63 then Some n else None)"

definition kNoCollectorDeadline :: int where
  "kNoCollectorDeadline = 2 ^ 63 - 1"

definition capped_collector_deadline :: "int \<Rightarrow> int \<Rightarrow> int \<Rightarrow> int option" where
  "capped_collector_deadline now inbound cap = map_option (min inbound) (int64 (now + cap))"

text \<open>\<^verbatim>\<open>duration_cast\<close> from seconds in a \<^verbatim>\<open>double\<close>: scaled, rounded by \<open>dbl\<close>, cut toward zero.\<close>

definition seconds_to_ticks :: "(rat \<Rightarrow> rat) \<Rightarrow> rat \<Rightarrow> int option" where
  "seconds_to_ticks dbl seconds =
     (let ticks = dbl (seconds * 10 ^ 9) in int64 (if ticks < 0 then - \<lfloor>- ticks\<rfloor> else \<lfloor>ticks\<rfloor>))"

definition deadline_with_document_timeout ::
  "(rat \<Rightarrow> rat) \<Rightarrow> int \<Rightarrow> int \<Rightarrow> bool \<Rightarrow> rat \<Rightarrow> int option" where
  "deadline_with_document_timeout dbl now inbound has_timeout timeout_seconds =
     (if \<not> has_timeout then Some inbound
      else case seconds_to_ticks dbl timeout_seconds of
             None \<Rightarrow> None
           | Some ticks \<Rightarrow> map_option (min inbound) (int64 (now + ticks)))"

definition validate_document_timeout :: "bool \<Rightarrow> rat \<Rightarrow> string \<Rightarrow> status_code \<times> string" where
  "validate_document_timeout has_timeout timeout_seconds surface =
     (if has_timeout \<and> \<not> timeout_seconds > 0
      then (Invalid, surface @ '' document_timeout must be positive (seconds)'')
      else (Status_Ok, []))"

subsection \<open>Routing\<close>

definition file_extension :: "string \<Rightarrow> string" where
  "file_extension filename = map c_tolower (path_extension filename)"

definition office_format :: "string \<Rightarrow> string \<Rightarrow> bool" where
  "office_format filename content_type =
     (file_extension filename \<in> set
        [''.doc'', ''.docx'', ''.docm'', ''.dot'', ''.dotx'', ''.odt'', ''.ott'',
         ''.fodt'', ''.rtf'', ''.xls'', ''.xlsx'', ''.xlsm'', ''.xlsb'', ''.ods'',
         ''.ots'', ''.fods'', ''.csv'', ''.ppt'', ''.pptx'', ''.pptm'', ''.odp'',
         ''.otp'', ''.fodp'', ''.numbers'']
      \<or> (let type = map c_tolower content_type in
         type = ''application/vnd.apple.numbers'' \<or> type = ''application/x-iwork-numbers-sffnumbers''
         \<or> contains type ''officedocument'' \<or> contains type ''msword'' \<or> contains type ''ms-excel''
         \<or> contains type ''ms-powerpoint'' \<or> contains type ''opendocument''
         \<or> type = ''text/csv'' \<or> type = ''application/rtf'' \<or> type = kEncryptedOfficePackageMimetype))"

definition calamine_workbook_format :: "string \<Rightarrow> string \<Rightarrow> bool" where
  "calamine_workbook_format filename content_type =
     (file_extension filename \<in> set [''.xls'', ''.xlsx'', ''.xlsm'', ''.xlsb'', ''.ods'']
      \<or> (let type = map c_tolower content_type in
         contains type ''ms-excel'' \<or> contains type ''spreadsheetml''
         \<or> type = ''application/vnd.oasis.opendocument.spreadsheet''))"

definition append_office_fanout ::
  "string \<Rightarrow> string \<Rightarrow> bool \<Rightarrow> bool \<Rightarrow> collector list \<Rightarrow> collector list" where
  "append_office_fanout filename content_type calamine_configured encrypted plan =
     (if calamine_configured \<and> \<not> encrypted \<and> calamine_workbook_format filename content_type
         \<and> Calamine \<notin> set plan
      then plan @ [Calamine] else plan)"

datatype markup_format =
    Format_Unspecified | Markdown | Html | Asciidoc | Latex | Vtt | Boxnote | Docling_Json

definition markup_format_for :: "string \<Rightarrow> string \<Rightarrow> markup_format" where
  "markup_format_for filename content_type =
     (let ext = file_extension filename; type = map c_tolower content_type in
      if ext \<in> set [''.md'', ''.markdown'', ''.mdown''] \<or> type = ''text/markdown'' \<or> type = ''text/x-markdown''
      then Markdown
      else if ext \<in> set [''.html'', ''.htm'', ''.xhtml''] \<or> type = ''text/html'' \<or> type = ''application/xhtml+xml''
      then Html
      else if ext \<in> set [''.adoc'', ''.asciidoc''] \<or> type = ''text/asciidoc'' \<or> type = ''text/x-asciidoc''
      then Asciidoc
      else if ext \<in> set [''.tex'', ''.latex''] \<or> type = ''text/x-tex'' \<or> type = ''application/x-tex''
              \<or> type = ''text/x-latex''
      then Latex
      else if ext = ''.vtt'' \<or> type = ''text/vtt'' then Vtt
      else if ext = ''.boxnote'' then Boxnote
      else if ext = ''.json'' \<or> type = ''application/json'' then Docling_Json
      else if ext = ''.txt'' \<or> type = ''text/plain'' then Markdown
      else Format_Unspecified)"

definition warc_format :: "string \<Rightarrow> string \<Rightarrow> bool" where
  "warc_format filename type =
     (file_extension filename = ''.warc'' \<or> ends_with (map c_tolower filename) ''.warc.gz''
      \<or> ends_with (map c_tolower filename) ''.warc.zst'' \<or> ends_with (map c_tolower filename) ''.warc.lz4''
      \<or> type = ''application/warc'')"

definition route_collector :: "string \<Rightarrow> string \<Rightarrow> collector" where
  "route_collector filename content_type =
     (if office_format filename content_type then Libreoffice
      else
        let ext = file_extension filename; type = map c_tolower content_type in
        if warc_format filename type then Fastwarc
        else if confluence_storage_format filename content_type then Confluence
        else if ext = ''.epub'' \<or> type = ''application/epub+zip'' then Epub
        else if ext \<in> set [''.eml'', ''.msg''] \<or> type = ''message/rfc822'' \<or> type = ''application/vnd.ms-outlook''
        then Email
        else if ext \<in> set [''.xml'', ''.nxml'', ''.xbrl'', ''.dclx'']
                \<or> ends_with (map c_tolower filename) ''.tar.gz''
                \<or> type = ''application/xml'' \<or> type = ''text/xml'' \<or> type = ''application/mets+xml''
        then Xml
        else if markup_format_for filename content_type \<noteq> Format_Unspecified then Markup
        else if ext \<in> set [''.mp3'', ''.wav'', ''.m4a'', ''.aac'', ''.flac'', ''.ogg'', ''.oga'', ''.opus'',
                  ''.wma'', ''.amr'', ''.mp4'', ''.m4v'', ''.mkv'', ''.webm'', ''.mov'', ''.avi'', ''.mpg'',
                  ''.mpeg'', ''.wmv'']
                \<or> starts_with type ''audio/'' \<or> starts_with type ''video/''
        then Asr
        else Grparse_Cv)"

definition route_document :: "string \<Rightarrow> string \<Rightarrow> string \<Rightarrow> collector" where
  "route_document filename declared bytes =
     (if declared \<noteq> [] \<or> extension_mimetype filename \<noteq> kOctetStream
      then route_collector filename declared
      else
        let resolved = ContentSniff.mimetype (resolve_mimetype declared bytes filename) in
        route_collector filename (if resolved \<noteq> kOctetStream then resolved else declared))"

fun keep_new :: "collector list \<Rightarrow> collector list \<Rightarrow> collector list" where
  "keep_new [] plan = plan"
| "keep_new (c # cs) plan =
     (if c = Unspecified then keep_new cs plan
      else if c \<in> set plan then keep_new cs plan
      else keep_new cs (plan @ [c]))"

definition resolve_collectors :: "collector list \<Rightarrow> collector \<Rightarrow> collector list" where
  "resolve_collectors requested routed =
     (let plan = keep_new requested [] in if plan = [] then [routed] else plan)"

subsection \<open>Running the plan\<close>

record outcome =
  success :: bool
  failure_text :: string
  failure_code :: status_code
  outcome_warnings :: "string list"
  outcome_document :: msg

record planned =
  leg_id :: collector
  office_fanout :: bool

record coordinated =
  merged :: msg
  failures :: "(collector \<times> string \<times> status_code) list"
  run_warnings :: "(collector \<times> string) list"
  succeeded :: nat

type_synonym adopter = "msg \<Rightarrow> msg \<Rightarrow> msg \<times> string list"

definition claimant_source :: "collector \<Rightarrow> msg" where
  "claimant_source c =
     Msg ''ai.pipestream.document.v1'' ''ai.pipestream.document.v1.CollectorSource''
       [Singular ''collector'' False True (Some (Str (collector_name c)))]"

text \<open>The body of the merge loop, for one leg and the outcome that arrived for it.\<close>

definition merge_leg :: "adopter \<Rightarrow> planned \<Rightarrow> outcome \<Rightarrow> coordinated \<Rightarrow> coordinated" where
  "merge_leg adopt leg out r =
     (let r = r\<lparr>run_warnings := run_warnings r @ map (Pair (leg_id leg)) (outcome_warnings out)\<rparr>
      in if \<not> success out
         then r\<lparr>failures := failures r @ [(leg_id leg, failure_text out, failure_code out)]\<rparr>
         else
           let fanned = office_fanout leg \<and> succeeded r > 0;
               r = (if fanned \<and> leg_id leg = Calamine
                    then let (doc, ws) = adopt (outcome_document out) (merged r)
                         in r\<lparr>merged := doc, run_warnings := run_warnings r @ map (Pair (leg_id leg)) ws\<rparr>
                    else r);
               doc = (if fanned then retain_claims_only (outcome_document out) else outcome_document out)
           in r\<lparr>merged := merge_documents_claimed (claimant_source (leg_id leg)) doc (merged r),
                succeeded := succeeded r + 1\<rparr>)"

definition start_run :: "msg \<Rightarrow> coordinated" where
  "start_run base = \<lparr>merged = base, failures = [], run_warnings = [], succeeded = 0\<rparr>"

text \<open>The merge loop over the legs with their outcomes, in plan order.\<close>

definition run_collectors :: "adopter \<Rightarrow> (planned \<times> outcome) list \<Rightarrow> msg \<Rightarrow> coordinated" where
  "run_collectors adopt legs base = fold (\<lambda>(leg, out). merge_leg adopt leg out) legs (start_run base)"

text \<open>
  The run itself: every leg runs on its own thread, whose future holds the
  outcome once \<^verbatim>\<open>run\<close> has returned one, which may be any; the coordinator waits
  on the futures in plan order (\<^verbatim>\<open>outcomes[index].get()\<close>) and merges what each
  one gives it.
\<close>

record run_state =
  futures :: "nat \<rightharpoonup> outcome"
  next_leg :: nat
  gathered :: coordinated

inductive run_step :: "adopter \<Rightarrow> planned list \<Rightarrow> run_state \<Rightarrow> run_state \<Rightarrow> bool" for adopt plan where
  finish: "i < length plan \<Longrightarrow> futures s i = None \<Longrightarrow>
     run_step adopt plan s (s\<lparr>futures := (futures s)(i \<mapsto> out)\<rparr>)"
| gather: "next_leg s < length plan \<Longrightarrow> futures s (next_leg s) = Some out \<Longrightarrow>
     run_step adopt plan s
       (s\<lparr>next_leg := next_leg s + 1, gathered := merge_leg adopt (plan ! next_leg s) out (gathered s)\<rparr>)"

inductive_cases run_stepE: "run_step adopt plan s t"

subsection \<open>The plan\<close>

lemma keep_new_set: "set (keep_new cs plan) = set plan \<union> (set cs - {Unspecified})"
  by (induction cs plan rule: keep_new.induct) auto

lemma keep_new_distinct: "distinct plan \<Longrightarrow> distinct (keep_new cs plan)"
  by (induction cs plan rule: keep_new.induct) auto

lemma keep_new_order: "\<exists>new. keep_new cs plan = plan @ new \<and> subseq new cs"
proof (induction cs plan rule: keep_new.induct)
  case (2 c cs plan)
  then show ?case by (auto intro: list_emb.intros)
qed auto

lemma route_names_a_collector: "route_collector filename content_type \<noteq> Unspecified"
  by (simp add: route_collector_def Let_def)

lemma keep_new_empty: "keep_new requested [] = [] \<longleftrightarrow> set requested \<subseteq> {Unspecified}"
  using keep_new_set [of requested "[]"] by (metis Diff_eq_empty_iff Un_empty_left empty_set set_empty)

lemma resolve_collectors_plan:
  assumes "routed \<noteq> Unspecified"
  shows "distinct (resolve_collectors requested routed)" "Unspecified \<notin> set (resolve_collectors requested routed)"
    "set requested \<subseteq> {Unspecified} \<Longrightarrow> resolve_collectors requested routed = [routed]"
    "\<not> set requested \<subseteq> {Unspecified} \<Longrightarrow> subseq (resolve_collectors requested routed) requested
       \<and> set (resolve_collectors requested routed) = set requested - {Unspecified}"
proof -
  let ?plan = "keep_new requested []"
  have kept: "distinct ?plan" "set ?plan = set requested - {Unspecified}" "subseq ?plan requested"
    using keep_new_distinct [of "[]" requested] keep_new_set [of requested "[]"] keep_new_order [of requested "[]"]
    by simp_all
  have resolved: "resolve_collectors requested routed = (if set requested \<subseteq> {Unspecified} then [routed] else ?plan)"
    by (simp add: resolve_collectors_def keep_new_empty)
  show "distinct (resolve_collectors requested routed)" "Unspecified \<notin> set (resolve_collectors requested routed)"
    unfolding resolved using kept(1,2) assms by simp_all
  show "set requested \<subseteq> {Unspecified} \<Longrightarrow> resolve_collectors requested routed = [routed]"
    unfolding resolved by simp
  show "\<not> set requested \<subseteq> {Unspecified} \<Longrightarrow> subseq (resolve_collectors requested routed) requested
       \<and> set (resolve_collectors requested routed) = set requested - {Unspecified}"
    unfolding resolved using kept(2,3) by simp
qed

lemma append_office_fanout_plan:
  "distinct plan \<Longrightarrow> distinct (append_office_fanout filename content_type configured encrypted plan)"
  "Unspecified \<notin> set plan \<Longrightarrow> Unspecified \<notin> set (append_office_fanout filename content_type configured encrypted plan)"
  by (simp_all add: append_office_fanout_def)

lemma route_document_names: "route_document filename declared bytes \<noteq> Unspecified"
  by (simp add: route_document_def Let_def route_names_a_collector)

text \<open>
  The plan of a parse runs each collector once: an explicit selection is
  kept in its order without repeats and unspecified entries, an empty one
  becomes the routed collector, which is always a real one, and a workbook
  gains a calamine leg at the end only if the plan has none.
\<close>

theorem plan_runs_each_once:
  "distinct (append_office_fanout filename content_type configured encrypted
       (resolve_collectors requested (route_document filename declared bytes)))
   \<and> Unspecified \<notin> set (append_office_fanout filename content_type configured encrypted
       (resolve_collectors requested (route_document filename declared bytes)))
   \<and> (if set requested \<subseteq> {Unspecified}
      then resolve_collectors requested (route_document filename declared bytes) = [route_document filename declared bytes]
      else subseq (resolve_collectors requested (route_document filename declared bytes)) requested
         \<and> set (resolve_collectors requested (route_document filename declared bytes)) = set requested - {Unspecified})"
proof -
  note plan = resolve_collectors_plan [OF route_document_names [of filename declared bytes], of requested]
  note appended = append_office_fanout_plan [of _ filename content_type configured encrypted]
  show ?thesis
    unfolding if_bool_eq_conj by (intro conjI impI appended plan) (use plan(4) in blast)+
qed

subsection \<open>What a gathering returns\<close>

text \<open>
  The account of some legs: the documents of the successful ones merged in
  plan order, the first in full and an office fan-out leg after it with its
  claims alone, calamine's cells adopted first.
\<close>

definition merge_later :: "adopter \<Rightarrow> planned \<times> outcome \<Rightarrow> msg \<Rightarrow> msg" where
  "merge_later adopt leg d =
     (case leg of (l, out) \<Rightarrow>
        merge_documents_claimed (claimant_source (leg_id l))
          (if office_fanout l then retain_claims_only (outcome_document out) else outcome_document out)
          (if office_fanout l \<and> leg_id l = Calamine then fst (adopt (outcome_document out) d) else d))"

fun merged_documents :: "adopter \<Rightarrow> msg \<Rightarrow> (planned \<times> outcome) list \<Rightarrow> msg" where
  "merged_documents adopt base [] = base"
| "merged_documents adopt base ((l, out) # later) =
     fold (merge_later adopt) later (merge_documents_claimed (claimant_source (leg_id l)) (outcome_document out) base)"

definition succeeded_legs :: "(planned \<times> outcome) list \<Rightarrow> (planned \<times> outcome) list" where
  "succeeded_legs legs = filter (\<lambda>(l, out). success out) legs"

definition leg_warnings :: "adopter \<Rightarrow> msg \<Rightarrow> (planned \<times> outcome) list \<Rightarrow> nat \<Rightarrow> (collector \<times> string) list" where
  "leg_warnings adopt base legs k =
     (case legs ! k of (l, out) \<Rightarrow>
        map (Pair (leg_id l))
          (outcome_warnings out
           @ (if success out \<and> office_fanout l \<and> leg_id l = Calamine \<and> succeeded_legs (take k legs) \<noteq> []
              then snd (adopt (outcome_document out) (merged_documents adopt base (succeeded_legs (take k legs)))) else [])))"

definition accounts_for :: "adopter \<Rightarrow> msg \<Rightarrow> (planned \<times> outcome) list \<Rightarrow> coordinated \<Rightarrow> bool" where
  "accounts_for adopt base legs r \<longleftrightarrow>
     merged r = merged_documents adopt base (succeeded_legs legs)
     \<and> succeeded r = length (succeeded_legs legs)
     \<and> failures r = map (\<lambda>(l, out). (leg_id l, failure_text out, failure_code out)) (filter (\<lambda>(l, out). \<not> success out) legs)
     \<and> run_warnings r = concat (map (leg_warnings adopt base legs) [0..<length legs])"

lemma merged_documents_snoc:
  "merged_documents adopt base (legs @ [leg]) =
     (if legs = [] then merge_documents_claimed (claimant_source (leg_id (fst leg))) (outcome_document (snd leg)) base
      else merge_later adopt leg (merged_documents adopt base legs))"
  by (cases legs; cases leg) (auto split: prod.split)

lemma leg_warnings_snoc: "k < length legs \<Longrightarrow> leg_warnings adopt base (legs @ [leg]) k = leg_warnings adopt base legs k"
proof -
  assume "k < length legs"
  then have "(legs @ [leg]) ! k = legs ! k" "take k (legs @ [leg]) = take k legs" by (simp_all add: nth_append)
  then show "leg_warnings adopt base (legs @ [leg]) k = leg_warnings adopt base legs k" by (simp only: leg_warnings_def)
qed

lemma merge_leg_accounts:
  assumes "accounts_for adopt base legs r"
  shows "accounts_for adopt base (legs @ [(l, out)]) (merge_leg adopt l out r)"
proof -
  have before: "concat (map (leg_warnings adopt base (legs @ [(l, out)])) [0..<length legs]) = run_warnings r"
    using assms by (auto simp: accounts_for_def leg_warnings_snoc intro!: arg_cong [where f = concat])
  have last: "leg_warnings adopt base (legs @ [(l, out)]) (length legs) = map (Pair (leg_id l))
      (outcome_warnings out @ (if success out \<and> office_fanout l \<and> leg_id l = Calamine \<and> succeeded r > 0
         then snd (adopt (outcome_document out) (merged r)) else []))"
    using assms by (simp add: accounts_for_def leg_warnings_def)
  have all: "concat (map (leg_warnings adopt base (legs @ [(l, out)])) [0..<length (legs @ [(l, out)])])
      = run_warnings r @ leg_warnings adopt base (legs @ [(l, out)]) (length legs)"
    using before by simp
  show ?thesis
    using assms unfolding accounts_for_def all last
    by (auto simp: merge_leg_def Let_def succeeded_legs_def merged_documents_snoc merge_later_def case_prod_beta)
qed

lemma run_collectors_accounts: "accounts_for adopt base legs (run_collectors adopt legs base)"
proof (induction legs rule: rev_induct)
  case Nil
  show ?case by (simp add: accounts_for_def run_collectors_def start_run_def succeeded_legs_def)
next
  case (snoc leg legs)
  then show ?case using merge_leg_accounts by (cases leg) (simp add: run_collectors_def)
qed

subsection \<open>The gathering does not depend on who finishes first\<close>

definition run_init :: "msg \<Rightarrow> run_state" where
  "run_init base = \<lparr>futures = \<lambda>_. None, next_leg = 0, gathered = start_run base\<rparr>"

text \<open>The first \<open>n\<close> legs with the outcomes in their futures.\<close>

definition arrived :: "planned list \<Rightarrow> run_state \<Rightarrow> nat \<Rightarrow> (planned \<times> outcome) list" where
  "arrived plan s n = map (\<lambda>i. (plan ! i, the (futures s i))) [0..<n]"

definition run_inv :: "adopter \<Rightarrow> planned list \<Rightarrow> msg \<Rightarrow> run_state \<Rightarrow> bool" where
  "run_inv adopt plan base s \<longleftrightarrow> next_leg s \<le> length plan \<and> {..<next_leg s} \<subseteq> dom (futures s)
     \<and> dom (futures s) \<subseteq> {..<length plan} \<and> gathered s = run_collectors adopt (arrived plan s (next_leg s)) base"

lemma run_inv_step:
  assumes "run_inv adopt plan base s" "run_step adopt plan s t"
  shows "run_inv adopt plan base t"
  using assms(2)
proof (cases rule: run_step.cases)
  case (finish i out)
  then have "i \<notin> {..<next_leg s}" using assms(1) by (auto simp: run_inv_def)
  then have "arrived plan t (next_leg s) = arrived plan s (next_leg s)" by (auto simp: arrived_def finish(1))
  then show ?thesis using assms(1) finish(2) by (auto simp: run_inv_def finish(1))
next
  case (gather out)
  then have "arrived plan t (next_leg t) = arrived plan s (next_leg s) @ [(plan ! next_leg s, out)]"
    by (simp add: arrived_def)
  then show ?thesis using assms(1) gather(2,3) by (auto simp: run_inv_def gather(1) run_collectors_def less_Suc_eq)
qed

lemma run_inv_init: "run_inv adopt plan base (run_init base)"
  by (simp add: run_inv_def run_init_def run_collectors_def arrived_def)

interpretation gathering: guarded_machine "\<lambda>s. s = run_init base" "run_step adopt plan" "run_inv adopt plan base"
  by unfold_locales (use run_inv_init run_inv_step in blast)+

lemma run_step_count:
  "run_inv adopt plan base s \<Longrightarrow> run_step adopt plan s t \<Longrightarrow>
     card (dom (futures t)) + next_leg t = card (dom (futures s)) + next_leg s + 1"
  by (erule run_stepE) (auto simp: run_inv_def card_insert_if domIff finite_subset [OF _ finite_lessThan])

lemma run_steps_count:
  "(run_step adopt plan ^^ k) s t \<Longrightarrow> run_inv adopt plan base s \<Longrightarrow>
     run_inv adopt plan base t \<and> card (dom (futures t)) + next_leg t = card (dom (futures s)) + next_leg s + k"
proof (induction k arbitrary: t)
  case (Suc k)
  then obtain u where "(run_step adopt plan ^^ k) s u" "run_step adopt plan u t" by auto
  then show ?case using Suc.IH [of u] Suc.prems(2) run_inv_step run_step_count by fastforce
qed simp

lemma run_stuck:
  assumes "run_inv adopt plan base s" "\<nexists>t. run_step adopt plan s t"
  shows "next_leg s = length plan"
proof (rule ccontr)
  assume "next_leg s \<noteq> length plan"
  then have less: "next_leg s < length plan" using assms(1) by (simp add: run_inv_def)
  show False
  proof (cases "futures s (next_leg s)")
    case None
    then show False using run_step.finish [of "next_leg s" plan s adopt] less assms(2) by blast
  next
    case (Some out)
    then show False using run_step.gather [of s plan out adopt] less assms(2) by blast
  qed
qed

text \<open>
  C40. A scatter-gather run ends, after one step per finished leg and one per
  merge. At every moment of it, whatever the order the legs finish in and
  whatever they return, nothing is merged before its leg has returned, and
  what is gathered is the merge, in plan order, of what the legs merged so far
  returned. At the end that is every leg's outcome: the documents of the legs
  that succeeded, in plan order, the first in full and a fan-out leg after it
  with its claims alone (calamine's cells adopted first); a failure entry in
  plan order for each of the others; and every leg's warnings.
\<close>

theorem gathering_is_deterministic:
  "(\<forall>k t. (run_step adopt plan ^^ k) (run_init base) t \<longrightarrow> k \<le> 2 * length plan)
   \<and> (\<forall>t. (run_step adopt plan)\<^sup>*\<^sup>* (run_init base) t \<longrightarrow>
        {..<next_leg t} \<subseteq> dom (futures t) \<and> gathered t = run_collectors adopt (arrived plan t (next_leg t)) base)
   \<and> (\<forall>t. (run_step adopt plan)\<^sup>*\<^sup>* (run_init base) t \<longrightarrow> (\<nexists>u. run_step adopt plan t u) \<longrightarrow>
        dom (futures t) = {..<length plan} \<and> accounts_for adopt base (arrived plan t (length plan)) (gathered t))"
proof (intro conjI allI impI)
  fix k t assume "(run_step adopt plan ^^ k) (run_init base) t"
  then have "run_inv adopt plan base t" "card (dom (futures t)) + next_leg t = k"
    using run_steps_count [OF _ run_inv_init] by (auto simp: run_init_def)
  moreover from this have "card (dom (futures t)) \<le> length plan"
    using card_mono [of "{..<length plan}" "dom (futures t)"] by (simp add: run_inv_def)
  ultimately show "k \<le> 2 * length plan" by (simp add: run_inv_def)
next
  fix t assume steps: "(run_step adopt plan)\<^sup>*\<^sup>* (run_init base) t"
  have inv: "run_inv adopt plan base t" using gathering.reachable_inv [OF refl steps] .
  then show "{..<next_leg t} \<subseteq> dom (futures t)" "gathered t = run_collectors adopt (arrived plan t (next_leg t)) base"
    unfolding run_inv_def by simp_all
  assume "\<nexists>u. run_step adopt plan t u"
  from run_stuck [OF inv this] inv
  show "dom (futures t) = {..<length plan}" "accounts_for adopt base (arrived plan t (length plan)) (gathered t)"
    unfolding run_inv_def by (auto simp: run_collectors_accounts)
qed

definition sample_outcome :: "bool \<Rightarrow> outcome" where
  "sample_outcome ok = \<lparr>success = ok, failure_text = ''down'', failure_code = Unavailable, outcome_warnings = [''slow''],
     outcome_document = Msg [] [] []\<rparr>"

definition sample_plan :: "planned list" where
  "sample_plan = [\<lparr>leg_id = Pdf, office_fanout = False\<rparr>, \<lparr>leg_id = Email, office_fanout = False\<rparr>]"

lemma length_sample_plan [simp]: "length sample_plan = 2"
  by (simp add: sample_plan_def)

text \<open>Two legs, of which the second fails and is the first to return.\<close>

theorem gathering_is_deterministic_witness:
  "\<exists>t. (run_step (\<lambda>d m. (m, [])) sample_plan)\<^sup>*\<^sup>* (run_init (Msg [] [] [])) t
     \<and> \<not> (\<exists>u. run_step (\<lambda>d m. (m, [])) sample_plan t u)
     \<and> failures (gathered t) = [(Email, ''down'', Unavailable)]
     \<and> merged (gathered t) = merge_documents_claimed (claimant_source Pdf) (Msg [] [] []) (Msg [] [] [])"
proof -
  let ?step = "run_step (\<lambda>d m. (m, [])) sample_plan" and ?m = "merge_leg (\<lambda>d m. (m, []))"
  let ?s = "run_init (Msg [] [] [])"
  let ?one = "[1 \<mapsto> sample_outcome False]" and ?both = "[1 \<mapsto> sample_outcome False, 0 \<mapsto> sample_outcome True]"
  let ?g1 = "?m (sample_plan ! 0) (sample_outcome True) (gathered ?s)"
  let ?t = "?s\<lparr>futures := ?both, next_leg := 2, gathered := ?m (sample_plan ! 1) (sample_outcome False) ?g1\<rparr>"
  have "?step ?s (?s\<lparr>futures := ?one\<rparr>)"
    using run_step.finish [of 1 sample_plan ?s "\<lambda>d m. (m, [])" "sample_outcome False"] by (simp add: run_init_def)
  moreover have "?step (?s\<lparr>futures := ?one\<rparr>) (?s\<lparr>futures := ?both\<rparr>)"
    using run_step.finish [of 0 sample_plan "?s\<lparr>futures := ?one\<rparr>" "\<lambda>d m. (m, [])" "sample_outcome True"] by simp
  moreover have "?step (?s\<lparr>futures := ?both\<rparr>) (?s\<lparr>futures := ?both, next_leg := 1, gathered := ?g1\<rparr>)"
    using run_step.gather [of "?s\<lparr>futures := ?both\<rparr>" sample_plan "sample_outcome True" "\<lambda>d m. (m, [])"] by (simp add: run_init_def)
  moreover have "?step (?s\<lparr>futures := ?both, next_leg := 1, gathered := ?g1\<rparr>) ?t"
    using run_step.gather [of "?s\<lparr>futures := ?both, next_leg := 1, gathered := ?g1\<rparr>" sample_plan "sample_outcome False" "\<lambda>d m. (m, [])"]
    by (simp add: numeral_2_eq_2)
  ultimately have steps: "?step\<^sup>*\<^sup>* ?s ?t" by (meson rtranclp.rtrancl_into_rtrancl rtranclp.rtrancl_refl)
  have stuck: "\<nexists>u. ?step ?t u"
    by (auto elim!: run_stepE simp: less_2_cases_iff split: if_splits)
  have legs: "arrived sample_plan ?t 2 = [(sample_plan ! 0, sample_outcome True), (sample_plan ! 1, sample_outcome False)]"
    by (simp add: arrived_def numeral_2_eq_2)
  have "accounts_for (\<lambda>d m. (m, [])) (Msg [] [] []) (arrived sample_plan ?t 2) (gathered ?t)"
    using gathering_is_deterministic [of "\<lambda>d m. (m, [])" sample_plan "Msg [] [] []"] steps stuck unfolding length_sample_plan by blast
  then show ?thesis
    using steps stuck unfolding legs accounts_for_def
    by (intro exI [of _ ?t]) (simp add: succeeded_legs_def sample_plan_def sample_outcome_def)
qed

text \<open>A timeout past the 64-bit clock passes the validation, and its deadline overflows.\<close>

lemma timeout_overflows:
  assumes "timeout_seconds > 0" "dbl (timeout_seconds * 10 ^ 9) \<ge> 2 ^ 63"
  shows "validate_document_timeout True timeout_seconds surface = (Status_Ok, [])"
    "deadline_with_document_timeout dbl now inbound True timeout_seconds = None"
proof -
  have "\<not> dbl (timeout_seconds * 10 ^ 9) < 0" using assms(2) by (simp add: not_less)
  moreover have "\<lfloor>dbl (timeout_seconds * 10 ^ 9)\<rfloor> \<ge> 2 ^ 63" using assms(2) by (simp add: le_floor_iff)
  ultimately show "deadline_with_document_timeout dbl now inbound True timeout_seconds = None"
    by (simp add: deadline_with_document_timeout_def seconds_to_ticks_def int64_def Let_def)
qed (use assms in \<open>simp add: validate_document_timeout_def\<close>)

end
