(* ===== verification/StreamDelta.thy ===== *)
theory StreamDelta
  imports DocumentMerge
begin

text \<open>
  The streaming surface (\<^verbatim>\<open>src/src/stream_delta.cpp\<close>): \<^verbatim>\<open>PageFold\<close>, which rebuilds
  a document from page events, and the repair delta that carries a fold to the
  document the whole-document passes left. The document is the record \<open>folded\<close>
  of what these functions read and write; a \<^verbatim>\<open>RefItem\<close> is the reference it holds.
  \<open>eqv\<close> stands for protobuf's \<^verbatim>\<open>MessageDifferencer::Equals\<close>, \<open>blank_item\<close> for
  the default message of an arena, which the schema defines.
\<close>

subsection \<open>Documents and pages\<close>

record folded =
  arena :: "string \<Rightarrow> msg list"
  body_children :: "string list"
  furniture_children :: "string list"
  pages :: "(int \<times> msg) list"
  remainder :: msg

record page_data =
  page_number :: int
  page_meta :: msg
  page_items :: "string \<Rightarrow> msg list"
  body_order :: "string list"

record page_fold =
  document :: folded
  body_refs :: "string set"
  furniture_refs :: "string set"
  page_count :: nat

record repair =
  by_collector :: string
  renamed_refs :: rename_log
  upserts :: "string \<Rightarrow> msg list"
  counts :: "string \<Rightarrow> 32 word"
  new_body :: "string list option"
  new_furniture :: "string list option"
  new_pages :: "(int \<times> msg) list"
  dropped_pages :: "int list"

definition kMaximumGap :: int where
  "kMaximumGap = 2 ^ 20"

definition delta_arenas :: "string list" where
  "delta_arenas = [''texts'', ''tables'', ''pictures'', ''groups'']"

subsection \<open>References and parents\<close>

text \<open>\<^verbatim>\<open>std::from_chars\<close> to \<^verbatim>\<open>int\<close>, which must use up the text.\<close>

definition from_chars_int :: "string \<Rightarrow> int option" where
  "from_chars_int s =
     (let negative = starts_with s ''-'' in
      case dec_value (if negative then drop 1 s else s) of
        None \<Rightarrow> None
      | Some n \<Rightarrow>
          if negative then (if n \<le> 2 ^ 31 then Some (- int n) else None)
          else if n < 2 ^ 31 then Some (int n) else None)"

definition arena_index :: "string \<Rightarrow> string \<Rightarrow> int option" where
  "arena_index ref stem =
     (if \<not> starts_with ref stem then None
      else case from_chars_int (drop (length stem) ref) of
             None \<Rightarrow> None
           | Some index \<Rightarrow> if index < 0 then None else Some index)"

text \<open>\<^verbatim>\<open>text_base_of\<close>: the shared part of a text variant; code items have none.\<close>

definition text_variant :: "msg \<Rightarrow> string option" where
  "text_variant item = List.find (\<lambda>v. get_sub v item \<noteq> None) text_variants"

definition text_base_of :: "msg \<Rightarrow> msg option" where
  "text_base_of item =
     (case text_variant item of
        None \<Rightarrow> None
      | Some v \<Rightarrow> if v = ''code'' then None else Some (sub_or_default ''base'' (sub_or_default v item)))"

definition parent_field :: "msg \<Rightarrow> string" where
  "parent_field m = (case get_sub ''parent'' m of None \<Rightarrow> [] | Some p \<Rightarrow> get_string ''ref'' p)"

definition text_parent :: "msg \<Rightarrow> string" where
  "text_parent item =
     (if text_variant item = Some ''code''
      then (case get_sub ''code'' item of None \<Rightarrow> [] | Some code \<Rightarrow> parent_field code)
      else case text_base_of item of None \<Rightarrow> [] | Some base \<Rightarrow> parent_field base)"

definition parent_of :: "string \<Rightarrow> msg \<Rightarrow> string" where
  "parent_of a item = (if a = ''texts'' then text_parent item else parent_field item)"

definition parent_in_arena :: "string \<Rightarrow> msg list \<Rightarrow> string \<Rightarrow> string option" where
  "parent_in_arena a items ref =
     (case arena_index ref (arena_prefix a) of
        None \<Rightarrow> None
      | Some index \<Rightarrow>
          if index \<ge> int (length items) \<or> self_ref_in a (items ! nat index) \<noteq> ref then None
          else Some (parent_of a (items ! nat index)))"

definition parent_in :: "folded \<Rightarrow> string \<Rightarrow> string option" where
  "parent_in d ref =
     (case parent_in_arena ''texts'' (arena d ''texts'') ref of
        Some parent \<Rightarrow> Some parent
      | None \<Rightarrow>
     (case parent_in_arena ''tables'' (arena d ''tables'') ref of
        Some parent \<Rightarrow> Some parent
      | None \<Rightarrow>
     (case parent_in_arena ''pictures'' (arena d ''pictures'') ref of
        Some parent \<Rightarrow> Some parent
      | None \<Rightarrow> parent_in_arena ''groups'' (arena d ''groups'') ref)))"

text \<open>The loop of \<^verbatim>\<open>top_level\<close>, \<open>steps\<close> of its 256 turns left.\<close>

fun climb :: "nat \<Rightarrow> folded \<Rightarrow> string \<Rightarrow> string \<times> string" where
  "climb 0 d ref = (ref, [])"
| "climb (Suc steps) d ref =
     (case parent_in d ref of
        None \<Rightarrow> (ref, [])
      | Some parent \<Rightarrow>
          if parent_in d parent = None then (ref, parent) else climb steps d parent)"

definition top_level :: "folded \<Rightarrow> string \<Rightarrow> string \<times> string" where
  "top_level d ref = climb 256 d ref"

subsection \<open>Folding pages\<close>

definition place :: "msg \<Rightarrow> string \<Rightarrow> msg \<Rightarrow> msg list \<Rightarrow> msg list" where
  "place blank_item a item items =
     (case arena_index (self_ref_in a item) (arena_prefix a) of
        None \<Rightarrow> items @ [item]
      | Some index \<Rightarrow>
          if index - int (length items) > kMaximumGap then items @ [item]
          else (items @ replicate (nat index + 1 - length items) blank_item)[nat index := item])"

definition place_all :: "(string \<Rightarrow> msg) \<Rightarrow> page_data \<Rightarrow> string \<Rightarrow> folded \<Rightarrow> folded" where
  "place_all blank_item page a d =
     d\<lparr>arena := (arena d)(a := fold (place (blank_item a) a) (page_items page a) (arena d a))\<rparr>"

definition list_in_body :: "string \<Rightarrow> page_fold \<Rightarrow> page_fold" where
  "list_in_body child s =
     (let (top, root) = top_level (document s) child in
      if root = ''#/furniture'' then s
      else if top \<in> body_refs s then s
      else s\<lparr>body_refs := insert top (body_refs s),
             document := (document s)\<lparr>body_children := body_children (document s) @ [top]\<rparr>\<rparr>)"

definition furnish :: "string set \<Rightarrow> string \<Rightarrow> page_fold \<Rightarrow> page_fold" where
  "furnish in_body ref s =
     (if ref \<in> in_body then s
      else
        let (top, root) = top_level (document s) ref in
        if root \<noteq> ''#/furniture'' then s
        else if top \<in> furniture_refs s then s
        else s\<lparr>furniture_refs := insert top (furniture_refs s),
               document := (document s)\<lparr>furniture_children := furniture_children (document s) @ [top]\<rparr>\<rparr>)"

definition fold_arenas :: "string list" where
  "fold_arenas = [''groups'', ''texts'', ''tables'', ''pictures'']"

definition fold_page :: "(string \<Rightarrow> msg) \<Rightarrow> page_data \<Rightarrow> page_fold \<Rightarrow> page_fold" where
  "fold_page blank_item page s =
     (let s = s\<lparr>page_count := page_count s + 1\<rparr>;
          d = fold (place_all blank_item page) fold_arenas (document s);
          s = s\<lparr>document := d\<lparr>pages := AList.update (page_number page) (page_meta page) (pages d)\<rparr>\<rparr>;
          s = fold list_in_body (body_order page) s
      in fold (\<lambda>a. fold (\<lambda>item. furnish (set (body_order page)) (self_ref_in a item)) (page_items page a))
           fold_arenas s)"

definition is_empty_fold :: "page_fold \<Rightarrow> bool" where
  "is_empty_fold s = (page_count s = 0)"

definition empty_fold :: "msg \<Rightarrow> page_fold" where
  "empty_fold blank_document =
     \<lparr>document = \<lparr>arena = \<lambda>_. [], body_children = [], furniture_children = [], pages = [],
        remainder = blank_document\<rparr>, body_refs = {}, furniture_refs = {}, page_count = 0\<rparr>"

definition with_level :: "int \<Rightarrow> slot \<Rightarrow> slot" where
  "with_level level s =
     (case s of
        Singular name presence is_string _ \<Rightarrow>
          Singular name presence is_string (if \<not> presence \<and> level = 0 then None else Some (Num level))
      | _ \<Rightarrow> s)"

definition level_header :: "(string \<rightharpoonup> int) \<Rightarrow> msg \<Rightarrow> msg" where
  "level_header levels item =
     (if text_variant item = Some ''section_header''
      then (case get_sub ''section_header'' item of
              None \<Rightarrow> item
            | Some header \<Rightarrow>
                (case levels (base_self_ref header) of
                   None \<Rightarrow> item
                 | Some level \<Rightarrow>
                     set_sub ''section_header'' (Some (update_field ''level'' (with_level level) header)) item))
      else item)"

definition apply_section_header_levels :: "(string \<rightharpoonup> int) \<Rightarrow> folded \<Rightarrow> folded" where
  "apply_section_header_levels levels d =
     d\<lparr>arena := (arena d)(''texts'' := map (level_header levels) (arena d ''texts''))\<rparr>"

subsection \<open>The repair delta\<close>

text \<open>The two maps over an arena: the first slot of each reference, and those several items share.\<close>

fun index_refs :: "nat \<Rightarrow> string list \<Rightarrow> (string \<rightharpoonup> nat) \<times> string set \<Rightarrow> (string \<rightharpoonup> nat) \<times> string set" where
  "index_refs i [] maps = maps"
| "index_refs i (ref # refs) (found, shared) =
     index_refs (i + 1) refs
       (if found ref = None then (found(ref \<mapsto> i), shared) else (found, insert ref shared))"

definition refs_of :: "string \<Rightarrow> msg list \<Rightarrow> (string \<rightharpoonup> nat) \<times> string set" where
  "refs_of a items = index_refs 0 (map (self_ref_in a) items) (Map.empty, {})"

definition held :: "(msg \<Rightarrow> msg \<Rightarrow> bool) \<Rightarrow> string \<Rightarrow> msg list \<Rightarrow> msg \<Rightarrow> bool" where
  "held eqv a before item =
     (let (found, shared) = refs_of a before; ref = self_ref_in a item in
      case found ref of None \<Rightarrow> False | Some i \<Rightarrow> ref \<notin> shared \<and> eqv (before ! i) item)"

definition diff_arena :: "(msg \<Rightarrow> msg \<Rightarrow> bool) \<Rightarrow> string \<Rightarrow> msg list \<Rightarrow> msg list \<Rightarrow> msg list" where
  "diff_arena eqv a before after = filter (\<lambda>item. \<not> held eqv a before item) after"

fun collect_upserts :: "string \<Rightarrow> 32 word \<Rightarrow> msg list \<Rightarrow> (int \<rightharpoonup> msg) \<Rightarrow> (int \<rightharpoonup> msg) option" where
  "collect_upserts a count [] upserted = Some upserted"
| "collect_upserts a count (item # items) upserted =
     (case arena_index (self_ref_in a item) (arena_prefix a) of
        None \<Rightarrow> None
      | Some index \<Rightarrow>
          if word_of_int index \<ge> count then None
          else collect_upserts a count items (upserted(index \<mapsto> item)))"

definition fill_slot ::
  "string \<Rightarrow> msg list \<Rightarrow> (int \<rightharpoonup> msg) \<Rightarrow> (string \<rightharpoonup> nat) \<times> string set \<Rightarrow> nat \<Rightarrow> msg option" where
  "fill_slot a items upserted maps index =
     (case upserted (sint (word_of_nat index :: 32 word)) of
        Some item \<Rightarrow> Some item
      | None \<Rightarrow>
          let ref = arena_prefix a @ to_dec index in
          case fst maps ref of
            None \<Rightarrow> None
          | Some i \<Rightarrow> if ref \<in> snd maps then None else Some (items ! i))"

definition rebuild :: "string \<Rightarrow> msg list \<Rightarrow> 32 word \<Rightarrow> msg list \<Rightarrow> msg list option" where
  "rebuild a changed count items =
     (case collect_upserts a count changed Map.empty of
        None \<Rightarrow> None
      | Some upserted \<Rightarrow> those (map (fill_slot a items upserted (refs_of a items)) [0..<unat count]))"

definition rewrite_folded :: "rename_log \<Rightarrow> folded \<Rightarrow> folded" where
  "rewrite_folded moved d =
     d\<lparr>arena := \<lambda>a. map (rewrite_refs (map_of moved)) (arena d a),
       body_children := map (renamed moved) (body_children d),
       furniture_children := map (renamed moved) (furniture_children d),
       pages := map (\<lambda>(n, page). (n, rewrite_refs (map_of moved) page)) (pages d),
       remainder := rewrite_refs (map_of moved) (remainder d)\<rparr>"

definition changed_pages :: "(msg \<Rightarrow> msg \<Rightarrow> bool) \<Rightarrow> folded \<Rightarrow> folded \<Rightarrow> (int \<times> msg) list" where
  "changed_pages eqv d after =
     filter (\<lambda>(n, page). case map_of (pages d) n of None \<Rightarrow> True | Some old \<Rightarrow> \<not> eqv old page) (pages after)"

definition repair_delta ::
  "(msg \<Rightarrow> msg \<Rightarrow> bool) \<Rightarrow> folded \<Rightarrow> folded \<Rightarrow> rename_log \<Rightarrow> string \<Rightarrow> repair option" where
  "repair_delta eqv before after moved collector =
     (let d = (if moved = [] then before else rewrite_folded moved before);
          delta =
            \<lparr>by_collector = collector, renamed_refs = moved,
             upserts = \<lambda>a. if a \<in> set delta_arenas then diff_arena eqv a (arena d a) (arena after a) else [],
             counts = \<lambda>a. if a \<in> set delta_arenas then word_of_nat (length (arena after a)) else 0,
             new_body = (if body_children d = body_children after then None else Some (body_children after)),
             new_furniture =
               (if furniture_children d = furniture_children after then None
                else Some (furniture_children after)),
             new_pages = changed_pages eqv d after,
             dropped_pages = filter (\<lambda>n. map_of (pages after) n = None) (map fst (pages d))\<rparr>;
          changed = moved \<noteq> []
            \<or> (\<exists>a\<in>set delta_arenas. upserts delta a \<noteq> [])
            \<or> (\<exists>a\<in>set delta_arenas. length (arena d a) \<noteq> length (arena after a))
            \<or> new_body delta \<noteq> None \<or> new_furniture delta \<noteq> None
            \<or> new_pages delta \<noteq> [] \<or> dropped_pages delta \<noteq> []
      in if changed then Some delta else None)"

text \<open>\<open>None\<close> is the \<^verbatim>\<open>false\<close> of a delta that does not fit; the caller drops the document.\<close>

fun rebuild_arenas :: "repair \<Rightarrow> string list \<Rightarrow> folded \<Rightarrow> folded option" where
  "rebuild_arenas delta [] d = Some d"
| "rebuild_arenas delta (a # rest) d =
     (case rebuild a (upserts delta a) (counts delta a) (arena d a) of
        None \<Rightarrow> None
      | Some items \<Rightarrow> rebuild_arenas delta rest (d\<lparr>arena := (arena d)(a := items)\<rparr>))"

definition apply_repair_delta :: "repair \<Rightarrow> folded \<Rightarrow> folded option" where
  "apply_repair_delta delta d =
     (let d = (if renamed_refs delta \<noteq> [] then rewrite_folded (renamed_refs delta) d else d) in
      case rebuild_arenas delta delta_arenas d of
        None \<Rightarrow> None
      | Some d \<Rightarrow>
          let d = (case new_body delta of None \<Rightarrow> d | Some refs \<Rightarrow> d\<lparr>body_children := refs\<rparr>);
              d = (case new_furniture delta of None \<Rightarrow> d | Some refs \<Rightarrow> d\<lparr>furniture_children := refs\<rparr>);
              d = d\<lparr>pages := fold (\<lambda>(n, page). AList.update n page) (new_pages delta) (pages d)\<rparr>
          in Some (d\<lparr>pages := fold AList.delete (dropped_pages delta) (pages d)\<rparr>))"

subsection \<open>Indices and references\<close>

lemma minus_no_digit: "\<not> c_isdigit (CHR ''-'')"
  by (simp add: c_isdigit_def byte_val_def)

lemma dec_not_minus: "\<not> starts_with (to_dec i) ''-''"
proof
  assume "starts_with (to_dec i) ''-''"
  then obtain r where "to_dec i = CHR ''-'' # r" by (auto simp: starts_with_iff)
  then have "CHR ''-'' \<in> set (to_dec i)" by simp
  then show False using to_dec_digits minus_no_digit by blast
qed

lemma arena_index_canonical: "i < 2 ^ 31 \<Longrightarrow> arena_index (stem @ to_dec i) stem = Some (int i)"
  by (simp add: arena_index_def from_chars_int_def dec_not_minus)

lemma arena_index_nonneg: "arena_index ref stem = Some index \<Longrightarrow> 0 \<le> index"
  by (auto simp: arena_index_def split: if_splits option.splits)

text \<open>Each item is named after its slot: what the passes leave and the page events number.\<close>

definition named_by_slot :: "string \<Rightarrow> msg list \<Rightarrow> bool" where
  "named_by_slot a items \<longleftrightarrow>
     (\<forall>i < length items. self_ref_in a (items ! i) = arena_prefix a @ to_dec i)"

definition addressable :: "folded \<Rightarrow> bool" where
  "addressable d \<longleftrightarrow>
     (\<forall>a\<in>set delta_arenas. named_by_slot a (arena d a) \<and> length (arena d a) < 2 ^ 31)"

lemma named_inj:
  "named_by_slot a items \<Longrightarrow> i < length items \<Longrightarrow> self_ref_in a (items ! i) = arena_prefix a @ to_dec j
     \<Longrightarrow> i = j"
  by (simp add: named_by_slot_def)

lemma index_refs_found:
  assumes "fst (index_refs (length pre) refs maps) r = Some i"
    and "\<forall>r i. fst maps r = Some i \<longrightarrow> i < length pre \<and> pre ! i = r"
  shows "i < length (pre @ refs) \<and> (pre @ refs) ! i = r"
  using assms
proof (induction refs arbitrary: pre maps)
  case (Cons ref refs)
  obtain found shared where maps: "maps = (found, shared)" by force
  let ?maps = "if found ref = None then (found(ref \<mapsto> length pre), shared) else (found, insert ref shared)"
  have "fst (index_refs (length (pre @ [ref])) refs ?maps) r = Some i"
    using Cons.prems(1) by (simp add: maps)
  moreover have "\<forall>r i. fst ?maps r = Some i \<longrightarrow> i < length (pre @ [ref]) \<and> (pre @ [ref]) ! i = r"
    using Cons.prems(2) by (auto simp: maps nth_append split: if_splits) fastforce+
  ultimately show ?case using Cons.IH by fastforce
qed auto

lemma refs_of_found:
  "fst (refs_of a items) r = Some i \<Longrightarrow> i < length items \<and> self_ref_in a (items ! i) = r"
  using index_refs_found [of "[]" "map (self_ref_in a) items" "(Map.empty, {})" r i]
  by (auto simp: refs_of_def)

subsection \<open>A delta carries a fold to the repaired document\<close>

definition stands_for :: "(msg \<Rightarrow> msg \<Rightarrow> bool) \<Rightarrow> msg \<Rightarrow> msg \<Rightarrow> bool" where
  "stands_for eqv x y \<longleftrightarrow> x = y \<or> eqv x y"

lemma held_item:
  assumes "held eqv a before item"
  obtains i where "fst (refs_of a before) (self_ref_in a item) = Some i"
    "self_ref_in a item \<notin> snd (refs_of a before)" "i < length before"
    "self_ref_in a (before ! i) = self_ref_in a item" "eqv (before ! i) item"
  using assms refs_of_found [of a before "self_ref_in a item"]
  by (auto simp: held_def Let_def split: prod.splits option.splits)

lemma those_map:
  assumes "\<And>x. x \<in> set xs \<Longrightarrow> f x = Some (g x)"
  shows "those (map f xs) = Some (map g xs)"
  using assms by (induction xs) auto

text \<open>The upserts of named items fill exactly the slots those items name.\<close>

lemma collect_upserts_named:
  assumes "\<forall>item\<in>set items. \<exists>k < length after. item = after ! k"
    and "named_by_slot a after" "length after < 2 ^ 31"
    and "\<forall>i item. up i = Some item \<longrightarrow> (\<exists>k < length after. i = int k \<and> item = after ! k)"
  shows "\<exists>up'. collect_upserts a (word_of_nat (length after)) items up = Some up'
     \<and> (\<forall>i item. up' i = Some item \<longrightarrow> (\<exists>k < length after. i = int k \<and> item = after ! k))
     \<and> (\<forall>k < length after. after ! k \<in> set items \<or> up (int k) \<noteq> None \<longrightarrow> up' (int k) \<noteq> None)"
  using assms(1,4)
proof (induction items arbitrary: up)
  case (Cons item items)
  then obtain k where k: "k < length after" "item = after ! k" by auto
  have index: "arena_index (self_ref_in a item) (arena_prefix a) = Some (int k)"
    using k assms(2,3) by (auto simp: named_by_slot_def arena_index_canonical)
  have below: "\<not> word_of_int (int k) \<ge> (word_of_nat (length after) :: 32 word)"
    using k(1) assms(3) by (simp add: word_le_nat_alt unsigned_of_nat take_bit_nat_eq_self)
  have "\<forall>i x. (up(int k \<mapsto> item)) i = Some x \<longrightarrow> (\<exists>k < length after. i = int k \<and> x = after ! k)"
    using Cons.prems(2) k by auto
  moreover have "\<forall>item\<in>set items. \<exists>k < length after. item = after ! k"
    using Cons.prems(1) by simp
  ultimately obtain up' where up': "collect_upserts a (word_of_nat (length after)) items (up(int k \<mapsto> item)) = Some up'"
     "\<forall>i item. up' i = Some item \<longrightarrow> (\<exists>k < length after. i = int k \<and> item = after ! k)"
     "\<forall>j < length after. after ! j \<in> set items \<or> (up(int k \<mapsto> item)) (int j) \<noteq> None \<longrightarrow> up' (int j) \<noteq> None"
    using Cons.IH [of "up(int k \<mapsto> item)"] by blast
  have "up' (int j) \<noteq> None"
    if "j < length after" "after ! j \<in> set (item # items) \<or> up (int j) \<noteq> None" for j
  proof (cases "after ! j = item")
    case True
    with that(1) k assms(2) have "j = k" by (metis named_by_slot_def named_inj)
    then show ?thesis using up'(3) that(1) by simp
  qed (use that up'(3) in auto)
  then show ?case using up'(1,2) index below by simp
qed auto

lemma rebuild_diff:
  assumes "named_by_slot a after" "length after < 2 ^ 31"
  obtains items where
    "rebuild a (diff_arena eqv a before after) (word_of_nat (length after)) before = Some items"
    "list_all2 (stands_for eqv) items after" "named_by_slot a items"
proof -
  let ?diff = "diff_arena eqv a before after" and ?n = "length after"
  have "\<forall>item\<in>set ?diff. \<exists>k < ?n. item = after ! k"
    by (auto simp: diff_arena_def in_set_conv_nth)
  from collect_upserts_named [OF this assms, of Map.empty]
  obtain up where up: "collect_upserts a (word_of_nat ?n) ?diff Map.empty = Some up"
      "\<And>k item. up (int k) = Some item \<Longrightarrow> k < ?n \<and> item = after ! k"
      "\<And>k. k < ?n \<Longrightarrow> after ! k \<in> set ?diff \<Longrightarrow> up (int k) \<noteq> None"
    by fastforce
  have slot: "\<exists>x. fill_slot a before up (refs_of a before) k = Some x
      \<and> stands_for eqv x (after ! k) \<and> self_ref_in a x = self_ref_in a (after ! k)" if k: "k < ?n" for k
  proof -
    have "sint (word_of_nat k :: 32 word) = int k"
      using k assms(2) by (simp add: signed_of_nat signed_take_bit_int_eq_self)
    note fill = fill_slot_def [of a before up "refs_of a before" k, unfolded this]
    show ?thesis
    proof (cases "up (int k)")
      case (Some x)
      then show ?thesis using up(2) by (auto simp: fill stands_for_def)
    next
      case None
      then have "held eqv a before (after ! k)"
        using up(3) [OF k] k by (auto simp: diff_arena_def)
      then show ?thesis
        using None k assms(1) by (elim held_item) (simp add: fill named_by_slot_def stands_for_def)
    qed
  qed
  then obtain g where g: "\<And>k. k < ?n \<Longrightarrow> fill_slot a before up (refs_of a before) k = Some (g k)
      \<and> stands_for eqv (g k) (after ! k) \<and> self_ref_in a (g k) = self_ref_in a (after ! k)"
    by metis
  have count: "unat (word_of_nat ?n :: 32 word) = ?n"
    using assms(2) by (simp add: unsigned_of_nat take_bit_nat_eq_self)
  show thesis
  proof (rule that)
    show "rebuild a ?diff (word_of_nat ?n) before = Some (map g [0..<?n])"
      unfolding rebuild_def up(1) option.case count by (rule those_map) (use g in auto)
  qed (use g assms(1) in \<open>auto simp: list_all2_conv_all_nth named_by_slot_def\<close>)
qed

definition represents :: "(msg \<Rightarrow> msg \<Rightarrow> bool) \<Rightarrow> folded \<Rightarrow> folded \<Rightarrow> bool" where
  "represents eqv d after \<longleftrightarrow>
     (\<forall>a\<in>set delta_arenas. list_all2 (stands_for eqv) (arena d a) (arena after a)
        \<and> named_by_slot a (arena d a))
     \<and> body_children d = body_children after \<and> furniture_children d = furniture_children after
     \<and> (\<forall>n. rel_option (stands_for eqv) (map_of (pages d) n) (map_of (pages after) n))"

lemma rebuild_arenas_some:
  assumes "distinct names"
    and "\<And>a. a \<in> set names \<Longrightarrow> rebuild a (upserts delta a) (counts delta a) (arena d a) = Some (f a)"
  shows "rebuild_arenas delta names d =
     Some (d\<lparr>arena := \<lambda>a. if a \<in> set names then f a else arena d a\<rparr>)"
  using assms
proof (induction names arbitrary: d)
  case (Cons a names)
  have step: "rebuild a (upserts delta a) (counts delta a) (arena d a) = Some (f a)"
    using Cons.prems(2) by simp
  let ?d = "d\<lparr>arena := (arena d)(a := f a)\<rparr>"
  have "rebuild_arenas delta names ?d = Some (?d\<lparr>arena := \<lambda>b. if b \<in> set names then f b else arena ?d b\<rparr>)"
    by (rule Cons.IH) (use Cons.prems in auto)
  moreover have "(\<lambda>b. if b \<in> set names then f b else arena ?d b)
      = (\<lambda>b. if b \<in> set (a # names) then f b else arena d b)"
    by (rule ext) simp
  ultimately show ?case by (simp add: step)
qed simp

lemma map_of_update_pages:
  "map_of (fold (\<lambda>(n, page). AList.update n page) new old) n =
     (case map_of (rev new) n of None \<Rightarrow> map_of old n | Some page \<Rightarrow> Some page)"
proof (induction new rule: rev_induct)
  case (snoc p new)
  then show ?case by (cases p) (simp add: update_conv')
qed simp

lemma map_of_delete_pages:
  "map_of (fold AList.delete keys ps) n = (if n \<in> set keys then None else map_of ps n)"
  by (induction keys arbitrary: ps) (auto simp: delete_conv' map_of_delete)

lemma map_of_rev: "distinct (map fst ps) \<Longrightarrow> map_of (rev ps) = map_of ps"
  by (rule map_of_inject_set [THEN iffD2]) (simp_all add: rev_map [symmetric])

lemma map_of_filter_keys:
  "distinct (map fst ps) \<Longrightarrow>
     map_of (filter (\<lambda>(n, page). P n page) ps) n =
       (case map_of ps n of None \<Rightarrow> None | Some page \<Rightarrow> if P n page then Some page else None)"
  by (induction ps) (auto split: option.splits dest: map_of_SomeD weak_map_of_SomeI simp: rev_image_eqI)

lemma pages_repaired:
  assumes "distinct (map fst (pages after))"
  shows "rel_option (stands_for eqv)
     (map_of (fold AList.delete (filter (\<lambda>n. map_of (pages after) n = None) (map fst (pages d)))
        (fold (\<lambda>(n, page). AList.update n page) (changed_pages eqv d after) (pages d))) n)
     (map_of (pages after) n)"
proof -
  have distinct: "distinct (map fst (changed_pages eqv d after))"
    unfolding changed_pages_def by (rule distinct_map_filter [OF assms])
  have gone: "n \<in> set (filter (\<lambda>n. map_of (pages after) n = None) (map fst (pages d)))
      \<longleftrightarrow> map_of (pages after) n = None \<and> map_of (pages d) n \<noteq> None"
    by (auto simp: map_of_eq_None_iff)
  show ?thesis
    unfolding map_of_delete_pages map_of_update_pages map_of_rev [OF distinct] gone
    unfolding changed_pages_def map_of_filter_keys [OF assms]
    by (auto simp: stands_for_def split: option.splits)
qed

lemma named_position:
  assumes "named_by_slot a after" "named_by_slot a before" "i < length before" "j < length after"
    and "self_ref_in a (before ! i) = self_ref_in a (after ! j)"
  shows "i = j"
  using assms by (simp add: named_by_slot_def)

lemma unchanged_arena:
  assumes "diff_arena eqv a before after = []" "length before = length after"
    and "named_by_slot a before" "named_by_slot a after"
  shows "list_all2 (stands_for eqv) before after"
proof (rule list_all2_all_nthI [OF assms(2)])
  fix j assume j: "j < length before"
  then have "held eqv a before (after ! j)"
    using assms(1,2) by (auto simp: diff_arena_def filter_empty_conv)
  then show "stands_for eqv (before ! j) (after ! j)"
  proof (rule held_item)
    fix i assume "i < length before" "self_ref_in a (before ! i) = self_ref_in a (after ! j)"
      "eqv (before ! i) (after ! j)"
    moreover from this have "i = j"
      using named_position [OF assms(4,3)] j assms(2) by simp
    ultimately show ?thesis by (simp add: stands_for_def)
  qed
qed

lemma unchanged_pages:
  assumes "changed_pages eqv d after = []"
    and "filter (\<lambda>n. map_of (pages after) n = None) (map fst (pages d)) = []"
    and "distinct (map fst (pages after))"
  shows "rel_option (stands_for eqv) (map_of (pages d) n) (map_of (pages after) n)"
  using pages_repaired [OF assms(3), of eqv d n] by (simp add: assms(1,2))

lemma repair_delta_none:
  assumes "repair_delta eqv before after moved collector = None"
  shows "moved = []" "\<forall>a\<in>set delta_arenas. diff_arena eqv a (arena before a) (arena after a) = []
       \<and> length (arena before a) = length (arena after a)"
    "body_children before = body_children after" "furniture_children before = furniture_children after"
    "changed_pages eqv before after = []"
    "filter (\<lambda>n. map_of (pages after) n = None) (map fst (pages before)) = []"
  using assms by (auto simp: repair_delta_def Let_def split: if_splits)

lemma repair_delta_some:
  assumes "repair_delta eqv before after moved collector = Some delta"
    and "d = (if moved = [] then before else rewrite_folded moved before)"
  shows "renamed_refs delta = moved"
    "a \<in> set delta_arenas \<Longrightarrow> upserts delta a = diff_arena eqv a (arena d a) (arena after a)"
    "a \<in> set delta_arenas \<Longrightarrow> counts delta a = word_of_nat (length (arena after a))"
    "new_body delta = (if body_children d = body_children after then None else Some (body_children after))"
    "new_furniture delta =
       (if furniture_children d = furniture_children after then None else Some (furniture_children after))"
    "new_pages delta = changed_pages eqv d after"
    "dropped_pages delta = filter (\<lambda>n. map_of (pages after) n = None) (map fst (pages d))"
  using assms by (auto simp: repair_delta_def Let_def split: if_splits)

lemma apply_repair_delta_parts:
  assumes "rebuild_arenas delta delta_arenas
      (if renamed_refs delta = [] then before else rewrite_folded (renamed_refs delta) before) = Some d"
  shows "\<exists>e. apply_repair_delta delta before = Some e \<and> arena e = arena d
     \<and> body_children e = (case new_body delta of None \<Rightarrow> body_children d | Some refs \<Rightarrow> refs)
     \<and> furniture_children e = (case new_furniture delta of None \<Rightarrow> furniture_children d | Some refs \<Rightarrow> refs)
     \<and> pages e = fold AList.delete (dropped_pages delta)
          (fold (\<lambda>(n, page). AList.update n page) (new_pages delta) (pages d))"
  using assms by (cases "renamed_refs delta = []")
    (auto simp: apply_repair_delta_def Let_def split: option.splits)

text \<open>
  C15. The repair delta is right: applied to the fold it was computed from, it
  succeeds and yields the repaired document - every arena slot, both child
  lists and the page map, each message the repaired one or one
  \<^verbatim>\<open>MessageDifferencer\<close> holds equal to it, and every item under the reference of
  its slot. When there is no delta, the fold already was that document.
\<close>

theorem repair_delta_repairs:
  assumes "addressable after" "distinct (map fst (pages after))"
  shows "case repair_delta eqv before after moved collector of
       None \<Rightarrow> moved = [] \<and> (addressable before \<longrightarrow> represents eqv before after)
     | Some delta \<Rightarrow> \<exists>d. apply_repair_delta delta before = Some d \<and> represents eqv d after"
proof (cases "repair_delta eqv before after moved collector")
  case None
  note same = repair_delta_none [OF None]
  have "represents eqv before after" if "addressable before"
    using that assms(1) same unchanged_arena unchanged_pages [OF same(5,6) assms(2)]
    by (auto simp: represents_def addressable_def)
  then show ?thesis using None same(1) by simp
next
  case (Some delta)
  define d where "d = (if moved = [] then before else rewrite_folded moved before)"
  note delta = repair_delta_some [OF Some d_def]
  have "\<exists>items. rebuild a (upserts delta a) (counts delta a) (arena d a) = Some items
      \<and> list_all2 (stands_for eqv) items (arena after a) \<and> named_by_slot a items"
    if "a \<in> set delta_arenas" for a
    using that assms(1) rebuild_diff [of a "arena after a" eqv "arena d a"]
    unfolding delta(2) [OF that] delta(3) [OF that] addressable_def by blast
  then obtain f where f: "\<And>a. a \<in> set delta_arenas \<Longrightarrow>
      rebuild a (upserts delta a) (counts delta a) (arena d a) = Some (f a)
      \<and> list_all2 (stands_for eqv) (f a) (arena after a) \<and> named_by_slot a (f a)"
    by metis
  have "rebuild_arenas delta delta_arenas d
      = Some (d\<lparr>arena := \<lambda>a. if a \<in> set delta_arenas then f a else arena d a\<rparr>)"
    by (rule rebuild_arenas_some) (use f in \<open>auto simp: delta_arenas_def\<close>)
  from apply_repair_delta_parts [of delta before, unfolded delta(1), folded d_def, OF this]
  obtain e where e: "apply_repair_delta delta before = Some e"
      "\<And>a. a \<in> set delta_arenas \<Longrightarrow> arena e a = f a"
      "body_children e = body_children after" "furniture_children e = furniture_children after"
      "pages e = fold AList.delete (dropped_pages delta)
          (fold (\<lambda>(n, page). AList.update n page) (new_pages delta) (pages d))"
    by (auto simp: delta(4,5) split: if_splits)
  have "represents eqv e after"
    using f pages_repaired [OF assms(2), of eqv d]
    by (simp add: represents_def e delta(6,7))
  then show ?thesis using Some e(1) by auto
qed

definition folded_sample :: "string list \<Rightarrow> string list \<Rightarrow> folded" where
  "folded_sample groups children =
     \<lparr>arena = \<lambda>a. if a = ''groups'' then map (\<lambda>r. sample_group r []) groups else [],
      body_children = children, furniture_children = [], pages = [(1, sample_group [] [])],
      remainder = sample_group [] []\<rparr>"

lemma self_ref_sample_group [simp]: "self_ref_in ''groups'' (sample_group r kids) = r"
  by (simp add: self_ref_in_def sample_group_def get_string_def field_of_def)

lemma to_dec_zero: "to_dec 0 = ''0''"
proof -
  have "char_of (48 :: nat) = CHR ''0''" by code_simp
  then show ?thesis by (simp add: to_dec_digit)
qed

lemma addressable_sample:
  "addressable (folded_sample [] c)" "addressable (folded_sample [''#/groups/0''] c)"
  by (simp_all add: addressable_def folded_sample_def delta_arenas_def named_by_slot_def
      arena_prefix_def to_dec_zero)

theorem repair_delta_repairs_witness:
  "\<exists>delta d. repair_delta (=) (folded_sample [] []) (folded_sample [''#/groups/0''] [''#/groups/0''])
       [] ''passes'' = Some delta
     \<and> apply_repair_delta delta (folded_sample [] []) = Some d
     \<and> represents (=) d (folded_sample [''#/groups/0''] [''#/groups/0''])"
proof -
  let ?before = "folded_sample [] []" and ?after = "folded_sample [''#/groups/0''] [''#/groups/0'']"
  have "body_children ?before \<noteq> body_children ?after" by (simp add: folded_sample_def)
  then have "repair_delta (=) ?before ?after [] ''passes'' \<noteq> None"
    using repair_delta_none(3) by blast
  moreover have distinct: "distinct (map fst (pages ?after))" by (simp add: folded_sample_def)
  ultimately show ?thesis
    using repair_delta_repairs [OF addressable_sample(2) distinct, where eqv = "(=)" and before = ?before
          and moved = "[]" and collector = "''passes''"]
    by auto
qed

subsection \<open>The fold lists every top-level child once\<close>

definition lists_once :: "page_fold \<Rightarrow> bool" where
  "lists_once s \<longleftrightarrow>
     distinct (body_children (document s)) \<and> set (body_children (document s)) = body_refs s
     \<and> distinct (furniture_children (document s)) \<and> set (furniture_children (document s)) = furniture_refs s"

lemma place_all_children [simp]:
  "body_children (fold (place_all blank_item page) names d) = body_children d"
  "furniture_children (fold (place_all blank_item page) names d) = furniture_children d"
  by (induction names arbitrary: d) (simp_all add: place_all_def)

lemma list_in_body_once: "lists_once s \<Longrightarrow> lists_once (list_in_body child s)"
  by (auto simp: lists_once_def list_in_body_def Let_def split: prod.splits)

lemma furnish_once: "lists_once s \<Longrightarrow> lists_once (furnish in_body ref s)"
  by (auto simp: lists_once_def furnish_def Let_def split: prod.splits)

lemma fold_keeps: "(\<And>x s. P s \<Longrightarrow> P (f x s)) \<Longrightarrow> P s \<Longrightarrow> P (fold f xs s)"
  by (induction xs arbitrary: s) auto

lemma fold_page_once: "lists_once s \<Longrightarrow> lists_once (fold_page blank_item page s)"
  unfolding fold_page_def Let_def
  by (intro fold_keeps [where P = lists_once] furnish_once list_in_body_once)
    (simp_all add: lists_once_def)

definition folds_page :: "(string \<Rightarrow> msg) \<Rightarrow> page_fold \<Rightarrow> page_fold \<Rightarrow> bool" where
  "folds_page blank_item s t \<longleftrightarrow> (\<exists>page. t = fold_page blank_item page s)"

interpretation folding: guarded_machine "\<lambda>s. \<exists>d. s = empty_fold d" "folds_page blank_item" lists_once
  by unfold_locales (auto simp: folds_page_def fold_page_once, simp add: lists_once_def empty_fold_def)

lemma folded_pages_reachable: "(folds_page blank_item)\<^sup>*\<^sup>* s (fold (fold_page blank_item) ps s)"
proof (induction ps rule: rev_induct)
  case (snoc p ps)
  then show ?case by (auto simp: folds_page_def intro: rtranclp.rtrancl_into_rtrancl)
qed simp

subsection \<open>Pages rebuild the document, in any order\<close>

lemma place_named:
  assumes "named_by_slot a all" "length all \<le> 2 ^ 20" "length items \<le> length all" "k < length all"
  shows "place blank_item a (all ! k) items
     = (items @ replicate (k + 1 - length items) blank_item)[k := all ! k]"
proof -
  have "arena_index (self_ref_in a (all ! k)) (arena_prefix a) = Some (int k)"
    using assms by (simp add: named_by_slot_def arena_index_canonical)
  moreover have "\<not> int k - int (length items) > kMaximumGap"
    using assms by (simp add: kMaximumGap_def)
  ultimately show ?thesis by (simp add: place_def)
qed

text \<open>\<open>items\<close> is \<open>all\<close> with holes: every item of \<open>seen\<close> stands in its own slot.\<close>

definition partial_arena :: "msg list \<Rightarrow> msg set \<Rightarrow> msg list \<Rightarrow> bool" where
  "partial_arena all seen items \<longleftrightarrow> length items \<le> length all
     \<and> (\<forall>k < length all. all ! k \<in> seen \<longrightarrow> k < length items \<and> items ! k = all ! k)"

lemma whole_arena:
  assumes "partial_arena all (set all) items"
  shows "items = all"
proof (rule nth_equalityI)
  show "length items = length all"
    using assms [unfolded partial_arena_def] nth_mem by (meson le_antisym leI less_irrefl)
qed (use assms in \<open>auto simp: partial_arena_def\<close>)

lemma place_partial:
  assumes "named_by_slot a all" "length all \<le> 2 ^ 20" "partial_arena all seen items" "x \<in> set all"
  shows "partial_arena all (insert x seen) (place blank_item a x items)"
proof -
  obtain k where k: "k < length all" "x = all ! k" using assms(4) by (auto simp: in_set_conv_nth)
  have same: "all ! j = all ! k \<longleftrightarrow> j = k" if "j < length all" for j
    using that k assms(1) by (metis named_by_slot_def named_inj)
  have "length items \<le> length all" using assms(3) by (simp add: partial_arena_def)
  note placed = place_named [OF assms(1,2) this k(1), of blank_item]
  show ?thesis
    unfolding partial_arena_def k(2) placed
    using assms(3) k(1) by (auto simp: partial_arena_def nth_append nth_list_update same)
qed

lemma place_list_partial:
  assumes "named_by_slot a all" "length all \<le> 2 ^ 20" "partial_arena all seen items" "set xs \<subseteq> set all"
  shows "partial_arena all (set xs \<union> seen) (fold (place blank_item a) xs items)"
  using assms(3,4)
proof (induction xs arbitrary: seen items)
  case (Cons x xs)
  then show ?case
    using place_partial [OF assms(1,2) Cons.prems(1), of x blank_item] Cons.IH [of "insert x seen"] by simp
qed simp

lemma place_all_arena:
  "distinct names \<Longrightarrow> arena (fold (place_all blank_item page) names d) a =
     (if a \<in> set names then fold (place (blank_item a) a) (page_items page a) (arena d a) else arena d a)"
  by (induction names arbitrary: d) (auto simp: place_all_def)

lemma child_steps_arena:
  "arena (document (list_in_body child s)) = arena (document s)"
  "arena (document (furnish in_body ref s)) = arena (document s)"
  by (simp_all add: list_in_body_def furnish_def Let_def split: prod.splits)

lemma fold_same: "(\<And>x s. g (f x s) = g s) \<Longrightarrow> g (fold f xs s) = g s"
  by (induction xs arbitrary: s) simp_all

lemma fold_page_arena:
  assumes "a \<in> set delta_arenas"
  shows "arena (document (fold_page blank_item page s)) a =
     fold (place (blank_item a) a) (page_items page a) (arena (document s) a)"
proof -
  have "distinct fold_arenas" "a \<in> set fold_arenas"
    using assms by (auto simp: fold_arenas_def delta_arenas_def)
  then have "arena (fold (place_all blank_item page) fold_arenas (document s)) a =
     fold (place (blank_item a) a) (page_items page a) (arena (document s) a)"
    by (simp add: place_all_arena)
  moreover have "arena (document (fold (\<lambda>a. fold (\<lambda>item. furnish B (self_ref_in a item)) (page_items page a))
           fold_arenas s)) = arena (document s)" for s B
    by (rule fold_same [where g = "\<lambda>s. arena (document s)"], rule fold_same [where g = "\<lambda>s. arena (document s)"])
      (rule child_steps_arena)
  moreover have "arena (document (fold list_in_body cs s)) = arena (document s)" for s cs
    by (rule fold_same [where g = "\<lambda>s. arena (document s)"]) (rule child_steps_arena)
  ultimately show ?thesis by (simp add: fold_page_def Let_def)
qed

lemma folded_pages_partial:
  assumes "named_by_slot a all" "length all \<le> 2 ^ 20" "a \<in> set delta_arenas"
    and "\<forall>page\<in>set ps. set (page_items page a) \<subseteq> set all"
  shows "partial_arena all (\<Union>page\<in>set ps. set (page_items page a))
     (arena (document (fold (fold_page blank_item) ps (empty_fold d))) a)"
  using assms(4)
proof (induction ps rule: rev_induct)
  case Nil
  then show ?case by (simp add: partial_arena_def empty_fold_def)
next
  case (snoc page ps)
  then show ?case
    using place_list_partial [OF assms(1,2), of "\<Union>page\<in>set ps. set (page_items page a)" _ "page_items page a" "blank_item a"]
    by (simp add: fold_page_arena [OF assms(3)])
qed

subsection \<open>What the lists hold\<close>

text \<open>What one page names for the lists, read in the document \<open>d\<close>, and a list without its repetitions.\<close>

definition body_tops :: "folded \<Rightarrow> page_data \<Rightarrow> string list" where
  "body_tops d page = map fst (filter (\<lambda>t. snd t \<noteq> ''#/furniture'') (map (top_level d) (body_order page)))"

definition furniture_tops :: "folded \<Rightarrow> page_data \<Rightarrow> string list" where
  "furniture_tops d page = map fst (filter (\<lambda>t. snd t = ''#/furniture'') (map (top_level d)
     (filter (\<lambda>r. r \<notin> set (body_order page)) (concat (map (\<lambda>a. map (self_ref_in a) (page_items page a)) fold_arenas)))))"

definition first_names :: "string list \<Rightarrow> string list" where
  "first_names refs = rev (remdups (rev refs))"

text \<open>What the pages name, each page read in the document as it stands once that page is folded.\<close>

definition named_by_pages ::
  "(folded \<Rightarrow> page_data \<Rightarrow> string list) \<Rightarrow> (string \<Rightarrow> msg) \<Rightarrow> msg \<Rightarrow> page_data list \<Rightarrow> string list" where
  "named_by_pages tops blank_item d ps =
     concat (map (\<lambda>k. tops (document (fold (fold_page blank_item) (take (Suc k) ps) (empty_fold d))) (ps ! k)) [0..<length ps])"

lemma first_names_simps [simp]:
  "first_names [] = []" "set (first_names refs) = set refs"
  "first_names (refs @ [r]) = (if r \<in> set refs then first_names refs else first_names refs @ [r])"
  by (simp_all add: first_names_def)

lemma top_level_arena: "arena d = arena e \<Longrightarrow> top_level d r = top_level e r"
proof -
  assume same: "arena d = arena e"
  have "parent_in d = parent_in e" by (rule ext) (simp only: parent_in_def same)
  then have "climb steps d r = climb steps e r" for steps
    by (induction steps arbitrary: r) (simp_all split: option.splits)
  then show ?thesis by (simp add: top_level_def)
qed

lemma list_in_body_names:
  assumes "arena (document s) = arena d" "body_children (document s) = first_names refs" "lists_once s"
  shows "body_children (document (fold list_in_body cs s))
      = first_names (refs @ map fst (filter (\<lambda>t. snd t \<noteq> ''#/furniture'') (map (top_level d) cs)))"
  using assms
proof (induction cs arbitrary: s refs)
  case (Cons c cs)
  obtain top root where t: "top_level d c = (top, root)" by force
  then have t': "top_level (document s) c = (top, root)" using top_level_arena [OF Cons.prems(1)] by simp
  have refs: "body_refs s = set refs" using Cons.prems(2,3) by (auto simp: lists_once_def)
  let ?new = "refs @ (if root = ''#/furniture'' then [] else [top])"
  have "body_children (document (list_in_body c s)) = first_names ?new"
    using Cons.prems(2) refs by (simp add: list_in_body_def t')
  with Cons.IH [of "list_in_body c s" ?new] show ?case
    using Cons.prems(1) list_in_body_once [OF Cons.prems(3)] by (simp add: child_steps_arena(1) t)
qed simp

lemma furnish_names:
  assumes "arena (document s) = arena d" "furniture_children (document s) = first_names refs" "lists_once s"
  shows "furniture_children (document (fold (furnish B) rs s))
      = first_names (refs @ map fst (filter (\<lambda>t. snd t = ''#/furniture'') (map (top_level d) (filter (\<lambda>r. r \<notin> B) rs))))"
  using assms
proof (induction rs arbitrary: s refs)
  case (Cons r rs)
  obtain top root where t: "top_level d r = (top, root)" by force
  then have t': "top_level (document s) r = (top, root)" using top_level_arena [OF Cons.prems(1)] by simp
  have refs: "furniture_refs s = set refs" using Cons.prems(2,3) by (auto simp: lists_once_def)
  let ?new = "refs @ (if r \<notin> B \<and> root = ''#/furniture'' then [top] else [])"
  have "furniture_children (document (furnish B r s)) = first_names ?new"
    using Cons.prems(2) refs by (simp add: furnish_def t')
  with Cons.IH [of "furnish B r s" ?new] show ?case
    using Cons.prems(1) furnish_once [OF Cons.prems(3)] by (simp add: child_steps_arena(2) t)
qed simp

lemma child_steps_other:
  "furniture_children (document (list_in_body child s)) = furniture_children (document s)"
  "body_children (document (furnish in_body ref s)) = body_children (document s)"
  by (simp_all add: list_in_body_def furnish_def Let_def split: prod.splits)

lemma fold_nested: "fold (\<lambda>a. fold (\<lambda>x. f (g a x)) (h a)) as s = fold f (concat (map (\<lambda>a. map (g a) (h a)) as)) s"
  by (induction as arbitrary: s) (simp_all add: fold_map comp_def)

lemma fold_page_names:
  assumes "lists_once s" "body_children (document s) = first_names bs" "furniture_children (document s) = first_names fs"
  shows "body_children (document (fold_page blank_item page s))
      = first_names (bs @ body_tops (document (fold_page blank_item page s)) page)"
    "furniture_children (document (fold_page blank_item page s))
      = first_names (fs @ furniture_tops (document (fold_page blank_item page s)) page)"
proof -
  define d where "d = fold (place_all blank_item page) fold_arenas (document s)"
  define u where "u = s\<lparr>page_count := page_count s + 1, document := d\<lparr>pages := AList.update (page_number page) (page_meta page) (pages d)\<rparr>\<rparr>"
  define v where "v = fold list_in_body (body_order page) u"
  define rs where "rs = concat (map (\<lambda>a. map (self_ref_in a) (page_items page a)) fold_arenas)"
  define t where "t = fold (furnish (set (body_order page))) rs v"
  have page: "fold_page blank_item page s = t"
    by (simp add: fold_page_def Let_def d_def u_def v_def t_def rs_def fold_nested)
  have u: "arena (document u) = arena d" "body_children (document u) = first_names bs"
      "furniture_children (document u) = first_names fs" "lists_once u"
    using assms by (simp_all add: u_def d_def lists_once_def)
  have v: "arena (document v) = arena d" "lists_once v"
    using fold_same [where g = "\<lambda>s. arena (document s)" and f = list_in_body, OF child_steps_arena(1)] u
    by (simp_all add: v_def fold_keeps [where P = lists_once, OF list_in_body_once])
  have t: "arena (document t) = arena d"
    using fold_same [where g = "\<lambda>s. arena (document s)" and f = "furnish (set (body_order page))", OF child_steps_arena(2)] v
    by (simp add: t_def)
  have other: "furniture_children (document v) = first_names fs" "body_children (document t) = body_children (document v)"
    using fold_same [where g = "\<lambda>s. furniture_children (document s)" and f = list_in_body, OF child_steps_other(1)]
      fold_same [where g = "\<lambda>s. body_children (document s)" and f = "furnish (set (body_order page))", OF child_steps_other(2)] u
    by (simp_all add: v_def t_def)
  show "body_children (document (fold_page blank_item page s))
      = first_names (bs @ body_tops (document (fold_page blank_item page s)) page)"
    using list_in_body_names [of u "document t" bs "body_order page"] u t other
    by (simp add: page body_tops_def v_def [symmetric])
  show "furniture_children (document (fold_page blank_item page s))
      = first_names (fs @ furniture_tops (document (fold_page blank_item page s)) page)"
    using furnish_names [of v "document t" fs "set (body_order page)" rs] v t other
    by (simp add: page furniture_tops_def t_def [symmetric] rs_def [symmetric])
qed

lemma named_by_pages_snoc:
  "named_by_pages tops blank_item d (ps @ [p]) = named_by_pages tops blank_item d ps
     @ tops (document (fold (fold_page blank_item) (ps @ [p]) (empty_fold d))) p"
  by (auto simp: named_by_pages_def nth_append intro!: arg_cong [where f = concat] map_cong)

lemma folded_names:
  "body_children (document (fold (fold_page blank_item) ps (empty_fold d))) = first_names (named_by_pages body_tops blank_item d ps)
   \<and> furniture_children (document (fold (fold_page blank_item) ps (empty_fold d))) = first_names (named_by_pages furniture_tops blank_item d ps)"
proof (induction ps rule: rev_induct)
  case Nil
  show ?case by (simp add: named_by_pages_def empty_fold_def)
next
  case (snoc p ps)
  have "lists_once (fold (fold_page blank_item) ps (empty_fold d))"
    using folding.reachable_inv [OF _ folded_pages_reachable] by blast
  from fold_page_names [OF this] snoc show ?case by (simp add: named_by_pages_snoc)
qed


text \<open>
  C16. Folding page events rebuilds the document whatever order the pages
  arrive in and however often one is repeated: when every item of an arena of
  at most 2^20 items, named by its slot, arrives on some page, the folded
  arena is that arena, gaps filled. The body lists exactly the top-level
  ancestors of what the pages' body orders name, each once, where it was named
  first, those under the furniture left out; the furniture lists exactly the
  top-level ancestors under the furniture of the pages' other items, each once.
  An ancestor is read in the document as it stands once its page is folded.
\<close>

theorem pages_rebuild_document:
  assumes "\<forall>a\<in>set delta_arenas. named_by_slot a (all a) \<and> length (all a) \<le> 2 ^ 20
      \<and> (\<Union>page\<in>set ps. set (page_items page a)) = set (all a)"
    and "s = fold (fold_page blank_item) ps (empty_fold d)"
  shows "(\<forall>a\<in>set delta_arenas. arena (document s) a = all a) \<and> lists_once s
    \<and> body_children (document s) = first_names (named_by_pages body_tops blank_item d ps)
    \<and> furniture_children (document s) = first_names (named_by_pages furniture_tops blank_item d ps)"
proof (intro conjI ballI)
  fix a assume a: "a \<in> set delta_arenas"
  have "partial_arena (all a) (set (all a)) (arena (document s) a)"
    using folded_pages_partial [of a "all a" ps blank_item d] assms a by auto
  then show "arena (document s) a = all a"
    by (rule whole_arena)
next
  show "lists_once s"
    using folding.reachable_inv [OF _ folded_pages_reachable] unfolding assms(2) by blast
qed (simp_all add: assms(2) folded_names)

definition sample_page :: "int \<Rightarrow> string \<Rightarrow> page_data" where
  "sample_page n ref =
     \<lparr>page_number = n, page_meta = sample_group [] [],
      page_items = \<lambda>a. if a = ''groups'' then [sample_group ref []] else [], body_order = [ref]\<rparr>"

lemma to_dec_one: "to_dec (Suc 0) = ''1''"
proof -
  have "char_of (49 :: nat) = CHR ''1''" by code_simp
  then show ?thesis by (simp add: to_dec_digit)
qed

theorem pages_rebuild_document_witness:
  "arena (document (fold (fold_page (\<lambda>_. sample_group [] [])) [sample_page 2 ''#/groups/1'', sample_page 1 ''#/groups/0'']
     (empty_fold (sample_group [] [])))) ''groups''
   = [sample_group ''#/groups/0'' [], sample_group ''#/groups/1'' []]"
proof -
  define all where "all a = (if a = ''groups''
      then [sample_group ''#/groups/0'' [], sample_group ''#/groups/1'' []] else [])" for a
  have "named_by_slot a (all a) \<and> length (all a) \<le> 2 ^ 20
      \<and> (\<Union>page\<in>set [sample_page 2 ''#/groups/1'', sample_page 1 ''#/groups/0'']. set (page_items page a)) = set (all a)" for a
    by (auto simp: all_def named_by_slot_def less_Suc_eq arena_prefix_def to_dec_zero to_dec_one sample_page_def)
  then have "\<forall>a\<in>set delta_arenas. named_by_slot a (all a) \<and> length (all a) \<le> 2 ^ 20
      \<and> (\<Union>page\<in>set [sample_page 2 ''#/groups/1'', sample_page 1 ''#/groups/0'']. set (page_items page a)) = set (all a)"
    by blast
  from pages_rebuild_document [OF this refl, of "\<lambda>_. sample_group [] []" "sample_group [] []"]
  show ?thesis by (simp add: all_def delta_arenas_def)
qed

end
