(* ===== verification/Structure.thy ===== *)
theory Structure
  imports StreamDelta "HOL-Library.Char_ord" "HOL-Library.List_Lexorder" "HOL-Library.Product_Lexorder"
begin

text \<open>
  The structural checks over a mapped document
  (\<^verbatim>\<open>src/src/office_fold/integrity_check.cpp\<close>): the reference walk, whose
  errors say that a reference resolves to nothing or a parent does not list
  its child, and docling-core's structural rules as findings. A document is a
  message read through its accessors; the enum numbers of the schema are the
  parameter \<open>labels\<close>. Iterating a \<^verbatim>\<open>std::map\<close> or \<^verbatim>\<open>std::set\<close> of strings goes in byte
  order, which is the order of \<^typ>\<open>string\<close> here.
\<close>

subsection \<open>Reading items\<close>

definition signed_dec :: "int \<Rightarrow> string" where
  "signed_dec n = (if n < 0 then ''-'' @ to_dec (nat (- n)) else to_dec (nat n))"

definition parent_link :: "msg \<Rightarrow> string option" where
  "parent_link m = map_option (get_string ''ref'') (get_sub ''parent'' m)"

definition text_base :: "msg \<Rightarrow> msg option" where
  "text_base item =
     (case text_variant item of
        None \<Rightarrow> None
      | Some v \<Rightarrow> if v = ''code'' then None else Some (sub_or_default ''base'' (sub_or_default v item)))"

definition page_less :: "msg \<Rightarrow> bool" where
  "page_less prov =
     (get_sub ''time'' prov \<noteq> None \<or> get_sub ''byte_range'' prov \<noteq> None \<or> get_sub ''grid'' prov \<noteq> None
      \<or> get_sub ''line_range'' prov \<noteq> None)"

subsection \<open>The reference walk\<close>

record parent_problem =
  problem_child :: string
  problem_parent :: string
  missing :: bool

record walk =
  errors :: "string list"
  known_refs :: "string set"
  parent_links :: "(string \<times> string) list"
  child_links :: "(string \<times> string) list"
  graph_item_refs :: "(string \<times> string) list"
  parent_problems :: "parent_problem list"

definition report :: "string \<Rightarrow> walk \<Rightarrow> walk" where
  "report e w = w\<lparr>errors := errors w @ [e]\<rparr>"

text \<open>\<open>child_links\<close> lists the pairs of \<^verbatim>\<open>children_\<close>: an owner and one of its children.\<close>

definition collect :: "string \<Rightarrow> string list \<Rightarrow> string option \<Rightarrow> walk \<Rightarrow> walk" where
  "collect self_ref children parent w =
     (if self_ref = [] then report ''item with empty self_ref'' w
      else
        let w = (if self_ref \<in> known_refs w then report (''duplicate self_ref '' @ self_ref) w
                 else w\<lparr>known_refs := insert self_ref (known_refs w)\<rparr>);
            w = w\<lparr>child_links := child_links w @ map (Pair self_ref) children\<rparr>
        in case parent of
             None \<Rightarrow> w
           | Some p \<Rightarrow> w\<lparr>parent_links := parent_links w @ [(self_ref, p)]\<rparr>)"

definition unplaced :: "msg \<Rightarrow> bool" where
  "unplaced prov = (get_num ''page_no'' prov < 1 \<and> \<not> page_less prov)"

definition prov_error :: "string \<Rightarrow> msg \<Rightarrow> string" where
  "prov_error what prov =
     ''provenance of '' @ what @ '' has page_no '' @ signed_dec (get_num ''page_no'' prov)
       @ '', which is not a 1-based page''"

definition check_prov :: "string \<Rightarrow> msg list \<Rightarrow> walk \<Rightarrow> walk" where
  "check_prov owner provs =
     fold (\<lambda>p w. if unplaced p then report (prov_error owner p) w else w) provs"

definition collect_cell :: "string \<Rightarrow> msg \<Rightarrow> walk \<Rightarrow> walk" where
  "collect_cell owner cell w =
     (let w = (case get_sub ''prov'' cell of
                 None \<Rightarrow> w
               | Some p \<Rightarrow>
                   if unplaced p
                   then report (prov_error (''graph cell '' @ signed_dec (get_num ''cell_id'' cell) @ '' of '' @ owner) p) w
                   else w)
      in case get_sub ''item_ref'' cell of
           None \<Rightarrow> w
         | Some item \<Rightarrow> w\<lparr>graph_item_refs := graph_item_refs w @ [(owner, get_string ''ref'' item)]\<rparr>)"

definition collect_graph :: "string \<Rightarrow> msg \<Rightarrow> walk \<Rightarrow> walk" where
  "collect_graph owner graph = fold (collect_cell owner) (get_list ''cells'' graph)"

definition walk_item :: "msg \<Rightarrow> walk \<Rightarrow> walk" where
  "walk_item item w =
     check_prov (get_string ''self_ref'' item) (get_list ''prov'' item)
       (collect (get_string ''self_ref'' item) (child_refs item) (parent_link item) w)"

definition walk_form_item :: "msg \<Rightarrow> walk \<Rightarrow> walk" where
  "walk_form_item item w =
     collect_graph (get_string ''self_ref'' item) (sub_or_default ''graph'' item) (walk_item item w)"

definition walk_root :: "string \<Rightarrow> string \<Rightarrow> msg \<Rightarrow> walk \<Rightarrow> walk" where
  "walk_root ref name d w =
     w\<lparr>child_links := child_links w @ map (Pair ref) (child_refs (sub_or_default name d))\<rparr>"

definition walk_group :: "msg \<Rightarrow> walk \<Rightarrow> walk" where
  "walk_group g = collect (get_string ''self_ref'' g) (child_refs g) (parent_link g)"

definition walk_roots :: "msg \<Rightarrow> walk \<Rightarrow> walk" where
  "walk_roots d w =
     fold walk_group (get_list ''groups'' d) (walk_root ''#/furniture'' ''furniture'' d (walk_root ''#/body'' ''body'' d w))"

definition walk_text :: "msg \<Rightarrow> walk \<Rightarrow> walk" where
  "walk_text item w =
     (if text_variant item = Some ''code'' then walk_item (sub_or_default ''code'' item) w
      else case text_base item of
             None \<Rightarrow> report ''text item with unset variant'' w
           | Some base \<Rightarrow> walk_item base w)"

definition walk_texts :: "msg \<Rightarrow> walk \<Rightarrow> walk" where
  "walk_texts d = fold walk_text (get_list ''texts'' d)"

definition walk_form_arenas :: "msg \<Rightarrow> walk \<Rightarrow> walk" where
  "walk_form_arenas d w =
     fold walk_item (get_list ''field_items'' d)
       (fold walk_item (get_list ''field_regions'' d)
         (fold walk_form_item (get_list ''form_items'' d)
           (fold walk_form_item (get_list ''key_value_items'' d) w)))"

definition page_refs :: "msg \<Rightarrow> string set" where
  "page_refs d = set (map (\<lambda>entry. ''#/pages/'' @ signed_dec (get_num ''key'' entry)) (get_list ''pages'' d))"

definition reference_walk :: "msg \<Rightarrow> walk" where
  "reference_walk d =
     (let w = \<lparr>errors = [], known_refs = {''#/body'', ''#/furniture''} \<union> page_refs d, parent_links = [],
                child_links = [], graph_item_refs = [], parent_problems = []\<rparr>
      in walk_form_arenas d
           (fold walk_item (get_list ''tables'' d)
             (fold walk_item (get_list ''pictures'' d) (walk_texts d (walk_roots d w)))))"

definition check_child :: "string \<times> string \<Rightarrow> walk \<Rightarrow> walk" where
  "check_child link w =
     (if snd link \<in> known_refs w then w
      else report (''child '' @ snd link @ '' of '' @ fst link @ '' does not resolve'') w)"

definition check_parent :: "string \<times> string \<Rightarrow> walk \<Rightarrow> walk" where
  "check_parent link w =
     (let (child, parent) = link in
      if parent \<notin> known_refs w
      then (report (''parent '' @ parent @ '' of '' @ child @ '' does not resolve'') w)
             \<lparr>parent_problems := parent_problems w @ [\<lparr>problem_child = child, problem_parent = parent, missing = True\<rparr>]\<rparr>
      else if (parent, child) \<notin> set (child_links w)
      then (report (''parent '' @ parent @ '' does not list '' @ child @ '' as a child'') w)
             \<lparr>parent_problems := parent_problems w @ [\<lparr>problem_child = child, problem_parent = parent, missing = False\<rparr>]\<rparr>
      else w)"

definition check_links :: "walk \<Rightarrow> walk" where
  "check_links w = fold check_parent (parent_links w) (fold check_child (sort (remdups (child_links w))) w)"

definition check_resolves :: "string \<Rightarrow> string \<Rightarrow> walk \<Rightarrow> walk" where
  "check_resolves ref what w = (if ref \<in> known_refs w then w else report (what @ '' does not resolve'') w)"

definition check_comments :: "msg \<Rightarrow> walk \<Rightarrow> walk" where
  "check_comments item =
     fold (\<lambda>c. check_resolves (get_string ''ref'' c)
        (''comment ref '' @ get_string ''ref'' c @ '' of '' @ get_string ''self_ref'' item)) (get_list ''comments'' item)"

definition check_span :: "msg \<Rightarrow> msg \<Rightarrow> walk \<Rightarrow> walk" where
  "check_span base s w =
     (case get_sub ''target'' s of
        None \<Rightarrow> w
      | Some target \<Rightarrow>
          check_resolves (get_string ''ref'' target)
            (''span target '' @ get_string ''ref'' target @ '' of '' @ get_string ''self_ref'' base) w)"

definition check_anchor :: "string \<Rightarrow> string \<Rightarrow> msg \<Rightarrow> walk \<Rightarrow> walk" where
  "check_anchor kind name item w =
     (case get_sub ''target'' item of
        None \<Rightarrow> w
      | Some target \<Rightarrow>
          check_resolves (get_string ''ref'' target)
            (kind @ '' target '' @ get_string ''ref'' target @ '' of '' @ get_string name item) w)"

definition check_text :: "msg \<Rightarrow> walk \<Rightarrow> walk" where
  "check_text item w =
     (case text_base item of
        None \<Rightarrow> w
      | Some base \<Rightarrow> fold (check_span base) (get_list ''spans'' base) (check_comments base w))"

definition check_anchored :: "msg \<Rightarrow> walk \<Rightarrow> walk" where
  "check_anchored d w =
     (let w = fold check_comments (get_list ''tables'' d) w;
          w = fold (\<lambda>(owner, ref). check_resolves ref (''graph cell item_ref '' @ ref @ '' of '' @ owner))
                (graph_item_refs w) w;
          w = fold check_text (get_list ''texts'' d) w;
          w = fold (check_anchor ''change'' ''id'') (get_list ''changes'' d) w
      in fold (check_anchor ''anchor'' ''name'') (get_list ''anchors'' d) w)"

definition docling_integrity_errors :: "msg \<Rightarrow> string list" where
  "docling_integrity_errors d = errors (check_anchored d (check_links (reference_walk d)))"

subsection \<open>The structural rules\<close>

datatype structure_rule =
    Deprecated_Furniture_Tree | Key_Value_Or_Form_Item | List_Group_Non_List_Item_Child
  | List_Item_Outside_List_Group | Empty_Group | Parent_Missing | Not_Listed_By_Parent
  | Repeated_Reference | Rich_Cell_Not_Owned | Table_Cells_Over_Limit | Total_Table_Cells_Over_Limit

fun structure_rule_name :: "structure_rule \<Rightarrow> string" where
  "structure_rule_name Deprecated_Furniture_Tree = ''deprecated_furniture_tree''"
| "structure_rule_name Key_Value_Or_Form_Item = ''key_value_or_form_item''"
| "structure_rule_name List_Group_Non_List_Item_Child = ''list_group_non_list_item_child''"
| "structure_rule_name List_Item_Outside_List_Group = ''list_item_outside_list_group''"
| "structure_rule_name Empty_Group = ''empty_group''"
| "structure_rule_name Parent_Missing = ''parent_missing''"
| "structure_rule_name Not_Listed_By_Parent = ''not_listed_by_parent''"
| "structure_rule_name Repeated_Reference = ''repeated_reference''"
| "structure_rule_name Rich_Cell_Not_Owned = ''rich_cell_not_owned''"
| "structure_rule_name Table_Cells_Over_Limit = ''table_cells_over_limit''"
| "structure_rule_name Total_Table_Cells_Over_Limit = ''total_table_cells_over_limit''"

text \<open>The value of a rule in the enum; a set of rules is the set of their values.\<close>

fun rule_number :: "structure_rule \<Rightarrow> int" where
  "rule_number Deprecated_Furniture_Tree = 1"
| "rule_number Key_Value_Or_Form_Item = 2"
| "rule_number List_Group_Non_List_Item_Child = 3"
| "rule_number List_Item_Outside_List_Group = 4"
| "rule_number Empty_Group = 5"
| "rule_number Parent_Missing = 6"
| "rule_number Not_Listed_By_Parent = 7"
| "rule_number Repeated_Reference = 8"
| "rule_number Rich_Cell_Not_Owned = 9"
| "rule_number Table_Cells_Over_Limit = 10"
| "rule_number Total_Table_Cells_Over_Limit = 11"

record finding =
  rule :: structure_rule
  finding_ref :: string
  related_ref :: string
  message :: string

record cell_limits =
  max_table_cells :: "64 word"
  max_total_table_cells :: "64 word"

text \<open>The schema's numbers of the labels the rules read.\<close>

record labels =
  group_list :: int
  group_ordered_list :: int
  item_list_item :: int

record node_view =
  view_ref :: string
  view_kind :: string
  is_group :: bool
  list_group :: bool
  list_item :: bool
  view_parent :: "string option"
  view_children :: "string list"

definition view_of :: "string \<Rightarrow> msg \<Rightarrow> node_view" where
  "view_of kind item =
     \<lparr>view_ref = get_string ''self_ref'' item, view_kind = kind, is_group = False, list_group = False,
      list_item = False, view_parent = parent_link item, view_children = child_refs item\<rparr>"

definition is_list_group_label :: "labels \<Rightarrow> int \<Rightarrow> bool" where
  "is_list_group_label ls label = (label = group_list ls \<or> label = group_ordered_list ls)"

definition group_view :: "labels \<Rightarrow> msg \<Rightarrow> node_view" where
  "group_view ls g =
     (let listing = is_list_group_label ls (get_num ''label'' g)
      in (view_of (if listing then ''ListGroup'' else ''GroupItem'') g)\<lparr>is_group := True, list_group := listing\<rparr>)"

definition text_view :: "labels \<Rightarrow> msg \<Rightarrow> node_view option" where
  "text_view ls item =
     (if text_variant item = Some ''code'' then Some (view_of ''CodeItem'' (sub_or_default ''code'' item))
      else case text_base item of
             None \<Rightarrow> None
           | Some base \<Rightarrow>
               let listed = (text_variant item = Some ''list_item'' \<or> get_num ''label'' base = item_list_item ls)
               in Some ((view_of (if listed then ''ListItem'' else ''TextItem'') base)\<lparr>list_item := listed\<rparr>))"

definition root_view :: "string \<Rightarrow> string \<Rightarrow> msg \<Rightarrow> node_view" where
  "root_view ref name d = (view_of ''GroupItem'' (sub_or_default name d))\<lparr>view_ref := ref, is_group := True\<rparr>"

definition node_views :: "labels \<Rightarrow> msg \<Rightarrow> node_view list" where
  "node_views ls d =
     filter (\<lambda>v. view_ref v \<noteq> [])
       ([root_view ''#/body'' ''body'' d, root_view ''#/furniture'' ''furniture'' d]
        @ map (group_view ls) (get_list ''groups'' d)
        @ List.map_filter (text_view ls) (get_list ''texts'' d)
        @ map (view_of ''PictureItem'') (get_list ''pictures'' d)
        @ map (view_of ''TableItem'') (get_list ''tables'' d)
        @ map (view_of ''KeyValueItem'') (get_list ''key_value_items'' d)
        @ map (view_of ''FormItem'') (get_list ''form_items'' d)
        @ map (view_of ''FieldRegionItem'') (get_list ''field_regions'' d)
        @ map (view_of ''FieldItem'') (get_list ''field_items'' d))"

definition view_by_ref :: "node_view list \<Rightarrow> string \<Rightarrow> node_view option" where
  "view_by_ref views ref = List.find (\<lambda>v. view_ref v = ref) views"

definition checked :: "int list \<Rightarrow> structure_rule \<Rightarrow> bool" where
  "checked rules r = (rules = [] \<or> rule_number r \<in> set rules)"

definition when_checked :: "int list \<Rightarrow> structure_rule \<Rightarrow> finding list \<Rightarrow> finding list" where
  "when_checked rules r fs = (if checked rules r then fs else [])"

definition found :: "structure_rule \<Rightarrow> string \<Rightarrow> string \<Rightarrow> string \<Rightarrow> finding" where
  "found r ref related text = \<lparr>rule = r, finding_ref = ref, related_ref = related, message = text\<rparr>"

definition list_child_findings :: "node_view list \<Rightarrow> node_view \<Rightarrow> finding list" where
  "list_child_findings views v =
     List.map_filter (\<lambda>ref.
        case view_by_ref views ref of
          None \<Rightarrow> None
        | Some child \<Rightarrow>
            if list_item child then None
            else Some (found List_Group_Non_List_Item_Child (view_ref v) ref
                   (''ListGroup '' @ view_ref v @ '' contains non-ListItem '' @ ref @ '' ('' @ view_kind child @ '')'')))
       (view_children v)"

definition list_item_findings :: "node_view list \<Rightarrow> node_view \<Rightarrow> finding list" where
  "list_item_findings views v =
     (case view_parent v of
        None \<Rightarrow> [found List_Item_Outside_List_Group (view_ref v) [] (''ListItem '' @ view_ref v @ '' has no parent'')]
      | Some p \<Rightarrow>
          (case view_by_ref views p of
             None \<Rightarrow> []
           | Some parent \<Rightarrow>
               if list_group parent then []
               else [found List_Item_Outside_List_Group (view_ref v) p
                       (''ListItem '' @ view_ref v @ '' has non-ListGroup parent: '' @ p)]))"

definition orphan_findings :: "int list \<Rightarrow> parent_problem list \<Rightarrow> node_view \<Rightarrow> finding list" where
  "orphan_findings rules problems v =
     concat (map (\<lambda>p.
        if missing p
        then when_checked rules Parent_Missing
               [found Parent_Missing (view_ref v) (problem_parent p)
                  (view_ref v @ '' has non-existent parent '' @ problem_parent p)]
        else when_checked rules Not_Listed_By_Parent
               [found Not_Listed_By_Parent (view_ref v) (problem_parent p)
                  (view_ref v @ '' is not a child of its parent '' @ problem_parent p)])
       (filter (\<lambda>p. problem_child p = view_ref v) problems))"

definition node_findings :: "int list \<Rightarrow> node_view list \<Rightarrow> parent_problem list \<Rightarrow> node_view \<Rightarrow> finding list" where
  "node_findings rules views problems v =
     (if list_group v then when_checked rules List_Group_Non_List_Item_Child (list_child_findings views v) else [])
     @ (if list_item v then when_checked rules List_Item_Outside_List_Group (list_item_findings views v) else [])
     @ orphan_findings rules problems v
     @ (if is_group v \<and> view_parent v \<noteq> None \<and> view_children v = []
        then when_checked rules Empty_Group
               [found Empty_Group (view_ref v) [] (''Group '' @ view_ref v @ '' has no children'')]
        else [])"

lemma view_by_ref_some: "view_by_ref views ref = Some v \<Longrightarrow> v \<in> set views \<and> view_ref v = ref"
  by (auto simp: view_by_ref_def find_Some_iff)

text \<open>
  The depth-first walk of the repeated-reference rule: each frame is a node's
  reference with the children it has still to look at. The walk ends because every
  new child with a view is one view fewer, and every other turn shortens the stack.
\<close>

function repeat_walk ::
  "node_view list \<Rightarrow> (string \<times> string list) list \<Rightarrow> string set \<Rightarrow> finding list" where
  "repeat_walk views [] visited = []"
| "repeat_walk views ((node, []) # stack) visited = repeat_walk views stack visited"
| "repeat_walk views ((node, child # rest) # stack) visited =
     (if child \<in> visited
      then found Repeated_Reference node child
             (''Document hierarchy is inconsistent. '' @ node @ '' references '' @ child
                @ '', which is already reachable through another reference'')
           # repeat_walk views ((node, rest) # stack) visited
      else case view_by_ref views child of
             None \<Rightarrow> repeat_walk views ((node, rest) # stack) (insert child visited)
           | Some v \<Rightarrow>
               repeat_walk views ((view_ref v, view_children v) # (node, rest) # stack) (insert child visited))"
  by pat_completeness auto

termination
proof (relation "measures [\<lambda>(views, stack, visited). card (view_ref ` set views - visited),
    \<lambda>(views, stack, visited). sum_list (map (\<lambda>(_, cs). Suc (length cs)) stack)]", goal_cases)
  case (5 views node child rest stack visited v)
  then have "child \<in> view_ref ` set views - visited" using view_by_ref_some by force
  then have "card (view_ref ` set views - insert child visited) < card (view_ref ` set views - visited)"
    by (intro psubset_card_mono) auto
  then show ?case by simp
next
  case (4 views node child rest stack visited)
  have "card (view_ref ` set views - insert child visited) \<le> card (view_ref ` set views - visited)"
    by (intro card_mono) auto
  then show ?case by auto
qed simp_all

definition repeat_findings :: "node_view list \<Rightarrow> string \<Rightarrow> finding list" where
  "repeat_findings views start =
     (case view_by_ref views start of
        None \<Rightarrow> []
      | Some v \<Rightarrow> repeat_walk views [(view_ref v, view_children v)] {start})"

definition table_rows :: "msg \<Rightarrow> 64 word" where
  "table_rows data = word_of_int (max (get_num ''num_rows'' data) 0)"

definition table_cols :: "msg \<Rightarrow> 64 word" where
  "table_cols data = word_of_int (max (get_num ''num_cols'' data) 0)"

text \<open>The cell references of a table, in order, with those already seen before each.\<close>

fun rich_cell_findings :: "node_view list \<Rightarrow> msg \<Rightarrow> string set \<Rightarrow> msg list \<Rightarrow> finding list" where
  "rich_cell_findings views table seen [] = []"
| "rich_cell_findings views table seen (cell # cells) =
     (case get_sub ''ref'' cell of
        None \<Rightarrow> rich_cell_findings views table seen cells
      | Some r \<Rightarrow>
          let ref = get_string ''ref'' r;
              self = get_string ''self_ref'' table;
              parent = (case view_by_ref views ref of
                          None \<Rightarrow> [] | Some v \<Rightarrow> (case view_parent v of None \<Rightarrow> [] | Some p \<Rightarrow> p));
              lead = ''Document hierarchy is inconsistent. '' @ self @ '' has cell '' @ ref
          in (if ref \<in> seen
              then [found Rich_Cell_Not_Owned self ref (lead @ '' shared with another cell of the table'')]
              else if parent \<noteq> self
              then [found Rich_Cell_Not_Owned self ref
                      (lead @ '' with parent '' @ (if parent = [] then ''none'' else parent))]
              else if ref \<notin> set (child_refs table)
              then [found Rich_Cell_Not_Owned self ref (lead @ '' that it does not list among its children'')]
              else [])
             @ rich_cell_findings views table (insert ref seen) cells)"

definition table_findings :: "int list \<Rightarrow> node_view list \<Rightarrow> cell_limits \<Rightarrow> msg \<Rightarrow> finding list" where
  "table_findings rules views limits table =
     (let data = sub_or_default ''data'' table; r = table_rows data; c = table_cols data; limit = max_table_cells limits in
      if get_string ''self_ref'' table = [] then []
      else when_checked rules Rich_Cell_Not_Owned (rich_cell_findings views table {} (get_list ''table_cells'' data))
           @ (if r > limit \<or> c > limit \<or> r * c > limit
              then when_checked rules Table_Cells_Over_Limit
                     [found Table_Cells_Over_Limit (get_string ''self_ref'' table) []
                        (''Table of '' @ signed_dec (get_num ''num_rows'' data) @ ''x''
                           @ signed_dec (get_num ''num_cols'' data) @ '' cells exceeds the limit of ''
                           @ to_dec (unat limit) @ '' cells'')]
              else []))"

definition add_cells :: "msg \<Rightarrow> 64 word \<Rightarrow> 64 word" where
  "add_cells table acc =
     (let data = sub_or_default ''data'' table; cells = table_rows data * table_cols data
      in if cells > - 1 - acc then - 1 else acc + cells)"

definition docling_structure_findings ::
  "labels \<Rightarrow> msg \<Rightarrow> int list \<Rightarrow> cell_limits \<Rightarrow> finding list" where
  "docling_structure_findings ls d rules limits =
     (let views = node_views ls d;
          problems = parent_problems (check_links (reference_walk d));
          cells = fold add_cells (get_list ''tables'' d) 0
      in (if get_list ''children'' (sub_or_default ''furniture'' d) \<noteq> []
          then when_checked rules Deprecated_Furniture_Tree
                 [found Deprecated_Furniture_Tree ''#/furniture'' [] ''Deprecated furniture node #/furniture has children'']
          else [])
         @ when_checked rules Key_Value_Or_Form_Item
             (map (\<lambda>item. found Key_Value_Or_Form_Item (get_string ''self_ref'' item) []
                 (''Key-value item '' @ get_string ''self_ref'' item @ '' is to be migrated to a field region''))
                (get_list ''key_value_items'' d)
              @ map (\<lambda>item. found Key_Value_Or_Form_Item (get_string ''self_ref'' item) []
                 (''Form item '' @ get_string ''self_ref'' item @ '' is to be migrated to a field region''))
                (get_list ''form_items'' d))
         @ concat (map (node_findings rules views problems) views)
         @ when_checked rules Repeated_Reference
             (repeat_findings views ''#/body'' @ repeat_findings views ''#/furniture'')
         @ concat (map (table_findings rules views limits) (get_list ''tables'' d))
         @ (if cells > max_total_table_cells limits
            then when_checked rules Total_Table_Cells_Over_Limit
                   [found Total_Table_Cells_Over_Limit ''#/tables'' []
                      (''Document tables declare '' @ to_dec (unat cells) @ '' cells in total, exceeding the limit of ''
                         @ to_dec (unat (max_total_table_cells limits)))]
            else []))"

subsection \<open>What the integrity walk accepts\<close>

definition self_of :: "msg \<Rightarrow> string" where
  "self_of = get_string ''self_ref''"

definition text_payload :: "msg \<Rightarrow> msg option" where
  "text_payload t = (if text_variant t = Some ''code'' then Some (sub_or_default ''code'' t) else text_base t)"

definition form_like :: "msg \<Rightarrow> msg list" where
  "form_like d = get_list ''key_value_items'' d @ get_list ''form_items'' d"

definition placed_items :: "msg \<Rightarrow> msg list" where
  "placed_items d =
     List.map_filter text_payload (get_list ''texts'' d) @ get_list ''pictures'' d @ get_list ''tables'' d
     @ form_like d @ get_list ''field_regions'' d @ get_list ''field_items'' d"

definition linked_items :: "msg \<Rightarrow> msg list" where
  "linked_items d = get_list ''groups'' d @ placed_items d"

definition fixed_refs :: "msg \<Rightarrow> string set" where
  "fixed_refs d = {''#/body'', ''#/furniture''} \<union> page_refs d"

definition destinations :: "msg \<Rightarrow> string set" where
  "destinations d = fixed_refs d \<union> self_of ` set (linked_items d)"

definition listed :: "msg \<Rightarrow> (string \<times> string) set" where
  "listed d =
     Pair ''#/body'' ` set (child_refs (sub_or_default ''body'' d))
     \<union> Pair ''#/furniture'' ` set (child_refs (sub_or_default ''furniture'' d))
     \<union> (\<Union>i \<in> set (linked_items d). Pair (self_of i) ` set (child_refs i))"

definition graph_cells :: "msg \<Rightarrow> msg list" where
  "graph_cells item = get_list ''cells'' (sub_or_default ''graph'' item)"

definition target_refs :: "msg \<Rightarrow> string list" where
  "target_refs m = (case get_sub ''target'' m of None \<Rightarrow> [] | Some t \<Rightarrow> [get_string ''ref'' t])"

definition comment_refs :: "msg \<Rightarrow> string list" where
  "comment_refs m = map (get_string ''ref'') (get_list ''comments'' m)"

definition cell_item_refs :: "msg \<Rightarrow> string list" where
  "cell_item_refs c = (case get_sub ''item_ref'' c of None \<Rightarrow> [] | Some t \<Rightarrow> [get_string ''ref'' t])"

definition text_anchors :: "msg \<Rightarrow> string list" where
  "text_anchors t =
     (case text_base t of
        None \<Rightarrow> []
      | Some b \<Rightarrow> comment_refs b @ concat (map target_refs (get_list ''spans'' b)))"

definition anchored_refs :: "msg \<Rightarrow> string list" where
  "anchored_refs d =
     concat (map comment_refs (get_list ''tables'' d))
     @ concat (map (\<lambda>i. concat (map cell_item_refs (graph_cells i))) (form_like d))
     @ concat (map text_anchors (get_list ''texts'' d))
     @ concat (map target_refs (get_list ''changes'' d))
     @ concat (map target_refs (get_list ''anchors'' d))"

definition placed :: "msg \<Rightarrow> bool" where
  "placed i = (\<forall>p \<in> set (get_list ''prov'' i). \<not> unplaced p)"

definition cell_placed :: "msg \<Rightarrow> bool" where
  "cell_placed c = (case get_sub ''prov'' c of None \<Rightarrow> True | Some p \<Rightarrow> \<not> unplaced p)"

definition fresh_refs :: "string set \<Rightarrow> string list \<Rightarrow> bool" where
  "fresh_refs known refs = ([] \<notin> set refs \<and> distinct refs \<and> set refs \<inter> known = {})"

definition well_linked :: "msg \<Rightarrow> bool" where
  "well_linked d =
     ((\<forall>t \<in> set (get_list ''texts'' d). text_payload t \<noteq> None)
      \<and> fresh_refs (fixed_refs d) (map self_of (linked_items d))
      \<and> (\<forall>i \<in> set (placed_items d). placed i)
      \<and> (\<forall>i \<in> set (form_like d). \<forall>c \<in> set (graph_cells i). cell_placed c)
      \<and> (\<forall>(owner, child) \<in> listed d. child \<in> destinations d)
      \<and> (\<forall>i \<in> set (linked_items d). case parent_link i of
            None \<Rightarrow> True
          | Some p \<Rightarrow> p \<in> destinations d \<and> (p, self_of i) \<in> listed d)
      \<and> set (anchored_refs d) \<subseteq> destinations d)"

subsection \<open>What a part of the walk gathers\<close>

definition links_of :: "msg list \<Rightarrow> (string \<times> string) list" where
  "links_of ns = concat (map (\<lambda>n. map (Pair (self_of n)) (child_refs n)) (filter (\<lambda>n. self_of n \<noteq> []) ns))"

definition parents_of :: "msg list \<Rightarrow> (string \<times> string) list" where
  "parents_of ns =
     concat (map (\<lambda>n. case parent_link n of None \<Rightarrow> [] | Some p \<Rightarrow> [(self_of n, p)])
       (filter (\<lambda>n. self_of n \<noteq> []) ns))"

definition gathers :: "msg list \<Rightarrow> string list \<Rightarrow> bool \<Rightarrow> (walk \<Rightarrow> walk) \<Rightarrow> bool" where
  "gathers ns gs ok f =
     (\<forall>w. known_refs (f w) = known_refs w \<union> (self_of ` set ns - {[]})
        \<and> child_links (f w) = child_links w @ links_of ns
        \<and> parent_links (f w) = parent_links w @ parents_of ns
        \<and> map snd (graph_item_refs (f w)) = map snd (graph_item_refs w) @ gs
        \<and> (errors (f w) = [] \<longleftrightarrow> errors w = [] \<and> fresh_refs (known_refs w) (map self_of ns) \<and> ok))"

lemma concat_map_nil [simp]: "concat (map (\<lambda>_. []) xs) = []"
  by (induction xs) auto

lemma links_of_append [simp]: "links_of (xs @ ys) = links_of xs @ links_of ys"
  by (simp add: links_of_def)

lemma parents_of_append [simp]: "parents_of (xs @ ys) = parents_of xs @ parents_of ys"
  by (simp add: parents_of_def)

lemma fresh_refs_append:
  "fresh_refs k (xs @ ys) \<longleftrightarrow> fresh_refs k xs \<and> fresh_refs (k \<union> (set xs - {[]})) ys"
  by (auto simp: fresh_refs_def)

lemma gathers_id: "gathers [] [] True (\<lambda>w. w)"
  by (simp add: gathers_def links_of_def parents_of_def fresh_refs_def)

lemma gathers_comp:
  assumes "gathers ns gs ok f" "gathers ns' gs' ok' g"
  shows "gathers (ns @ ns') (gs @ gs') (ok \<and> ok') (\<lambda>w. g (f w))"
  using assms unfolding gathers_def
  by (simp add: fresh_refs_append image_Un Un_Diff Un_assoc conj_ac)

lemma gathers_fold:
  assumes "\<And>x. x \<in> set xs \<Longrightarrow> gathers (ns x) (gs x) (ok x) (f x)"
  shows "gathers (concat (map ns xs)) (concat (map gs xs)) (\<forall>x \<in> set xs. ok x) (fold f xs)"
  using assms
proof (induction xs)
  case Nil
  show ?case using gathers_id by (simp add: id_def)
next
  case (Cons x xs)
  have "gathers (ns x @ concat (map ns xs)) (gs x @ concat (map gs xs)) (ok x \<and> (\<forall>x \<in> set xs. ok x))
          (\<lambda>w. fold f xs (f x w))"
    using Cons by (intro gathers_comp) auto
  then show ?case by (simp add: comp_def)
qed

lemma gathers_ok: "gathers ns gs ok f \<Longrightarrow> ok = ok' \<Longrightarrow> gathers ns gs ok' f"
  by simp

lemma gathers_collect:
  "gathers [i] [] True (collect (self_of i) (child_refs i) (parent_link i))"
  by (auto simp: gathers_def collect_def report_def links_of_def parents_of_def fresh_refs_def Let_def
      split: option.splits)

lemma gathers_group: "gathers [g] [] True (walk_group g)"
  using gathers_collect[of g] by (simp add: walk_group_def self_of_def)

lemma gathers_prov: "gathers [] [] (\<forall>p \<in> set ps. \<not> unplaced p) (check_prov owner ps)"
proof -
  have "gathers [] [] (\<not> unplaced p) (\<lambda>w. if unplaced p then report (prov_error owner p) w else w)" for p
    by (simp add: gathers_def report_def links_of_def parents_of_def fresh_refs_def)
  from gathers_fold[of ps "\<lambda>_. []" "\<lambda>_. []", OF this] show ?thesis
    by (simp add: check_prov_def)
qed


lemma gathers_item: "gathers [i] [] (placed i) (walk_item i)"
  using gathers_comp[OF gathers_collect[of i] gathers_prov[of "get_list ''prov'' i" "self_of i"]]
  by (simp add: walk_item_def[abs_def] self_of_def placed_def)

lemma gathers_cell: "gathers [] (cell_item_refs c) (cell_placed c) (collect_cell owner c)"
  by (auto simp: gathers_def collect_cell_def report_def links_of_def parents_of_def fresh_refs_def
      cell_item_refs_def cell_placed_def Let_def split: option.splits)

lemma gathers_form_item:
  "gathers [i] (concat (map cell_item_refs (graph_cells i))) (placed i \<and> (\<forall>c \<in> set (graph_cells i). cell_placed c))
     (walk_form_item i)"
proof -
  have "gathers [] (concat (map cell_item_refs (graph_cells i))) (\<forall>c \<in> set (graph_cells i). cell_placed c)
          (collect_graph (self_of i) (sub_or_default ''graph'' i))"
    using gathers_fold[of "graph_cells i" "\<lambda>_. []" cell_item_refs cell_placed "collect_cell (self_of i)", OF gathers_cell]
    by (simp add: collect_graph_def graph_cells_def)
  from gathers_comp[OF gathers_item[of i] this] show ?thesis
    by (simp add: walk_form_item_def[abs_def] self_of_def)
qed

lemma gathers_text:
  "gathers (case text_payload t of None \<Rightarrow> [] | Some i \<Rightarrow> [i]) []
     (case text_payload t of None \<Rightarrow> False | Some i \<Rightarrow> placed i) (walk_text t)"
proof (cases "text_payload t")
  case None
  then have "walk_text t = report ''text item with unset variant''"
    by (auto simp: text_payload_def walk_text_def split: if_splits)
  then show ?thesis
    by (simp add: None gathers_def report_def links_of_def parents_of_def fresh_refs_def)
next
  case (Some i)
  then have "walk_text t = walk_item i"
    by (auto simp: text_payload_def walk_text_def split: if_splits)
  then show ?thesis using gathers_item Some by simp
qed

lemma map_filter_concat:
  "concat (map (\<lambda>t. case f t of None \<Rightarrow> [] | Some i \<Rightarrow> [i]) ts) = List.map_filter f ts"
  by (induction ts) (auto simp: List.map_filter_simps split: option.splits)

lemma all_placed_texts:
  "(\<forall>t \<in> set ts. case f t of None \<Rightarrow> False | Some i \<Rightarrow> P i)
     \<longleftrightarrow> (\<forall>t \<in> set ts. f t \<noteq> None) \<and> (\<forall>i \<in> set (List.map_filter f ts). P i)"
  by (induction ts) (auto simp: List.map_filter_simps split: option.splits)

lemma gathers_texts:
  "gathers (List.map_filter text_payload (get_list ''texts'' d)) []
     ((\<forall>t \<in> set (get_list ''texts'' d). text_payload t \<noteq> None)
      \<and> (\<forall>i \<in> set (List.map_filter text_payload (get_list ''texts'' d)). placed i)) (walk_texts d)"
  using gathers_fold[of "get_list ''texts'' d" "\<lambda>t. case text_payload t of None \<Rightarrow> [] | Some i \<Rightarrow> [i]" "\<lambda>_. []"
      "\<lambda>t. case text_payload t of None \<Rightarrow> False | Some i \<Rightarrow> placed i" walk_text, OF gathers_text]
  by (simp add: walk_texts_def map_filter_concat all_placed_texts)

lemma gathers_items: "gathers is [] (\<forall>i \<in> set is. placed i) (fold walk_item is)"
  using gathers_fold[of "is" "\<lambda>i. [i]" "\<lambda>_. []" placed walk_item, OF gathers_item] by simp

lemma gathers_groups: "gathers gs [] True (fold walk_group gs)"
  using gathers_fold[of gs "\<lambda>g. [g]" "\<lambda>_. []" "\<lambda>_. True" walk_group, OF gathers_group] by simp

lemma gathers_form_items:
  "gathers is (concat (map (\<lambda>i. concat (map cell_item_refs (graph_cells i))) is))
     ((\<forall>i \<in> set is. placed i) \<and> (\<forall>i \<in> set is. \<forall>c \<in> set (graph_cells i). cell_placed c)) (fold walk_form_item is)"
  using gathers_fold[of "is" "\<lambda>i. [i]" _ _ walk_form_item, OF gathers_form_item] by (simp add: ball_conj_distrib)

definition form_cell_refs :: "msg \<Rightarrow> string list" where
  "form_cell_refs d = concat (map (\<lambda>i. concat (map cell_item_refs (graph_cells i))) (form_like d))"

definition items_sound :: "msg \<Rightarrow> bool" where
  "items_sound d =
     ((\<forall>t \<in> set (get_list ''texts'' d). text_payload t \<noteq> None) \<and> (\<forall>i \<in> set (placed_items d). placed i)
      \<and> (\<forall>i \<in> set (form_like d). \<forall>c \<in> set (graph_cells i). cell_placed c))"

definition walk_items :: "msg \<Rightarrow> walk \<Rightarrow> walk" where
  "walk_items d w =
     walk_form_arenas d (fold walk_item (get_list ''tables'' d) (fold walk_item (get_list ''pictures'' d)
       (walk_texts d (fold walk_group (get_list ''groups'' d) w))))"

lemma gathers_arenas:
  "gathers (form_like d @ get_list ''field_regions'' d @ get_list ''field_items'' d) (form_cell_refs d)
     ((\<forall>i \<in> set (form_like d @ get_list ''field_regions'' d @ get_list ''field_items'' d). placed i)
      \<and> (\<forall>i \<in> set (form_like d). \<forall>c \<in> set (graph_cells i). cell_placed c)) (walk_form_arenas d)"
proof -
  note forms = gathers_comp[OF gathers_form_items[of "get_list ''key_value_items'' d"]
      gathers_form_items[of "get_list ''form_items'' d"]]
  note all = gathers_comp[OF gathers_comp[OF forms gathers_items[of "get_list ''field_regions'' d"]]
      gathers_items[of "get_list ''field_items'' d"]]
  have "walk_form_arenas d = (\<lambda>w. fold walk_item (get_list ''field_items'' d)
       (fold walk_item (get_list ''field_regions'' d)
         (fold walk_form_item (get_list ''form_items'' d)
           (fold walk_form_item (get_list ''key_value_items'' d) w))))"
    by (simp add: walk_form_arenas_def fun_eq_iff)
  then show ?thesis
    using gathers_ok[OF all] by (simp add: form_cell_refs_def form_like_def ball_Un conj_ac)
qed

lemma gathers_walk: "gathers (linked_items d) (form_cell_refs d) (items_sound d) (walk_items d)"
proof -
  note all = gathers_comp[OF gathers_comp[OF gathers_comp[OF gathers_comp[OF
      gathers_groups[of "get_list ''groups'' d"] gathers_texts[of d]]
      gathers_items[of "get_list ''pictures'' d"]] gathers_items[of "get_list ''tables'' d"]] gathers_arenas[of d]]
  have "walk_items d = (\<lambda>w. walk_form_arenas d (fold walk_item (get_list ''tables'' d)
       (fold walk_item (get_list ''pictures'' d) (walk_texts d (fold walk_group (get_list ''groups'' d) w)))))"
    by (simp add: walk_items_def fun_eq_iff)
  then show ?thesis
    using gathers_ok[OF all] by (simp add: linked_items_def placed_items_def items_sound_def ball_Un conj_ac)
qed

subsection \<open>What a part of the walk checks\<close>

definition checks :: "(string set \<Rightarrow> (string \<times> string) set \<Rightarrow> bool) \<Rightarrow> (walk \<Rightarrow> walk) \<Rightarrow> bool" where
  "checks P f =
     (\<forall>w. known_refs (f w) = known_refs w \<and> child_links (f w) = child_links w
        \<and> parent_links (f w) = parent_links w \<and> graph_item_refs (f w) = graph_item_refs w
        \<and> (errors (f w) = [] \<longleftrightarrow> errors w = [] \<and> P (known_refs w) (set (child_links w))))"

lemma checks_id: "checks (\<lambda>_ _. True) (\<lambda>w. w)"
  by (simp add: checks_def)

lemma checks_comp: "checks P f \<Longrightarrow> checks Q g \<Longrightarrow> checks (\<lambda>k c. P k c \<and> Q k c) (\<lambda>w. g (f w))"
  by (simp add: checks_def)

lemma checks_fold:
  assumes "\<And>x. x \<in> set xs \<Longrightarrow> checks (P x) (f x)"
  shows "checks (\<lambda>k c. \<forall>x \<in> set xs. P x k c) (fold f xs)"
  using assms
proof (induction xs)
  case Nil
  show ?case using checks_id by (simp add: id_def)
next
  case (Cons x xs)
  have "checks (\<lambda>k c. P x k c \<and> (\<forall>x \<in> set xs. P x k c)) (\<lambda>w. fold f xs (f x w))"
    using Cons by (intro checks_comp) auto
  then show ?case by (simp add: comp_def)
qed

lemma checks_errors:
  "checks P f \<Longrightarrow> errors (f w) = [] \<longleftrightarrow> errors w = [] \<and> P (known_refs w) (set (child_links w))"
  by (simp add: checks_def)

lemma checks_keeps:
  assumes "checks P f"
  shows "known_refs (f w) = known_refs w" "child_links (f w) = child_links w"
    "parent_links (f w) = parent_links w" "graph_item_refs (f w) = graph_item_refs w"
  using assms by (simp_all add: checks_def)

lemma checks_child: "checks (\<lambda>k c. snd l \<in> k) (check_child l)"
  by (simp add: checks_def check_child_def report_def)

lemma checks_parent: "checks (\<lambda>k c. snd l \<in> k \<and> (snd l, fst l) \<in> c) (check_parent l)"
  by (cases l) (simp add: checks_def check_parent_def report_def)

lemma checks_resolves: "checks (\<lambda>k c. r \<in> k) (check_resolves r what)"
  by (simp add: checks_def check_resolves_def report_def)

lemma checks_comments: "checks (\<lambda>k c. set (comment_refs i) \<subseteq> k) (check_comments i)"
  using checks_fold[of "get_list ''comments'' i" "\<lambda>m k c. get_string ''ref'' m \<in> k"
      "\<lambda>m. check_resolves (get_string ''ref'' m)
        (''comment ref '' @ get_string ''ref'' m @ '' of '' @ get_string ''self_ref'' i)", OF checks_resolves]
  by (simp add: check_comments_def comment_refs_def image_subset_iff)

lemma checks_target:
  assumes "\<And>w. f w = (case get_sub ''target'' s of None \<Rightarrow> w | Some t \<Rightarrow> check_resolves (get_string ''ref'' t) (what t) w)"
  shows "checks (\<lambda>k c. set (target_refs s) \<subseteq> k) f"
proof (cases "get_sub ''target'' s")
  case None
  then show ?thesis using assms by (simp add: checks_def target_refs_def)
next
  case (Some t)
  then have "f = check_resolves (get_string ''ref'' t) (what t)" using assms by (simp add: fun_eq_iff)
  then show ?thesis using checks_resolves Some by (simp add: target_refs_def)
qed

lemma checks_span: "checks (\<lambda>k c. set (target_refs s) \<subseteq> k) (check_span base s)"
  by (rule checks_target) (simp add: check_span_def)

lemma checks_anchor: "checks (\<lambda>k c. set (target_refs s) \<subseteq> k) (check_anchor kind name s)"
  by (rule checks_target) (simp add: check_anchor_def)

lemma checks_text: "checks (\<lambda>k c. set (text_anchors t) \<subseteq> k) (check_text t)"
proof (cases "text_base t")
  case None
  then show ?thesis by (simp add: checks_def check_text_def text_anchors_def)
next
  case (Some b)
  from checks_comp[OF checks_comments[of b] checks_fold[of "get_list ''spans'' b", OF checks_span]] Some show ?thesis
    by (simp add: check_text_def[abs_def] text_anchors_def UN_subset_iff)
qed

lemma checks_links:
  "checks (\<lambda>k c. (\<forall>l \<in> set cs. snd l \<in> k) \<and> (\<forall>l \<in> set ps. snd l \<in> k \<and> (snd l, fst l) \<in> c))
     (\<lambda>w. fold check_parent ps (fold check_child cs w))"
  by (rule checks_comp[OF checks_fold[OF checks_child] checks_fold[OF checks_parent]])

lemma checks_anchored:
  "checks (\<lambda>k c. set (concat (map comment_refs (get_list ''tables'' d))) \<subseteq> k \<and> snd ` set gs \<subseteq> k
      \<and> set (concat (map text_anchors (get_list ''texts'' d))) \<subseteq> k
      \<and> set (concat (map target_refs (get_list ''changes'' d))) \<subseteq> k
      \<and> set (concat (map target_refs (get_list ''anchors'' d))) \<subseteq> k)
     (\<lambda>w. fold (check_anchor ''anchor'' ''name'') (get_list ''anchors'' d)
        (fold (check_anchor ''change'' ''id'') (get_list ''changes'' d)
          (fold check_text (get_list ''texts'' d)
            (fold (\<lambda>(owner, ref). check_resolves ref (''graph cell item_ref '' @ ref @ '' of '' @ owner)) gs
              (fold check_comments (get_list ''tables'' d) w)))))"
proof -
  have cells: "checks (\<lambda>k c. \<forall>g \<in> set gs. snd g \<in> k)
      (fold (\<lambda>(owner, ref). check_resolves ref (''graph cell item_ref '' @ ref @ '' of '' @ owner)) gs)"
    by (rule checks_fold) (auto simp: checks_resolves)
  note all = checks_comp[OF checks_comp[OF checks_comp[OF checks_comp[OF
      checks_fold[of "get_list ''tables'' d", OF checks_comments] cells]
      checks_fold[of "get_list ''texts'' d", OF checks_text]]
      checks_fold[of "get_list ''changes'' d", OF checks_anchor]] checks_fold[of "get_list ''anchors'' d", OF checks_anchor]]
  show ?thesis using all by (simp add: UN_subset_iff image_subset_iff conj_ac)
qed

subsection \<open>The walk accepts exactly the well-linked documents\<close>

definition walk_start :: "msg \<Rightarrow> walk" where
  "walk_start d =
     walk_root ''#/furniture'' ''furniture'' d
       (walk_root ''#/body'' ''body'' d
         \<lparr>errors = [], known_refs = fixed_refs d, parent_links = [], child_links = [], graph_item_refs = [],
          parent_problems = []\<rparr>)"

lemma reference_walk_stages: "reference_walk d = walk_items d (walk_start d)"
  by (simp add: reference_walk_def walk_items_def walk_start_def walk_roots_def fixed_refs_def Let_def)

lemma walk_start_simps [simp]:
  "errors (walk_start d) = []" "known_refs (walk_start d) = fixed_refs d" "parent_links (walk_start d) = []"
  "graph_item_refs (walk_start d) = []"
  "child_links (walk_start d) =
     map (Pair ''#/body'') (child_refs (sub_or_default ''body'' d))
     @ map (Pair ''#/furniture'') (child_refs (sub_or_default ''furniture'' d))"
  by (simp_all add: walk_start_def walk_root_def)

lemma reference_walk_gathers:
  "known_refs (reference_walk d) = fixed_refs d \<union> (self_of ` set (linked_items d) - {[]})"
  "child_links (reference_walk d) = child_links (walk_start d) @ links_of (linked_items d)"
  "parent_links (reference_walk d) = parents_of (linked_items d)"
  "map snd (graph_item_refs (reference_walk d)) = form_cell_refs d"
  "errors (reference_walk d) = [] \<longleftrightarrow> fresh_refs (fixed_refs d) (map self_of (linked_items d)) \<and> items_sound d"
  using gathers_walk[of d] by (simp_all add: gathers_def reference_walk_stages)

lemma check_anchored_stages:
  "check_anchored d w =
     fold (check_anchor ''anchor'' ''name'') (get_list ''anchors'' d)
        (fold (check_anchor ''change'' ''id'') (get_list ''changes'' d)
          (fold check_text (get_list ''texts'' d)
            (fold (\<lambda>(owner, ref). check_resolves ref (''graph cell item_ref '' @ ref @ '' of '' @ owner))
              (graph_item_refs w) (fold check_comments (get_list ''tables'' d) w))))"
  using checks_keeps(4)[OF checks_fold[of "get_list ''tables'' d", OF checks_comments]]
  by (simp add: check_anchored_def Let_def)

lemma check_anchored_errors:
  "errors (check_anchored d w) = [] \<longleftrightarrow>
     errors w = [] \<and> set (concat (map comment_refs (get_list ''tables'' d))) \<subseteq> known_refs w
      \<and> snd ` set (graph_item_refs w) \<subseteq> known_refs w
      \<and> set (concat (map text_anchors (get_list ''texts'' d))) \<subseteq> known_refs w
      \<and> set (concat (map target_refs (get_list ''changes'' d))) \<subseteq> known_refs w
      \<and> set (concat (map target_refs (get_list ''anchors'' d))) \<subseteq> known_refs w"
  by (simp only: check_anchored_stages checks_errors[OF checks_anchored])

lemma nonempty_selfs:
  assumes "fresh_refs k (map self_of ns)"
  shows "filter (\<lambda>n. self_of n \<noteq> []) ns = ns" "self_of ` set ns - {[]} = self_of ` set ns"
  using assms by (auto simp: fresh_refs_def filter_id_conv image_iff)

lemma set_links_of:
  "fresh_refs k (map self_of ns) \<Longrightarrow> set (links_of ns) = (\<Union>i \<in> set ns. Pair (self_of i) ` set (child_refs i))"
  by (simp add: links_of_def nonempty_selfs)

lemma all_parents_of:
  "fresh_refs k (map self_of ns) \<Longrightarrow>
   (\<forall>l \<in> set (parents_of ns). Q (fst l) (snd l))
     \<longleftrightarrow> (\<forall>i \<in> set ns. case parent_link i of None \<Rightarrow> True | Some p \<Rightarrow> Q (self_of i) p)"
  by (auto simp: parents_of_def nonempty_selfs split: option.splits)

lemma anchored_refs_parts:
  "set (anchored_refs d) \<subseteq> K \<longleftrightarrow>
     set (concat (map comment_refs (get_list ''tables'' d))) \<subseteq> K \<and> set (form_cell_refs d) \<subseteq> K
      \<and> set (concat (map text_anchors (get_list ''texts'' d))) \<subseteq> K
      \<and> set (concat (map target_refs (get_list ''changes'' d))) \<subseteq> K
      \<and> set (concat (map target_refs (get_list ''anchors'' d))) \<subseteq> K"
  by (simp add: anchored_refs_def form_cell_refs_def)

lemma no_errors_iff:
  "docling_integrity_errors d = [] \<longleftrightarrow>
     errors (reference_walk d) = []
     \<and> (\<forall>l \<in> set (child_links (reference_walk d)). snd l \<in> known_refs (reference_walk d))
     \<and> (\<forall>l \<in> set (parent_links (reference_walk d)). snd l \<in> known_refs (reference_walk d)
          \<and> (snd l, fst l) \<in> set (child_links (reference_walk d)))
     \<and> set (anchored_refs d) \<subseteq> known_refs (reference_walk d)"
proof -
  let ?w = "reference_walk d"
  let ?cs = "sort (remdups (child_links ?w))"
  note links = checks_links[of ?cs "parent_links ?w"]
  have "snd ` set (graph_item_refs ?w) = set (form_cell_refs d)"
    by (simp flip: reference_walk_gathers(4))
  then show ?thesis
    unfolding docling_integrity_errors_def check_anchored_errors check_links_def
    by (simp add: checks_errors[OF links] checks_keeps[OF links] anchored_refs_parts conj_ac del: set_concat)
qed

lemma well_linked_parts:
  "well_linked d \<longleftrightarrow>
     fresh_refs (fixed_refs d) (map self_of (linked_items d)) \<and> items_sound d
     \<and> (\<forall>l \<in> listed d. snd l \<in> destinations d)
     \<and> (\<forall>i \<in> set (linked_items d). case parent_link i of None \<Rightarrow> True
          | Some p \<Rightarrow> p \<in> destinations d \<and> (p, self_of i) \<in> listed d)
     \<and> set (anchored_refs d) \<subseteq> destinations d"
  unfolding well_linked_def items_sound_def by (auto simp only: case_prod_unfold)

text \<open>
  C26. The integrity check reports nothing exactly for the well-linked
  documents: every text has its variant, the references of the items are
  non-empty, pairwise different and none of a root's or page's, every page
  locator is on a 1-based page, every listed child resolves, every parent
  claimed resolves and lists the item that claims it, and every comment, graph
  cell, span target, change target and anchor target resolves.
\<close>

theorem integrity_accepts_well_linked: "docling_integrity_errors d = [] \<longleftrightarrow> well_linked d"
proof (cases "fresh_refs (fixed_refs d) (map self_of (linked_items d))")
  case True
  have "set (child_links (reference_walk d)) = listed d"
    by (simp add: reference_walk_gathers listed_def set_links_of[OF True] Un_assoc)
  moreover have "known_refs (reference_walk d) = destinations d"
    by (simp add: reference_walk_gathers destinations_def nonempty_selfs[OF True])
  ultimately show ?thesis
    unfolding no_errors_iff well_linked_parts
    by (simp add: reference_walk_gathers(3,5) True
        all_parents_of[OF True, of "\<lambda>c p. p \<in> destinations d \<and> (p, c) \<in> listed d"])
qed (simp add: no_errors_iff well_linked_parts reference_walk_gathers)

end
