(* ===== verification/RepairOptions.thy ===== *)
theory RepairOptions
  imports Complex_Main
begin

text \<open>The switches and thresholds of the repair pass (\<^verbatim>\<open>RepairOptions\<close> in
  \<^verbatim>\<open>src/include/grparse/document_repair.h\<close>) and their defaults.\<close>

record repair_options =
  demotes_furniture :: bool
  rejoins_hyphens :: bool
  merges_continuations :: bool
  infers_headings :: bool
  orders_body :: bool
  splits_paragraphs :: bool
  geometry_collectors :: "string list"
  line_joined_collectors :: "string list"
  minimum_repeat_pages :: int
  minimum_repeat_share :: rat
  band_fraction :: rat
  maximum_furniture_words :: int
  maximum_continuation_merges :: int
  log_report :: bool
  migrate_furniture :: bool
  repair_orphans :: bool
  wrap_children :: bool
  remove_groups :: bool

text \<open>The defaults; \<open>rnd\<close> rounds a decimal constant to the nearest \<^verbatim>\<open>double\<close>.\<close>

definition default_repairs :: "(rat \<Rightarrow> rat) \<Rightarrow> repair_options" where
  "default_repairs rnd =
     \<lparr>demotes_furniture = True, rejoins_hyphens = True, merges_continuations = True,
      infers_headings = True, orders_body = True, splits_paragraphs = True,
      geometry_collectors = [''pdf''], line_joined_collectors = [''pdf'', ''grparse'', ''vlm-convert''],
      minimum_repeat_pages = 3, minimum_repeat_share = rnd (2 / 5), band_fraction = rnd (3 / 25),
      maximum_furniture_words = 12, maximum_continuation_merges = 256, log_report = False,
      migrate_furniture = False, repair_orphans = False, wrap_children = False, remove_groups = False\<rparr>"

end
