(* ===== verification/StructureRequest.thy ===== *)
theory StructureRequest
  imports Structure Status RepairOptions
begin

text \<open>
  What a request asks of the structural rules and repairs
  (\<^verbatim>\<open>src/src/structure_validation.cpp\<close>): the options read, validated, turned into the
  repair options of the request, and applied to a finished document. \<open>wire_name\<close> is the
  generated \<^verbatim>\<open>StructureRule_Name\<close>, which is empty for a number outside the enum.
\<close>

subsection \<open>The request\<close>

definition get_nums :: "string \<Rightarrow> msg \<Rightarrow> int list" where
  "get_nums name m =
     (case field_of name m of
        Some (Repeated _ vs) \<Rightarrow> List.map_filter (\<lambda>v. case v of Num n \<Rightarrow> Some n | _ \<Rightarrow> None) vs
      | _ \<Rightarrow> [])"

definition validation_report :: int where "validation_report = 2"
definition validation_enforce :: int where "validation_enforce = 3"

record structure_request =
  validation :: int
  requested_rules :: "int list"
  repairs :: "msg option"
  requested_limits :: "msg option"

definition request_from :: "msg \<Rightarrow> structure_request" where
  "request_from options =
     \<lparr>validation = (if has_field ''structure_validation'' options then get_num ''structure_validation'' options else 0),
      requested_rules = get_nums ''structure_validation_rules'' options,
      repairs = get_sub ''structure_repairs'' options,
      requested_limits = get_sub ''structure_table_cell_limits'' options\<rparr>"

definition validates :: "structure_request \<Rightarrow> bool" where
  "validates r = (validation r = validation_report \<or> validation r = validation_enforce)"

definition repairs_anything :: "structure_request \<Rightarrow> bool" where
  "repairs_anything r =
     (case repairs r of
        None \<Rightarrow> False
      | Some s \<Rightarrow>
          get_bool ''migrate_furniture_tree'' s \<or> get_bool ''repair_referenced_orphans'' s
          \<or> get_bool ''wrap_list_children'' s \<or> get_bool ''remove_empty_groups'' s)"

definition validation_valid :: "int \<Rightarrow> bool" where
  "validation_valid v = (0 \<le> v \<and> v \<le> 3)"

definition rule_valid :: "int \<Rightarrow> bool" where
  "rule_valid r = (0 \<le> r \<and> r \<le> 11)"

definition rule_wire_name :: "(int \<Rightarrow> string) \<Rightarrow> int \<Rightarrow> string" where
  "rule_wire_name wire_name raw = (if wire_name raw = [] then signed_dec raw else wire_name raw)"

definition positive_limit :: "string \<Rightarrow> msg \<Rightarrow> string \<Rightarrow> status" where
  "positive_limit surface limits field =
     (let path = ''structure_table_cell_limits.'' @ field in
      if \<not> has_field field limits \<or> get_num field limits > 0 then ok_status
      else option_rejected path Reason_Out_Of_Range ''0'' (surface @ '': '' @ path @ '' must be at least 1''))"

definition validate_rules :: "(int \<Rightarrow> string) \<Rightarrow> string \<Rightarrow> int list \<Rightarrow> status" where
  "validate_rules wire_name surface raws =
     (case List.find (\<lambda>raw. \<not> rule_valid raw \<or> raw = 0) raws of
        None \<Rightarrow> ok_status
      | Some raw \<Rightarrow>
          plain_status Invalid
            (surface @ '' structure_validation_rules contains invalid value '' @ [CHR 0x27]
               @ rule_wire_name wire_name raw @ [CHR 0x27]))"

definition validate_limits :: "string \<Rightarrow> structure_request \<Rightarrow> status" where
  "validate_limits surface r =
     (case requested_limits r of
        None \<Rightarrow> ok_status
      | Some limits \<Rightarrow>
          if \<not> validates r
          then option_rejected ''structure_table_cell_limits'' Conflict []
                 (surface @ '': structure_table_cell_limits needs structure_validation REPORT or ENFORCE'')
          else and_status (positive_limit surface limits ''max_table_cells'')
                 (positive_limit surface limits ''max_total_table_cells''))"

definition validate_structure_request :: "(int \<Rightarrow> string) \<Rightarrow> string \<Rightarrow> structure_request \<Rightarrow> status" where
  "validate_structure_request wire_name surface r =
     (if \<not> validation_valid (validation r)
      then plain_status Invalid
             (surface @ '' structure_validation has invalid value '' @ [CHR 0x27] @ signed_dec (validation r) @ [CHR 0x27])
      else and_status (validate_rules wire_name surface (requested_rules r))
        (if requested_rules r \<noteq> [] \<and> \<not> validates r
         then plain_status Invalid
                (surface @ '': structure_validation_rules needs structure_validation REPORT or ENFORCE'')
         else validate_limits surface r))"

subsection \<open>The repairs a request runs\<close>

definition repair_for_request ::
  "(rat \<Rightarrow> rat) \<Rightarrow> repair_options option \<Rightarrow> structure_request \<Rightarrow> repair_options option" where
  "repair_for_request rnd server r =
     (if \<not> repairs_anything r then server
      else
        let base = (case server of
                      Some options \<Rightarrow> options
                    | None \<Rightarrow>
                        (default_repairs rnd)
                          \<lparr>demotes_furniture := False, rejoins_hyphens := False,
                           merges_continuations := False, infers_headings := False, orders_body := False,
                           splits_paragraphs := False\<rparr>);
            s = (case repairs r of None \<Rightarrow> Msg [] [] [] | Some s \<Rightarrow> s)
        in Some (base\<lparr>migrate_furniture := get_bool ''migrate_furniture_tree'' s,
                      repair_orphans := get_bool ''repair_referenced_orphans'' s,
                      wrap_children := get_bool ''wrap_list_children'' s,
                      remove_groups := get_bool ''remove_empty_groups'' s\<rparr>))"

subsection \<open>Checking a finished document\<close>

definition kListedFindings :: nat where "kListedFindings = 20"

record wire_finding =
  wire_rule :: int
  wire_self_ref :: string
  wire_related_ref :: "string option"
  wire_message :: string

definition wire_of :: "finding \<Rightarrow> wire_finding" where
  "wire_of f =
     \<lparr>wire_rule = rule_number (rule f), wire_self_ref = finding_ref f,
      wire_related_ref = (if related_ref f = [] then None else Some (related_ref f)), wire_message = message f\<rparr>"

definition limits_of :: "structure_request \<Rightarrow> cell_limits" where
  "limits_of r =
     (let number = (\<lambda>field default_limit. case requested_limits r of
                      None \<Rightarrow> default_limit
                    | Some limits \<Rightarrow> if has_field field limits then word_of_int (get_num field limits) else default_limit)
      in \<lparr>max_table_cells = number ''max_table_cells'' 1000000,
          max_total_table_cells = number ''max_total_table_cells'' 5000000\<rparr>)"

definition enforce_message :: "string \<Rightarrow> finding list \<Rightarrow> string" where
  "enforce_message surface fs =
     surface @ '': the document breaks '' @ to_dec (length fs) @ '' structural rule finding(s):''
     @ concat (map (\<lambda>f. [CHR 0x0A] @ structure_rule_name (rule f) @ '': '' @ message f) (take kListedFindings fs))
     @ (if length fs > kListedFindings
        then [CHR 0x0A] @ ''... and '' @ to_dec (length fs - kListedFindings) @ '' more'' else [])"

definition check_structure ::
  "labels \<Rightarrow> msg \<Rightarrow> structure_request \<Rightarrow> string \<Rightarrow> wire_finding list \<Rightarrow> status \<times> wire_finding list" where
  "check_structure ls d r surface findings =
     (if \<not> validates r then (ok_status, findings)
      else
        let fs = docling_structure_findings ls d (requested_rules r) (limits_of r) in
        if validation r = validation_enforce
        then if fs = [] then (ok_status, findings)
             else (plain_status Failed_Precondition (enforce_message surface fs), findings)
        else (ok_status, findings @ map wire_of fs))"

subsection \<open>A rule filter selects findings and nothing else\<close>

lemma filter_when_checked:
  assumes "\<forall>f \<in> set fs. rule f = r"
  shows "filter (\<lambda>f. checked rules (rule f)) (when_checked [] r fs) = when_checked rules r fs"
  using assms by (auto simp: when_checked_def checked_def filter_id_conv filter_empty_conv)

lemma rule_found [simp]: "rule (found r a b m) = r"
  by (simp add: found_def)

lemma rules_of_list_child: "\<forall>f \<in> set (list_child_findings views v). rule f = List_Group_Non_List_Item_Child"
  by (auto simp: list_child_findings_def List.map_filter_def split: option.splits if_splits)

lemma rules_of_list_item: "\<forall>f \<in> set (list_item_findings views v). rule f = List_Item_Outside_List_Group"
  by (auto simp: list_item_findings_def split: option.splits if_splits)

lemma rules_of_repeat_walk: "\<forall>f \<in> set (repeat_walk views stack visited). rule f = Repeated_Reference"
  by (induction views stack visited rule: repeat_walk.induct) (auto split: option.splits)

lemma rules_of_repeats: "\<forall>f \<in> set (repeat_findings views start). rule f = Repeated_Reference"
  using rules_of_repeat_walk by (auto simp: repeat_findings_def split: option.splits)

lemma rules_of_rich_cells: "\<forall>f \<in> set (rich_cell_findings views table seen cells). rule f = Rich_Cell_Not_Owned"
  by (induction views table seen cells rule: rich_cell_findings.induct) (auto simp: Let_def split: option.splits)

lemma filter_if_checked:
  assumes "\<forall>f \<in> set fs. rule f = r"
  shows "filter (\<lambda>f. checked rules (rule f)) (if c then when_checked [] r fs else []) = (if c then when_checked rules r fs else [])"
  using filter_when_checked [OF assms] by simp

lemma filter_concat_map: "filter P (concat (map g xs)) = concat (map (\<lambda>x. filter P (g x)) xs)"
  by (induction xs) auto

lemma filter_orphans:
  "filter (\<lambda>f. checked rules (rule f)) (orphan_findings [] problems v) = orphan_findings rules problems v"
  unfolding orphan_findings_def filter_concat_map
  by (intro arg_cong [where f = concat] map_cong refl) (simp add: filter_when_checked)

lemma filter_nodes:
  "filter (\<lambda>f. checked rules (rule f)) (node_findings [] views problems v) = node_findings rules views problems v"
  unfolding node_findings_def filter_append filter_orphans
    filter_if_checked [OF rules_of_list_child] filter_if_checked [OF rules_of_list_item]
  by (subst filter_if_checked) simp_all

lemma filter_tables:
  "filter (\<lambda>f. checked rules (rule f)) (table_findings [] views limits table) = table_findings rules views limits table"
  unfolding table_findings_def Let_def
  by (simp add: filter_when_checked filter_if_checked rules_of_rich_cells)

lemma rule_filter_selects:
  "docling_structure_findings ls d rules limits
     = filter (\<lambda>f. checked rules (rule f)) (docling_structure_findings ls d [] limits)"
  unfolding docling_structure_findings_def Let_def filter_append filter_concat_map filter_nodes filter_tables
  by (simp add: filter_when_checked filter_if_checked rules_of_repeats ball_Un image_iff)

text \<open>
  A check reports exactly the findings of the rules it was asked for, in the
  order of the full check: REPORT appends them to the findings already there and
  succeeds, ENFORCE fails with FAILED_PRECONDITION exactly when there is one and
  adds none, and any other mode neither fails nor adds.
\<close>

theorem check_structure_selects:
  "(let fs = filter (\<lambda>f. requested_rules r = [] \<or> rule_number (rule f) \<in> set (requested_rules r))
               (docling_structure_findings ls d [] (limits_of r));
        (result, reported) = check_structure ls d r surface findings
    in if validation r = validation_report then succeeds result \<and> reported = findings @ map wire_of fs
       else if validation r = validation_enforce
       then reported = findings \<and> status_of result = (if fs = [] then Status_Ok else Failed_Precondition)
       else succeeds result \<and> reported = findings)"
  unfolding check_structure_def rule_filter_selects [of ls d "requested_rules r"] checked_def [symmetric]
  by (simp add: Let_def validates_def validation_report_def validation_enforce_def plain_status_def ok_status_def
      succeeds_def checked_def [abs_def])

end
