(* ===== verification/DocumentGeometry.thy ===== *)
theory DocumentGeometry
  imports StreamDelta
begin

text \<open>
  Where the items of a finished document sit
  (\<^verbatim>\<open>src/src/document_geometry.cpp\<close>): the heights of the pages, the placement of
  an item or a group on its first page, and who produced the items. The result of every
  operation on a \<^verbatim>\<open>double\<close> is rounded by the parameter \<open>rnd\<close>; a \<^verbatim>\<open>double\<close> in a message is
  finite in the model, so the finiteness test of \<^verbatim>\<open>union_on_page\<close> always passes here.
\<close>

subsection \<open>Labels\<close>

definition label_unspecified :: int where "label_unspecified = 0"
definition label_caption :: int where "label_caption = 1"
definition label_footnote :: int where "label_footnote = 8"
definition label_page_footer :: int where "label_page_footer = 15"
definition label_page_header :: int where "label_page_header = 16"
definition label_picture :: int where "label_picture = 18"
definition label_table :: int where "label_table = 21"
definition origin_bottom_left :: int where "origin_bottom_left = 2"

lemmas label_defs = label_unspecified_def label_caption_def label_footnote_def label_page_footer_def
  label_page_header_def label_picture_def label_table_def

subsection \<open>Boxes\<close>

record top_down_box =
  left_side :: rat
  top_side :: rat
  right_side :: rat
  bottom_side :: rat

record item_placement =
  page_of :: int
  page_box :: top_down_box

type_synonym heights = "int \<Rightarrow> rat option"

definition td_width :: "(rat \<Rightarrow> rat) \<Rightarrow> top_down_box \<Rightarrow> rat" where
  "td_width rnd b = rnd (right_side b - left_side b)"

definition td_height :: "(rat \<Rightarrow> rat) \<Rightarrow> top_down_box \<Rightarrow> rat" where
  "td_height rnd b = rnd (bottom_side b - top_side b)"

definition grow :: "top_down_box \<Rightarrow> top_down_box option \<Rightarrow> top_down_box option" where
  "grow other box =
     (case box of
        None \<Rightarrow> Some other
      | Some b \<Rightarrow>
          Some \<lparr>left_side = min (left_side b) (left_side other), top_side = min (top_side b) (top_side other),
                right_side = max (right_side b) (right_side other), bottom_side = max (bottom_side b) (bottom_side other)\<rparr>)"

definition make_top_down :: "(rat \<Rightarrow> rat) \<Rightarrow> msg \<Rightarrow> rat \<Rightarrow> top_down_box" where
  "make_top_down rnd box page_height =
     (let l = get_dbl ''l'' box; r = get_dbl ''r'' box; t = get_dbl ''t'' box; b = get_dbl ''b'' box in
      if get_num ''coord_origin'' box = origin_bottom_left
      then \<lparr>left_side = min l r, top_side = rnd (page_height - max t b), right_side = max l r,
            bottom_side = rnd (page_height - min t b)\<rparr>
      else \<lparr>left_side = min l r, top_side = min t b, right_side = max l r, bottom_side = max t b\<rparr>)"

definition add_box :: "(rat \<Rightarrow> rat) \<Rightarrow> int \<Rightarrow> rat \<Rightarrow> msg \<Rightarrow> top_down_box option \<Rightarrow> top_down_box option" where
  "add_box rnd page page_height entry box =
     (case get_sub ''bbox'' entry of
        None \<Rightarrow> box
      | Some bbox \<Rightarrow>
          if get_num ''page_no'' entry \<noteq> page then box
          else
            let candidate = make_top_down rnd bbox page_height in
            if td_width rnd candidate \<le> 0 \<or> td_height rnd candidate \<le> 0 then box else grow candidate box)"

definition union_on_page :: "(rat \<Rightarrow> rat) \<Rightarrow> msg list \<Rightarrow> int \<Rightarrow> rat \<Rightarrow> top_down_box option" where
  "union_on_page rnd prov page page_height = fold (add_box rnd page page_height) prov None"

definition first_page_of :: "msg list \<Rightarrow> int" where
  "first_page_of prov =
     fold (\<lambda>entry page.
        let no = get_num ''page_no'' entry in if no > 0 \<and> (page = 0 \<or> no < page) then no else page) prov 0"

definition placement_of :: "(rat \<Rightarrow> rat) \<Rightarrow> heights \<Rightarrow> msg list \<Rightarrow> item_placement option" where
  "placement_of rnd page_heights prov =
     (let page = first_page_of prov in
      if page \<le> 0 then None
      else case page_heights page of
             None \<Rightarrow> None
           | Some height \<Rightarrow>
               map_option (\<lambda>b. \<lparr>page_of = page, page_box = b\<rparr>) (union_on_page rnd prov page height))"

subsection \<open>Items\<close>

definition arena_slot :: "string \<Rightarrow> (string \<times> nat) option" where
  "arena_slot ref =
     (if \<not> starts_with ref ''#/'' then None
      else
        let rest = drop 2 ref in
        case sfind ''/'' rest of
          None \<Rightarrow> None
        | Some slash \<Rightarrow>
            (case from_chars_int (drop (slash + 1) rest) of
               None \<Rightarrow> None
             | Some index \<Rightarrow> if index < 0 then None else Some (take slash rest, nat index)))"

definition text_node :: "msg \<Rightarrow> msg option" where
  "text_node item =
     (if text_variant item = Some ''code'' then Some (sub_or_default ''code'' item) else text_base_of item)"

definition leaf_placement :: "(rat \<Rightarrow> rat) \<Rightarrow> msg \<Rightarrow> heights \<Rightarrow> string \<Rightarrow> nat \<Rightarrow> item_placement option" where
  "leaf_placement rnd d page_heights a i =
     (if a = ''texts'' \<and> i < length (get_list ''texts'' d)
      then (case text_node (get_list ''texts'' d ! i) of
              None \<Rightarrow> None | Some node \<Rightarrow> placement_of rnd page_heights (get_list ''prov'' node))
      else if a = ''tables'' \<and> i < length (get_list ''tables'' d)
      then placement_of rnd page_heights (get_list ''prov'' (get_list ''tables'' d ! i))
      else if a = ''pictures'' \<and> i < length (get_list ''pictures'' d)
      then placement_of rnd page_heights (get_list ''prov'' (get_list ''pictures'' d ! i))
      else None)"

definition names_group :: "msg \<Rightarrow> string \<Rightarrow> nat option" where
  "names_group d ref =
     (case arena_slot ref of
        None \<Rightarrow> None
      | Some (a, i) \<Rightarrow> if a = ''groups'' \<and> i < length (get_list ''groups'' d) then Some i else None)"

definition other_placement :: "(rat \<Rightarrow> rat) \<Rightarrow> msg \<Rightarrow> heights \<Rightarrow> string \<Rightarrow> item_placement option" where
  "other_placement rnd d page_heights ref =
     (case arena_slot ref of None \<Rightarrow> None | Some (a, i) \<Rightarrow> leaf_placement rnd d page_heights a i)"

definition join_placement :: "item_placement option \<Rightarrow> item_placement option \<Rightarrow> item_placement option" where
  "join_placement member placement =
     (case member of
        None \<Rightarrow> placement
      | Some m \<Rightarrow>
          (case placement of
             None \<Rightarrow> member
           | Some p \<Rightarrow>
               if page_of m < page_of p then member
               else if page_of m = page_of p
               then map_option (\<lambda>b. p\<lparr>page_box := b\<rparr>) (grow (page_box m) (Some (page_box p)))
               else placement))"

text \<open>\<open>remaining\<close> is the number of nested groups the walk may still enter: 17 less the depth.\<close>

fun group_placement :: "nat \<Rightarrow> (rat \<Rightarrow> rat) \<Rightarrow> msg \<Rightarrow> heights \<Rightarrow> msg \<Rightarrow> item_placement option" where
  "group_placement 0 rnd d page_heights g = None"
| "group_placement (Suc remaining) rnd d page_heights g =
     fold (\<lambda>ref. join_placement
        (case names_group d ref of
           Some i \<Rightarrow> group_placement remaining rnd d page_heights (get_list ''groups'' d ! i)
         | None \<Rightarrow> other_placement rnd d page_heights ref))
       (child_refs g) None"

definition placement_in :: "(rat \<Rightarrow> rat) \<Rightarrow> msg \<Rightarrow> heights \<Rightarrow> string \<Rightarrow> item_placement option" where
  "placement_in rnd d page_heights ref =
     (case names_group d ref of
        Some i \<Rightarrow> group_placement 17 rnd d page_heights (get_list ''groups'' d ! i)
      | None \<Rightarrow> other_placement rnd d page_heights ref)"

definition item_label :: "msg \<Rightarrow> string \<Rightarrow> int" where
  "item_label d ref =
     (case arena_slot ref of
        None \<Rightarrow> label_unspecified
      | Some (a, i) \<Rightarrow>
          if a = ''texts'' \<and> i < length (get_list ''texts'' d)
          then (case text_node (get_list ''texts'' d ! i) of
                  None \<Rightarrow> label_unspecified | Some node \<Rightarrow> get_num ''label'' node)
          else if a = ''tables'' \<and> i < length (get_list ''tables'' d) then label_table
          else if a = ''pictures'' \<and> i < length (get_list ''pictures'' d) then label_picture
          else label_unspecified)"

subsection \<open>Pages and producers\<close>

definition note_extent :: "msg list \<Rightarrow> heights \<Rightarrow> heights" where
  "note_extent prov extents =
     fold (\<lambda>entry m.
        let page = get_num ''page_no'' entry in
        case get_sub ''bbox'' entry of
          None \<Rightarrow> m
        | Some bbox \<Rightarrow>
            if page \<le> 0 then m
            else
              let extent = (case m page of None \<Rightarrow> 0 | Some e \<Rightarrow> e)
              in m(page \<mapsto> max (max extent (get_dbl ''t'' bbox)) (get_dbl ''b'' bbox))) prov extents"

definition stated_heights :: "msg \<Rightarrow> heights" where
  "stated_heights d =
     fold (\<lambda>entry m.
        let height = get_dbl ''height'' (sub_or_default ''size'' (sub_or_default ''value'' entry))
        in if height > 0 then m(get_num ''key'' entry \<mapsto> height) else m) (get_list ''pages'' d) Map.empty"

definition note_text :: "msg \<Rightarrow> heights \<Rightarrow> heights" where
  "note_text item extents =
     (case text_node item of None \<Rightarrow> extents | Some node \<Rightarrow> note_extent (get_list ''prov'' node) extents)"

definition noted_extents :: "msg \<Rightarrow> heights" where
  "noted_extents d =
     fold (\<lambda>p. note_extent (get_list ''prov'' p)) (get_list ''pictures'' d)
       (fold (\<lambda>t. note_extent (get_list ''prov'' t)) (get_list ''tables'' d)
         (fold note_text (get_list ''texts'' d) Map.empty))"

definition document_page_heights :: "msg \<Rightarrow> heights" where
  "document_page_heights d =
     (\<lambda>page. case stated_heights d page of
        Some height \<Rightarrow> Some height
      | None \<Rightarrow>
          (case noted_extents d page of
             None \<Rightarrow> None
           | Some extent \<Rightarrow> if extent > 0 then Some extent else None))"

definition note_collectors :: "msg \<Rightarrow> string list" where
  "note_collectors item =
     map (get_string ''collector'') (List.map_filter (get_sub ''collector'') (get_list ''source'' item))"

definition produced_only_by :: "msg \<Rightarrow> string list \<Rightarrow> bool" where
  "produced_only_by d collectors =
     (let names = concat (map note_collectors
            (List.map_filter text_node (get_list ''texts'' d) @ get_list ''tables'' d @ get_list ''pictures'' d))
      in names \<noteq> [] \<and> set names \<subseteq> set collectors)"

subsection \<open>Placements are proper boxes\<close>

text \<open>What IEEE rounding promises: it keeps the order and it keeps zero.\<close>

definition rounds :: "(rat \<Rightarrow> rat) \<Rightarrow> bool" where
  "rounds rnd \<longleftrightarrow> mono rnd \<and> rnd 0 = 0"

definition proper :: "top_down_box \<Rightarrow> bool" where
  "proper b \<longleftrightarrow> left_side b < right_side b \<and> top_side b < bottom_side b"

lemma rounds_positive: "rounds rnd \<Longrightarrow> rnd x > 0 \<Longrightarrow> x > 0"
  unfolding rounds_def by (metis monoD not_le)

lemma positive_sides_proper:
  assumes "rounds rnd" "\<not> (td_width rnd b \<le> 0 \<or> td_height rnd b \<le> 0)"
  shows "proper b"
  using assms rounds_positive [of rnd "right_side b - left_side b"] rounds_positive [of rnd "bottom_side b - top_side b"]
  by (auto simp: proper_def td_width_def td_height_def)

lemma grow_proper: "proper c \<Longrightarrow> pred_option proper box \<Longrightarrow> pred_option proper (grow c box)"
  by (auto simp: grow_def proper_def min_def max_def split: option.splits)

lemma add_box_proper:
  assumes "rounds rnd" "pred_option proper box"
  shows "pred_option proper (add_box rnd page h entry box)"
  unfolding add_box_def Let_def
  using assms positive_sides_proper [OF assms(1)]
  by (auto split: option.split intro!: grow_proper simp del: option.pred_inject)

lemma union_on_page_proper:
  assumes "rounds rnd"
  shows "pred_option proper (union_on_page rnd prov page h)"
proof -
  have "pred_option proper box \<Longrightarrow> pred_option proper (fold (add_box rnd page h) prov box)" for box
    by (induction prov arbitrary: box) (auto intro: add_box_proper [OF assms])
  then show ?thesis by (simp add: union_on_page_def)
qed

abbreviation proper_placement :: "item_placement option \<Rightarrow> bool" where
  "proper_placement \<equiv> pred_option (\<lambda>p. page_of p > 0 \<and> proper (page_box p))"

lemma placement_of_proper: "rounds rnd \<Longrightarrow> proper_placement (placement_of rnd hs prov)"
  using union_on_page_proper [of rnd prov "first_page_of prov"]
  by (auto simp: placement_of_def Let_def option.pred_map comp_def split: option.splits
      intro: option.pred_mono_strong)

lemma leaf_placement_proper: "rounds rnd \<Longrightarrow> proper_placement (leaf_placement rnd d hs a i)"
  by (auto simp: leaf_placement_def placement_of_proper split: option.split)

lemma other_placement_proper: "rounds rnd \<Longrightarrow> proper_placement (other_placement rnd d hs ref)"
  by (auto simp: other_placement_def leaf_placement_proper split: option.split)

lemma join_placement_proper:
  "proper_placement m \<Longrightarrow> proper_placement p \<Longrightarrow> proper_placement (join_placement m p)"
  using grow_proper by (auto simp: join_placement_def grow_def proper_def min_def max_def split: option.splits)

lemma group_placement_proper: "rounds rnd \<Longrightarrow> proper_placement (group_placement n rnd d hs g)"
proof (induction n arbitrary: g)
  case (Suc n)
  note groups = Suc.IH [OF Suc.prems] and others = other_placement_proper [OF Suc.prems]
  show ?case
    unfolding group_placement.simps
  proof (rule fold_invariant [where Q = "\<lambda>_. True"])
    fix ref p assume "proper_placement p"
    then show "proper_placement (join_placement
        (case names_group d ref of
           Some i \<Rightarrow> group_placement n rnd d hs (get_list ''groups'' d ! i)
         | None \<Rightarrow> other_placement rnd d hs ref) p)"
      by (cases "names_group d ref") (simp_all only: option.case groups others join_placement_proper)
  qed simp_all
qed simp

lemma placement_in_proper: "rounds rnd \<Longrightarrow> proper_placement (placement_in rnd d hs ref)"
  by (auto simp: placement_in_def group_placement_proper other_placement_proper split: option.split)

end
