(* ===== verification/BodyOrder.thy ===== *)
theory BodyOrder
  imports DocumentGeometry ReadingOrder
begin

text \<open>
  The reading order of a finished document
  (\<^verbatim>\<open>src/src/document_reading_order.cpp\<close>): the body's children page by page, each page by
  the XY-cut of \<^verbatim>\<open>ReadingOrder\<close> over chains of children, list groups split around
  the floats that interrupt them, and pictures anchored by their place on the page.
  \<open>fuel\<close> bounds the nesting of the cut; the number of children is enough.
\<close>

subsection \<open>Chains\<close>

definition kItemCutPolicy :: cut_policy where
  "kItemCutPolicy = default_policy\<lparr>band_over_gutter := 2, gutter_side_share := 1 / 2\<rparr>"

record chain =
  placement :: "item_placement option"
  chain_label :: int
  positions :: "nat list"

definition is_furniture_label :: "int \<Rightarrow> bool" where
  "is_furniture_label label = (label = label_page_header \<or> label = label_page_footer)"

definition carries_no_followers :: "int \<Rightarrow> bool" where
  "carries_no_followers label = (is_furniture_label label \<or> label = label_footnote)"

definition is_float_label :: "int \<Rightarrow> bool" where
  "is_float_label label = (label = label_table \<or> label = label_picture)"

definition body_refs_of :: "msg \<Rightarrow> string list" where
  "body_refs_of d = child_refs (sub_or_default ''body'' d)"

definition ride :: "nat \<Rightarrow> chain \<Rightarrow> chain" where
  "ride position c = c\<lparr>positions := positions c @ [position]\<rparr>"

definition chain_step ::
  "(rat \<Rightarrow> rat) \<Rightarrow> msg \<Rightarrow> heights \<Rightarrow> nat \<Rightarrow> chain list \<times> nat option \<Rightarrow> chain list \<times> nat option" where
  "chain_step rnd d hs position state =
     (let (cs, last_main) = state;
          ref = body_refs_of d ! position;
          label = item_label d ref
      in case placement_in rnd d hs ref of
           None \<Rightarrow>
             (case last_main of
                Some k \<Rightarrow> (cs[k := ride position (cs ! k)], last_main)
              | None \<Rightarrow>
                  if cs \<noteq> [] \<and> placement (last cs) = None
                  then (butlast cs @ [ride position (last cs)], None)
                  else (cs @ [\<lparr>placement = None, chain_label = label, positions = [position]\<rparr>], None))
         | Some p \<Rightarrow>
             (cs @ [\<lparr>placement = Some p, chain_label = label, positions = [position]\<rparr>],
              if carries_no_followers label then last_main else Some (length cs)))"

definition build_chains :: "(rat \<Rightarrow> rat) \<Rightarrow> msg \<Rightarrow> heights \<Rightarrow> chain list" where
  "build_chains rnd d hs = fst (fold (chain_step rnd d hs) [0..<length (body_refs_of d)] ([], None))"

definition enough_geometry :: "chain list \<Rightarrow> nat list \<Rightarrow> bool" where
  "enough_geometry cs members =
     (let items = sum_list (map (\<lambda>i. length (positions (cs ! i))) members);
          placed = length (filter (\<lambda>i. placement (cs ! i) \<noteq> None) members)
      in items > 0 \<and> (of_nat placed :: rat) \<ge> 1 / 2 * of_nat items)"

text \<open>The box of a placed chain; the callers ask for no other.\<close>

definition chain_box :: "chain \<Rightarrow> top_down_box" where
  "chain_box c =
     (case placement c of
        None \<Rightarrow> \<lparr>left_side = 0, top_side = 0, right_side = 0, bottom_side = 0\<rparr>
      | Some p \<Rightarrow> page_box p)"

definition order_box_for :: "chain \<Rightarrow> order_box" where
  "order_box_for c =
     (let b = chain_box c
      in \<lparr>box_left = Some (left_side b), box_top = Some (top_side b),
          box_right = Some (right_side b), box_bottom = Some (bottom_side b)\<rparr>)"

definition chain_cut :: "(rat \<Rightarrow> rat) \<Rightarrow> chain list \<Rightarrow> nat \<Rightarrow> nat list \<Rightarrow> nat list option" where
  "chain_cut rnd cs fuel members =
     map_option (map (\<lambda>cut. members ! cut))
       (xy_cut_order rnd kItemCutPolicy (map (\<lambda>i. order_box_for (cs ! i)) members) fuel)"

subsection \<open>The order of a page\<close>

definition vertical_gap :: "(rat \<Rightarrow> rat) \<Rightarrow> top_down_box \<Rightarrow> top_down_box \<Rightarrow> rat" where
  "vertical_gap rnd box target =
     (if top_side box \<ge> bottom_side target then rnd (top_side box - bottom_side target)
      else if bottom_side box \<le> top_side target then rnd (top_side target - bottom_side box)
      else 0)"

definition caption_fits :: "(rat \<Rightarrow> rat) \<Rightarrow> top_down_box \<Rightarrow> top_down_box \<Rightarrow> bool" where
  "caption_fits rnd box target =
     (\<not> rnd (min (right_side box) (right_side target) - max (left_side box) (left_side target))
           < rnd (rnd (3 / 10) * td_width rnd box)
      \<and> \<not> vertical_gap rnd box target > rnd (3 / 2 * td_height rnd box))"

definition nearer :: "(rat \<Rightarrow> rat) \<Rightarrow> chain list \<Rightarrow> top_down_box \<Rightarrow> nat \<Rightarrow> (nat \<times> rat) option \<Rightarrow> (nat \<times> rat) option" where
  "nearer rnd cs box i best =
     (let target = chain_box (cs ! i); gap = vertical_gap rnd box target in
      if \<not> caption_fits rnd box target then best
      else case best of
             None \<Rightarrow> Some (i, gap)
           | Some (_, best_gap) \<Rightarrow> if gap < best_gap then Some (i, gap) else best)"

definition caption_target :: "(rat \<Rightarrow> rat) \<Rightarrow> chain list \<Rightarrow> nat list \<Rightarrow> nat \<Rightarrow> nat option" where
  "caption_target rnd cs floats caption =
     (let box = chain_box (cs ! caption) in
      if td_width rnd box \<le> 0 \<or> td_height rnd box \<le> 0 then None
      else map_option fst (fold (nearer rnd cs box) floats None))"

definition in_main :: "chain \<Rightarrow> bool" where
  "in_main c =
     (\<not> is_furniture_label (chain_label c) \<and> chain_label c \<noteq> label_footnote \<and> chain_label c \<noteq> label_caption)"

definition order_page :: "(rat \<Rightarrow> rat) \<Rightarrow> chain list \<Rightarrow> nat \<Rightarrow> nat list \<Rightarrow> nat list option" where
  "order_page rnd cs fuel members =
     (let furniture = filter (\<lambda>i. is_furniture_label (chain_label (cs ! i))) members;
          footnotes = filter (\<lambda>i. chain_label (cs ! i) = label_footnote) members;
          captions = filter (\<lambda>i. chain_label (cs ! i) = label_caption) members;
          main = filter (\<lambda>i. in_main (cs ! i)) members;
          floats = filter (\<lambda>i. is_float_label (chain_label (cs ! i))) main;
          target = caption_target rnd cs floats;
          main = main @ filter (\<lambda>c. target c = None) captions
      in case (chain_cut rnd cs fuel main, chain_cut rnd cs fuel footnotes,
               chain_cut rnd cs fuel furniture) of
           (Some body, Some notes, Some edges) \<Rightarrow>
             Some (concat (map (\<lambda>i. i # filter (\<lambda>c. target c = Some i) captions) body) @ notes @ edges)
         | _ \<Rightarrow> None)"

definition chain_page :: "chain \<Rightarrow> int" where
  "chain_page c = (case placement c of None \<Rightarrow> 0 | Some p \<Rightarrow> page_of p)"

definition page_members :: "chain list \<Rightarrow> int \<Rightarrow> nat list" where
  "page_members cs page = filter (\<lambda>i. chain_page (cs ! i) = page) [0..<length cs]"

definition page_order :: "(rat \<Rightarrow> rat) \<Rightarrow> chain list \<Rightarrow> nat \<Rightarrow> int \<Rightarrow> nat list option" where
  "page_order rnd cs fuel page =
     (let members = page_members cs page in
      if page \<noteq> 0 \<and> enough_geometry cs members then order_page rnd cs fuel members else Some members)"

definition body_reading_order :: "(rat \<Rightarrow> rat) \<Rightarrow> msg \<Rightarrow> nat \<Rightarrow> nat list option" where
  "body_reading_order rnd d fuel =
     (let cs = build_chains rnd d (document_page_heights d)
      in map_option (\<lambda>orders. concat (map (\<lambda>i. positions (cs ! i)) (concat orders)))
           (those (map (page_order rnd cs fuel) (sort (remdups (map chain_page cs))))))"

subsection \<open>The chains cover the body\<close>

definition chain_ok :: "(nat \<Rightarrow> item_placement option) \<Rightarrow> chain \<Rightarrow> bool" where
  "chain_ok pl c \<longleftrightarrow> positions c \<noteq> [] \<and> proper_placement (placement c)
     \<and> (\<forall>i \<in> set (positions c). pl i = None \<or> pl i = placement c)"

definition chains_ok :: "(nat \<Rightarrow> item_placement option) \<Rightarrow> nat list \<Rightarrow> chain list \<times> nat option \<Rightarrow> bool" where
  "chains_ok pl done state \<longleftrightarrow>
     mset (concat (map positions (fst state))) = mset done \<and> (\<forall>c \<in> set (fst state). chain_ok pl c)
     \<and> (\<forall>k. snd state = Some k \<longrightarrow> k < length (fst state))"

lemma positions_ride:
  "k < length cs \<Longrightarrow>
   mset (concat (map positions (cs[k := ride i (cs ! k)]))) = add_mset i (mset (concat (map positions cs)))"
  using mset_concat_added [of k "map positions cs" i] by (simp add: map_update ride_def)

lemma chain_ok_ride: "chain_ok pl c \<Longrightarrow> pl i = None \<Longrightarrow> chain_ok pl (ride i c)"
  by (auto simp: chain_ok_def ride_def)

lemma butlast_snoc_update: "cs \<noteq> [] \<Longrightarrow> butlast cs @ [c] = cs[length cs - 1 := c]"
  by (induction cs) (auto simp: Suc_le_eq split: nat.split dest!: gr0_implies_Suc)

lemma chains_ok_rode:
  assumes "chains_ok pl done (cs, last_main)" "k < length cs" "last_main' = last_main \<or> last_main' = None" "pl i = None"
  shows "chains_ok pl (done @ [i]) (cs[k := ride i (cs ! k)], last_main')"
  unfolding chains_ok_def fst_conv snd_conv positions_ride [OF assms(2)]
  using assms by (auto simp: chains_ok_def dest!: set_update_subset_insert [THEN subsetD] intro!: chain_ok_ride)

lemma chains_ok_new:
  assumes "chains_ok pl done (cs, last_main)" "proper_placement p" "pl i = None \<or> pl i = p" "last_main' = last_main \<or> last_main' = Some (length cs)"
  shows "chains_ok pl (done @ [i]) (cs @ [\<lparr>placement = p, chain_label = l, positions = [i]\<rparr>], last_main')"
  using assms by (auto simp: chains_ok_def chain_ok_def less_SucI)

lemma chain_step_ok:
  assumes "rounds rnd" "chains_ok pl done state" "pl i = placement_in rnd d hs (body_refs_of d ! i)"
  shows "chains_ok pl (done @ [i]) (chain_step rnd d hs i state)"
proof -
  obtain cs last_main where state: "state = (cs, last_main)" by (cases state)
  let ?ref = "body_refs_of d ! i"
  show ?thesis
  proof (cases "placement_in rnd d hs ?ref")
    case None
    show ?thesis
    proof (cases last_main)
      case (Some k)
      then show ?thesis
        using None assms(2,3) chains_ok_rode [of pl "done" cs last_main k last_main i]
        by (simp add: chain_step_def state chains_ok_def)
    next
      case no_main: None
      show ?thesis
      proof (cases "cs \<noteq> [] \<and> placement (last cs) = None")
        case True
        then have "chain_step rnd d hs i state = (cs[length cs - 1 := ride i (cs ! (length cs - 1))], None)"
          using True None no_main by (simp add: chain_step_def state butlast_snoc_update) (simp add: last_conv_nth)
        then show ?thesis using True assms(2,3) None state no_main chains_ok_rode [of pl "done" cs None "length cs - 1" None i] by simp
      next
        case False
        then have "chain_step rnd d hs i state
            = (cs @ [\<lparr>placement = None, chain_label = item_label d ?ref, positions = [i]\<rparr>], None)"
          using None no_main by (auto simp: chain_step_def state)
        then show ?thesis using assms(2,3) None state no_main chains_ok_new [of pl "done" cs None None i None] by simp
      qed
    qed
  next
    case (Some p)
    then have "proper_placement (Some p)" using placement_in_proper [OF assms(1), of d hs ?ref] by simp
    then show ?thesis
      using assms(2,3) chains_ok_new [of pl "done" cs last_main "Some p" i] by (simp add: chain_step_def state Some Let_def)
  qed
qed

definition placement_at :: "(rat \<Rightarrow> rat) \<Rightarrow> msg \<Rightarrow> nat \<Rightarrow> item_placement option" where
  "placement_at rnd d i = placement_in rnd d (document_page_heights d) (body_refs_of d ! i)"

lemma build_chains_ok:
  fixes d :: msg
  assumes "rounds rnd"
  defines "cs \<equiv> build_chains rnd d (document_page_heights d)"
  shows "mset (concat (map positions cs)) = mset [0..<length (body_refs_of d)]"
    and "\<forall>c \<in> set cs. chain_ok (placement_at rnd d) c"
proof -
  have "chains_ok (placement_at rnd d) [0..<n] (fold (chain_step rnd d (document_page_heights d)) [0..<n] ([], None))" for n
    by (induction n) (simp_all add: chains_ok_def [of _ "[]"] chain_step_ok [OF assms(1)] placement_at_def)
  from this [of "length (body_refs_of d)"]
  show "mset (concat (map positions cs)) = mset [0..<length (body_refs_of d)]"
    and "\<forall>c \<in> set cs. chain_ok (placement_at rnd d) c"
    by (simp_all add: chains_ok_def build_chains_def cs_def)
qed

subsection \<open>A page is read completely\<close>

lemma proper_order_box: "chain_ok pl c \<Longrightarrow> proper_box (order_box_for c)"
  by (auto simp: chain_ok_def proper_box_def order_box_for_def chain_box_def edge_def proper_def Let_def
      split: option.splits)

lemma finite_order_box: "finite_box (order_box_for c)"
  by (simp add: finite_box_def order_box_for_def Let_def)

lemma chain_cut_reads:
  assumes "\<forall>i \<in> set members. i < length cs" "\<forall>c \<in> set cs. chain_ok pl c" "length members < fuel"
  shows "\<exists>out. chain_cut rnd cs fuel members = Some out \<and> mset out = mset members"
proof -
  let ?boxes = "map (\<lambda>i. order_box_for (cs ! i)) members"
  have finite: "filter (\<lambda>i. finite_box (?boxes ! i)) [0..<length ?boxes] = [0..<length members]"
      "filter (\<lambda>i. \<not> finite_box (?boxes ! i)) [0..<length ?boxes] = []"
    by (auto simp: finite_order_box filter_id_conv filter_empty_conv)
  have "\<forall>i \<in> set [0..<length members]. proper_box (?boxes ! i)"
    using assms(1,2) by (auto intro!: proper_order_box)
  then obtain out where out: "order_members fuel rnd kItemCutPolicy ?boxes [0..<length members] = Some out"
      "cut_order rnd kItemCutPolicy ?boxes [0..<length members] out"
    using order_members_cuts [of "[0..<length members]" fuel ?boxes rnd kItemCutPolicy] assms(3) by auto
  have "mset (map ((!) members) out) = mset (map ((!) members) [0..<length members])"
    using cut_order_mset [OF out(2)] by (metis mset_map)
  then show ?thesis
    unfolding chain_cut_def xy_cut_order_def Let_def finite out(1) by (simp add: map_nth)
qed

lemma mset_followed:
  assumes "mset is = mset main" "distinct main" "\<And>c f. c \<in> set captions \<Longrightarrow> target c = Some f \<Longrightarrow> f \<in> set main"
  shows "mset (concat (map (\<lambda>i. i # filter (\<lambda>c. target c = Some i) captions) is))
     = mset main + mset (filter (\<lambda>c. target c \<noteq> None) captions)"
proof -
  have "mset (concat (map (\<lambda>i. i # filter (\<lambda>c. target c = Some i) captions) is))
      = mset is + mset (concat (map (\<lambda>i. filter (\<lambda>c. target c = Some i) captions) is))"
    by (induction "is") auto
  also have "mset (concat (map (\<lambda>i. filter (\<lambda>c. target c = Some i) captions) is))
      = mset (concat (map (\<lambda>i. filter (\<lambda>c. target c = Some i) captions) main))"
    by (rule mset_concat_perm [OF assms(1)]) simp
  also have "\<dots> = mset (filter (\<lambda>c. target c \<in> Some ` set main) captions)"
    using assms(2)
  proof (induction main)
    case (Cons i main)
    then have "Some i \<notin> Some ` set main" by auto
    then have "mset (filter (\<lambda>c. target c \<in> Some ` set (i # main)) xs)
        = mset (filter (\<lambda>c. target c = Some i) xs) + mset (filter (\<lambda>c. target c \<in> Some ` set main) xs)" for xs
      by (induction xs) auto
    then show ?case using Cons by simp
  qed simp
  also have "filter (\<lambda>c. target c \<in> Some ` set main) captions = filter (\<lambda>c. target c \<noteq> None) captions"
    using assms(3) by (auto intro!: filter_cong)
  finally show ?thesis using assms(1) by simp
qed

lemma caption_target_float: "caption_target rnd cs floats c = Some f \<Longrightarrow> f \<in> set floats"
proof -
  have "fst ` set_option (fold (nearer rnd cs box) fs best) \<subseteq> set fs \<union> fst ` set_option best" for box fs best
  proof (induction fs arbitrary: best)
    case (Cons f fs)
    have "fst ` set_option (nearer rnd cs box f best) \<subseteq> {f} \<union> fst ` set_option best"
      by (auto simp: nearer_def Let_def split: option.splits if_splits)
    then show ?case using Cons.IH [of "nearer rnd cs box f best"] by auto
  qed simp
  from this [of _ floats None] show "caption_target rnd cs floats c = Some f \<Longrightarrow> f \<in> set floats"
    by (fastforce simp: caption_target_def Let_def split: if_splits)
qed

lemma mset_partition: "mset (filter P xs) + mset (filter (\<lambda>x. \<not> P x) xs) = mset xs"
  by (induction xs) auto

lemma classes_partition:
  "mset (filter (\<lambda>i. in_main (cs ! i)) members) + mset (filter (\<lambda>i. chain_label (cs ! i) = label_caption) members)
     + mset (filter (\<lambda>i. chain_label (cs ! i) = label_footnote) members)
     + mset (filter (\<lambda>i. is_furniture_label (chain_label (cs ! i))) members) = mset members"
  by (induction members) (auto simp: in_main_def is_furniture_label_def label_defs)

lemma order_page_reads:
  assumes "\<forall>i \<in> set members. i < length cs" "\<forall>c \<in> set cs. chain_ok pl c" "length members < fuel" "distinct members"
  shows "\<exists>out. order_page rnd cs fuel members = Some out \<and> mset out = mset members"
proof -
  let ?furniture = "filter (\<lambda>i. is_furniture_label (chain_label (cs ! i))) members"
  let ?footnotes = "filter (\<lambda>i. chain_label (cs ! i) = label_footnote) members"
  let ?captions = "filter (\<lambda>i. chain_label (cs ! i) = label_caption) members"
  let ?main = "filter (\<lambda>i. in_main (cs ! i)) members"
  let ?floats = "filter (\<lambda>i. is_float_label (chain_label (cs ! i))) ?main"
  let ?target = "caption_target rnd cs ?floats"
  let ?loose = "filter (\<lambda>c. ?target c = None) ?captions"
  have part: "mset ?main + mset ?captions + mset ?footnotes + mset ?furniture = mset members"
    by (rule classes_partition)
  have "length ?main + length ?captions \<le> length members"
    using arg_cong [OF part, of size] unfolding size_union size_mset by linarith
  then have short: "length (?main @ ?loose) < fuel"
    using assms(3) length_filter_le [of "\<lambda>c. ?target c = None" ?captions] by simp
  have few: "length (filter P members) < fuel" for P
    by (rule le_less_trans [OF length_filter_le assms(3)])
  have inside: "\<forall>i \<in> set (?main @ ?loose). i < length cs" "\<forall>i \<in> set ?footnotes. i < length cs"
      "\<forall>i \<in> set ?furniture. i < length cs"
    using assms(1) by auto
  obtain body where body: "chain_cut rnd cs fuel (?main @ ?loose) = Some body" "mset body = mset (?main @ ?loose)"
    using chain_cut_reads [OF inside(1) assms(2) short] by blast
  obtain foot where feet: "chain_cut rnd cs fuel ?footnotes = Some foot" "mset foot = mset ?footnotes"
    using chain_cut_reads [OF inside(2) assms(2) few] by blast
  obtain edges where edges: "chain_cut rnd cs fuel ?furniture = Some edges" "mset edges = mset ?furniture"
    using chain_cut_reads [OF inside(3) assms(2) few] by blast
  have "distinct (?main @ ?loose)"
    using assms(4) by (auto simp: in_main_def)
  moreover have "f \<in> set (?main @ ?loose)" if "?target c = Some f" for c f
    using caption_target_float [OF that] by simp
  ultimately have "mset (concat (map (\<lambda>i. i # filter (\<lambda>c. ?target c = Some i) ?captions) body))
      = mset (?main @ ?loose) + mset (filter (\<lambda>c. ?target c \<noteq> None) ?captions)"
    by (intro mset_followed [OF body(2)])
  also have "\<dots> = mset ?main + mset ?captions"
    using mset_partition [of "\<lambda>c. ?target c = None" ?captions] by (simp add: add.assoc)
  finally have "mset (concat (map (\<lambda>i. i # filter (\<lambda>c. ?target c = Some i) ?captions) body) @ foot @ edges) = mset members"
    using part feet(2) edges(2) by (simp add: add.assoc)
  moreover have "order_page rnd cs fuel members
      = Some (concat (map (\<lambda>i. i # filter (\<lambda>c. ?target c = Some i) ?captions) body) @ foot @ edges)"
    unfolding order_page_def Let_def body(1) feet(1) edges(1) by simp
  ultimately show ?thesis by blast
qed

lemma page_order_reads:
  assumes "\<forall>c \<in> set cs. chain_ok pl c" "length cs < fuel"
  shows "\<exists>out. page_order rnd cs fuel page = Some out \<and> mset out = mset (page_members cs page)"
proof -
  have "length (page_members cs page) < fuel"
    using assms(2) length_filter_le [of _ "[0..<length cs]"] by (auto simp: page_members_def intro: le_less_trans)
  then show ?thesis
    using order_page_reads [of "page_members cs page" cs pl fuel rnd] assms(1)
    by (auto simp: page_order_def page_members_def Let_def)
qed

subsection \<open>The whole body\<close>

lemma those_total:
  assumes "\<And>x. x \<in> set xs \<Longrightarrow> \<exists>y. f x = Some y \<and> P x y"
  shows "\<exists>ys. those (map f xs) = Some ys \<and> list_all2 P xs ys"
  using assms
proof (induction xs)
  case (Cons x xs)
  obtain y where "f x = Some y" "P x y" using Cons.prems by auto
  moreover obtain ys where "those (map f xs) = Some ys" "list_all2 P xs ys" using Cons by auto
  ultimately show ?case by simp
qed simp

lemma pages_cover:
  "mset (concat (map (page_members cs) (sort (remdups (map chain_page cs))))) = mset [0..<length cs]"
proof -
  have "mset (concat (map (\<lambda>p. filter (\<lambda>i. f i = p) is) ps)) = mset (filter (\<lambda>i. f i \<in> set ps) is)"
    if "distinct ps" for f :: "nat \<Rightarrow> int" and ps "is"
    using that
  proof (induction ps)
    case (Cons p ps)
    then have "p \<notin> set ps" by simp
    then have "mset (filter (\<lambda>i. f i = p) xs) + mset (filter (\<lambda>i. f i \<in> set ps) xs)
        = mset (filter (\<lambda>i. f i \<in> set (p # ps)) xs)" for xs
      by (induction xs) auto
    then show ?case using Cons by simp
  qed simp
  from this [of "sort (remdups (map chain_page cs))" "\<lambda>i. chain_page (cs ! i)" "[0..<length cs]"] show ?thesis
    by (simp add: page_members_def [abs_def] filter_id_conv)
qed

lemma chains_number:
  assumes "\<forall>c \<in> set cs. chain_ok pl c"
  shows "length cs \<le> length (concat (map positions cs))"
  using assms
proof (induction cs)
  case (Cons c cs)
  then have "positions c \<noteq> []" by (simp add: chain_ok_def)
  then show ?case using Cons by (cases "positions c") simp_all
qed simp

lemma sorted_constant: "\<forall>x \<in> set xs. x = p \<Longrightarrow> sorted xs" for p :: int
  by (induction xs) auto

lemma sorted_map_filter_blocks:
  fixes ps :: "int list"
  assumes "sorted ps" "list_all2 (\<lambda>p b. \<forall>i \<in> set b. \<forall>q. f i = Some q \<longrightarrow> q = p) ps blocks"
  shows "sorted (List.map_filter f (concat blocks))"
  using assms(2,1)
proof (induction rule: list_all2_induct)
  case (Cons p ps b blocks)
  have own: "\<forall>q \<in> set (List.map_filter f b). q = p" using Cons by (auto simp: List.map_filter_def)
  then have "sorted (List.map_filter f b)" by (rule sorted_constant)
  moreover have "\<forall>q \<in> set (List.map_filter f (concat blocks)). p \<le> q"
  proof
    fix q assume "q \<in> set (List.map_filter f (concat blocks))"
    then obtain c i where c: "c \<in> set blocks" "i \<in> set c" "f i = Some q" by (auto simp: List.map_filter_def)
    then obtain k where k: "k < length blocks" "c = blocks ! k" by (auto simp: in_set_conv_nth)
    then have "q = ps ! k" using list_all2_nthD2 [OF Cons.hyps(2) k(1)] c by simp
    moreover have "ps ! k \<in> set ps" using k(1) list_all2_lengthD [OF Cons.hyps(2)] by simp
    ultimately show "p \<le> q" using Cons.prems by simp
  qed
  ultimately show ?case using Cons own by (auto simp: List.map_filter_def sorted_append)
qed (simp add: List.map_filter_def)

lemma chain_pages:
  assumes "chain_ok pl c" "i \<in> set (positions c)" "map_option page_of (pl i) = Some q"
  shows "q = chain_page c"
  using assms by (auto simp: chain_ok_def chain_page_def split: option.splits)

text \<open>The pages of a body, each in its order.\<close>

lemma body_pages_read:
  assumes "rounds rnd" "length (body_refs_of d) < fuel"
  defines "cs \<equiv> build_chains rnd d (document_page_heights d)"
  shows "\<exists>orders. those (map (page_order rnd cs fuel) (sort (remdups (map chain_page cs)))) = Some orders
     \<and> list_all2 (\<lambda>p out. mset out = mset (page_members cs p)) (sort (remdups (map chain_page cs))) orders
     \<and> mset (concat (map (\<lambda>i. positions (cs ! i)) (concat orders))) = mset [0..<length (body_refs_of d)]"
proof -
  let ?pages = "sort (remdups (map chain_page cs))" and ?read = "\<lambda>os. concat (map (\<lambda>i. positions (cs ! i)) os)"
  note built = build_chains_ok [OF assms(1), of d, folded cs_def]
  have "length cs < fuel"
    using chains_number [OF built(2)] assms(2) arg_cong [OF built(1), of size] by simp
  then obtain orders where orders: "those (map (page_order rnd cs fuel) ?pages) = Some orders"
      and members: "list_all2 (\<lambda>p out. mset out = mset (page_members cs p)) ?pages orders"
    using those_total [of ?pages "page_order rnd cs fuel" "\<lambda>p out. mset out = mset (page_members cs p)"]
      page_order_reads [OF built(2)] by blast
  have "mset (concat orders) = mset (concat (map (page_members cs) ?pages))"
    using members by (induction rule: list_all2_induct) auto
  then have "mset (?read (concat orders)) = mset (?read [0..<length cs])"
    unfolding pages_cover by (rule mset_concat_perm) simp
  also have "?read [0..<length cs] = concat (map positions cs)"
    using map_map [of positions "(!) cs" "[0..<length cs]"] by (simp add: map_nth comp_def)
  finally have "mset (?read (concat orders)) = mset [0..<length (body_refs_of d)]" unfolding built(1) .
  then show ?thesis using orders members by blast
qed

lemma body_reading_order_perm:
  assumes "rounds rnd" "length (body_refs_of d) < fuel"
  shows "\<exists>order. body_reading_order rnd d fuel = Some order \<and> mset order = mset [0..<length (body_refs_of d)]"
  using body_pages_read [OF assms] by (auto simp: body_reading_order_def Let_def)

text \<open>
  C23. Reading a document's body returns, after at most as many nested cuts as
  the body has children, and is a permutation of its positions: every child
  is read exactly once, and the pages of the children that have a place come in
  ascending order, whatever the boxes, the labels and the nesting of the groups.
\<close>

theorem body_reading_order_complete:
  assumes "rounds rnd" "length (body_refs_of d) < fuel"
  shows "\<exists>order. body_reading_order rnd d fuel = Some order
     \<and> mset order = mset [0..<length (body_refs_of d)]
     \<and> sorted (List.map_filter (\<lambda>i. map_option page_of (placement_at rnd d i)) order)"
proof -
  let ?cs = "build_chains rnd d (document_page_heights d)" and ?pl = "placement_at rnd d"
  let ?pages = "sort (remdups (map chain_page ?cs))"
  let ?read = "\<lambda>os. concat (map (\<lambda>i. positions (?cs ! i)) os)"
  obtain orders where orders: "those (map (page_order rnd ?cs fuel) ?pages) = Some orders"
      and members: "list_all2 (\<lambda>p out. mset out = mset (page_members ?cs p)) ?pages orders"
      and all: "mset (?read (concat orders)) = mset [0..<length (body_refs_of d)]"
    using body_pages_read [OF assms] by blast
  have "list_all2 (\<lambda>p b. \<forall>i \<in> set b. \<forall>q. map_option page_of (?pl i) = Some q \<longrightarrow> q = p) ?pages (map ?read orders)"
    unfolding list_all2_map2
  proof (rule list_all2_mono [OF members], intro ballI allI impI)
    fix p out i q assume "mset out = mset (page_members ?cs p)" "i \<in> set (?read out)"
      and q: "map_option page_of (?pl i) = Some q"
    then obtain k where k: "k \<in> set (page_members ?cs p)" "i \<in> set (positions (?cs ! k))"
      using mset_eq_setD by fastforce
    then have "chain_ok ?pl (?cs ! k)" "chain_page (?cs ! k) = p"
      using build_chains_ok(2) [OF assms(1), of d] by (auto simp: page_members_def)
    then show "q = p" using chain_pages k(2) q by blast
  qed
  then have "sorted (List.map_filter (\<lambda>i. map_option page_of (?pl i)) (concat (map ?read orders)))"
    by (rule sorted_map_filter_blocks [rotated]) simp
  moreover have "concat (map ?read orders) = ?read (concat orders)" by (induction orders) auto
  ultimately show ?thesis using orders all by (auto simp: body_reading_order_def Let_def)
qed

definition two_children :: msg where
  "two_children =
     Msg [] []
       [Submessage ''body'' (Some (Msg [] []
          [Messages ''children'' False ''RefItem'' [ref_item ''#/texts/0'', ref_item ''#/tables/0'']]))]"

theorem body_reading_order_complete_witness:
  "\<exists>order. body_reading_order (\<lambda>x. x) two_children 3 = Some order \<and> mset order = {#0, 1#}"
proof -
  have "body_refs_of two_children = [''#/texts/0'', ''#/tables/0'']"
    by (simp add: two_children_def body_refs_of_def sub_or_default_def get_sub_def field_of_def child_refs_def
        get_list_def)
  moreover have "rounds (\<lambda>x. x)" by (simp add: rounds_def mono_def)
  ultimately show ?thesis
    using body_reading_order_complete [of "\<lambda>x. x" two_children 3] by (auto simp: upt_rec numeral_2_eq_2)
qed

end
