(* ===== verification/BodyArrange.thy ===== *)
theory BodyArrange
  imports BodyOrder
begin

text \<open>
  The passes that rearrange the body of a finished document
  (\<^verbatim>\<open>src/src/document_reading_order.cpp\<close>): list groups are split around the floats that
  interrupt them, the body is put in reading order, and pictures are anchored by
  their place on the page. \<open>blank_base\<close> is the default message of a text item's base,
  which the schema defines.
\<close>

subsection \<open>Splitting groups around floats\<close>

type_synonym scan = "nat option \<times> bool \<times> (rat \<times> rat) option"

definition widen :: "top_down_box \<Rightarrow> (rat \<times> rat) option \<Rightarrow> (rat \<times> rat) option" where
  "widen b extent =
     (case extent of
        None \<Rightarrow> Some (left_side b, right_side b)
      | Some (l, r) \<Rightarrow> Some (min l (left_side b), max r (right_side b)))"

fun split_scan ::
  "(string \<Rightarrow> item_placement option) \<Rightarrow> item_placement \<Rightarrow> nat \<Rightarrow> string list \<Rightarrow> scan \<Rightarrow> scan option" where
  "split_scan place_of floating i [] state = Some state"
| "split_scan place_of floating i (ref # refs) (split, seen, extent) =
     (if arena_index ref ''#/texts/'' = None then None
      else case place_of ref of
             None \<Rightarrow> split_scan place_of floating (i + 1) refs (split, seen, extent)
           | Some p \<Rightarrow>
               if page_of p \<noteq> page_of floating then None
               else
                 let extent = widen (page_box p) extent in
                 split_scan place_of floating (i + 1) refs
                   (if split \<noteq> None then (split, seen, extent)
                    else if top_side (page_box p) \<ge> top_side (page_box floating) then (Some i, seen, extent)
                    else (split, True, extent)))"

definition split_position ::
  "(rat \<Rightarrow> rat) \<Rightarrow> (string \<Rightarrow> item_placement option) \<Rightarrow> string list \<Rightarrow> item_placement \<Rightarrow> nat option" where
  "split_position rnd place_of refs floating =
     (case split_scan place_of floating 0 refs (None, False, None) of
        Some (Some s, True, Some (l, r)) \<Rightarrow>
          if rnd (min r (right_side (page_box floating)) - max l (left_side (page_box floating))) \<le> 0 then None
          else Some s
      | _ \<Rightarrow> None)"

definition text_with_parent :: "msg \<Rightarrow> string \<Rightarrow> msg \<Rightarrow> msg" where
  "text_with_parent blank_base ref item =
     (case text_variant item of
        None \<Rightarrow> item
      | Some v \<Rightarrow>
          if v = ''code'' then item
          else
            let m = sub_or_default v item;
                base = (case get_sub ''base'' m of None \<Rightarrow> blank_base | Some b \<Rightarrow> b)
            in set_sub v (Some (set_sub ''base'' (Some (set_sub ''parent'' (Some (ref_item ref)) base)) m)) item)"

definition reparent :: "msg \<Rightarrow> string \<Rightarrow> msg \<Rightarrow> msg list \<Rightarrow> msg list" where
  "reparent blank_base ref child texts =
     (case arena_index (get_string ''ref'' child) ''#/texts/'' of
        None \<Rightarrow> texts
      | Some t \<Rightarrow>
          if t < int (length texts) then texts[nat t := text_with_parent blank_base ref (texts ! nat t)] else texts)"

definition set_body_children :: "msg list \<Rightarrow> msg \<Rightarrow> msg" where
  "set_body_children refs d = set_sub ''body'' (Some (set_list ''children'' refs (sub_or_default ''body'' d))) d"

definition body_items :: "msg \<Rightarrow> msg list" where
  "body_items d = get_list ''children'' (sub_or_default ''body'' d)"

definition split_group :: "msg \<Rightarrow> nat \<Rightarrow> nat \<Rightarrow> nat \<Rightarrow> msg \<Rightarrow> msg" where
  "split_group blank_base body_position k split d =
     (let groups = get_list ''groups'' d;
          new_ref = ''#/groups/'' @ to_dec (length groups);
          head = groups ! k;
          moved = drop split (get_list ''children'' head);
          tail = set_list ''children'' moved (set_string ''self_ref'' new_ref head);
          groups = groups[k := set_list ''children'' (take split (get_list ''children'' head)) head] @ [tail];
          texts = fold (reparent blank_base new_ref) moved (get_list ''texts'' d);
          refs = take (body_position + 1) (body_items d) @ [ref_item new_ref] @ drop (body_position + 1) (body_items d)
      in set_body_children refs (set_list ''texts'' texts (set_list ''groups'' groups d)))"

definition split_attempts :: "(rat \<Rightarrow> rat) \<Rightarrow> heights \<Rightarrow> msg \<Rightarrow> nat \<Rightarrow> (nat \<times> nat \<times> nat) list" where
  "split_attempts rnd hs d position =
     (let refs = body_refs_of d; groups = get_list ''groups'' d in
      if \<not> is_float_label (item_label d (refs ! position)) then []
      else case placement_in rnd d hs (refs ! position) of
             None \<Rightarrow> []
           | Some floating \<Rightarrow>
               List.map_filter (\<lambda>candidate.
                 case arena_index (refs ! candidate) ''#/groups/'' of
                   None \<Rightarrow> None
                 | Some g \<Rightarrow>
                     if g \<ge> int (length groups) then None
                     else map_option (\<lambda>s. (candidate, nat g, s))
                            (split_position rnd (placement_in rnd d hs) (child_refs (groups ! nat g)) floating))
               [0..<length refs])"

definition split_one_group_around_a_float :: "(rat \<Rightarrow> rat) \<Rightarrow> msg \<Rightarrow> heights \<Rightarrow> msg \<Rightarrow> msg option" where
  "split_one_group_around_a_float rnd blank_base hs d =
     (case concat (map (split_attempts rnd hs d) [0..<length (body_refs_of d)]) of
        [] \<Rightarrow> None
      | (candidate, g, s) # _ \<Rightarrow> Some (split_group blank_base candidate g s d))"

fun split_loop :: "nat \<Rightarrow> (rat \<Rightarrow> rat) \<Rightarrow> msg \<Rightarrow> heights \<Rightarrow> msg \<Rightarrow> (nat \<times> msg) option" where
  "split_loop 0 rnd blank_base hs d = None"
| "split_loop (Suc fuel) rnd blank_base hs d =
     (case split_one_group_around_a_float rnd blank_base hs d of
        None \<Rightarrow> Some (0, d)
      | Some d' \<Rightarrow> map_option (\<lambda>(n, e). (n + 1, e)) (split_loop fuel rnd blank_base hs d'))"

definition split_groups_around_floats :: "nat \<Rightarrow> (rat \<Rightarrow> rat) \<Rightarrow> msg \<Rightarrow> msg \<Rightarrow> (nat \<times> msg) option" where
  "split_groups_around_floats fuel rnd blank_base d = split_loop fuel rnd blank_base (document_page_heights d) d"

subsection \<open>Ordering the body\<close>

record body_order_report =
  pages_reordered :: nat
  items_moved :: nat
  groups_split :: nat

definition order_body_by_geometry ::
  "nat \<Rightarrow> (rat \<Rightarrow> rat) \<Rightarrow> msg \<Rightarrow> string list \<Rightarrow> msg \<Rightarrow> (body_order_report \<times> msg) option" where
  "order_body_by_geometry fuel rnd blank_base geometry_collectors d =
     (if \<not> produced_only_by d geometry_collectors
      then Some (\<lparr>pages_reordered = 0, items_moved = 0, groups_split = 0\<rparr>, d)
      else case split_groups_around_floats fuel rnd blank_base d of
             None \<Rightarrow> None
           | Some (splits, d) \<Rightarrow>
               (case body_reading_order rnd d fuel of
                  None \<Rightarrow> None
                | Some order \<Rightarrow>
                    if length order \<noteq> length (body_items d)
                    then Some (\<lparr>pages_reordered = 0, items_moved = 0, groups_split = splits\<rparr>, d)
                    else
                      let moved = filter (\<lambda>i. order ! i \<noteq> i) [0..<length order];
                          pages = List.map_filter (\<lambda>i. map_option page_of (placement_at rnd d (order ! i))) moved
                      in Some (\<lparr>pages_reordered = card (set pages), items_moved = length moved, groups_split = splits\<rparr>,
                               if moved = [] then d else set_body_children (map ((!) (body_items d)) order) d)))"

subsection \<open>Splitting ends and keeps the reading\<close>

definition scan_ok :: "nat \<Rightarrow> scan \<Rightarrow> bool" where
  "scan_ok i state =
     (case state of (split, seen, extent) \<Rightarrow>
        (case split of None \<Rightarrow> seen \<longrightarrow> i > 0 | Some s \<Rightarrow> s < i \<and> (seen \<longrightarrow> s > 0)))"

lemma split_scan_ok:
  assumes "split_scan place_of floating i refs state = Some out" "scan_ok i state"
  shows "scan_ok (i + length refs) out"
  using assms
proof (induction place_of floating i refs state rule: split_scan.induct)
  case (2 place_of floating i ref refs split seen extent)
  from 2(4) have next_ok: "scan_ok (i + 1) (split, seen, e)" "scan_ok (i + 1) (Some i, seen, e)" if "split = None" for e
    using that 2(4) by (auto simp: scan_ok_def)
  have held: "scan_ok (i + 1) (split, seen, e)" "scan_ok (i + 1) (None, True, e)" for e
    using 2(4) by (auto simp: scan_ok_def split: option.splits)
  show ?case
    using 2(1,2,3) next_ok held by (auto simp: Let_def split: if_splits option.splits)
qed simp

lemma split_position_inside:
  assumes "split_position rnd place_of refs floating = Some s"
  shows "0 < s \<and> s < length refs"
proof -
  obtain l r where "split_scan place_of floating 0 refs (None, False, None) = Some (Some s, True, Some (l, r))"
    using assms by (auto simp: split_position_def split: option.splits prod.splits bool.splits if_splits)
  from split_scan_ok [OF this] show ?thesis by (simp add: scan_ok_def)
qed

definition names_groups :: "msg \<Rightarrow> int list" where
  "names_groups d = List.map_filter (\<lambda>ref. arena_index ref ''#/groups/'') (body_refs_of d)"

text \<open>The body names each of its groups once, and only groups that exist.\<close>

definition body_groups_ok :: "msg \<Rightarrow> bool" where
  "body_groups_ok d \<longleftrightarrow>
     distinct (names_groups d) \<and> (\<forall>g \<in> set (names_groups d). g < int (length (get_list ''groups'' d)))"

text \<open>The children a split can still part: all but one of each group's.\<close>

definition split_room :: "msg \<Rightarrow> nat" where
  "split_room d = sum_list (map (\<lambda>g. length (get_list ''children'' g) - 1) (get_list ''groups'' d))"

text \<open>The body with every group read in its place.\<close>

definition expand :: "msg list \<Rightarrow> string \<Rightarrow> string list" where
  "expand groups ref =
     (case arena_index ref ''#/groups/'' of
        None \<Rightarrow> [ref]
      | Some g \<Rightarrow> if g < int (length groups) then child_refs (groups ! nat g) else [ref])"

definition read_through :: "msg \<Rightarrow> string list" where
  "read_through d = concat (map (expand (get_list ''groups'' d)) (body_refs_of d))"

definition split_ok :: "nat \<Rightarrow> nat \<Rightarrow> nat \<Rightarrow> msg \<Rightarrow> bool" where
  "split_ok position k s d \<longleftrightarrow>
     position < length (body_refs_of d) \<and> arena_index (body_refs_of d ! position) ''#/groups/'' = Some (int k)
     \<and> k < length (get_list ''groups'' d) \<and> 0 < s \<and> s < length (get_list ''children'' (get_list ''groups'' d ! k))"

lemma length_child_refs [simp]: "length (child_refs m) = length (get_list ''children'' m)"
  by (simp add: child_refs_def)

lemma body_refs_items: "body_refs_of d = map (get_string ''ref'') (body_items d)"
  by (simp add: body_refs_of_def body_items_def child_refs_def)

lemma split_attempt_ok:
  assumes "(position, k, s) \<in> set (split_attempts rnd hs d i)"
  shows "split_ok position k s d"
  using assms split_position_inside arena_index_nonneg
  by (fastforce simp: split_attempts_def split_ok_def Let_def List.map_filter_def
      split: if_splits option.splits)

lemma split_one_cases:
  assumes "split_one_group_around_a_float rnd blank hs d = Some d'"
  obtains position k s where "split_ok position k s d" "d' = split_group blank position k s d"
proof -
  let ?all = "concat (map (split_attempts rnd hs d) [0..<length (body_refs_of d)])"
  obtain position k s rest where all: "?all = (position, k, s) # rest" "d' = split_group blank position k s d"
    using assms by (auto simp: split_one_group_around_a_float_def split: list.splits prod.splits)
  then have "(position, k, s) \<in> set ?all" by simp
  then obtain i where "(position, k, s) \<in> set (split_attempts rnd hs d i)" by auto
  from split_attempt_ok [OF this] show thesis using that all(2) by blast
qed

text \<open>What the split document holds.\<close>

lemma split_group_groups:
  fixes blank :: msg
  assumes "split_ok position k s d"
  defines "groups \<equiv> get_list ''groups'' d"
  defines "kids \<equiv> get_list ''children'' (groups ! k)"
  defines "d' \<equiv> split_group blank position k s d"
  shows "\<exists>head tail. get_list ''groups'' d' = groups[k := head] @ [tail]
     \<and> get_list ''children'' head = take s kids \<and> get_list ''children'' tail = drop s kids"
proof -
  have nonempty: "groups \<noteq> []" "kids \<noteq> []" using assms(1) by (auto simp: split_ok_def groups_def kids_def)
  let ?tail = "set_list ''children'' (drop s kids) (set_string ''self_ref'' (''#/groups/'' @ to_dec (length groups)) (groups ! k))"
  let ?head = "set_list ''children'' (take s kids) (groups ! k)"
  have "get_list ''groups'' d' = groups[k := ?head] @ [?tail]"
    using nonempty(1) unfolding d'_def split_group_def Let_def set_body_children_def groups_def kids_def
    by (simp add: get_list_set_list_other get_list_set_list_same)
  moreover have "get_list ''children'' ?tail = drop s kids" "get_list ''children'' ?head = take s kids"
    using nonempty(2) by (simp_all add: get_list_set_list_same kids_def)
  ultimately show ?thesis by blast
qed

lemma split_group_body:
  assumes "split_ok position k s d"
  shows "body_refs_of (split_group blank position k s d)
     = take (position + 1) (body_refs_of d) @ [''#/groups/'' @ to_dec (length (get_list ''groups'' d))]
       @ drop (position + 1) (body_refs_of d)"
proof -
  have "body_refs_of d \<noteq> []" using assms by (auto simp: split_ok_def)
  then have items: "body_items d \<noteq> []" by (simp add: body_refs_items)
  then have "get_sub ''body'' d \<noteq> None"
    by (cases "get_sub ''body'' d") (simp_all add: body_items_def sub_or_default_def get_list_def field_of_def)
  then have "body_items (set_body_children refs (set_list a xs (set_list b ys d))) = refs" for refs a xs b ys
    using items by (simp add: body_items_def set_body_children_def sub_or_default_def get_sub_set_sub_same
        get_list_set_list_same)
  then show ?thesis
    by (simp add: split_group_def Let_def body_refs_items take_map drop_map)
qed

lemma sum_list_split:
  assumes "k < length xs" "f (xs ! k) = f h + f t + (1 :: nat)"
  shows "sum_list (map f xs) = sum_list (map f (xs[k := h] @ [t])) + 1"
  using assms by (induction xs arbitrary: k) (auto split: nat.split simp: nth_Cons')

lemma split_group_room:
  assumes "split_ok position k s d"
  shows "split_room d = split_room (split_group blank position k s d) + 1"
proof -
  let ?groups = "get_list ''groups'' d"
  obtain h t where groups: "get_list ''groups'' (split_group blank position k s d) = ?groups[k := h] @ [t]"
      and kids: "get_list ''children'' h = take s (get_list ''children'' (?groups ! k))"
        "get_list ''children'' t = drop s (get_list ''children'' (?groups ! k))"
    using split_group_groups [OF assms] by metis
  show ?thesis
    unfolding split_room_def groups
    by (rule sum_list_split) (use assms in \<open>auto simp: split_ok_def kids\<close>)
qed

lemma names_groups_split:
  fixes blank :: msg
  assumes "split_ok position k s d" "length (get_list ''groups'' d) < 2 ^ 31"
  defines "d' \<equiv> split_group blank position k s d"
  shows "mset (names_groups d') = add_mset (int (length (get_list ''groups'' d))) (mset (names_groups d))"
proof -
  have "names_groups d' = List.map_filter (\<lambda>ref. arena_index ref ''#/groups/'') (take (position + 1) (body_refs_of d))
      @ [int (length (get_list ''groups'' d))]
      @ List.map_filter (\<lambda>ref. arena_index ref ''#/groups/'') (drop (position + 1) (body_refs_of d))"
    unfolding names_groups_def d'_def split_group_body [OF assms(1)]
    using arena_index_canonical [OF assms(2), of "''#/groups/''"] by (simp add: List.map_filter_def)
  moreover have "names_groups d = List.map_filter (\<lambda>ref. arena_index ref ''#/groups/'') (take (position + 1) (body_refs_of d))
      @ List.map_filter (\<lambda>ref. arena_index ref ''#/groups/'') (drop (position + 1) (body_refs_of d))"
    unfolding names_groups_def List.map_filter_def
    by (simp flip: map_append filter_append del: append_assoc)
  ultimately show ?thesis by simp
qed

lemma expand_split:
  assumes "\<And>g. arena_index ref ''#/groups/'' = Some g \<Longrightarrow> g < int (length groups) \<and> g \<noteq> int k"
  shows "expand (groups[k := h] @ [t]) ref = expand groups ref"
proof (cases "arena_index ref ''#/groups/''")
  case (Some g)
  then have "0 \<le> g" "g < int (length groups)" "nat g < length groups" "nat g \<noteq> k"
    using assms arena_index_nonneg [OF Some] by auto
  then show ?thesis using Some by (simp add: expand_def nth_append)
qed (simp add: expand_def)

lemma split_group_reads:
  assumes "split_ok position k s d" "body_groups_ok d" "length (get_list ''groups'' d) < 2 ^ 31"
  shows "read_through (split_group blank position k s d) = read_through d"
proof -
  let ?groups = "get_list ''groups'' d" and ?refs = "body_refs_of d"
  let ?name = "\<lambda>ref. arena_index ref ''#/groups/''" and ?new = "''#/groups/'' @ to_dec (length ?groups)"
  obtain h t where groups: "get_list ''groups'' (split_group blank position k s d) = ?groups[k := h] @ [t]"
      and kids: "get_list ''children'' h = take s (get_list ''children'' (?groups ! k))"
        "get_list ''children'' t = drop s (get_list ''children'' (?groups ! k))"
    using split_group_groups [OF assms(1)] by metis
  have pos: "position < length ?refs" "?name (?refs ! position) = Some (int k)" "k < length ?groups"
    using assms(1) by (simp_all add: split_ok_def)
  define before after where "before = take position ?refs" and "after = drop (position + 1) ?refs"
  have refs: "?refs = before @ ?refs ! position # after"
    using id_take_nth_drop [OF pos(1)] by (simp add: before_def after_def)
  have new_refs: "body_refs_of (split_group blank position k s d) = before @ ?refs ! position # ?new # after"
    using take_Suc_conv_app_nth [OF pos(1)] by (simp add: split_group_body [OF assms(1)] before_def after_def)
  have names: "names_groups d = List.map_filter ?name before @ int k # List.map_filter ?name after"
    unfolding names_groups_def by (subst refs) (simp add: List.map_filter_def pos(2))
  have other: "expand (?groups[k := h] @ [t]) ref = expand ?groups ref" if "ref \<in> set before \<union> set after" for ref
  proof (rule expand_split)
    fix g assume "?name ref = Some g"
    then have "g \<in> set (List.map_filter ?name before) \<union> set (List.map_filter ?name after)"
      using that by (auto simp: List.map_filter_def intro: rev_image_eqI)
    then show "g < int (length ?groups) \<and> g \<noteq> int k" using assms(2) names by (auto simp: body_groups_ok_def)
  qed
  have "expand (?groups[k := h] @ [t]) (?refs ! position) = child_refs h"
      "expand (?groups[k := h] @ [t]) ?new = child_refs t"
      "expand ?groups (?refs ! position) = child_refs (?groups ! k)"
    using pos arena_index_canonical [OF assms(3), of "''#/groups/''"] by (simp_all add: expand_def nth_append)
  moreover have "child_refs (?groups ! k) = child_refs h @ child_refs t"
    by (simp add: child_refs_def kids flip: map_append)
  moreover have "map (expand (?groups[k := h] @ [t])) before = map (expand ?groups) before"
      "map (expand (?groups[k := h] @ [t])) after = map (expand ?groups) after"
    using other by simp_all
  ultimately have "concat (map (expand (?groups[k := h] @ [t])) (before @ ?refs ! position # ?new # after))
      = concat (map (expand ?groups) (before @ ?refs ! position # after))"
    by (simp only: map_append list.map concat_append concat.simps append_assoc)
  then show ?thesis unfolding read_through_def groups new_refs using refs by metis
qed

lemma split_group_keeps_ok:
  assumes "split_ok position k s d" "body_groups_ok d" "length (get_list ''groups'' d) < 2 ^ 31"
  shows "body_groups_ok (split_group blank position k s d)"
    and "length (get_list ''groups'' (split_group blank position k s d)) = length (get_list ''groups'' d) + 1"
proof -
  show len: "length (get_list ''groups'' (split_group blank position k s d)) = length (get_list ''groups'' d) + 1"
    using split_group_groups [OF assms(1), of blank] by auto
  note names = names_groups_split [OF assms(1,3), of blank]
  have "set (names_groups (split_group blank position k s d)) = insert (int (length (get_list ''groups'' d))) (set (names_groups d))"
    using mset_eq_setD [of _ "int (length (get_list ''groups'' d)) # names_groups d"] names by simp
  moreover have "distinct (names_groups (split_group blank position k s d))"
    using mset_eq_imp_distinct_iff [of _ "int (length (get_list ''groups'' d)) # names_groups d"] names assms(2)
    by (auto simp: body_groups_ok_def)
  ultimately show "body_groups_ok (split_group blank position k s d)"
    using assms(2) len by (auto simp: body_groups_ok_def)
qed

lemma split_loop_ends:
  assumes "split_room d < fuel"
  shows "\<exists>n d'. split_loop fuel rnd blank hs d = Some (n, d') \<and> n + split_room d' = split_room d
     \<and> split_one_group_around_a_float rnd blank hs d' = None
     \<and> length (body_refs_of d') = length (body_refs_of d) + n
     \<and> (body_groups_ok d \<and> length (get_list ''groups'' d) + split_room d < 2 ^ 31 \<longrightarrow> read_through d' = read_through d)"
  using assms
proof (induction fuel arbitrary: d)
  case (Suc fuel)
  show ?case
  proof (cases "split_one_group_around_a_float rnd blank hs d")
    case (Some e)
    then obtain position k s where s: "split_ok position k s d" "e = split_group blank position k s d"
      by (rule split_one_cases)
    note room = split_group_room [OF s(1), of blank, folded s(2)]
    obtain n d' where ih: "split_loop fuel rnd blank hs e = Some (n, d')" "n + split_room d' = split_room e"
        "split_one_group_around_a_float rnd blank hs d' = None"
        "length (body_refs_of d') = length (body_refs_of e) + n"
        "body_groups_ok e \<and> length (get_list ''groups'' e) + split_room e < 2 ^ 31 \<longrightarrow> read_through d' = read_through e"
      using Suc.IH [of e] Suc.prems room by auto
    have "read_through d' = read_through d"
      if "body_groups_ok d" "length (get_list ''groups'' d) + split_room d < 2 ^ 31"
      using ih(5) that split_group_reads [OF s(1) that(1), of blank] split_group_keeps_ok [OF s(1) that(1), of blank] room
      by (simp add: s(2))
    moreover have "length (body_refs_of e) = length (body_refs_of d) + 1"
      using s(1) unfolding s(2) split_group_body [OF s(1)] by (auto simp: split_ok_def)
    ultimately show ?thesis using Some ih room by auto
  qed auto
qed simp

lemma body_items_set:
  assumes "body_items d \<noteq> []"
  shows "body_items (set_body_children refs d) = refs"
proof -
  have "get_sub ''body'' d \<noteq> None"
    using assms by (cases "get_sub ''body'' d") (simp_all add: body_items_def sub_or_default_def get_list_def field_of_def)
  then show ?thesis
    using assms by (simp add: body_items_def set_body_children_def sub_or_default_def get_sub_set_sub_same
        get_list_set_list_same)
qed

lemma get_list_set_body [simp]: "get_list n (set_body_children refs d) = get_list n d"
  by (simp add: set_body_children_def)

lemma reordered_reads:
  assumes "mset order = mset [0..<length (body_items d)]"
  shows "mset (read_through (set_body_children (map ((!) (body_items d)) order) d)) = mset (read_through d)"
proof (cases "body_items d = []")
  case False
  have "mset (map ((!) (body_items d)) order) = mset (map ((!) (body_items d)) [0..<length (body_items d)])"
    using assms by (metis mset_map)
  then have "mset (map (get_string ''ref'') (map ((!) (body_items d)) order)) = mset (map (get_string ''ref'') (body_items d))"
    unfolding map_nth by (metis mset_map)
  then show ?thesis
    unfolding read_through_def get_list_set_body body_refs_items body_items_set [OF False]
    by (rule mset_concat_perm) simp
next
  case True
  then have "body_items (set_body_children [] d) = []"
    by (auto simp: body_items_def set_body_children_def sub_or_default_def get_sub_set_sub get_list_set_list)
  then show ?thesis using True assms by (simp add: read_through_def body_refs_items)
qed

text \<open>
  C24. The body pass returns on every document, with as much fuel as the body
  has children and its groups can lose: a document that another
  collector contributed to is left as it is; in any other the splitting of groups
  ends, takes exactly the room it leaves, and the body, read through its groups,
  holds every item as often as before, when the body names each of its groups once.
\<close>

theorem order_body_keeps_items:
  assumes "rounds rnd" "length (body_refs_of d) + split_room d < fuel"
    and "body_groups_ok d" "length (get_list ''groups'' d) + split_room d < 2 ^ 31"
  shows "\<exists>report d'. order_body_by_geometry fuel rnd blank collectors d = Some (report, d')
     \<and> mset (read_through d') = mset (read_through d)
     \<and> (if produced_only_by d collectors then groups_split report + split_room d' = split_room d else d' = d)"
proof (cases "produced_only_by d collectors")
  case True
  obtain n e where e: "split_groups_around_floats fuel rnd blank d = Some (n, e)" "n + split_room e = split_room d"
      "length (body_refs_of e) = length (body_refs_of d) + n" "read_through e = read_through d"
    using split_loop_ends [of d fuel rnd blank "document_page_heights d"] assms(2-4)
    by (auto simp: split_groups_around_floats_def)
  have "length (body_refs_of e) < fuel" using e(2,3) assms(2) by simp
  then obtain order where order: "body_reading_order rnd e fuel = Some order" "mset order = mset [0..<length (body_refs_of e)]"
    using body_reading_order_perm [OF assms(1)] by blast
  have items: "length (body_items e) = length (body_refs_of e)" by (simp add: body_refs_items)
  have "length order = length (body_items e)" using arg_cong [OF order(2), of size] items by simp
  moreover have "mset (read_through (set_body_children (map ((!) (body_items e)) order) e)) = mset (read_through d)"
    using reordered_reads [of order e] order(2) items e(4) by simp
  moreover have "split_room (set_body_children refs e) = split_room e" for refs by (simp add: split_room_def)
  ultimately show ?thesis
    using True e order by (simp add: order_body_by_geometry_def Let_def)
qed (simp add: order_body_by_geometry_def)

definition grouped_body :: msg where
  "grouped_body =
     Msg [] []
       [Submessage ''body'' (Some (Msg [] [] [Messages ''children'' False ''RefItem'' [ref_item ''#/groups/0'']])),
        Messages ''groups'' False ''GroupItem''
          [Msg [] [] [Messages ''children'' False ''RefItem'' [ref_item ''#/texts/0'', ref_item ''#/texts/1'']]]]"

theorem order_body_keeps_items_witness:
  "\<exists>report d'. order_body_by_geometry 4 (\<lambda>x. x) (Msg [] [] []) [''pdf''] grouped_body = Some (report, d')
     \<and> mset (read_through d') = {#''#/texts/0'', ''#/texts/1''#}"
proof -
  have refs: "body_refs_of grouped_body = [''#/groups/'' @ to_dec 0]"
    by (simp add: grouped_body_def body_refs_of_def sub_or_default_def get_sub_def field_of_def child_refs_def
        get_list_def to_dec_zero)
  have groups: "get_list ''groups'' grouped_body
      = [Msg [] [] [Messages ''children'' False ''RefItem'' [ref_item ''#/texts/0'', ref_item ''#/texts/1'']]]"
    by (simp add: grouped_body_def get_list_def field_of_def)
  have first: "arena_index (''#/groups/'' @ to_dec 0) ''#/groups/'' = Some 0"
    using arena_index_canonical [of 0 "''#/groups/''"] by simp
  have room: "split_room grouped_body = 1"
    unfolding split_room_def groups by (simp add: get_list_def field_of_def)
  have "body_groups_ok grouped_body"
    unfolding body_groups_ok_def names_groups_def refs groups by (simp only: List.map_filter_simps first) simp
  moreover have "read_through grouped_body = [''#/texts/0'', ''#/texts/1'']"
    unfolding read_through_def refs groups list.map expand_def first
    by (simp add: child_refs_def get_list_def field_of_def)
  moreover have "rounds (\<lambda>x. x)" by (simp add: rounds_def mono_def)
  ultimately show ?thesis
    using order_body_keeps_items [of "\<lambda>x. x" grouped_body 4 "Msg [] [] []" "[''pdf'']"] room
    by (auto simp: refs groups)
qed

end
