(* ===== verification/PictureAnchor.thy ===== *)
theory PictureAnchor
  imports BodyArrange
begin

text \<open>
  Anchoring pictures by provenance
  (\<^verbatim>\<open>anchor_pictures_by_provenance\<close> in \<^verbatim>\<open>src/src/document_reading_order.cpp\<close>): the
  pictures named are taken out of their container and put back beside the
  items their boxes where_is them with. A call of \<^verbatim>\<open>std::stoi\<close> that throws is an \<open>Inl\<close>.
\<close>

subsection \<open>The container\<close>

datatype stoi_error = Invalid_Argument | Out_Of_Range

definition stoi :: "string \<Rightarrow> stoi_error + int" where
  "stoi s =
     (let s = dropWhile c_isspace s;
          negative = starts_with s ''-'';
          digits = takeWhile c_isdigit (if negative \<or> starts_with s ''+'' then drop 1 s else s)
      in case dec_value digits of
           None \<Rightarrow> Inl Invalid_Argument
         | Some n \<Rightarrow>
             let v = (if negative then - int n else int n)
             in if - (2 ^ 31) \<le> v \<and> v < 2 ^ 31 then Inr v else Inl Out_Of_Range)"

datatype holder = Body | Group nat

definition container_of :: "msg \<Rightarrow> string \<Rightarrow> stoi_error + holder option" where
  "container_of d container =
     (if container = ''#/body'' then Inr (Some Body)
      else if starts_with container ''#/groups/''
      then (case stoi (drop 9 container) of
              Inl e \<Rightarrow> Inl e
            | Inr index \<Rightarrow>
                Inr (if index \<ge> 0 \<and> index < int (length (get_list ''groups'' d)) then Some (Group (nat index)) else None))
      else Inr None)"

primrec holder_items :: "msg \<Rightarrow> holder \<Rightarrow> msg list" where
  "holder_items d Body = body_items d"
| "holder_items d (Group k) = get_list ''children'' (get_list ''groups'' d ! k)"

primrec set_holder_items :: "msg list \<Rightarrow> msg \<Rightarrow> holder \<Rightarrow> msg" where
  "set_holder_items items d Body = set_body_children items d"
| "set_holder_items items d (Group k) =
     set_list ''groups'' ((get_list ''groups'' d)[k := set_list ''children'' items (get_list ''groups'' d ! k)]) d"

subsection \<open>The movers in order\<close>

record mover =
  mover_child :: msg
  mover_place :: "item_placement option"
  mover_position :: nat

definition mover_page :: "mover \<Rightarrow> int" where
  "mover_page m = (case mover_place m of None \<Rightarrow> 2 ^ 31 - 1 | Some p \<Rightarrow> page_of p)"

definition before :: "mover \<Rightarrow> mover \<Rightarrow> bool" where
  "before a b =
     (if mover_page a \<noteq> mover_page b then mover_page a < mover_page b
      else case (mover_place a, mover_place b) of
             (Some p, Some q) \<Rightarrow>
               if top_side (page_box p) \<noteq> top_side (page_box q) then top_side (page_box p) < top_side (page_box q)
               else if left_side (page_box p) \<noteq> left_side (page_box q)
               then left_side (page_box p) < left_side (page_box q)
               else mover_position a < mover_position b
           | _ \<Rightarrow> mover_position a < mover_position b)"

text \<open>\<^verbatim>\<open>std::ranges::sort\<close>: positions differ, so the order is total and any sort gives the same list.\<close>

fun insert_mover :: "mover \<Rightarrow> mover list \<Rightarrow> mover list" where
  "insert_mover m [] = [m]"
| "insert_mover m (n # ns) = (if before n m then n # insert_mover m ns else m # n # ns)"

definition sort_movers :: "mover list \<Rightarrow> mover list" where
  "sort_movers ms = foldr insert_mover ms []"

subsection \<open>Slots\<close>

type_synonym kept = "(msg \<times> item_placement option) list"

definition place_of :: "kept \<Rightarrow> nat \<Rightarrow> item_placement option" where
  "place_of kept i = snd (kept ! i)"

definition on_page :: "kept \<Rightarrow> int \<Rightarrow> nat \<Rightarrow> bool" where
  "on_page kept page i = (case place_of kept i of None \<Rightarrow> False | Some p \<Rightarrow> page_of p = page)"

definition box_at :: "kept \<Rightarrow> nat \<Rightarrow> top_down_box" where
  "box_at kept i =
     (case place_of kept i of
        None \<Rightarrow> \<lparr>left_side = 0, top_side = 0, right_side = 0, bottom_side = 0\<rparr>
      | Some p \<Rightarrow> page_box p)"

definition overlaps_beside :: "(rat \<Rightarrow> rat) \<Rightarrow> top_down_box \<Rightarrow> top_down_box \<Rightarrow> bool" where
  "overlaps_beside rnd box mine =
     (min (bottom_side box) (bottom_side mine) > max (top_side box) (top_side mine)
      \<and> top_side mine \<ge> rnd (top_side box - rnd (1 / 2 * min (td_height rnd box) (td_height rnd mine))))"

text \<open>The two loops that move \<open>beside\<close> on while the next item continues the run.\<close>

definition follow :: "(nat \<Rightarrow> bool) \<Rightarrow> kept \<Rightarrow> nat \<Rightarrow> nat" where
  "follow continues kept i = i + length (takeWhile continues [i..<length kept - 1])"

definition same_frame :: "(rat \<Rightarrow> rat) \<Rightarrow> kept \<Rightarrow> int \<Rightarrow> nat \<Rightarrow> bool" where
  "same_frame rnd kept page i =
     (on_page kept page (i + 1)
      \<and> \<bar>rnd (top_side (box_at kept (i + 1)) - top_side (box_at kept i))\<bar> \<le> 1
      \<and> \<bar>rnd (bottom_side (box_at kept (i + 1)) - bottom_side (box_at kept i))\<bar> \<le> 1)"

definition starts_above :: "kept \<Rightarrow> int \<Rightarrow> rat \<Rightarrow> nat \<Rightarrow> bool" where
  "starts_above kept page y i = (on_page kept page (i + 1) \<and> top_side (box_at kept (i + 1)) < y)"

definition anchor_slot :: "(rat \<Rightarrow> rat) \<Rightarrow> kept \<Rightarrow> item_placement \<Rightarrow> nat" where
  "anchor_slot rnd kept mine =
     (let page = page_of mine; box = page_box mine; indices = [0..<length kept];
          slot = List.find (\<lambda>i. on_page kept page i \<and> top_side (box_at kept i) \<ge> top_side box) indices;
          last_on_page = List.find (on_page kept page) (rev indices);
          first_after_page = List.find (\<lambda>i. case place_of kept i of None \<Rightarrow> False | Some p \<Rightarrow> page_of p > page) indices;
          beside = List.find (\<lambda>i. on_page kept page i \<and> overlaps_beside rnd (box_at kept i) box) indices
      in case beside of
           Some b \<Rightarrow> follow (starts_above kept page (top_side box)) kept (follow (same_frame rnd kept page) kept b) + 1
         | None \<Rightarrow>
             (case slot of
                Some s \<Rightarrow> s
              | None \<Rightarrow>
                  (case last_on_page of
                     Some l \<Rightarrow> l + 1
                   | None \<Rightarrow> (case first_after_page of Some f \<Rightarrow> f | None \<Rightarrow> length kept))))"

subsection \<open>The pass\<close>

record anchor_report =
  anchored :: nat
  appended :: nat

definition rebuild_items :: "(mover \<Rightarrow> nat option) \<Rightarrow> kept \<Rightarrow> mover list \<Rightarrow> msg list" where
  "rebuild_items slot_of kept movers =
     (let emit = (\<lambda>i. map mover_child (filter (\<lambda>m. slot_of m = Some i) movers))
      in concat (map (\<lambda>i. emit i @ [fst (kept ! i)]) [0..<length kept]) @ emit (length kept)
         @ map mover_child (filter (\<lambda>m. slot_of m = None) movers))"

definition find_movers :: "string list \<Rightarrow> (string \<Rightarrow> item_placement option) \<Rightarrow> msg list \<Rightarrow> mover list" where
  "find_movers picture_refs where_is items =
     map (\<lambda>i. \<lparr>mover_child = items ! i, mover_place = where_is (get_string ''ref'' (items ! i)), mover_position = i\<rparr>)
       (filter (\<lambda>i. get_string ''ref'' (items ! i) \<in> set picture_refs) [0..<length items])"

definition find_kept :: "string list \<Rightarrow> (string \<Rightarrow> item_placement option) \<Rightarrow> msg list \<Rightarrow> kept" where
  "find_kept picture_refs where_is items =
     map (\<lambda>item. (item, where_is (get_string ''ref'' item)))
       (filter (\<lambda>item. get_string ''ref'' item \<notin> set picture_refs) items)"

definition anchor_items ::
  "(rat \<Rightarrow> rat) \<Rightarrow> string list \<Rightarrow> (string \<Rightarrow> item_placement option) \<Rightarrow> msg list \<Rightarrow> anchor_report \<times> msg list" where
  "anchor_items rnd picture_refs where_is items =
     (let movers = sort_movers (find_movers picture_refs where_is items);
          kept = find_kept picture_refs where_is items;
          slot_of = (\<lambda>m. map_option (anchor_slot rnd kept) (mover_place m))
      in (\<lparr>anchored = length (filter (\<lambda>m. mover_place m \<noteq> None) movers),
           appended = length (filter (\<lambda>m. mover_place m = None) movers)\<rparr>,
          if movers = [] then items else rebuild_items slot_of kept movers))"

definition anchor_pictures_by_provenance ::
  "(rat \<Rightarrow> rat) \<Rightarrow> string list \<Rightarrow> string \<Rightarrow> msg \<Rightarrow> stoi_error + anchor_report \<times> msg" where
  "anchor_pictures_by_provenance rnd picture_refs container d =
     (if picture_refs = [] then Inr (\<lparr>anchored = 0, appended = 0\<rparr>, d)
      else case container_of d container of
             Inl e \<Rightarrow> Inl e
           | Inr None \<Rightarrow> Inr (\<lparr>anchored = 0, appended = 0\<rparr>, d)
           | Inr (Some holder) \<Rightarrow>
               (let (report, items) = anchor_items rnd picture_refs
                      (placement_in rnd d (document_page_heights d)) (holder_items d holder)
                in Inr (report, set_holder_items items d holder)))"

subsection \<open>Anchoring moves the pictures and nothing else\<close>

lemma mset_insert_mover: "mset (insert_mover m ns) = add_mset m (mset ns)"
  by (induction ns) auto

lemma mset_sort_movers: "mset (sort_movers ms) = mset ms"
  by (induction ms) (simp_all add: sort_movers_def mset_insert_mover)

lemma follow_inside: "i < length kept \<Longrightarrow> follow continues kept i < length kept"
  using length_takeWhile_le [of continues "[i..<length kept - 1]"] by (simp add: follow_def)

lemma find_upt: "List.find P [0..<n] = Some i \<Longrightarrow> i < n"
  by (auto simp: find_Some_iff)

lemma find_rev_upt: "List.find P (rev [0..<n]) = Some i \<Longrightarrow> i < n"
  by (auto simp: find_Some_iff rev_nth)

lemma anchor_slot_inside: "anchor_slot rnd kept mine \<le> length kept"
  unfolding anchor_slot_def Let_def
  by (auto split: option.split simp: Suc_le_eq intro!: follow_inside less_imp_le dest: find_upt find_rev_upt)

lemma distinct_count: "distinct xs \<Longrightarrow> x \<in> set xs \<Longrightarrow> count_list xs x = 1"
  by (induction xs) (auto simp: count_notin)

lemma mset_slots:
  assumes "\<forall>m \<in> set ms. \<forall>k. slot m = Some k \<longrightarrow> k \<le> n"
  shows "mset (concat (map (\<lambda>i. filter (\<lambda>m. slot m = Some i) ms) [0..<Suc n])) + mset (filter (\<lambda>m. slot m = None) ms)
     = mset ms"
  using assms
proof (induction ms)
  case (Cons m ms)
  let ?emit = "\<lambda>ms i. filter (\<lambda>m. slot m = Some i) ms"
  show ?case
  proof (cases "slot m")
    case (Some k)
    then have "k \<le> n" using Cons.prems by simp
    have "mset (concat (map (?emit (m # ms)) is)) = mset (concat (map (?emit ms) is)) + replicate_mset (count_list is k) m" for "is"
      by (induction "is") (auto simp: Some)
    moreover have "count_list [0..<Suc n] k = 1"
      using \<open>k \<le> n\<close> by (intro distinct_count) auto
    ultimately show ?thesis using Cons Some by (simp del: upt_Suc)
  qed (use Cons in auto)
qed (induction n, simp_all)

lemma mset_rebuild:
  assumes "\<forall>m \<in> set ms. \<forall>k. slot_of m = Some k \<longrightarrow> k \<le> length kept"
  shows "mset (rebuild_items slot_of kept ms) = mset (map fst kept) + mset (map mover_child ms)"
proof -
  let ?emit = "\<lambda>i. filter (\<lambda>m. slot_of m = Some i) ms" and ?rest = "filter (\<lambda>m. slot_of m = None) ms"
  have "mset (concat (map (\<lambda>i. map mover_child (?emit i) @ [fst (kept ! i)]) is))
      = mset (map (\<lambda>i. fst (kept ! i)) is) + mset (map mover_child (concat (map ?emit is)))" for "is"
    by (induction "is") simp_all
  then have "mset (rebuild_items slot_of kept ms)
      = mset (map (\<lambda>i. fst (kept ! i)) [0..<length kept])
        + mset (map mover_child (concat (map ?emit [0..<Suc (length kept)]) @ ?rest))"
    by (simp add: rebuild_items_def Let_def)
  also have "map (\<lambda>i. fst (kept ! i)) [0..<length kept] = map fst kept"
    using map_map [of fst "(!) kept" "[0..<length kept]"] by (simp add: map_nth comp_def)
  also have "mset (map mover_child (concat (map ?emit [0..<Suc (length kept)]) @ ?rest)) = mset (map mover_child ms)"
    using mset_slots [OF assms] by (metis mset_append mset_map)
  finally show ?thesis .
qed

lemma filter_rebuild:
  assumes "\<forall>m \<in> set ms. \<not> P (mover_child m)" "\<forall>k \<in> set kept. P (fst k)"
  shows "filter P (rebuild_items slot_of kept ms) = map fst kept"
proof -
  have none: "filter P (map mover_child (filter Q ms)) = []" for Q
    using assms(1) by (auto simp: filter_empty_conv)
  have "filter P (concat (map (\<lambda>i. map mover_child (filter (\<lambda>m. slot_of m = Some i) ms) @ [fst (kept ! i)]) is))
      = map (\<lambda>i. fst (kept ! i)) is" if "set is \<subseteq> {..<length kept}" for "is"
    using that assms(2) by (induction "is") (simp_all add: none)
  from this [of "[0..<length kept]"] show ?thesis
    using map_map [of fst "(!) kept" "[0..<length kept]"]
    by (simp add: rebuild_items_def Let_def none map_nth comp_def lessThan_atLeast0)
qed

lemma mset_filter_indices:
  "mset (map ((!) xs) (filter (\<lambda>i. P (xs ! i)) [0..<length xs])) = mset (filter P xs)"
proof -
  have "map ((!) xs) (filter (\<lambda>i. P (xs ! i)) [0..<length xs]) = filter P (map ((!) xs) [0..<length xs])"
    by (simp add: filter_map comp_def)
  then show ?thesis by (simp add: map_nth)
qed

lemma mset_find_movers:
  "mset (map mover_child (sort_movers (find_movers refs where_is items)))
     = mset (filter (\<lambda>item. get_string ''ref'' item \<in> set refs) items)"
proof -
  have "map mover_child (find_movers refs where_is items)
      = map ((!) items) (filter (\<lambda>i. get_string ''ref'' (items ! i) \<in> set refs) [0..<length items])"
    by (simp add: find_movers_def comp_def)
  then show ?thesis
    using mset_filter_indices [of items "\<lambda>item. get_string ''ref'' item \<in> set refs"]
    by (metis mset_map mset_sort_movers)
qed

lemma map_fst_kept: "map fst (find_kept refs where_is items) = filter (\<lambda>item. get_string ''ref'' item \<notin> set refs) items"
  by (simp add: find_kept_def comp_def)

lemma anchor_items_keep:
  assumes "anchor_items rnd refs where_is items = (report, out)"
  shows "mset out = mset items
     \<and> filter (\<lambda>item. get_string ''ref'' item \<notin> set refs) out = filter (\<lambda>item. get_string ''ref'' item \<notin> set refs) items
     \<and> anchored report + appended report = length (filter (\<lambda>item. get_string ''ref'' item \<in> set refs) items)"
proof -
  let ?movers = "sort_movers (find_movers refs where_is items)" and ?kept = "find_kept refs where_is items"
  let ?slot = "\<lambda>m. map_option (anchor_slot rnd ?kept) (mover_place m)"
  let ?pic = "\<lambda>item. get_string ''ref'' item \<in> set refs"
  note movers = mset_find_movers [of refs where_is items]
  have "\<forall>m \<in> set ?movers. ?pic (mover_child m)"
    using mset_eq_setD [OF movers] by (auto simp: set_eq_iff)
  then have rest: "filter (\<lambda>item. \<not> ?pic item) (rebuild_items ?slot ?kept ?movers) = filter (\<lambda>item. \<not> ?pic item) items"
    using filter_rebuild [of ?movers "\<lambda>item. \<not> ?pic item" ?kept ?slot] map_fst_kept [of refs where_is items]
    by (simp add: find_kept_def)
  have "mset (rebuild_items ?slot ?kept ?movers) = mset (filter (\<lambda>item. \<not> ?pic item) items) + mset (filter ?pic items)"
    by (subst mset_rebuild) (auto simp: map_fst_kept movers anchor_slot_inside simp del: mset_map mset_filter)
  then have all: "mset (rebuild_items ?slot ?kept ?movers) = mset items"
    by (metis mset_partition add.commute)
  have "length (filter (\<lambda>m. mover_place m \<noteq> None) ?movers) + length (filter (\<lambda>m. mover_place m = None) ?movers) = length ?movers"
    using sum_length_filter_compl [of "\<lambda>m. mover_place m \<noteq> None" ?movers] by simp
  moreover have "length ?movers = length (filter ?pic items)"
    using arg_cong [OF movers, of size] by (simp del: mset_map mset_filter)
  ultimately show ?thesis
    using assms rest all by (auto simp: anchor_items_def Let_def split: if_splits)
qed

lemma body_items_replaced:
  assumes "length items = length (body_items d)"
  shows "body_items (set_body_children items d) = items"
proof (cases "body_items d = []")
  case True
  then show ?thesis using assms
    by (auto simp: body_items_def set_body_children_def sub_or_default_def get_sub_set_sub get_list_set_list_length)
qed (rule body_items_set)

lemma holder_items_replaced:
  assumes "length items = length (holder_items d h)" "container_of d container = Inr (Some h)"
  shows "holder_items (set_holder_items items d h) h = items"
proof (cases h)
  case (Group k)
  then have "k < length (get_list ''groups'' d)"
    using assms(2) by (auto simp: container_of_def split: if_splits sum.splits)
  then have groups: "get_list ''groups'' (set_holder_items items d h)
      = (get_list ''groups'' d)[k := set_list ''children'' items (get_list ''groups'' d ! k)]"
    unfolding Group set_holder_items.simps by (intro get_list_set_list_same) auto
  show ?thesis
    using assms(1) \<open>k < _\<close> groups by (simp add: Group get_list_set_list_length)
qed (use assms body_items_replaced in simp)

text \<open>
  C25. Anchoring pictures moves the pictures and nothing else: it fails only
  where the container's number does not read; otherwise the container holds the
  same items, the items that are not moved stay in their order, and
  the report counts every mover, anchored or appended. Without a container
  the document is returned as it is.
\<close>

theorem anchoring_moves_only_pictures:
  "(case anchor_pictures_by_provenance rnd refs container d of
      Inl e \<Rightarrow> container_of d container = Inl e
    | Inr (report, d') \<Rightarrow>
        (case container_of d container of
           Inr (Some h) \<Rightarrow>
             mset (holder_items d' h) = mset (holder_items d h)
             \<and> filter (\<lambda>item. get_string ''ref'' item \<notin> set refs) (holder_items d' h)
                 = filter (\<lambda>item. get_string ''ref'' item \<notin> set refs) (holder_items d h)
             \<and> anchored report + appended report
                 = length (filter (\<lambda>item. get_string ''ref'' item \<in> set refs) (holder_items d h))
         | _ \<Rightarrow> d' = d))"
proof (cases "refs = [] \<or> (\<nexists>h. container_of d container = Inr (Some h))")
  case True
  then show ?thesis
    by (auto simp: anchor_pictures_by_provenance_def split: sum.splits option.splits)
next
  case False
  then obtain h where h: "container_of d container = Inr (Some h)" by blast
  obtain report out where out: "anchor_items rnd refs (placement_in rnd d (document_page_heights d)) (holder_items d h) = (report, out)"
    by fastforce
  note keep = anchor_items_keep [OF out]
  have "length out = length (holder_items d h)" using keep by (metis size_mset)
  from holder_items_replaced [OF this h] keep show ?thesis
    using False h out by (simp add: anchor_pictures_by_provenance_def)
qed

end
