(* ===== verification/NodeTree.thy ===== *)
theory NodeTree
  imports BodyArrange Structure
begin

text \<open>
  The nodes of a document as the structural repairs reach them
  (\<^verbatim>\<open>src/src/structure_repair.cpp\<close>): the two roots and the items of every arena, each
  addressed by where it is stored (the pointer of the code), read and updated in
  place. \<open>blank\<close> gives the default message of a type, which the schema defines.
\<close>

subsection \<open>Addresses\<close>

datatype node_id = Body_Root | Furniture_Root | Item string nat

definition node_arenas :: "string list" where
  "node_arenas =
     [''groups'', ''texts'', ''pictures'', ''tables'', ''key_value_items'', ''form_items'', ''field_regions'', ''field_items'']"

definition item_node :: "string \<Rightarrow> msg \<Rightarrow> msg option" where
  "item_node a m = (if a = ''texts'' then text_node m else Some m)"

definition update_text :: "(msg \<Rightarrow> msg) \<Rightarrow> msg \<Rightarrow> msg" where
  "update_text f m =
     (case text_variant m of
        None \<Rightarrow> m
      | Some v \<Rightarrow>
          let payload = sub_or_default v m in
          if v = ''code'' then set_sub v (Some (f payload)) m
          else set_sub v (Some (set_sub ''base'' (Some (f (sub_or_default ''base'' payload))) payload)) m)"

definition update_item :: "string \<Rightarrow> (msg \<Rightarrow> msg) \<Rightarrow> msg \<Rightarrow> msg" where
  "update_item a f m = (if a = ''texts'' then update_text f m else f m)"

fun node_msg :: "msg \<Rightarrow> node_id \<Rightarrow> msg" where
  "node_msg d Body_Root = sub_or_default ''body'' d"
| "node_msg d Furniture_Root = sub_or_default ''furniture'' d"
| "node_msg d (Item a i) = (case item_node a (get_list a d ! i) of None \<Rightarrow> Msg [] [] [] | Some n \<Rightarrow> n)"

fun update_node :: "node_id \<Rightarrow> (msg \<Rightarrow> msg) \<Rightarrow> msg \<Rightarrow> msg" where
  "update_node Body_Root f d = set_sub ''body'' (Some (f (sub_or_default ''body'' d))) d"
| "update_node Furniture_Root f d = set_sub ''furniture'' (Some (f (sub_or_default ''furniture'' d))) d"
| "update_node (Item a i) f d = set_list a ((get_list a d)[i := update_item a f (get_list a d ! i)]) d"

text \<open>Taking the mutable handles makes the roots and the bases of the texts that are unset.\<close>

definition present :: "string \<Rightarrow> msg \<Rightarrow> msg \<Rightarrow> msg" where
  "present name blank_sub m = (if get_sub name m = None then set_sub name (Some blank_sub) m else m)"

definition present_base :: "msg \<Rightarrow> msg \<Rightarrow> msg" where
  "present_base blank_base item =
     (case text_variant item of
        None \<Rightarrow> item
      | Some v \<Rightarrow> if v = ''code'' then item else set_sub v (Some (present ''base'' blank_base (sub_or_default v item))) item)"

definition materialize :: "(string \<Rightarrow> msg) \<Rightarrow> msg \<Rightarrow> msg" where
  "materialize blank d =
     (let d = present ''furniture'' (blank ''GroupItem'') (present ''body'' (blank ''GroupItem'') d)
      in set_list ''texts'' (map (present_base (blank ''TextItemBase'')) (get_list ''texts'' d)) d)"

definition arena_nodes :: "msg \<Rightarrow> string \<Rightarrow> (string \<times> node_id) list" where
  "arena_nodes d a =
     List.map_filter (\<lambda>i.
       case item_node a (get_list a d ! i) of
         None \<Rightarrow> None
       | Some n \<Rightarrow>
           let ref = get_string ''self_ref'' n
           in Some (if ref = [] then ''#/'' @ a @ ''/'' @ to_dec i else ref, Item a i)) [0..<length (get_list a d)]"

definition all_nodes :: "msg \<Rightarrow> (string \<times> node_id) list" where
  "all_nodes d =
     (''#/body'', Body_Root) # (''#/furniture'', Furniture_Root) # concat (map (arena_nodes d) node_arenas)"

text \<open>\<^verbatim>\<open>index_nodes\<close>: the first node of a reference wins.\<close>

definition index_nodes :: "(string \<times> node_id) list \<Rightarrow> string \<Rightarrow> node_id option" where
  "index_nodes nodes = map_of nodes"

definition content_layer_body :: int where "content_layer_body = 1"

fun with_num :: "int \<Rightarrow> slot \<Rightarrow> slot" where
  "with_num v (Singular name p s _) = Singular name p s (if \<not> p \<and> v = 0 then None else Some (Num v))"
| "with_num v s = s"

definition set_num :: "string \<Rightarrow> int \<Rightarrow> msg \<Rightarrow> msg" where
  "set_num name v m = update_field name (with_num v) m"

definition set_parent :: "string \<Rightarrow> msg \<Rightarrow> msg" where
  "set_parent ref node =
     set_sub ''parent'' (Some (case get_sub ''parent'' node of None \<Rightarrow> ref_item ref | Some p \<Rightarrow> set_string ''ref'' ref p)) node"

subsection \<open>What an update leaves alone\<close>

lemma slot_name_with_num [simp]: "slot_name (with_num v s) = slot_name s"
  by (cases s) auto

lemma get_list_set_num [simp]: "get_list n (set_num k v m) = get_list n m"
proof (cases "field_of n m")
  case (Some s)
  then show ?thesis by (cases s) (auto simp: get_list_def set_num_def field_of_update)
qed (simp add: get_list_def set_num_def field_of_update)

lemma get_sub_set_num [simp]: "get_sub n (set_num k v m) = get_sub n m"
proof (cases "field_of n m")
  case (Some s)
  then show ?thesis by (cases s) (auto simp: get_sub_def set_num_def field_of_update)
qed (simp add: get_sub_def set_num_def field_of_update)

lemma get_list_set_parent [simp]: "get_list n (set_parent ref m) = get_list n m"
  by (simp add: set_parent_def)

end
