(* ===== verification/StructureRepair.thy ===== *)
theory StructureRepair
  imports NodeTree "HOL-Library.Sublist"
begin

text \<open>
  The opt-in structural repairs (\<^verbatim>\<open>src/src/structure_repair.cpp\<close>): migrating the
  furniture tree into the body, listing referenced orphans, wrapping the children of a
  list that are no list items, and removing empty groups.
\<close>

subsection \<open>The furniture tree\<close>

definition mark_layer :: "msg \<Rightarrow> msg" where
  "mark_layer node =
     (if get_num ''content_layer'' node = content_layer_body then set_num ''content_layer'' 2 node else node)"

text \<open>
  \<open>mark_furniture\<close> with its calls that are still to come: a node, then its children, then
  what follows it.
\<close>

function mark_furniture :: "(string \<times> node_id) list \<Rightarrow> node_id list \<Rightarrow> node_id set \<Rightarrow> msg \<Rightarrow> node_id set \<times> msg" where
  "mark_furniture nodes [] seen d = (seen, d)"
| "mark_furniture nodes (k # ks) seen d =
     (if k \<in> seen then mark_furniture nodes ks seen d
      else mark_furniture nodes (List.map_filter (index_nodes nodes) (child_refs (node_msg d k)) @ ks) (insert k seen)
             (update_node k mark_layer d))"
  by pat_completeness auto

termination
proof (relation "measures [\<lambda>(nodes, ks, seen, d). card (snd ` set nodes \<union> set ks - seen), \<lambda>(nodes, ks, seen, d). length ks]",
    goal_cases)
  case (2 nodes k ks seen d)
  have "card (snd ` set nodes \<union> set ks - seen) \<le> card (snd ` set nodes \<union> set (k # ks) - seen)"
    by (intro card_mono) auto
  then show ?case by auto
next
  case (3 nodes k ks seen d)
  have "set (List.map_filter (index_nodes nodes) refs) \<subseteq> snd ` set nodes" for refs
    by (force simp: List.map_filter_def index_nodes_def dest: map_of_SomeD)
  then have "snd ` set nodes \<union> set (List.map_filter (index_nodes nodes) (child_refs (node_msg d k)) @ ks) - insert k seen
      \<subset> snd ` set nodes \<union> set (k # ks) - seen"
    using 3 by auto
  then show ?case by (auto intro: psubset_card_mono)
qed simp

record moved =
  moved_ref :: msg
  is_footer :: bool
  moved_page :: int
  moved_key :: "int \<times> rat \<times> nat"

definition lround :: "rat \<Rightarrow> int" where
  "lround x = (if x \<ge> 0 then \<lfloor>x + 1 / 2\<rfloor> else - \<lfloor>1 / 2 - x\<rfloor>)"

definition lower_half :: "(rat \<Rightarrow> rat) \<Rightarrow> heights \<Rightarrow> item_placement \<Rightarrow> bool" where
  "lower_half rnd hs p =
     (rnd (rnd (top_side (page_box p) + bottom_side (page_box p)) / 2)
        > rnd ((case hs (page_of p) of None \<Rightarrow> 0 | Some h \<Rightarrow> h) / 2))"

definition make_moved :: "(rat \<Rightarrow> rat) \<Rightarrow> msg \<Rightarrow> heights \<Rightarrow> nat \<Rightarrow> msg \<Rightarrow> moved" where
  "make_moved rnd d hs position item =
     (let ref = get_string ''ref'' item; spot = placement_in rnd d hs ref; label = item_label d ref;
          footer = (label = label_page_footer
                    \<or> label \<noteq> label_page_header
                      \<and> (case spot of None \<Rightarrow> False | Some p \<Rightarrow> lower_half rnd hs p))
      in case spot of
           None \<Rightarrow> \<lparr>moved_ref = item, is_footer = footer, moved_page = 0, moved_key = (0, 0, position)\<rparr>
         | Some p \<Rightarrow>
             \<lparr>moved_ref = item, is_footer = footer, moved_page = page_of p,
              moved_key = (lround (rnd (top_side (page_box p) / 12)), left_side (page_box p), position)\<rparr>)"

definition claim_for_body :: "(string \<times> node_id) list \<Rightarrow> msg \<Rightarrow> node_id set \<times> msg \<Rightarrow> node_id set \<times> msg" where
  "claim_for_body nodes item state =
     (case index_nodes nodes (get_string ''ref'' item) of
        None \<Rightarrow> state
      | Some k \<Rightarrow> mark_furniture nodes [k] (fst state) (update_node k (set_parent ''#/body'') (snd state)))"

fun interleave :: "moved list \<Rightarrow> (msg \<times> int option) list \<Rightarrow> msg list" where
  "interleave located [] = map moved_ref located"
| "interleave located ((child, None) # body) = child # interleave located body"
| "interleave located ((child, Some page) # body) =
     (let due = (\<lambda>m. moved_page m < page \<or> moved_page m = page \<and> \<not> is_footer m)
      in map moved_ref (takeWhile due located) @ [child] @ interleave (dropWhile due located) body)"

definition merged_body :: "moved list \<Rightarrow> moved list \<Rightarrow> moved list \<Rightarrow> (msg \<times> int option) list \<Rightarrow> msg list" where
  "merged_body leading located trailing body =
     map moved_ref leading
     @ (if \<forall>b \<in> set body. snd b = None
        then map moved_ref (filter (\<lambda>m. \<not> is_footer m) located) @ map fst body @ map moved_ref (filter is_footer located)
        else interleave located body)
     @ map moved_ref trailing"

definition furniture_items :: "msg \<Rightarrow> msg list" where
  "furniture_items d = get_list ''children'' (sub_or_default ''furniture'' d)"

definition clear_furniture :: "msg \<Rightarrow> msg" where
  "clear_furniture d = set_sub ''furniture'' (Some (clear_field ''children'' (sub_or_default ''furniture'' d))) d"

definition place_moved ::
  "moved list \<Rightarrow> (moved \<Rightarrow> bool) \<Rightarrow> (msg \<times> int option) list \<Rightarrow> msg list" where
  "place_moved ms has_spot body =
     merged_body (filter (\<lambda>m. \<not> has_spot m \<and> \<not> is_footer m) ms)
       (sort_key (\<lambda>m. (moved_page m, is_footer m, moved_key m)) (filter has_spot ms))
       (filter (\<lambda>m. \<not> has_spot m \<and> is_footer m) ms) body"

text \<open>
  The claims of earlier items change only parents and layers, which no placement reads; a
  placement is on a page from 1 on, so page 0 marks the items that have none.
\<close>

definition migrate_furniture_tree :: "(rat \<Rightarrow> rat) \<Rightarrow> (string \<Rightarrow> msg) \<Rightarrow> msg \<Rightarrow> nat \<times> msg" where
  "migrate_furniture_tree rnd blank d =
     (if furniture_items d = [] then (0, d)
      else
        let d = materialize blank d;
            nodes = all_nodes d;
            hs = document_page_heights d;
            items = furniture_items d;
            ms = map (\<lambda>i. make_moved rnd d hs i (items ! i)) [0..<length items];
            e = snd (fold (claim_for_body nodes) items ({}, d));
            body = map (\<lambda>c. (c, map_option page_of (placement_in rnd e hs (get_string ''ref'' c)))) (body_items e);
            refs = place_moved ms (\<lambda>m. moved_page m \<noteq> 0) body
        in (length items, clear_furniture (set_body_children refs e)))"

subsection \<open>Referenced orphans\<close>

definition named_refs :: "msg \<Rightarrow> string list" where
  "named_refs node =
     concat (map (\<lambda>name. map (get_string ''ref'') (get_list name node)) [''captions'', ''footnotes'', ''references''])"

definition adopt_orphan ::
  "(string \<times> node_id) list \<Rightarrow> string \<Rightarrow> node_id \<Rightarrow> string \<Rightarrow> nat \<times> msg \<Rightarrow> nat \<times> msg" where
  "adopt_orphan nodes owner_ref owner ref state =
     (let (repaired, d) = state in
      case index_nodes nodes ref of
        None \<Rightarrow> state
      | Some k \<Rightarrow>
          if parent_link (node_msg d k) \<noteq> Some owner_ref then state
          else if ref \<in> set (child_refs (node_msg d owner)) then state
          else (repaired + 1,
                update_node owner (\<lambda>n. set_list ''children'' (get_list ''children'' n @ [ref_item ref]) n) d))"

definition adopt_named :: "(string \<times> node_id) list \<Rightarrow> string \<times> node_id \<Rightarrow> nat \<times> msg \<Rightarrow> nat \<times> msg" where
  "adopt_named nodes node state =
     (let n = node_msg (snd state) (snd node) in
      if field_of ''captions'' n = None then state
      else fold (adopt_orphan nodes (fst node) (snd node)) (named_refs n) state)"

definition repair_referenced_orphans :: "(string \<Rightarrow> msg) \<Rightarrow> msg \<Rightarrow> nat \<times> msg" where
  "repair_referenced_orphans blank d =
     (let d = materialize blank d; nodes = all_nodes d in fold (adopt_named nodes) nodes (0, d))"

subsection \<open>Wrapping the children of a list that are no list items\<close>

fun with_bool :: "bool \<Rightarrow> slot \<Rightarrow> slot" where
  "with_bool v (Singular name p s _) = Singular name p s (if \<not> p \<and> \<not> v then None else Some (Bool v))"
| "with_bool v s = s"

definition set_bool :: "string \<Rightarrow> bool \<Rightarrow> msg \<Rightarrow> msg" where
  "set_bool name v m = update_field name (with_bool v) m"

definition label_list_item :: int where "label_list_item = 14"

definition list_item_entry :: "nat \<Rightarrow> msg \<Rightarrow> (string \<times> bool option) option" where
  "list_item_entry i item =
     (case text_base_of item of
        None \<Rightarrow> None
      | Some base \<Rightarrow>
          let self = get_string ''self_ref'' base; ref = (if self = [] then ''#/texts/'' @ to_dec i else self)
          in if text_variant item = Some ''list_item''
             then Some (ref, Some (get_bool ''enumerated'' (sub_or_default ''list_item'' item)))
             else if get_num ''label'' base = label_list_item then Some (ref, None)
             else None)"

definition list_items_of :: "msg \<Rightarrow> (string \<times> bool option) list" where
  "list_items_of d =
     List.map_filter (\<lambda>i. list_item_entry i (get_list ''texts'' d ! i)) [0..<length (get_list ''texts'' d)]"

definition is_list_group :: "msg \<Rightarrow> bool" where
  "is_list_group g = (get_num ''label'' g \<in> {1, 2})"

definition group_ref :: "msg \<Rightarrow> nat \<Rightarrow> string" where
  "group_ref g i =
     (if get_string ''self_ref'' g = [] then ''#/groups/'' @ to_dec i else get_string ''self_ref'' g)"

definition group_wraps :: "msg \<Rightarrow> nat \<Rightarrow> (nat \<times> string) list" where
  "group_wraps d g =
     (let list_group = get_list ''groups'' d ! g in
      if \<not> is_list_group list_group then []
      else
        map (Pair g)
          (filter (\<lambda>child.
             case index_nodes (all_nodes d) child of
               None \<Rightarrow> False
             | Some k \<Rightarrow> child \<notin> fst ` set (list_items_of d) \<and> parent_link (node_msg d k) = Some (group_ref list_group g))
           (child_refs list_group)))"

fun first_enumerated :: "(string \<times> bool option) list \<Rightarrow> string list \<Rightarrow> bool option" where
  "first_enumerated items [] = None"
| "first_enumerated items (ref # refs) =
     (case map_of items ref of Some (Some flag) \<Rightarrow> Some flag | _ \<Rightarrow> first_enumerated items refs)"

fun rename_first :: "string \<Rightarrow> string \<Rightarrow> msg list \<Rightarrow> msg list" where
  "rename_first old new [] = []"
| "rename_first old new (entry # entries) =
     (if get_string ''ref'' entry = old then set_string ''ref'' new entry # entries
      else entry # rename_first old new entries)"

definition wrapping_item :: "(string \<Rightarrow> msg) \<Rightarrow> string \<Rightarrow> string \<Rightarrow> int \<Rightarrow> bool \<Rightarrow> string \<Rightarrow> msg" where
  "wrapping_item blank item_ref list_ref layer enumerated child =
     (let base = set_list ''children'' [ref_item child]
                   (set_num ''content_layer'' layer
                      (set_num ''label'' label_list_item
                         (set_parent list_ref (set_string ''self_ref'' item_ref (blank ''TextItemBase'')))));
          item = set_sub ''base'' (Some base) (set_string ''marker'' [] (set_bool ''enumerated'' enumerated (blank ''ListItem'')))
      in set_sub ''list_item'' (Some item) (blank ''BaseTextItem''))"

text \<open>A child to wrap stays in the index, so \<^verbatim>\<open>at\<close> does not throw.\<close>

definition wrap_one :: "(string \<Rightarrow> msg) \<Rightarrow> nat \<times> string \<Rightarrow> msg \<Rightarrow> msg" where
  "wrap_one blank wrap d =
     (let d = materialize blank d; (g, child) = wrap in
      case index_nodes (all_nodes d) child of
        None \<Rightarrow> d
      | Some k \<Rightarrow>
          let list_group = get_list ''groups'' d ! g;
              enumerated = (case first_enumerated (list_items_of d) (child_refs list_group) of
                              Some flag \<Rightarrow> flag | None \<Rightarrow> get_num ''label'' list_group = 2);
              item_ref = ''#/texts/'' @ to_dec (length (get_list ''texts'' d));
              item = wrapping_item blank item_ref (group_ref list_group g) (get_num ''content_layer'' (node_msg d k)) enumerated child;
              d = update_node k (set_parent item_ref) d;
              d = set_list ''texts'' (get_list ''texts'' d @ [item]) d
          in update_node (Item ''groups'' g)
               (\<lambda>n. set_list ''children'' (rename_first child item_ref (get_list ''children'' n)) n) d)"

definition wrap_list_children :: "(string \<Rightarrow> msg) \<Rightarrow> msg \<Rightarrow> nat \<times> msg" where
  "wrap_list_children blank d =
     (let d = materialize blank d; wraps = concat (map (group_wraps d) [0..<length (get_list ''groups'' d)])
      in (length wraps, fold (wrap_one blank) wraps d))"

subsection \<open>Removing empty groups\<close>

definition claimed_refs :: "msg \<Rightarrow> string set" where
  "claimed_refs d = set (List.map_filter (\<lambda>node. parent_link (node_msg d (snd node))) (all_nodes d))"

text \<open>\<^verbatim>\<open>std::map::emplace\<close>: the first entry of a key stays.\<close>

definition emplace :: "'k \<times> 'v \<Rightarrow> ('k \<times> 'v) list \<Rightarrow> ('k \<times> 'v) list" where
  "emplace entry m = (if fst entry \<in> fst ` set m then m else m @ [entry])"

definition is_removable :: "msg \<Rightarrow> nat \<Rightarrow> msg \<Rightarrow> bool" where
  "is_removable d i g =
     (get_sub ''parent'' g \<noteq> None \<and> get_list ''children'' g = [] \<and> group_ref g i \<notin> claimed_refs d)"

definition removable_entry :: "msg \<Rightarrow> nat \<times> msg \<Rightarrow> (string \<times> string) option" where
  "removable_entry d entry =
     (if is_removable d (fst entry) (snd entry)
      then Some (group_ref (snd entry) (fst entry), get_string ''ref'' (sub_or_default ''parent'' (snd entry)))
      else None)"

definition removed_groups :: "msg \<Rightarrow> (string \<times> string) list" where
  "removed_groups d =
     sort_key fst (fold emplace (List.map_filter (removable_entry d) (List.enumerate 0 (get_list ''groups'' d))) [])"

definition drop_children :: "string set \<Rightarrow> msg \<Rightarrow> msg" where
  "drop_children removed d =
     fold (\<lambda>node. update_node (snd node)
       (\<lambda>n. set_list ''children'' (filter (\<lambda>c. get_string ''ref'' c \<notin> removed) (get_list ''children'' n)) n))
       (all_nodes d) d"

definition keep_group :: "string set \<Rightarrow> nat \<times> msg \<Rightarrow> msg list \<times> (string \<times> string) list \<Rightarrow> msg list \<times> (string \<times> string) list" where
  "keep_group removed entry state =
     (let (kept, renumbering) = state;
          old_ref = group_ref (snd entry) (fst entry); new_ref = ''#/groups/'' @ to_dec (length kept)
      in if old_ref \<in> removed then state
         else (kept @ [snd entry], if old_ref \<noteq> new_ref then AList.update old_ref new_ref renumbering else renumbering))"

definition follow_parent :: "string \<times> string \<Rightarrow> (string \<times> string) list \<Rightarrow> (string \<times> string) list" where
  "follow_parent entry renumbering =
     AList.update (fst entry)
       (case map_of renumbering (snd entry) of None \<Rightarrow> snd entry | Some new \<Rightarrow> new) renumbering"

definition removal_pass :: "(string \<times> string) list \<Rightarrow> msg \<times> rename_log option \<Rightarrow> msg \<times> rename_log option" where
  "removal_pass removed state =
     (let (d, renames) = state;
          d = drop_children (fst ` set removed) d;
          (kept, renumbering) = fold (keep_group (fst ` set removed)) (List.enumerate 0 (get_list ''groups'' d)) ([], []);
          renumbering = fold follow_parent removed renumbering
      in rewrite_references (sort_key fst renumbering) (set_list ''groups'' kept d, renames))"

subsection \<open>The removal ends\<close>

lemma length_groups_materialize [simp]: "get_list ''groups'' (materialize blank d) = get_list ''groups'' d"
  by (simp add: materialize_def present_def Let_def get_list_set_list_other)

lemma self_refs_update_node:
  assumes "\<And>n. get_string ''self_ref'' (f n) = get_string ''self_ref'' n"
  shows "map (get_string ''self_ref'') (get_list ''groups'' (update_node k f d)) = map (get_string ''self_ref'') (get_list ''groups'' d)"
proof (cases k)
  case (Item a i)
  show ?thesis
  proof (cases "a = ''groups''")
    case True
    have "get_list ''groups'' (update_node k f d) = (get_list ''groups'' d)[i := f (get_list ''groups'' d ! i)]"
      unfolding Item True update_node.simps update_item_def by (simp add: get_list_set_list_length del: list_update.simps)
    moreover have "(map (get_string ''self_ref'') (get_list ''groups'' d))[i := get_string ''self_ref'' (get_list ''groups'' d ! i)]
        = map (get_string ''self_ref'') (get_list ''groups'' d)"
      by (simp add: map_update [symmetric])
    ultimately show ?thesis by (simp add: map_update assms)
  qed (simp add: Item get_list_set_list_other)
qed simp_all

lemma self_refs_drop_children:
  "map (get_string ''self_ref'') (get_list ''groups'' (drop_children removed d)) = map (get_string ''self_ref'') (get_list ''groups'' d)"
proof -
  have "map (get_string ''self_ref'') (get_list ''groups'' (fold (\<lambda>node. update_node (snd node)
       (\<lambda>n. set_list ''children'' (filter (\<lambda>c. get_string ''ref'' c \<notin> removed) (get_list ''children'' n)) n)) nodes e))
     = map (get_string ''self_ref'') (get_list ''groups'' e)" for nodes e
    by (induction nodes arbitrary: e) (simp_all add: self_refs_update_node)
  then show ?thesis by (simp add: drop_children_def)
qed


lemma fst_emplace: "fst ` set (emplace e m) = insert (fst e) (fst ` set m)"
  by (auto simp: emplace_def)

lemma fst_fold_emplace: "fst ` set (fold emplace es m) = fst ` set es \<union> fst ` set m"
  by (induction es arbitrary: m) (auto simp: fst_emplace)

lemma distinct_fold_emplace: "distinct (map fst m) \<Longrightarrow> distinct (map fst (fold emplace es m))"
  by (induction es arbitrary: m) (auto simp: emplace_def)

definition ref_at :: "string list \<Rightarrow> nat \<Rightarrow> string" where
  "ref_at selves i = (if selves ! i = [] then ''#/groups/'' @ to_dec i else selves ! i)"

lemma group_ref_at: "i < length gs \<Longrightarrow> group_ref (gs ! i) i = ref_at (map (get_string ''self_ref'') gs) i"
  by (simp add: group_ref_def ref_at_def)

lemma length_keep:
  "length (fst (fold (keep_group removed) entries state)) =
     length (fst state) + length (filter (\<lambda>e. group_ref (snd e) (fst e) \<notin> removed) entries)"
  by (induction entries arbitrary: state) (auto simp: keep_group_def Let_def split: prod.split)


lemma removed_groups_distinct: "distinct (map fst (removed_groups d))"
  by (simp add: removed_groups_def distinct_map distinct_fold_emplace [of "[]", unfolded distinct_map, simplified])

text \<open>The references of a groups arena, which only its self references decide.\<close>

definition group_refs :: "msg list \<Rightarrow> string list" where
  "group_refs gs = map (\<lambda>e. group_ref (snd e) (fst e)) (List.enumerate 0 gs)"

lemma group_refs_selves: "group_refs gs = map (ref_at (map (get_string ''self_ref'') gs)) [0..<length gs]"
  by (rule nth_equalityI) (simp_all add: group_refs_def nth_enumerate_eq group_ref_at)

lemma length_group_refs [simp]: "length (group_refs gs) = length gs"
  by (simp add: group_refs_def)

lemma removed_groups_refs: "fst ` set (removed_groups d) \<subseteq> set (group_refs (get_list ''groups'' d))"
proof -
  have "fst ` set (List.map_filter (removable_entry d) es) \<subseteq> (\<lambda>e. group_ref (snd e) (fst e)) ` set es" for es
    by (induction es) (auto simp: List.map_filter_def removable_entry_def split: if_splits)
  then show ?thesis by (simp add: removed_groups_def group_refs_def fst_fold_emplace)
qed

lemma length_kept:
  "length (fst (fold (keep_group removed) (List.enumerate 0 gs) ([], []))) = length (filter (\<lambda>r. r \<notin> removed) (group_refs gs))"
  by (simp add: length_keep group_refs_def filter_map comp_def)

lemma length_removal_pass:
  assumes "removed_groups d \<noteq> []"
  shows "length (removed_groups d) + length (get_list ''groups'' (fst (removal_pass (removed_groups d) (d, renames))))
     \<le> length (get_list ''groups'' d)"
proof -
  define R where "R = fst ` set (removed_groups d)"
  define refs where "refs = group_refs (get_list ''groups'' d)"
  have dropped: "group_refs (get_list ''groups'' (drop_children R d)) = refs"
    using self_refs_drop_children [of R d] unfolding refs_def group_refs_selves by (metis length_map)
  have R: "R \<subseteq> set refs" "R \<noteq> {}"
    using removed_groups_refs assms by (auto simp: R_def refs_def)
  then have "refs \<noteq> []" by auto
  with dropped have ne: "get_list ''groups'' (drop_children R d) \<noteq> []"
    by (auto simp: group_refs_def)
  have "length (get_list ''groups'' (fst (removal_pass (removed_groups d) (d, renames)))) = length (filter (\<lambda>r. r \<notin> R) refs)"
    by (simp add: removal_pass_def Let_def case_prod_beta rewrite_references_def get_list_rewrite R_def [symmetric]
        get_list_set_list_same [OF ne] length_kept dropped)
  moreover have "length (removed_groups d) = card R"
    using distinct_card [OF removed_groups_distinct [of d]] by (simp add: R_def)
  moreover have "card R \<le> length (filter (\<lambda>r. r \<in> R) refs)"
  proof -
    have "R = set (filter (\<lambda>r. r \<in> R) refs)" using R by auto
    then show ?thesis by (metis card_length)
  qed
  moreover have "length (filter (\<lambda>r. r \<in> R) refs) + length (filter (\<lambda>r. r \<notin> R) refs) = length (get_list ''groups'' d)"
    by (metis sum_length_filter_compl length_group_refs refs_def)
  ultimately show ?thesis by linarith
qed

function remove_empty_groups_loop :: "(string \<Rightarrow> msg) \<Rightarrow> nat \<Rightarrow> msg \<times> rename_log option \<Rightarrow> nat \<times> msg \<times> rename_log option" where
  "remove_empty_groups_loop blank so_far (d, renames) =
     (let d = materialize blank d; removed = removed_groups d in
      if removed = [] then (so_far, d, renames)
      else remove_empty_groups_loop blank (so_far + length removed) (removal_pass removed (d, renames)))"
  by pat_completeness auto

termination
proof (relation "measure (\<lambda>(blank, so_far, d, renames). length (get_list ''groups'' d))", goal_cases)
  case (2 blank so_far d renames e removed)
  then have "length (removed_groups e) + length (get_list ''groups'' (fst (removal_pass (removed_groups e) (e, renames)))) \<le> length (get_list ''groups'' e)"
    by (intro length_removal_pass) simp
  moreover have "0 < length (removed_groups e)" using 2 by simp
  ultimately show ?case using 2 by (simp add: case_prod_beta del: length_greater_0_conv)
qed simp

declare remove_empty_groups_loop.simps [simp del]

definition remove_empty_groups :: "(string \<Rightarrow> msg) \<Rightarrow> msg \<times> rename_log option \<Rightarrow> nat \<times> msg \<times> rename_log option" where
  "remove_empty_groups blank state = remove_empty_groups_loop blank 0 state"


lemma remove_loop_complete:
  "remove_empty_groups_loop blank so_far (d, renames) = (n, d', renames') \<Longrightarrow>
     removed_groups d' = [] \<and> n + length (get_list ''groups'' d') \<le> so_far + length (get_list ''groups'' d)"
proof (induction blank so_far "(d, renames)" arbitrary: d renames rule: remove_empty_groups_loop.induct)
  case (1 blank so_far d renames)
  define e where "e = materialize blank d"
  show ?case
  proof (cases "removed_groups e = []")
    case True
    then show ?thesis using "1.prems" by (auto simp: remove_empty_groups_loop.simps e_def)
  next
    case False
    obtain e' r' where pass: "removal_pass (removed_groups e) (e, renames) = (e', r')" by fastforce
    have loop: "remove_empty_groups_loop blank (so_far + length (removed_groups e)) (e', r') = (n, d', renames')"
      using "1.prems" False pass by (simp add: remove_empty_groups_loop.simps [of _ _ d] e_def)
    from "1.hyps" [OF e_def refl False pass loop] length_removal_pass [OF False, of renames] pass
    show ?thesis by (simp add: e_def)
  qed
qed

text \<open>
  C27. Removing the empty groups ends, whatever the group links are: each pass drops a group.
  Afterwards no group of the document is removable, so a group emptied by the removal of its
  children was removed in turn, and the count reported is at most the number of groups that
  left the arena.
\<close>

theorem remove_empty_groups_complete:
  "case remove_empty_groups blank (d, renames) of
     (n, d', _) \<Rightarrow> removed_groups d' = [] \<and> n + length (get_list ''groups'' d') \<le> length (get_list ''groups'' d)"
  using remove_loop_complete [of blank 0 d renames] by (auto simp: remove_empty_groups_def split: prod.split)

subsection \<open>Migration keeps the body and takes in the furniture\<close>

lemma mset_interleave: "mset (interleave located body) = mset (map moved_ref located) + mset (map fst body)"
proof (induction located body rule: interleave.induct)
  case (3 located child page body)
  let ?due = "\<lambda>m. moved_page m < page \<or> moved_page m = page \<and> \<not> is_footer m"
  have "mset (map moved_ref located) = mset (map moved_ref (takeWhile ?due located)) + mset (map moved_ref (dropWhile ?due located))"
    by (metis map_append mset_append takeWhile_dropWhile_id)
  with 3 show ?case by (simp add: Let_def)
qed simp_all

lemma interleave_keeps_body: "subseq (map fst body) (interleave located body)"
proof (induction located body rule: interleave.induct)
  case (3 located child page body)
  then show ?case by (simp add: Let_def subseq_drop_many)
qed simp_all

lemma mset_filter_split: "mset (filter P xs) + mset (filter (\<lambda>x. \<not> P x) xs) = mset xs"
  by (induction xs) auto

lemma mset_merged_body:
  "mset (merged_body leading located trailing body) =
     mset (map moved_ref leading) + mset (map moved_ref located) + mset (map moved_ref trailing) + mset (map fst body)"
proof -
  have "mset (map moved_ref (filter (\<lambda>m. \<not> is_footer m) located)) + mset (map moved_ref (filter is_footer located)) = mset (map moved_ref located)"
    unfolding mset_map by (metis image_mset_union mset_filter_split add.commute)
  then show ?thesis by (simp add: merged_body_def mset_interleave ac_simps)
qed

lemma merged_body_keeps_body: "subseq (map fst body) (merged_body leading located trailing body)"
proof -
  have "subseq ys (xs @ ys @ zs)" for xs ys zs :: "msg list"
    by (simp add: subseq_drop_many subseq_rev_drop_many)
  moreover have "subseq ys ys' \<Longrightarrow> subseq ys (xs @ ys' @ zs)" for xs ys ys' zs :: "msg list"
    by (simp add: subseq_drop_many subseq_rev_drop_many)
  ultimately show ?thesis
    using interleave_keeps_body [of body located] by (simp add: merged_body_def subseq_drop_many subseq_rev_drop_many)
qed

lemma mset_place_moved: "mset (place_moved ms P body) = mset (map moved_ref ms) + mset (map fst body)"
proof -
  have "mset (filter (\<lambda>m. \<not> P m \<and> \<not> is_footer m) ms) + mset (filter P ms) + mset (filter (\<lambda>m. \<not> P m \<and> is_footer m) ms) = mset ms"
    by (induction ms) auto
  then show ?thesis
    by (simp add: place_moved_def mset_merged_body) (metis image_mset_union)
qed


lemma place_moved_keeps_body: "subseq (map fst body) (place_moved ms P body)"
  by (simp add: place_moved_def merged_body_keeps_body)

lemma body_items_update_node:
  assumes "\<And>n. get_list ''children'' (f n) = get_list ''children'' n"
  shows "body_items (update_node k f d) = body_items d"
proof (cases k)
  case Body_Root
  then show ?thesis
    by (auto simp: body_items_def sub_or_default_def get_sub_set_sub assms split: option.split)
next
  case Furniture_Root
  then show ?thesis by (simp add: body_items_def sub_or_default_def get_sub_set_sub)
next
  case (Item a i)
  then show ?thesis by (simp add: body_items_def sub_or_default_def)
qed

lemma mark_layer_children: "get_list ''children'' (mark_layer n) = get_list ''children'' n"
  by (simp add: mark_layer_def)

lemma body_items_mark: "body_items (snd (mark_furniture nodes ks seen d)) = body_items d"
  by (induction nodes ks seen d rule: mark_furniture.induct) (simp_all add: body_items_update_node mark_layer_children)

lemma set_parent_children: "get_list ''children'' (set_parent ref n) = get_list ''children'' n"
  by simp

lemma body_items_claim: "body_items (snd (claim_for_body nodes item state)) = body_items (snd state)"
  by (simp only: claim_for_body_def body_items_mark body_items_update_node [OF set_parent_children] snd_conv split: option.split)
     simp

lemma body_items_claims: "body_items (snd (fold (claim_for_body nodes) items state)) = body_items (snd state)"
  by (induction items arbitrary: state) (simp_all add: body_items_claim)


text \<open>The fields a migration writes to: the body, and its list of children.\<close>

definition list_slot :: "string \<Rightarrow> msg \<Rightarrow> bool" where
  "list_slot name m = (case field_of name m of Some (Messages _ _ _ _) \<Rightarrow> True | _ \<Rightarrow> False)"

lemma get_list_of_slot: "list_slot k m \<Longrightarrow> get_list k (set_list k es m) = es"
  by (auto simp: list_slot_def get_list_set_list split: option.splits slot.splits)

lemma list_slot_updates [simp]:
  "list_slot n (set_list k es m) = list_slot n m" "list_slot n (set_num k v m) = list_slot n m"
  "list_slot n (set_sub k w m) = list_slot n m" "list_slot n (clear_field k m) = list_slot n m"
  unfolding list_slot_def set_list_def set_num_def set_sub_def clear_field_def
  by (cases "field_of n m"; simp add: field_of_update; case_tac a; simp)+

definition has_body :: "msg \<Rightarrow> bool" where
  "has_body d = (get_sub ''body'' d \<noteq> None \<and> list_slot ''children'' (sub_or_default ''body'' d))"


lemma has_body_update_node:
  assumes "\<And>n. list_slot ''children'' (f n) = list_slot ''children'' n"
  shows "has_body (update_node k f d) = has_body d"
proof (cases k)
  case Body_Root
  then show ?thesis
    by (auto simp: has_body_def sub_or_default_def get_sub_set_sub assms list_slot_def [of _ "Msg [] [] []"]
        field_of_def [of _ "Msg [] [] []"] split: option.splits)
next
  case Furniture_Root
  then show ?thesis by (simp add: has_body_def sub_or_default_def get_sub_set_sub)
next
  case (Item a i)
  then show ?thesis by (simp add: has_body_def sub_or_default_def)
qed

lemma list_slot_marks: "list_slot ''children'' (mark_layer n) = list_slot ''children'' n"
  "list_slot ''children'' (set_parent ref n) = list_slot ''children'' n"
  by (simp_all add: mark_layer_def set_parent_def)

lemma has_body_mark: "has_body (snd (mark_furniture nodes ks seen d)) = has_body d"
  by (induction nodes ks seen d rule: mark_furniture.induct) (simp_all add: has_body_update_node list_slot_marks)

lemma has_body_claim: "has_body (snd (claim_for_body nodes item state)) = has_body (snd state)"
  by (simp only: claim_for_body_def has_body_mark has_body_update_node [OF list_slot_marks(2)] snd_conv split: option.split)
     simp

lemma has_body_claims: "has_body (snd (fold (claim_for_body nodes) items state)) = has_body (snd state)"
  by (induction items arbitrary: state) (simp_all add: has_body_claim)

lemma body_items_listed: "has_body d \<Longrightarrow> body_items (set_body_children refs d) = refs"
  by (auto simp: has_body_def body_items_def set_body_children_def sub_or_default_def get_sub_set_sub_same get_list_of_slot)

lemma get_sub_other: "n \<noteq> k \<Longrightarrow> get_sub n (set_sub k v m) = get_sub n m"
  by (simp add: get_sub_set_sub)

lemma cleared_furniture: "furniture_items (clear_furniture d) = []"
proof (cases "get_sub ''furniture'' d")
  case None
  then show ?thesis
    by (simp add: furniture_items_def clear_furniture_def sub_or_default_def get_sub_set_sub get_list_clear
        get_list_def [of _ "Msg [] [] []"] field_of_def [of _ "Msg [] [] []"])
next
  case (Some f)
  then show ?thesis
    by (simp add: furniture_items_def clear_furniture_def sub_or_default_def get_sub_set_sub_same get_list_clear)
qed

lemma body_items_clear_furniture: "body_items (clear_furniture d) = body_items d"
  by (simp add: body_items_def clear_furniture_def sub_or_default_def get_sub_other)

lemma map_make_moved: "map moved_ref (map (\<lambda>i. make_moved rnd d hs i (items ! i)) [0..<length items]) = items"
proof -
  have "moved_ref (make_moved rnd d hs i item) = item" for i item
    by (simp add: make_moved_def Let_def split: option.split)
  then show ?thesis by (simp add: comp_def map_nth)
qed

lemma body_items_materialize:
  assumes "get_list ''children'' (blank ''GroupItem'') = []" "get_sub ''body'' (materialize blank d) \<noteq> None"
  shows "body_items (materialize blank d) = body_items d"
  using assms by (auto simp: materialize_def body_items_def sub_or_default_def present_def Let_def get_sub_set_sub
      get_list_def [of _ "Msg [] [] []"] field_of_def [of _ "Msg [] [] []"] split: option.splits)

lemma furniture_items_materialize:
  assumes "furniture_items d \<noteq> []" shows "furniture_items (materialize blank d) = furniture_items d"
  using assms by (auto simp: materialize_def furniture_items_def sub_or_default_def present_def Let_def get_sub_set_sub
      get_list_def [of _ "Msg [] [] []"] field_of_def [of _ "Msg [] [] []"] split: option.splits)


text \<open>
  C28. Migrating the furniture tree reports how many items it moved, leaves the furniture empty,
  and lists in the body exactly its old children and the moved items, each as often as before:
  nothing is lost or doubled, and the old children keep their order around the items placed
  between them.
\<close>

theorem migration_keeps_body_order:
  assumes "get_list ''children'' (blank ''GroupItem'') = []" "has_body (materialize blank d)"
  shows "case migrate_furniture_tree rnd blank d of
     (n, d') \<Rightarrow>
       n = length (furniture_items d) \<and> furniture_items d' = []
       \<and> subseq (body_items d) (body_items d')
       \<and> mset (body_items d') = mset (body_items d) + mset (furniture_items d)"
proof (cases "furniture_items d = []")
  case False
  define m where "m = materialize blank d"
  define e where "e = snd (fold (claim_for_body (all_nodes m)) (furniture_items m) ({}, m))"
  define hs where "hs = document_page_heights m"
  define ms where "ms = map (\<lambda>i. make_moved rnd m hs i (furniture_items m ! i)) [0..<length (furniture_items m)]"
  define body where "body = map (\<lambda>c. (c, map_option page_of (placement_in rnd e hs (get_string ''ref'' c)))) (body_items e)"
  define refs where "refs = place_moved ms (\<lambda>m. moved_page m \<noteq> 0) body"
  have result: "migrate_furniture_tree rnd blank d = (length (furniture_items m), clear_furniture (set_body_children refs e))"
    using False unfolding refs_def body_def ms_def hs_def e_def m_def
    by (simp add: migrate_furniture_tree_def Let_def)
  have items: "furniture_items m = furniture_items d" and body_same: "body_items e = body_items d"
    using assms False by (simp_all add: m_def e_def furniture_items_materialize body_items_claims body_items_materialize has_body_def)
  have "has_body e" using assms by (simp add: e_def m_def has_body_claims)
  then have final: "body_items (clear_furniture (set_body_children refs e)) = refs"
    by (simp add: body_items_clear_furniture body_items_listed)
  have bodies: "map fst body = body_items d" by (simp add: body_def body_same comp_def)
  have "mset refs = mset (furniture_items d) + mset (body_items d)" "subseq (body_items d) refs"
    unfolding refs_def mset_place_moved using place_moved_keeps_body [of body ms] bodies
    by (simp_all add: ms_def map_make_moved items del: map_map)
  then show ?thesis by (simp add: result items cleared_furniture final)
qed (simp add: migrate_furniture_tree_def)


definition sample_group :: "msg list \<Rightarrow> msg" where
  "sample_group children = Msg ''ai.pipestream.document.v1'' ''ai.pipestream.document.v1.GroupItem'' [Messages ''children'' False ''RefItem'' children]"

definition sample_tree :: msg where
  "sample_tree = Msg ''ai.pipestream.document.v1'' ''ai.pipestream.document.v1.Document''
     [Submessage ''body'' (Some (sample_group [ref_item ''#/texts/0''])),
      Submessage ''furniture'' (Some (sample_group [ref_item ''#/texts/1'', ref_item ''#/texts/2''])),
      Messages ''texts'' False ''BaseTextItem'' []]"

theorem migration_keeps_body_order_witness:
  "case migrate_furniture_tree (\<lambda>x. x) (\<lambda>_. sample_group []) sample_tree of
     (n, d') \<Rightarrow> n = 2 \<and> furniture_items d' = [] \<and> subseq [ref_item ''#/texts/0''] (body_items d')
       \<and> mset (body_items d') = {#ref_item ''#/texts/0'', ref_item ''#/texts/1'', ref_item ''#/texts/2''#}"
proof -
  have "get_list ''children'' (sample_group []) = []" "has_body (materialize (\<lambda>_. sample_group []) sample_tree)"
    "furniture_items sample_tree = [ref_item ''#/texts/1'', ref_item ''#/texts/2'']" "body_items sample_tree = [ref_item ''#/texts/0'']"
    by code_simp+
  then show ?thesis
    using migration_keeps_body_order [of "\<lambda>_. sample_group []" sample_tree "\<lambda>x. x"] by (auto split: prod.splits)
qed

end
