(* ===== verification/RepairText.thy ===== *)
theory RepairText
  imports Prelude
begin

text \<open>
  The text rules of the repair pass (\<^verbatim>\<open>src/src/document_repair.cpp\<close>): words, roman and
  page numbers, the pattern a running header is compared by, the hyphenation rule with the
  positions it moves, and how the two halves of a paragraph are joined. The character
  classes are those of the C locale.
\<close>

subsection \<open>Words\<close>

definition kSoftHyphen :: string where
  "kSoftHyphen = [char_of (0xC2 :: nat), char_of (0xAD :: nat)]"

definition kTerminalPunctuation :: string where
  "kTerminalPunctuation = ''.!?:;'' @ [CHR 0x22]"

definition trim_right :: "string \<Rightarrow> string" where
  "trim_right s = rev (dropWhile c_isspace (rev s))"

definition trim_left :: "string \<Rightarrow> string" where
  "trim_left s = dropWhile c_isspace s"

definition trailing_word :: "string \<Rightarrow> string" where
  "trailing_word s = rev (takeWhile c_isalpha (rev s))"

definition leading_word :: "string \<Rightarrow> string" where
  "leading_word s = takeWhile c_isalpha s"

definition first_token :: "string \<Rightarrow> string" where
  "first_token s = takeWhile (\<lambda>c. \<not> c_isspace c) s"

definition count_word :: "char \<Rightarrow> nat \<times> bool \<Rightarrow> nat \<times> bool" where
  "count_word c state = (if \<not> c_isspace c \<and> \<not> snd state then fst state + 1 else fst state, \<not> c_isspace c)"

definition word_count :: "string \<Rightarrow> nat" where
  "word_count s = fst (fold count_word s (0, False))"

subsection \<open>Roman numerals\<close>

definition take_literal :: "string \<Rightarrow> string \<Rightarrow> string option" where
  "take_literal literal s = (if starts_with s literal then Some (drop (length literal) s) else None)"

fun take_up_to :: "nat \<Rightarrow> string \<Rightarrow> string \<Rightarrow> string" where
  "take_up_to 0 one s = s"
| "take_up_to (Suc n) one s = (case take_literal one s of None \<Rightarrow> s | Some r \<Rightarrow> take_up_to n one r)"

definition take_place :: "string \<Rightarrow> string \<Rightarrow> string \<Rightarrow> string \<Rightarrow> string \<Rightarrow> string" where
  "take_place nine four five one s =
     (case take_literal nine s of
        Some r \<Rightarrow> r
      | None \<Rightarrow>
          (case take_literal four s of
             Some r \<Rightarrow> r
           | None \<Rightarrow> take_up_to 3 one (case take_literal five s of Some r \<Rightarrow> r | None \<Rightarrow> s)))"

definition is_roman_numeral :: "string \<Rightarrow> bool" where
  "is_roman_numeral token =
     (token \<noteq> []
      \<and> take_place ''ix'' ''iv'' ''v'' ''i''
          (take_place ''xc'' ''xl'' ''l'' ''x''
            (take_place ''cm'' ''cd'' ''d'' ''c'' (take_up_to 4 ''m'' token))) = [])"

definition letter_value :: "char \<Rightarrow> int" where
  "letter_value c =
     (case map_of [(CHR ''i'', 1), (CHR ''v'', 5), (CHR ''x'', 10), (CHR ''l'', 50), (CHR ''c'', 100),
                   (CHR ''d'', 500), (CHR ''m'', 1000)] c of
        Some v \<Rightarrow> v | None \<Rightarrow> 0)"

fun roman_value :: "string \<Rightarrow> int" where
  "roman_value [] = 0"
| "roman_value (c # cs) =
     (let v = letter_value c; following = (case cs of [] \<Rightarrow> 0 | d # _ \<Rightarrow> letter_value d)
      in (if v < following then - v else v) + roman_value cs)"

subsection \<open>Page numbers\<close>

definition number_of :: "string \<Rightarrow> int option" where
  "number_of token =
     (if token = [] then None
      else if list_all c_isdigit token then (if length token > 6 then None else map_option int (dec_value token))
      else if is_roman_numeral token then Some (roman_value token)
      else None)"

definition fold_char :: "char \<Rightarrow> string \<times> bool \<Rightarrow> string \<times> bool" where
  "fold_char c state =
     (if c_isspace c then (fst state, fst state \<noteq> [])
      else (fst state @ (if snd state then '' '' else []) @ [c_tolower c], False))"

definition fold_text :: "string \<Rightarrow> string" where
  "fold_text s = fst (fold fold_char s ([], False))"

definition number_punctuated :: "string \<Rightarrow> bool" where
  "number_punctuated folded =
     list_ex (\<lambda>i.
       c_isdigit (folded ! i) \<and> \<not> c_isdigit (folded ! (i + 1)) \<and> folded ! (i + 1) \<in> set ''.,;:!?''
       \<and> \<not> (folded ! (i + 1) = CHR ''.'' \<and> i + 2 = length folded \<and> list_all c_isdigit (take (i + 1) folded)))
     [0..<length folded - 1]"

definition kTokenDecoration :: string where
  "kTokenDecoration = ''-|[](){}*_~.,:''"

definition undecorated :: "string \<Rightarrow> string" where
  "undecorated token =
     rev (dropWhile (\<lambda>c. c \<in> set kTokenDecoration) (rev (dropWhile (\<lambda>c. c \<in> set kTokenDecoration) token)))"

record page_number_tokens =
  shape :: "string list"
  page_value :: "int option"
  token :: string

definition flush_token :: "page_number_tokens \<Rightarrow> page_number_tokens" where
  "flush_token t =
     (let view = undecorated (token t) in
      if view = [] then t\<lparr>token := []\<rparr>
      else case number_of view of
             Some n \<Rightarrow>
               t\<lparr>shape := shape t @ [''#''],
                 page_value := (if page_value t = None then Some n else page_value t), token := []\<rparr>
           | None \<Rightarrow> t\<lparr>shape := shape t @ [view], token := []\<rparr>)"

definition token_char :: "char \<Rightarrow> page_number_tokens \<Rightarrow> page_number_tokens" where
  "token_char c t =
     (if c = CHR '' '' then flush_token t
      else if c = CHR ''/'' then (flush_token t)\<lparr>shape := shape (flush_token t) @ [''/'']\<rparr>
      else t\<lparr>token := token t @ [c]\<rparr>)"

definition page_number_tokens :: "string \<Rightarrow> page_number_tokens" where
  "page_number_tokens folded =
     flush_token (fold token_char folded \<lparr>shape = [], page_value = None, token = []\<rparr>)"

definition kPageNumberShapes :: "string list" where
  "kPageNumberShapes =
     [''#'', ''# of #'', ''page #'', ''page # of #'', ''page # / #'', ''p #'', ''pg #'', ''seite #'', ''pagina #'',
      ''# / #'', ''# of # pages'']"

definition kPageNumberSlack :: int where "kPageNumberSlack = 20"
definition kFirstYear :: int where "kFirstYear = 1800"
definition kLastYear :: int where "kLastYear = 2100"

definition plausible_page_number :: "int \<Rightarrow> int \<Rightarrow> bool" where
  "plausible_page_number v pages =
     (if v < 1 \<or> v > pages + kPageNumberSlack then False
      else \<not> (v \<ge> kFirstYear \<and> v \<le> kLastYear \<and> pages < v))"

definition join_tokens :: "string list \<Rightarrow> string" where
  "join_tokens ts = fold (\<lambda>t joined. (if joined = [] then [] else joined @ '' '') @ t) ts []"

definition is_page_number :: "string \<Rightarrow> int \<Rightarrow> bool" where
  "is_page_number s pages =
     (let folded = fold_text s in
      if folded = [] \<or> number_punctuated folded then False
      else
        let tokens = page_number_tokens folded in
        case page_value tokens of
          None \<Rightarrow> False
        | Some v \<Rightarrow>
            shape tokens \<noteq> [] \<and> join_tokens (shape tokens) \<in> set kPageNumberShapes \<and> plausible_page_number v pages)"

definition running_char :: "char \<Rightarrow> string \<times> bool \<Rightarrow> string \<times> bool" where
  "running_char c state =
     (if c_isspace c then (fst state, fst state \<noteq> [])
      else
        let out = fst state @ (if snd state then '' '' else [])
        in if c_isdigit c then (if out = [] \<or> last out \<noteq> CHR ''#'' then out @ ''#'' else out, False)
           else (out @ [c_tolower c], False))"

definition normalize_running_text :: "string \<Rightarrow> string" where
  "normalize_running_text s = fst (fold running_char s ([], False))"

subsection \<open>The roman numerals are read as they are written\<close>

definition roman_digit :: "char \<Rightarrow> char \<Rightarrow> char \<Rightarrow> nat \<Rightarrow> string" where
  "roman_digit one five ten d =
     [[], [one], [one, one], [one, one, one], [one, five], [five], [five, one], [five, one, one],
      [five, one, one, one], [one, ten]] ! d"

definition roman :: "nat \<Rightarrow> string" where
  "roman n =
     replicate (n div 1000) CHR ''m'' @ roman_digit CHR ''c'' CHR ''d'' CHR ''m'' (n div 100 mod 10)
     @ roman_digit CHR ''x'' CHR ''l'' CHR ''c'' (n div 10 mod 10) @ roman_digit CHR ''i'' CHR ''v'' CHR ''x'' (n mod 10)"

lemma less_10: "(d :: nat) < 10 \<longleftrightarrow> d \<in> {0, 1, 2, 3, 4, 5, 6, 7, 8, 9}"
  by auto

lemma take_one: "take_literal [c] s = (case s of [] \<Rightarrow> None | d # r \<Rightarrow> if d = c then Some r else None)"
  by (cases s) (auto simp: take_literal_def starts_with_def)

lemma take_two: "take_literal [c, d] s = (case s of e # f # r \<Rightarrow> if e = c \<and> f = d then Some r else None | _ \<Rightarrow> None)"
  by (auto simp: take_literal_def starts_with_def split: list.split)

lemma take_literal_simps [simp]:
  "take_literal [] s = Some s" "take_literal (c # l) [] = None"
  "take_literal (c # l) (e # s) = (if e = c then take_literal l s else None)"
  by (simp_all add: take_literal_def starts_with_def)

lemma letter_value_nonneg [simp]: "0 \<le> letter_value c" "\<not> letter_value c < 0"
  by (simp_all add: letter_value_def)

lemma take_up_to_3:
  "take_up_to 3 one s =
     (case take_literal one s of
        None \<Rightarrow> s
      | Some r \<Rightarrow>
          (case take_literal one r of
             None \<Rightarrow> r
           | Some r \<Rightarrow> (case take_literal one r of None \<Rightarrow> r | Some r \<Rightarrow> r)))"
  by (simp add: numeral_3_eq_3 split: option.split)

lemma roman_digit_simps:
  "roman_digit one five ten 0 = []" "roman_digit one five ten (Suc 0) = [one]" "roman_digit one five ten 2 = [one, one]"
  "roman_digit one five ten 3 = [one, one, one]" "roman_digit one five ten 4 = [one, five]" "roman_digit one five ten 5 = [five]"
  "roman_digit one five ten 6 = [five, one]" "roman_digit one five ten 7 = [five, one, one]"
  "roman_digit one five ten 8 = [five, one, one, one]" "roman_digit one five ten 9 = [one, ten]"
  by (simp_all add: roman_digit_def)

lemma take_place_none:
  "rest = [] \<or> hd rest \<notin> {one, five} \<Longrightarrow> take_place [one, ten] [one, five] [five] [one] rest = rest"
  by (cases rest) (auto simp: take_place_def take_up_to_3)

lemma take_place_digit:
  assumes "distinct [one, five, ten]" "d < 10" "rest = [] \<or> hd rest \<notin> {one, five, ten}"
  shows "take_place [one, ten] [one, five] [five] [one] (roman_digit one five ten d @ rest) = rest"
proof -
  have ne: "one \<noteq> five" "one \<noteq> ten" "five \<noteq> ten" "five \<noteq> one" using assms(1) by auto
  have rest: "take_literal (c # l) rest = None" if "c \<in> {one, five, ten}" for c l
    using assms(3) that by (cases rest) auto
  have place: "take_place [one, ten] [one, five] [five] [one] (roman_digit one five ten k @ rest) = rest" if "k \<in> {0,1,2,3,4}" for k
    using that by (elim insertE emptyE) (simp_all add: take_place_def roman_digit_simps take_up_to_3 rest ne)
  have "take_place [one, ten] [one, five] [five] [one] (roman_digit one five ten k @ rest) = rest" if "k \<in> {5,6,7,8,9}" for k
    using that by (elim insertE emptyE) (simp_all add: take_place_def roman_digit_simps take_up_to_3 rest ne)
  with place show ?thesis using assms(2) unfolding less_10 by blast
qed

lemma take_up_to_splits: "\<exists>k\<le>n. s = replicate k c @ take_up_to n [c] s"
proof (induction n arbitrary: s)
  case (Suc n)
  show ?case
  proof (cases "take_literal [c] s")
    case (Some r)
    then have "s = c # r" by (auto simp: take_one split: list.splits if_splits)
    moreover obtain k where "k \<le> n" "r = replicate k c @ take_up_to n [c] r" using Suc by blast
    ultimately have "Suc k \<le> Suc n \<and> s = replicate (Suc k) c @ take_up_to (Suc n) [c] s"
      using Some by simp
    then show ?thesis by blast
  qed auto
qed simp

lemma take_place_splits:
  "\<exists>d<10. s = roman_digit one five ten d @ take_place [one, ten] [one, five] [five] [one] s"
proof -
  consider r where "take_literal [one, ten] s = Some r" | r where "take_literal [one, ten] s = None" "take_literal [one, five] s = Some r"
    | "take_literal [one, ten] s = None" "take_literal [one, five] s = None" by fastforce
  then show ?thesis
  proof cases
    case (1 r)
    then show ?thesis
      by (intro exI [of _ 9]) (auto simp: take_place_def roman_digit_def take_two split: list.splits if_splits)
  next
    case (2 r)
    then show ?thesis
      by (intro exI [of _ 4]) (auto simp: take_place_def roman_digit_def take_two split: list.splits if_splits)
  next
    case 3
    have small: "replicate k one = roman_digit one five ten k" "five # replicate k one = roman_digit one five ten (5 + k)"
      if "k \<le> 3" for k
    proof -
      have "k = 0 \<or> k = 1 \<or> k = 2 \<or> k = 3" using that by auto
      then show "replicate k one = roman_digit one five ten k" "five # replicate k one = roman_digit one five ten (5 + k)"
        by (auto simp: roman_digit_def numeral_2_eq_2 numeral_3_eq_3)
    qed
    show ?thesis
    proof (cases "take_literal [five] s")
      case None
      obtain k where "k \<le> 3" "s = replicate k one @ take_up_to 3 [one] s" using take_up_to_splits by blast
      with small(1) [of k] 3 None show ?thesis by (intro exI [of _ k]) (simp add: take_place_def)
    next
      case (Some r)
      then have s: "s = five # r" by (auto simp: take_one split: list.splits if_splits)
      obtain k where "k \<le> 3" "r = replicate k one @ take_up_to 3 [one] r" using take_up_to_splits by blast
      with small(2) [of k] 3 Some s show ?thesis
        by (intro exI [of _ "5 + k"]) (simp add: take_place_def, metis append_Cons)
    qed
  qed
qed

lemma roman_value_append:
  "u = [] \<or> v = [] \<or> letter_value (hd v) \<le> letter_value (last u) \<Longrightarrow> roman_value (u @ v) = roman_value u + roman_value v"
proof (induction u rule: roman_value.induct)
  case (2 c cs)
  then show ?case by (cases cs; cases v) (auto simp: Let_def)
qed simp

lemma letter_values:
  "letter_value CHR ''i'' = 1" "letter_value CHR ''v'' = 5" "letter_value CHR ''x'' = 10" "letter_value CHR ''l'' = 50"
  "letter_value CHR ''c'' = 100" "letter_value CHR ''d'' = 500" "letter_value CHR ''m'' = 1000"
  by (simp_all add: letter_value_def)

lemma roman_digit_value:
  assumes "d < 10" "letter_value five = 5 * letter_value one" "letter_value ten = 10 * letter_value one" "letter_value one > 0"
  shows "roman_value (roman_digit one five ten d) = int d * letter_value one"
  using assms unfolding less_10 by (elim insertE emptyE) (auto simp: roman_digit_def)

lemma roman_digit_chars: "d < 10 \<Longrightarrow> set (roman_digit one five ten d) \<subseteq> {one, five, ten}"
  unfolding less_10 by (elim insertE emptyE) (auto simp: roman_digit_def)

lemma hd_roman_digit: "d < 10 \<Longrightarrow> roman_digit one five ten d \<noteq> [] \<Longrightarrow> hd (roman_digit one five ten d) \<in> {one, five}"
  unfolding less_10 by (elim insertE emptyE) (auto simp: roman_digit_def)


lemma hd_place:
  assumes "d < 10" "y = [] \<or> hd y \<in> S"
  shows "roman_digit one five ten d @ y = [] \<or> hd (roman_digit one five ten d @ y) \<in> {one, five} \<union> S"
  using assms hd_roman_digit [of d one five ten] by (cases "roman_digit one five ten d = []") auto

lemma roman_places:
  assumes "k \<le> 4" "h < 10" "t < 10" "u < 10"
  defines "r \<equiv> roman_digit CHR ''i'' CHR ''v'' CHR ''x'' u"
  defines "q \<equiv> roman_digit CHR ''x'' CHR ''l'' CHR ''c'' t @ r"
  defines "p \<equiv> roman_digit CHR ''c'' CHR ''d'' CHR ''m'' h @ q"
  shows "take_place ''ix'' ''iv'' ''v'' ''i'' (take_place ''xc'' ''xl'' ''l'' ''x''
      (take_place ''cm'' ''cd'' ''d'' ''c'' (take_up_to 4 ''m'' (replicate k CHR ''m'' @ p)))) = []"
    and "roman_value (replicate k CHR ''m'' @ p) = int (k * 1000 + h * 100 + t * 10 + u)"
proof -
  have heads: "r = [] \<or> hd r \<in> {CHR ''i'', CHR ''v''}" "q = [] \<or> hd q \<in> {CHR ''i'', CHR ''v'', CHR ''x'', CHR ''l''}"
    "p = [] \<or> hd p \<in> {CHR ''i'', CHR ''v'', CHR ''x'', CHR ''l'', CHR ''c'', CHR ''d''}"
  proof -
    show r: "r = [] \<or> hd r \<in> {CHR ''i'', CHR ''v''}"
      unfolding r_def using hd_roman_digit [OF assms(4)] by blast
    show q: "q = [] \<or> hd q \<in> {CHR ''i'', CHR ''v'', CHR ''x'', CHR ''l''}"
      unfolding q_def using hd_place [OF assms(3) r, of "CHR ''x''" "CHR ''l''" "CHR ''c''"] by auto
    show "p = [] \<or> hd p \<in> {CHR ''i'', CHR ''v'', CHR ''x'', CHR ''l'', CHR ''c'', CHR ''d''}"
      unfolding p_def using hd_place [OF assms(2) q, of "CHR ''c''" "CHR ''d''" "CHR ''m''"] by auto
  qed
  have thousands: "take_up_to 4 ''m'' (replicate k CHR ''m'' @ p) = p"
  proof -
    have "take_up_to (k + j) ''m'' (replicate k CHR ''m'' @ p) = take_up_to j ''m'' p" for j
      by (induction k) auto
    from this [of "4 - k"] have "take_up_to 4 ''m'' (replicate k CHR ''m'' @ p) = take_up_to (4 - k) ''m'' p"
      using assms(1) by simp
    also have "\<dots> = p" using heads(3) by (cases p; cases "4 - k") auto
    finally show ?thesis .
  qed
  have hundreds: "take_place ''cm'' ''cd'' ''d'' ''c'' p = q"
    unfolding p_def using heads(2) assms(2) by (intro take_place_digit) auto
  have tens: "take_place ''xc'' ''xl'' ''l'' ''x'' q = r"
    unfolding q_def using heads(1) assms(3) by (intro take_place_digit) auto
  have units: "take_place ''ix'' ''iv'' ''v'' ''i'' r = []"
    unfolding r_def using take_place_digit [of _ _ _ u "[]"] assms(4) by simp
  show "take_place ''ix'' ''iv'' ''v'' ''i'' (take_place ''xc'' ''xl'' ''l'' ''x''
      (take_place ''cm'' ''cd'' ''d'' ''c'' (take_up_to 4 ''m'' (replicate k CHR ''m'' @ p)))) = []"
    by (simp only: thousands hundreds tens units)
  have last: "x \<noteq> [] \<Longrightarrow> x = roman_digit one five ten d \<Longrightarrow> d < 10 \<Longrightarrow> last x \<in> {one, five, ten}" for x one five ten d
    using roman_digit_chars [of d one five ten] last_in_set by blast
  have v: "roman_value r = int u" "roman_value q = int (t * 10 + u)" "roman_value p = int (h * 100 + t * 10 + u)"
  proof -
    show r: "roman_value r = int u" unfolding r_def using assms(4) by (simp add: roman_digit_value letter_values)
    have "roman_value q = roman_value (roman_digit CHR ''x'' CHR ''l'' CHR ''c'' t) + roman_value r"
      unfolding q_def using heads(1) last [OF _ refl assms(3)]
      by (intro roman_value_append) (force simp: letter_values)
    then show q: "roman_value q = int (t * 10 + u)" using r assms(3) by (simp add: roman_digit_value letter_values)
    have "roman_value p = roman_value (roman_digit CHR ''c'' CHR ''d'' CHR ''m'' h) + roman_value q"
      unfolding p_def using heads(2) last [OF _ refl assms(2)]
      by (intro roman_value_append) (force simp: letter_values)
    then show "roman_value p = int (h * 100 + t * 10 + u)" using q assms(2) by (simp add: roman_digit_value letter_values)
  qed
  have "roman_value (replicate k CHR ''m'' @ p) = int k * 1000 + roman_value p"
  proof (induction k)
    case (Suc k)
    have "replicate k CHR ''m'' @ p = [] \<or> letter_value (hd (replicate k CHR ''m'' @ p)) \<le> 1000"
      using heads(3) by (cases k) (auto simp: letter_values)
    then have "roman_value ([CHR ''m''] @ replicate k CHR ''m'' @ p) = 1000 + roman_value (replicate k CHR ''m'' @ p)"
      by (subst roman_value_append) (simp_all add: letter_values)
    with Suc show ?case by simp
  qed simp
  with v show "roman_value (replicate k CHR ''m'' @ p) = int (k * 1000 + h * 100 + t * 10 + u)" by simp
qed


lemma roman_of_places:
  assumes "k \<le> 4" "h < 10" "t < 10" "u < 10"
  shows "roman (k * 1000 + h * 100 + t * 10 + u) =
     replicate k CHR ''m'' @ roman_digit CHR ''c'' CHR ''d'' CHR ''m'' h
     @ roman_digit CHR ''x'' CHR ''l'' CHR ''c'' t @ roman_digit CHR ''i'' CHR ''v'' CHR ''x'' u"
proof -
  define n where "n = k * 1000 + h * 100 + t * 10 + u"
  have n: "n = ((k * 10 + h) * 10 + t) * 10 + u" by (simp add: n_def)
  have "n mod 10 = u" "n div 10 = (k * 10 + h) * 10 + t" unfolding n by (simp_all only: horner [OF assms(4)])
  moreover from this(2) have "n div 10 mod 10 = t" "n div 100 = k * 10 + h"
    using div_mult2_eq [of n 10 10] by (simp_all only: horner [OF assms(3)]) simp
  moreover from this(2) have "n div 100 mod 10 = h" "n div 1000 = k"
    using div_mult2_eq [of n 100 10] by (simp_all only: horner [OF assms(2)]) simp
  ultimately have "roman n =
     replicate k CHR ''m'' @ roman_digit CHR ''c'' CHR ''d'' CHR ''m'' h
     @ roman_digit CHR ''x'' CHR ''l'' CHR ''c'' t @ roman_digit CHR ''i'' CHR ''v'' CHR ''x'' u"
    by (simp only: roman_def)
  then show ?thesis by (simp only: n_def)
qed

lemma places_of:
  fixes n :: nat
  assumes "n < 5000"
  obtains k h t u where "n = k * 1000 + h * 100 + t * 10 + u" "k \<le> 4" "h < 10" "t < 10" "u < 10"
proof
  have "n = n div 10 * 10 + n mod 10" "n div 10 = n div 100 * 10 + n div 10 mod 10" "n div 100 = n div 1000 * 10 + n div 100 mod 10"
    using div_mult_mod_eq [of "n div 10" 10] div_mult_mod_eq [of "n div 100" 10] div_mult2_eq [of n 10 10] div_mult2_eq [of n 100 10]
    by simp_all
  then show "n = (n div 1000) * 1000 + (n div 100 mod 10) * 100 + (n div 10 mod 10) * 10 + n mod 10" by linarith
  show "n div 1000 \<le> 4" using assms by linarith
qed simp_all

lemma roman_accepted:
  assumes "0 < n" "n < 5000"
  shows "is_roman_numeral (roman n)" "roman_value (roman n) = int n"
proof -
  obtain k h t u where n: "n = k * 1000 + h * 100 + t * 10 + u" "k \<le> 4" "h < 10" "t < 10" "u < 10"
    using places_of assms by blast
  have v: "roman_value (roman n) = int n"
    using roman_places(2) [OF n(2-5)] by (simp add: n(1) roman_of_places [OF n(2-5)])
  then have "roman n \<noteq> []" using assms(1) by (cases "roman n") auto
  with v roman_places(1) [OF n(2-5)] show "is_roman_numeral (roman n)" "roman_value (roman n) = int n"
    by (simp_all only: is_roman_numeral_def n(1) roman_of_places [OF n(2-5)]) simp
qed

lemma roman_only:
  assumes "is_roman_numeral s"
  shows "\<exists>n. 0 < n \<and> n < 5000 \<and> s = roman n"
proof -
  obtain k where k: "k \<le> 4" "s = replicate k CHR ''m'' @ take_up_to 4 ''m'' s" using take_up_to_splits by blast
  define p where "p = take_up_to 4 ''m'' s"
  obtain h where h: "h < 10" "p = roman_digit CHR ''c'' CHR ''d'' CHR ''m'' h @ take_place ''cm'' ''cd'' ''d'' ''c'' p"
    using take_place_splits by blast
  define q where "q = take_place ''cm'' ''cd'' ''d'' ''c'' p"
  obtain t where t: "t < 10" "q = roman_digit CHR ''x'' CHR ''l'' CHR ''c'' t @ take_place ''xc'' ''xl'' ''l'' ''x'' q"
    using take_place_splits by blast
  define r where "r = take_place ''xc'' ''xl'' ''l'' ''x'' q"
  obtain u where u: "u < 10" "r = roman_digit CHR ''i'' CHR ''v'' CHR ''x'' u @ take_place ''ix'' ''iv'' ''v'' ''i'' r"
    using take_place_splits by blast
  have "take_place ''ix'' ''iv'' ''v'' ''i'' r = []" "s \<noteq> []"
    using assms by (simp_all add: is_roman_numeral_def r_def q_def p_def)
  then have s: "s = roman (k * 1000 + h * 100 + t * 10 + u)"
    using k h t u by (simp add: roman_of_places p_def [symmetric] q_def [symmetric] r_def [symmetric])
  have "k * 1000 + h * 100 + t * 10 + u \<noteq> 0"
  proof
    assume "k * 1000 + h * 100 + t * 10 + u = 0"
    then have "s = roman 0" using s by (simp only:)
    then show False using \<open>s \<noteq> []\<close> by (simp add: roman_def roman_digit_simps)
  qed
  with s k(1) h(1) t(1) u(1) show ?thesis by (intro exI [of _ "k * 1000 + h * 100 + t * 10 + u"]) auto
qed

lemma roman_not_digits: "0 < n \<Longrightarrow> n < 5000 \<Longrightarrow> \<not> list_all c_isdigit (roman n)"
proof
  assume n: "0 < n" "n < 5000" and digits: "list_all c_isdigit (roman n)"
  have "c_isdigit c \<Longrightarrow> letter_value c = 0" for c
    by (auto simp: letter_value_def c_isdigit_def byte_val_def Let_def split: if_splits)
  then have "list_all c_isdigit s \<Longrightarrow> roman_value s = 0" for s
    by (induction s rule: roman_value.induct) (auto simp: Let_def split: list.splits)
  with digits roman_accepted(2) [OF n] n(1) show False by simp
qed

text \<open>
  C29. A token is taken for a roman numeral exactly when it is one of the numerals from 1 to 4999 in
  their one canonical spelling, and the number it counts as is then the number it spells: no
  malformed run of letters (iiii, vx, ic) becomes a page number.
\<close>

theorem roman_numerals_exact:
  "is_roman_numeral s \<longleftrightarrow> (\<exists>n. 0 < n \<and> n < 5000 \<and> s = roman n \<and> number_of s = Some (int n))"
proof
  assume "is_roman_numeral s"
  then obtain n where n: "0 < n" "n < 5000" "s = roman n" using roman_only by blast
  have "number_of s = Some (int n)"
    using roman_accepted [OF n(1,2)] roman_not_digits [OF n(1,2)]
    by (auto simp: number_of_def n(3) is_roman_numeral_def)
  with n show "\<exists>n. 0 < n \<and> n < 5000 \<and> s = roman n \<and> number_of s = Some (int n)" by blast
qed (use roman_accepted(1) in blast)

subsection \<open>Hyphenation\<close>

definition kHyphenatedPrefixes :: "(string \<times> bool) list" where
  "kHyphenatedPrefixes =
     [(''self'', False), (''well'', False), (''non'', False), (''pre'', True), (''post'', True), (''co'', True), (''re'', True)]"

definition starts_with_vowel :: "string \<Rightarrow> bool" where
  "starts_with_vowel word = (word \<noteq> [] \<and> c_tolower (hd word) \<in> set ''aeiou'')"

definition is_known_compound :: "string \<Rightarrow> string \<Rightarrow> bool" where
  "is_known_compound head tail =
     list_ex (\<lambda>(prefix, only_before_vowel).
       map c_tolower head = prefix \<and> (\<not> only_before_vowel \<or> starts_with_vowel tail)) kHyphenatedPrefixes"

text \<open>\<open>break_after\<close> on the text from the position on.\<close>

definition break_after :: "bool \<Rightarrow> string \<Rightarrow> nat" where
  "break_after space_is_break rest =
     (case rest of
        [] \<Rightarrow> 0
      | c # cs \<Rightarrow>
          if c = CHR 0x0A \<or> space_is_break \<and> c = CHR '' '' then 1
          else if c = CHR 0x0D \<and> (case cs of d # _ \<Rightarrow> d = CHR 0x0A | [] \<Rightarrow> False) then 2
          else 0)"

definition kMinimumTailWord :: nat where "kMinimumTailWord = 2"

definition kTokenPunctuation :: string where
  "kTokenPunctuation = ''.,;:!?)]}'' @ [CHR 0x27, CHR 0x22]"

definition tail_token_is_word :: "string \<Rightarrow> bool" where
  "tail_token_is_word after_break =
     (let token = rev (dropWhile (\<lambda>c. c \<in> set kTokenPunctuation) (rev (first_token after_break)))
      in length token \<ge> kMinimumTailWord \<and> list_all c_isalpha token)"

definition kSuspendingConjunctions :: "(string \<times> bool) list" where
  "kSuspendingConjunctions =
     [(''and'', False), (''or'', False), (''nor'', False), (''to'', False), (''et'', False), (''ou'', False),
      (''und'', True), (''oder'', True), (''bis'', True)]"

definition suspended_hyphen :: "string \<Rightarrow> bool" where
  "suspended_hyphen after_break =
     (let token = first_token after_break in
      case map_of kSuspendingConjunctions (map c_tolower token) of
        None \<Rightarrow> False
      | Some german \<Rightarrow>
          let following = first_token (trim_left (drop (length token) after_break))
          in if following = [] then False
             else if CHR ''-'' \<in> set (drop 1 following) then True
             else german \<and> c_isupper (hd following))"

definition starts_code_point :: "char \<Rightarrow> bool" where
  "starts_code_point c = (byte_val c AND 0xC0 \<noteq> 0x80)"

definition codepoint_at :: "string \<Rightarrow> nat \<Rightarrow> nat" where
  "codepoint_at s byte = length (filter starts_code_point (take byte s))"

text \<open>\<^verbatim>\<open>CodePointCursor\<close>: the bytes counted so far, and the code points in them.\<close>

definition cursor_at :: "string \<Rightarrow> nat \<Rightarrow> nat \<times> nat \<Rightarrow> nat \<times> nat" where
  "cursor_at s byte cursor =
     (let reached = max (fst cursor) (min byte (length s))
      in (reached, snd cursor + length (filter starts_code_point (drop (fst cursor) (take reached s)))))"

definition join_hyphenated_fragments :: "string \<Rightarrow> string \<Rightarrow> string" where
  "join_hyphenated_fragments head tail = head @ (if is_known_compound head tail then ''-'' else []) @ tail"

record rejoin =
  rejoin_out :: string
  words_rejoined :: nat
  soft_hyphens_removed :: nat
  code_points :: "nat \<times> nat"
  removed_runs :: "(nat \<times> nat) list"

definition record_run :: "string \<Rightarrow> nat \<Rightarrow> nat \<Rightarrow> rejoin \<Rightarrow> rejoin" where
  "record_run s first stop st =
     (let from = cursor_at s first (code_points st); till = cursor_at s stop from
      in st\<lparr>code_points := till, removed_runs := removed_runs st @ [(snd from, snd till)]\<rparr>)"

definition joinable :: "string \<Rightarrow> nat \<Rightarrow> string \<Rightarrow> string \<Rightarrow> bool" where
  "joinable out gap tail after_break =
     (let head = trailing_word out in
      gap > 0 \<and> head \<noteq> [] \<and> tail \<noteq> [] \<and> c_islower (last head) \<and> c_islower (hd tail)
      \<and> tail_token_is_word after_break \<and> \<not> suspended_hyphen after_break)"

function rejoin_from :: "bool \<Rightarrow> string \<Rightarrow> nat \<Rightarrow> rejoin \<Rightarrow> rejoin" where
  "rejoin_from space_is_break s i st =
     (if i \<ge> length s then st
      else
        let soft = starts_with (drop i s) kSoftHyphen; c = s ! i in
        if \<not> soft \<and> c \<noteq> CHR ''-'' then rejoin_from space_is_break s (i + 1) (st\<lparr>rejoin_out := rejoin_out st @ [c]\<rparr>)
        else
          let after = i + (if soft then length kSoftHyphen else 1);
              gap = break_after space_is_break (drop after s);
              tail = leading_word (drop (after + gap) s) in
          if soft then
            let following = (if tail = [] then after else after + gap)
            in rejoin_from space_is_break s following
                 (record_run s i following (st\<lparr>soft_hyphens_removed := soft_hyphens_removed st + 1\<rparr>))
          else if \<not> joinable (rejoin_out st) gap tail (drop (after + gap) s)
          then rejoin_from space_is_break s (i + 1) (st\<lparr>rejoin_out := rejoin_out st @ ''-''\<rparr>)
          else
            let head = trailing_word (rejoin_out st);
                joined = join_hyphenated_fragments head tail;
                first = (if length joined > length head + length tail then after else i);
                st = record_run s first (after + gap) st
            in rejoin_from space_is_break s (after + gap + length tail)
                 (st\<lparr>rejoin_out := take (length (rejoin_out st) - length head) (rejoin_out st) @ joined,
                     words_rejoined := words_rejoined st + 1\<rparr>))"
  by pat_completeness auto

termination
  by (relation "measure (\<lambda>(space, s, i, st). length s - i)") (auto simp: kSoftHyphen_def Let_def split: if_splits)

declare rejoin_from.simps [simp del]

definition rejoin_hyphenated_words :: "bool \<Rightarrow> string \<Rightarrow> rejoin" where
  "rejoin_hyphenated_words space_is_break s =
     rejoin_from space_is_break s 0
       \<lparr>rejoin_out = [], words_rejoined = 0, soft_hyphens_removed = 0, code_points = (0, 0), removed_runs = []\<rparr>"

text \<open>
  \<^verbatim>\<open>PositionRemap\<close>: the lengths of the runs before each run, and the last run that starts before
  the position, which \<^verbatim>\<open>lower_bound\<close> finds.
\<close>

fun removed_before :: "nat \<Rightarrow> (nat \<times> nat) list \<Rightarrow> nat list" where
  "removed_before total_length [] = []"
| "removed_before total_length (run # runs) = total_length # removed_before (total_length + (snd run - fst run)) runs"

definition remap :: "(nat \<times> nat) list \<Rightarrow> int \<Rightarrow> int" where
  "remap removed position =
     (let following = length (takeWhile (\<lambda>run. int (fst run) < position) removed) in
      if following = 0 then position
      else
        let index = following - 1; run = removed ! index
        in position - (int (removed_before 0 removed ! index) + min position (int (snd run)) - int (fst run)))"

subsection \<open>Hyphenation only removes, and positions follow\<close>

fun runs_in :: "nat \<Rightarrow> nat \<Rightarrow> (nat \<times> nat) list \<Rightarrow> bool" where
  "runs_in lo hi [] = (lo \<le> hi)"
| "runs_in lo hi (run # runs) = (lo \<le> fst run \<and> fst run \<le> snd run \<and> runs_in (snd run) hi runs)"

definition in_runs :: "(nat \<times> nat) list \<Rightarrow> nat set" where
  "in_runs runs = (\<Union>run\<in>set runs. {fst run..<snd run})"

definition kept_text :: "(nat \<times> nat) list \<Rightarrow> string \<Rightarrow> nat \<Rightarrow> string" where
  "kept_text runs s p = nths (take p s) (- in_runs runs)"

lemma runs_in_snoc: "runs_in lo hi (runs @ [run]) \<longleftrightarrow> runs_in lo (fst run) runs \<and> fst run \<le> snd run \<and> snd run \<le> hi"
  by (induction runs arbitrary: lo) auto

lemma runs_in_mono: "runs_in lo hi runs \<Longrightarrow> hi \<le> hi' \<Longrightarrow> runs_in lo hi' runs"
  by (induction runs arbitrary: lo) auto

lemma in_runs_bounds: "runs_in lo hi runs \<Longrightarrow> in_runs runs \<subseteq> {lo..<hi}"
proof (induction runs arbitrary: lo)
  case (Cons run runs)
  then have "in_runs runs \<subseteq> {snd run..<hi}" "snd run \<le> hi"
  proof -
    show "in_runs runs \<subseteq> {snd run..<hi}" using Cons by simp
    show "snd run \<le> hi" using Cons.prems by (induction runs arbitrary: run lo) (auto intro: order_trans)
  qed
  with Cons.prems show ?case by (force simp: in_runs_def)
qed (simp add: in_runs_def)

lemma nths_cong: "(\<And>j. j < length xs \<Longrightarrow> j \<in> A \<longleftrightarrow> j \<in> B) \<Longrightarrow> nths xs A = nths xs B"
  unfolding nths_def by (intro arg_cong [of _ _ "map fst"] filter_cong) (auto dest: set_zip_rightD)

lemma kept_text_plain:
  assumes "runs_in 0 i runs" "i \<le> j"
  shows "kept_text runs s j = kept_text runs s i @ take (j - i) (drop i s)"
proof -
  have "take j s = take i s @ take (j - i) (drop i s)" using assms(2) by (metis le_add_diff_inverse take_add)
  moreover have "nths (take (j - i) (drop i s)) {k. k + length (take i s) \<in> - in_runs runs} = take (j - i) (drop i s)"
    using in_runs_bounds [OF assms(1)] by (intro nths_all) auto
  ultimately show ?thesis by (simp add: kept_text_def nths_append)
qed

lemma kept_text_run:
  assumes "runs_in 0 a runs" "a \<le> b" "b \<le> length s"
  shows "kept_text (runs @ [(a, b)]) s b = kept_text runs s a"
proof -
  have parts: "take b s = take a s @ take (b - a) (drop a s)" using assms(2) by (metis le_add_diff_inverse take_add)
  have "nths (take (b - a) (drop a s)) {k. k + length (take a s) \<in> - in_runs (runs @ [(a, b)])} = nths (take (b - a) (drop a s)) {}"
    using assms by (intro nths_cong) (auto simp: in_runs_def)
  moreover have "nths (take a s) (- in_runs (runs @ [(a, b)])) = nths (take a s) (- in_runs runs)"
    by (intro nths_cong) (auto simp: in_runs_def)
  ultimately show ?thesis unfolding kept_text_def parts by (simp add: nths_append)
qed

lemma trailing_word_suffix: "take (length s - length (trailing_word s)) s @ trailing_word s = s"
proof -
  have "rev (takeWhile c_isalpha (rev s)) = drop (length s - length (takeWhile c_isalpha (rev s))) s"
    by (metis length_rev rev_rev_ident rev_take takeWhile_eq_take)
  then show ?thesis unfolding trailing_word_def by (metis append_take_drop_id length_rev)
qed

lemma break_after_length: "break_after b rest \<le> length rest"
  by (auto simp: break_after_def split: list.splits)

lemma codepoint_at_Suc:
  "p < length s \<Longrightarrow> codepoint_at s (Suc p) = codepoint_at s p + of_bool (starts_code_point (s ! p))"
  by (simp add: codepoint_at_def take_Suc_conv_app_nth)

lemma codepoint_at_mono: "p \<le> q \<Longrightarrow> codepoint_at s p \<le> codepoint_at s q"
proof -
  assume "p \<le> q"
  then have "take q s = take p s @ take (q - p) (drop p s)" by (metis le_add_diff_inverse take_add)
  then show ?thesis by (simp add: codepoint_at_def)
qed

lemma cursor_at_counts:
  assumes "fst c \<le> byte" "byte \<le> length s" "snd c = codepoint_at s (fst c)"
  shows "cursor_at s byte c = (byte, codepoint_at s byte)"
proof -
  have "take byte s = take (fst c) s @ drop (fst c) (take byte s)"
    using assms(1) by (metis append_take_drop_id min.absorb1 take_take)
  then have "codepoint_at s byte = codepoint_at s (fst c) + length (filter starts_code_point (drop (fst c) (take byte s)))"
    unfolding codepoint_at_def by (metis filter_append length_append)
  then show ?thesis using assms by (simp add: cursor_at_def max_def Let_def)
qed

definition code_point_runs :: "string \<Rightarrow> (nat \<times> nat) list \<Rightarrow> (nat \<times> nat) list" where
  "code_point_runs s runs = map (\<lambda>run. (codepoint_at s (fst run), codepoint_at s (snd run))) runs"

text \<open>What a removed run spells: a hyphen, a line break, or both.\<close>

definition removable :: "string \<Rightarrow> bool" where
  "removable t =
     (\<exists>hyphen\<in>{[], ''-'', kSoftHyphen}. \<exists>break\<in>{[], [CHR 0x0A], '' '', [CHR 0x0D, CHR 0x0A]}. t = hyphen @ break)"

lemma removable_break:
  assumes "w \<in> {[], [CHR 0x0A], '' '', [CHR 0x0D, CHR 0x0A]}"
  shows "removable w" "removable (''-'' @ w)" "removable (kSoftHyphen @ w)"
  unfolding removable_def using assms by blast+

lemma break_removable: "take (break_after b rest) rest \<in> {[], [CHR 0x0A], '' '', [CHR 0x0D, CHR 0x0A]}"
  by (auto simp: break_after_def split: list.splits)

definition rejoin_ok :: "string \<Rightarrow> nat \<Rightarrow> rejoin \<Rightarrow> (nat \<times> nat) list \<Rightarrow> bool" where
  "rejoin_ok s i st runs =
     (i \<le> length s \<and> runs_in 0 i runs \<and> rejoin_out st = kept_text runs s i
      \<and> removed_runs st = code_point_runs s runs
      \<and> fst (code_points st) \<le> i \<and> snd (code_points st) = codepoint_at s (fst (code_points st))
      \<and> (\<forall>run\<in>set runs. removable (take (snd run - fst run) (drop (fst run) s))))"

lemma rejoin_ok_plain:
  assumes "rejoin_ok s i st runs" "i \<le> j" "j \<le> length s"
    and "rejoin_out st' = rejoin_out st @ take (j - i) (drop i s)" "removed_runs st' = removed_runs st" "code_points st' = code_points st"
  shows "rejoin_ok s j st' runs"
  using assms kept_text_plain [of i runs j s] runs_in_mono [of 0 i runs j] by (simp add: rejoin_ok_def)

lemma rejoin_ok_run:
  assumes "rejoin_ok s i st runs" "i \<le> a" "a \<le> b" "b \<le> length s" "removable (take (b - a) (drop a s))"
    and "rejoin_out st' = rejoin_out st @ take (a - i) (drop i s)"
    and "removed_runs st' = removed_runs (record_run s a b st)" "code_points st' = code_points (record_run s a b st)"
  shows "rejoin_ok s b st' (runs @ [(a, b)])"
proof -
  have start: "cursor_at s a (code_points st) = (a, codepoint_at s a)"
    using assms by (intro cursor_at_counts) (auto simp: rejoin_ok_def)
  have stop: "cursor_at s b (a, codepoint_at s a) = (b, codepoint_at s b)"
    using assms by (intro cursor_at_counts) auto
  have "rejoin_out st' = kept_text (runs @ [(a, b)]) s b"
    using assms kept_text_plain [of i runs a s] kept_text_run [of a runs b s] runs_in_mono [of 0 i runs a]
    by (simp add: rejoin_ok_def)
  then show ?thesis
    using assms runs_in_mono [of 0 i runs a]
    by (auto simp: rejoin_ok_def record_run_def start stop Let_def runs_in_snoc code_point_runs_def)
qed

lemma take_leading_word: "take (length (leading_word s)) s = leading_word s"
  unfolding leading_word_def by (metis takeWhile_eq_take)

lemma length_soft [simp]: "length kSoftHyphen = 2"
  by (simp add: kSoftHyphen_def)

lemma soft_taken: "starts_with t kSoftHyphen \<Longrightarrow> take 2 t = kSoftHyphen"
  by (metis length_soft starts_with_def)

text \<open>One soft hyphen, and one joined word, as the loop leaves them.\<close>

lemma rejoin_soft_ok:
  fixes sp :: bool
  assumes ok: "rejoin_ok s i st runs" and soft: "i < length s" "starts_with (drop i s) kSoftHyphen"
  defines "gap \<equiv> break_after sp (drop (i + 2) s)"
  defines "following \<equiv> (if leading_word (drop (i + 2 + gap) s) = [] then i + 2 else i + 2 + gap)"
  shows "rejoin_ok s following (record_run s i following (st\<lparr>soft_hyphens_removed := soft_hyphens_removed st + 1\<rparr>))
      (runs @ [(i, following)])"
    and "rejoin_from sp s i st
      = rejoin_from sp s following (record_run s i following (st\<lparr>soft_hyphens_removed := soft_hyphens_removed st + 1\<rparr>))"
proof -
  have after: "i + 2 \<le> length s" "take 2 (drop i s) = kSoftHyphen"
    using soft starts_with_length [of "drop i s" kSoftHyphen] by (simp_all add: soft_taken)
  have gap: "i + 2 + gap \<le> length s" using break_after_length [of sp "drop (i + 2) s"] after(1) by (simp add: gap_def)
  have "following - i = 2 + (following - (i + 2))" "drop (i + 2) s = drop 2 (drop i s)" by (simp_all add: following_def)
  then have "take (following - i) (drop i s) = kSoftHyphen @ take (following - (i + 2)) (drop (i + 2) s)"
    by (simp only: take_add after(2))
  moreover have "take (following - (i + 2)) (drop (i + 2) s) \<in> {[], [CHR 0x0A], '' '', [CHR 0x0D, CHR 0x0A]}"
    using break_removable [of sp "drop (i + 2) s"] by (auto simp: following_def gap_def)
  ultimately have "removable (take (following - i) (drop i s))" by (simp only: removable_break)
  then show "rejoin_ok s following (record_run s i following (st\<lparr>soft_hyphens_removed := soft_hyphens_removed st + 1\<rparr>))
      (runs @ [(i, following)])"
    using gap after(1) by (intro rejoin_ok_run [OF ok]) (auto simp: following_def record_run_def Let_def)
  show "rejoin_from sp s i st
      = rejoin_from sp s following (record_run s i following (st\<lparr>soft_hyphens_removed := soft_hyphens_removed st + 1\<rparr>))"
    using soft by (subst rejoin_from.simps) (simp add: Let_def following_def gap_def)
qed

lemma rejoin_join_ok:
  assumes ok: "rejoin_ok s i st runs" and hard: "i < length s" "s ! i = CHR ''-''" "i + 1 + gap \<le> length s"
    and gap: "gap = break_after sp (drop (i + 1) s)" and tail: "tail = leading_word (drop (i + 1 + gap) s)"
  defines "head \<equiv> trailing_word (rejoin_out st)"
  defines "joined \<equiv> join_hyphenated_fragments head tail"
  defines "first \<equiv> (if length joined > length head + length tail then i + 1 else i)"
  defines "st' \<equiv> record_run s first (i + 1 + gap) st"
  shows "rejoin_ok s (i + 1 + gap + length tail)
      (st'\<lparr>rejoin_out := take (length (rejoin_out st') - length head) (rejoin_out st') @ joined,
           words_rejoined := words_rejoined st' + 1\<rparr>) (runs @ [(first, i + 1 + gap)])"
proof -
  have hyphen: "take 1 (drop i s) = ''-''" using hard by (simp add: Cons_nth_drop_Suc [symmetric])
  have hyphen_kept: "take (first - i) (drop i s) = (if is_known_compound head tail then ''-'' else [])"
    using hyphen by (simp add: first_def joined_def join_hyphenated_fragments_def)
  have "take (length (rejoin_out st) - length head) (rejoin_out st) @ head = rejoin_out st"
    unfolding head_def by (rule trailing_word_suffix)
  then have out: "take (length (rejoin_out st) - length head) (rejoin_out st) @ joined = (rejoin_out st @ take (first - i) (drop i s)) @ tail"
    unfolding hyphen_kept joined_def join_hyphenated_fragments_def by (metis append.assoc)
  have "take (1 + gap) (drop i s) = ''-'' @ take gap (drop (i + 1) s)"
    using hyphen take_add [of 1 gap "drop i s"] by (simp add: add.commute)
  then have "removable (take (i + 1 + gap - first) (drop first s))"
    using removable_break [OF break_removable [of sp "drop (i + 1) s"]] by (simp add: first_def gap)
  then have run: "rejoin_ok s (i + 1 + gap) (st'\<lparr>rejoin_out := rejoin_out st @ take (first - i) (drop i s)\<rparr>)
      (runs @ [(first, i + 1 + gap)])"
    using hard(3) by (intro rejoin_ok_run [OF ok]) (auto simp: first_def st'_def)
  have word: "take (length tail) (drop (i + 1 + gap) s) = tail" unfolding tail by (rule take_leading_word)
  then have "i + 1 + gap + length tail \<le> length s" using hard(3)
    by (metis add_le_cancel_left le_add_diff_inverse length_drop length_take min.cobounded1)
  then show ?thesis
    using word out by (intro rejoin_ok_plain [OF run]) (auto simp: st'_def record_run_def Let_def)
qed

lemma rejoin_from_ok: "rejoin_ok s i st runs \<Longrightarrow> \<exists>runs'. rejoin_ok s (length s) (rejoin_from sp s i st) runs'"
proof (induction "length s - i" arbitrary: i st runs rule: less_induct)
  case (less i st runs)
  let ?soft = "starts_with (drop i s) kSoftHyphen"
  consider (stop) "i \<ge> length s" | (plain) "i < length s" "\<not> ?soft" "s ! i \<noteq> CHR ''-''"
    | (soft) "i < length s" "?soft" | (hard) "i < length s" "\<not> ?soft" "s ! i = CHR ''-''" by linarith
  then show ?case
  proof cases
    case stop
    then have "i = length s" using less.prems by (simp add: rejoin_ok_def)
    with less.prems show ?thesis by (subst rejoin_from.simps) auto
  next
    case plain
    have "rejoin_ok s (i + 1) (st\<lparr>rejoin_out := rejoin_out st @ [s ! i]\<rparr>) runs"
      using plain by (intro rejoin_ok_plain [OF less.prems]) (auto simp: Cons_nth_drop_Suc [symmetric])
    moreover have "rejoin_from sp s i st = rejoin_from sp s (i + 1) (st\<lparr>rejoin_out := rejoin_out st @ [s ! i]\<rparr>)"
      using plain by (subst rejoin_from.simps) simp
    ultimately show ?thesis using less.hyps [of "i + 1"] plain(1) by simp
  next
    case soft
    have "length s - following < length s - i" if "following \<ge> i + 2" for following using that soft(1) by simp
    then show ?thesis
      using less.hyps [OF _ rejoin_soft_ok(1) [OF less.prems soft, of sp]] rejoin_soft_ok(2) [OF less.prems soft, of sp]
      by (simp split: if_splits)
  next
    case hard
    define gap where "gap = break_after sp (drop (i + 1) s)"
    define tail where "tail = leading_word (drop (i + 1 + gap) s)"
    have gap: "i + 1 + gap \<le> length s" using break_after_length [of sp "drop (i + 1) s"] hard(1) by (simp add: gap_def)
    show ?thesis
    proof (cases "joinable (rejoin_out st) gap tail (drop (i + 1 + gap) s)")
      case False
      have "rejoin_ok s (i + 1) (st\<lparr>rejoin_out := rejoin_out st @ ''-''\<rparr>) runs"
        using hard by (intro rejoin_ok_plain [OF less.prems]) (auto simp: Cons_nth_drop_Suc [symmetric])
      moreover have "rejoin_from sp s i st = rejoin_from sp s (i + 1) (st\<lparr>rejoin_out := rejoin_out st @ ''-''\<rparr>)"
        using hard False by (subst rejoin_from.simps) (simp add: Let_def tail_def gap_def)
      ultimately show ?thesis using less.hyps [of "i + 1"] hard(1) by simp
    next
      case True
      note joined = rejoin_join_ok [OF less.prems hard(1,3) gap gap_def tail_def]
      from True hard have "rejoin_from sp s i st = rejoin_from sp s (i + 1 + gap + length tail)
          (let head = trailing_word (rejoin_out st); joined = join_hyphenated_fragments head tail;
               st' = record_run s (if length joined > length head + length tail then i + 1 else i) (i + 1 + gap) st
           in st'\<lparr>rejoin_out := take (length (rejoin_out st') - length head) (rejoin_out st') @ joined,
                  words_rejoined := words_rejoined st' + 1\<rparr>)"
        by (subst rejoin_from.simps) (simp add: Let_def tail_def gap_def)
      then show ?thesis using less.hyps [OF _ joined] hard(1) by (simp add: Let_def)
    qed
  qed
qed


text \<open>\<open>remap\<close> counts the positions that are kept.\<close>

definition shift :: "nat \<Rightarrow> (nat \<times> nat) list \<Rightarrow> nat \<Rightarrow> int" where
  "shift lead runs q =
     (let following = length (takeWhile (\<lambda>run. int (fst run) < int q) runs) in
      if following = 0 then int lead
      else int (removed_before lead runs ! (following - 1)) + min (int q) (int (snd (runs ! (following - 1))))
        - int (fst (runs ! (following - 1))))"

lemma remap_shift: "remap runs (int q) = int q - shift 0 runs q"
  by (simp add: remap_def shift_def Let_def)

lemma shift_counts: "runs_in lo hi runs \<Longrightarrow> shift lead runs q = int lead + int (card (in_runs runs \<inter> {..<q}))"
proof (induction runs arbitrary: lo lead)
  case (Cons run runs)
  have later: "in_runs runs \<subseteq> {snd run..<hi}" using Cons.prems in_runs_bounds [of "snd run" hi runs] by simp
  have split: "in_runs (run # runs) \<inter> {..<q} = {fst run..<min q (snd run)} \<union> (in_runs runs \<inter> {..<q})"
    by (auto simp: in_runs_def)
  have "finite (in_runs runs \<inter> {..<q})" by simp
  moreover have "{fst run..<min q (snd run)} \<inter> (in_runs runs \<inter> {..<q}) = {}" using later by auto
  ultimately have card: "card (in_runs (run # runs) \<inter> {..<q}) = (min q (snd run) - fst run) + card (in_runs runs \<inter> {..<q})"
    unfolding split by (subst card_Un_disjoint) auto
  show ?case
  proof (cases "fst run < q")
    case False
    with Cons.prems later have "in_runs runs \<inter> {..<q} = {}" by auto
    with False card show ?thesis by (simp add: shift_def)
  next
    case True
    show ?thesis
    proof (cases "runs = [] \<or> \<not> fst (hd runs) < q")
      case True
      then have "in_runs runs \<inter> {..<q} = {}"
      proof (cases runs)
        case (Cons r rs)
        with True Cons.prems in_runs_bounds [of "fst r" hi runs] show ?thesis by auto
      qed (simp add: in_runs_def)
      moreover have "takeWhile (\<lambda>run. int (fst run) < int q) runs = []" using True by (cases runs) auto
      ultimately show ?thesis using card \<open>fst run < q\<close> Cons.prems by (simp add: shift_def of_nat_diff min_def)
    next
      case False
      then have "0 < length (takeWhile (\<lambda>run. int (fst run) < int q) runs)" by (cases runs) auto
      then have "shift lead (run # runs) q = shift (lead + (snd run - fst run)) runs q"
        using \<open>fst run < q\<close> by (simp add: shift_def Let_def nth_Cons')
      moreover have "snd run \<le> q" using False Cons.prems by (cases runs) auto
      ultimately show ?thesis using Cons.IH [of "snd run" "lead + (snd run - fst run)"] Cons.prems card
        by (simp add: min_absorb2)
    qed
  qed
qed (simp add: shift_def in_runs_def)

lemma remap_counts:
  assumes "runs_in 0 hi runs"
  shows "remap runs (int q) = int (card {x. x < q \<and> x \<notin> in_runs runs})"
proof -
  have "{x. x < q \<and> x \<notin> in_runs runs} = {..<q} - in_runs runs \<inter> {..<q}" by auto
  then have "card {x. x < q \<and> x \<notin> in_runs runs} = q - card (in_runs runs \<inter> {..<q})"
    by (simp add: card_Diff_subset)
  moreover have "card (in_runs runs \<inter> {..<q}) \<le> q" using card_mono [of "{..<q}" "in_runs runs \<inter> {..<q}"] by simp
  ultimately show ?thesis by (simp add: remap_shift shift_counts [OF assms] of_nat_diff)
qed

lemma runs_in_code_points: "runs_in lo hi runs \<Longrightarrow> runs_in (codepoint_at s lo) (codepoint_at s hi) (code_point_runs s runs)"
  by (induction runs arbitrary: lo) (auto simp: code_point_runs_def codepoint_at_mono)

lemma code_point_in_runs:
  assumes "p < length s" "starts_code_point (s ! p)"
  shows "codepoint_at s p \<in> in_runs (code_point_runs s runs) \<longleftrightarrow> p \<in> in_runs runs"
proof -
  have "codepoint_at s a \<le> codepoint_at s p \<longleftrightarrow> a \<le> p" "codepoint_at s p < codepoint_at s a \<longleftrightarrow> p < a" for a
  proof -
    have "codepoint_at s p < codepoint_at s (Suc p)" using assms by (simp add: codepoint_at_Suc)
    then show "codepoint_at s p < codepoint_at s a \<longleftrightarrow> p < a"
      by (metis Suc_leI codepoint_at_mono le_less_trans less_le_not_le not_le_imp_less)
    then show "codepoint_at s a \<le> codepoint_at s p \<longleftrightarrow> a \<le> p" by (meson not_less)
  qed
  then show ?thesis by (auto simp: in_runs_def code_point_runs_def)
qed

lemma kept_code_points:
  assumes "runs_in 0 (length s) runs"
  shows "p \<le> length s \<Longrightarrow> length (filter starts_code_point (kept_text runs s p))
     = card {x. x < codepoint_at s p \<and> x \<notin> in_runs (code_point_runs s runs)}"
proof (induction p)
  case (Suc p)
  let ?gone = "in_runs (code_point_runs s runs)"
  have step: "kept_text runs s (Suc p) = kept_text runs s p @ (if p \<in> in_runs runs then [] else [s ! p])"
    using Suc.prems by (simp add: kept_text_def take_Suc_conv_app_nth nths_append)
  have "{x. x < Suc n \<and> x \<notin> ?gone} = {x. x < n \<and> x \<notin> ?gone} \<union> (if n \<in> ?gone then {} else {n})" for n
    by (auto simp: less_Suc_eq)
  then have "card {x. x < Suc n \<and> x \<notin> ?gone} = card {x. x < n \<and> x \<notin> ?gone} + of_bool (n \<notin> ?gone)" for n
    by simp
  then show ?case
    using Suc code_point_in_runs [of p s runs] by (auto simp: step codepoint_at_Suc)
qed (simp add: kept_text_def codepoint_at_def)

text \<open>
  C30. Rejoining hyphenated words only removes: the result is the text without some runs of bytes,
  each of them a hyphen, a line break or both. And the positions follow: for every byte
  position, the code point position in the old text is mapped to the code point position
  in the new text that has the same kept text before it (a position inside a removed run lands where the run
  was), so spans and charspans keep marking the same characters.
\<close>

theorem rejoined_positions_follow:
  "\<exists>gone. (let st = rejoin_hyphenated_words sp s in
     rejoin_out st = nths s (- in_runs gone)
     \<and> list_all (\<lambda>run. removable (take (snd run - fst run) (drop (fst run) s))) gone
     \<and> list_all (\<lambda>p. remap (removed_runs st) (int (codepoint_at s p))
         = int (codepoint_at (rejoin_out st) (length (nths (take p s) (- in_runs gone))))) [0..<Suc (length s)])"
proof -
  define st where "st = rejoin_hyphenated_words sp s"
  have "rejoin_ok s 0 \<lparr>rejoin_out = [], words_rejoined = 0, soft_hyphens_removed = 0, code_points = (0, 0), removed_runs = []\<rparr> []"
    by (simp add: rejoin_ok_def kept_text_def code_point_runs_def codepoint_at_def)
  then obtain gone where ok: "rejoin_ok s (length s) st gone"
    using rejoin_from_ok unfolding st_def rejoin_hyphenated_words_def by blast
  then have runs: "runs_in 0 (length s) gone" "removed_runs st = code_point_runs s gone" and out: "rejoin_out st = nths s (- in_runs gone)"
    by (auto simp: rejoin_ok_def kept_text_def)
  have "remap (removed_runs st) (int (codepoint_at s p)) = int (codepoint_at (rejoin_out st) (length (nths (take p s) (- in_runs gone))))"
    if "p \<le> length s" for p
  proof -
    have "s = take p s @ drop p s" by simp
    then have "take (length (nths (take p s) (- in_runs gone))) (nths s (- in_runs gone)) = nths (take p s) (- in_runs gone)"
      by (metis append_eq_conv_conj nths_append)
    then show ?thesis
      using runs_in_code_points [OF runs(1), of s] kept_code_points [OF runs(1) that]
      by (simp add: runs(2) remap_counts [of "codepoint_at s (length s)"] out codepoint_at_def kept_text_def)
  qed
  with ok out show ?thesis
    unfolding st_def [symmetric] Let_def
    by (intro exI [of _ gone]) (auto simp: rejoin_ok_def list_all_iff)
qed

end
