(* ===== verification/HeadingText.thy ===== *)
theory HeadingText
  imports RepairText
begin

text \<open>
  The text side of the heading hierarchy (\<^verbatim>\<open>src/src/heading_hierarchy.cpp\<close>): the depth that the
  numbering of a heading states, numbering under an explicit list of schemes, headings that read
  as prose or as a section word, and the similarity of two titles. The trimming and the word
  count are those of \<^theory_text>\<open>RepairText\<close>, which the two files write alike. A position into a text is
  the text from there on.
\<close>

subsection \<open>Numbering groups\<close>

definition kMaximumNumberDigits :: nat where "kMaximumNumberDigits = 3"
definition kMaximumRomanValue :: int where "kMaximumRomanValue = 40"
definition kMaximumEnumeratedHeadingWords :: nat where "kMaximumEnumeratedHeadingWords = 8"
definition kMaximumSectionWords :: nat where "kMaximumSectionWords = 3"
definition kMinimumSectionLetters :: nat where "kMinimumSectionLetters = 4"
definition kMaximumHeadingWords :: nat where "kMaximumHeadingWords = 30"

definition kSentenceEnd :: string where "kSentenceEnd = ''.!?,;''"

definition kOpeningQuotes :: "string list" where
  "kOpeningQuotes =
     [[CHR 0x22], [CHR 0x27], map char_of [0xE2 :: nat, 0x80, 0x9C], map char_of [0xE2 :: nat, 0x80, 0x98], map char_of [0xC2 :: nat, 0xAB]]"

definition kClosingQuotes :: "string list" where
  "kClosingQuotes =
     [[CHR 0x22], [CHR 0x27], map char_of [0xE2 :: nat, 0x80, 0x9D], map char_of [0xE2 :: nat, 0x80, 0x99], map char_of [0xC2 :: nat, 0xBB]]"

function take_dotted_groups :: "string \<Rightarrow> nat \<times> string" where
  "take_dotted_groups s =
     (case s of
        c # d # cs \<Rightarrow>
          if c = CHR ''.'' \<and> c_isdigit d
          then (let (n, r) = take_dotted_groups (dropWhile c_isdigit (d # cs)) in (n + 1, r))
          else (0, s)
      | _ \<Rightarrow> (0, s))"
  by pat_completeness auto

termination
  by (relation "measure length") (auto intro: le_less_trans [OF length_dropWhile_le])

declare take_dotted_groups.simps [simp del]

definition take_closer :: "string \<Rightarrow> string" where
  "take_closer s = (if s \<noteq> [] \<and> hd s \<in> {CHR ''.'', CHR '')''} then tl s else s)"

definition followed_by_words :: "string \<Rightarrow> bool" where
  "followed_by_words rest = (rest \<noteq> [] \<and> c_isspace (hd rest) \<and> list_ex c_isalpha (trim_left rest))"

definition roman_letter :: "char \<Rightarrow> int" where
  "roman_letter c =
     (if c = CHR ''I'' then 1 else if c = CHR ''V'' then 5 else if c = CHR ''X'' then 10 else if c = CHR ''L'' then 50 else 0)"

fun heading_roman :: "string \<Rightarrow> int \<Rightarrow> int option" where
  "heading_roman [] so_far = Some so_far"
| "heading_roman (c # cs) so_far =
     (let v = roman_letter c; following = (case cs of [] \<Rightarrow> 0 | d # _ \<Rightarrow> roman_letter d) in
      if v = 0 then None else heading_roman cs (so_far + (if v < following then - v else v)))"

definition heading_roman_value :: "string \<Rightarrow> int option" where
  "heading_roman_value tok = (if tok = [] \<or> length tok > 6 then None else heading_roman tok 0)"

definition roman_upper_token :: "string \<Rightarrow> bool" where
  "roman_upper_token tok = (case heading_roman_value tok of None \<Rightarrow> False | Some v \<Rightarrow> v > 0 \<and> v \<le> kMaximumRomanValue)"

definition is_closed :: "string \<Rightarrow> bool" where
  "is_closed rest = (rest \<noteq> [] \<and> hd rest \<in> {CHR ''.'', CHR '')''})"

definition decimal_depth :: "string \<Rightarrow> nat option" where
  "decimal_depth s =
     (let digits = length (takeWhile c_isdigit s) in
      if digits = 0 \<or> digits > kMaximumNumberDigits then None
      else
        let (n, rest) = take_dotted_groups (drop digits s)
        in if followed_by_words (take_closer rest) then Some (1 + n) else None)"

definition letter_depth :: "string \<Rightarrow> nat option" where
  "letter_depth s =
     (case s of
        c # d # cs \<Rightarrow>
          if \<not> c_isupper c \<or> c_isalpha d then None
          else
            let (n, rest) = take_dotted_groups (d # cs)
            in if \<not> is_closed rest \<and> n = 0 then None
               else if followed_by_words (take_closer rest) then Some (1 + n) else None
      | _ \<Rightarrow> None)"

definition roman_depth :: "string \<Rightarrow> nat option" where
  "roman_depth s =
     (let tok = takeWhile c_isupper s in
      if \<not> roman_upper_token tok then None
      else
        let (n, rest) = take_dotted_groups (drop (length tok) s); after = take_closer rest
        in if \<not> followed_by_words after then None
           else if is_closed rest \<or> n > 0 then Some (1 + n)
           else if c_isupper (hd (trim_left after)) then Some (1 + n) else None)"

definition starts_with_word :: "string \<Rightarrow> string \<Rightarrow> bool" where
  "starts_with_word s word =
     (length s > length word \<and> map c_tolower (take (length word) s) = word
      \<and> (c_isspace (s ! length word) \<or> s ! length word = CHR '':''))"

definition appendix_depth :: "string \<Rightarrow> nat option" where
  "appendix_depth s =
     (if \<not> starts_with_word s ''appendix'' then None
      else
        let rest = drop 8 s;
            rest = (if starts_with rest '':'' then tl rest else rest);
            rest = trim_left rest;
            label = (\<lambda>r. let (n, r) = take_dotted_groups r; r = take_closer r
                         in if r = [] \<or> followed_by_words r then Some (1 + n) else None)
        in case rest of
             [] \<Rightarrow> None
           | c # cs \<Rightarrow>
               if c_isupper c \<and> (cs = [] \<or> \<not> c_isalpha (hd cs)) then label cs
               else if c_isdigit c then label (dropWhile c_isdigit rest)
               else if list_ex c_isalpha rest then Some 1 else None)"

definition heading_numbering_depth :: "string \<Rightarrow> nat option" where
  "heading_numbering_depth s =
     (let t = trim_left s in
      if t = [] then None
      else case appendix_depth t of
        Some n \<Rightarrow> Some n
      | None \<Rightarrow>
          (case decimal_depth t of
             Some n \<Rightarrow> Some n
           | None \<Rightarrow>
               if word_count t > kMaximumEnumeratedHeadingWords then None
               else case roman_depth t of Some n \<Rightarrow> Some n | None \<Rightarrow> letter_depth t))"

subsection \<open>Numbering under a list of schemes\<close>

datatype numbering_scheme =
  Unspecified | Part | Chapter | Division | Subdivision | Article | Roman_U | Arabic | Alpha_U | Alpha_L | Roman_L

definition all_schemes :: "numbering_scheme list" where
  "all_schemes = [Part, Chapter, Division, Subdivision, Article, Roman_U, Arabic, Alpha_U, Alpha_L, Roman_L]"

fun heading_numbering_scheme_name :: "numbering_scheme \<Rightarrow> string" where
  "heading_numbering_scheme_name Part = ''part''"
| "heading_numbering_scheme_name Chapter = ''chapter''"
| "heading_numbering_scheme_name Division = ''division''"
| "heading_numbering_scheme_name Subdivision = ''subdivision''"
| "heading_numbering_scheme_name Article = ''article''"
| "heading_numbering_scheme_name Roman_U = ''roman_u''"
| "heading_numbering_scheme_name Arabic = ''arabic''"
| "heading_numbering_scheme_name Alpha_U = ''alpha_u''"
| "heading_numbering_scheme_name Alpha_L = ''alpha_l''"
| "heading_numbering_scheme_name Roman_L = ''roman_l''"
| "heading_numbering_scheme_name Unspecified = []"

definition heading_numbering_scheme_from_name :: "string \<Rightarrow> numbering_scheme option" where
  "heading_numbering_scheme_from_name s = List.find (\<lambda>k. heading_numbering_scheme_name k = s) all_schemes"

record enumerator =
  enum_token :: string
  enum_rest :: string
  enum_closed :: bool
  enum_bracketed :: bool

definition leading_enumerator :: "string \<Rightarrow> enumerator option" where
  "leading_enumerator s =
     (if starts_with s ''('' then
        (case sfind '')'' s of
           None \<Rightarrow> None
         | Some close \<Rightarrow>
             if close < 2 \<or> close > 8 then None
             else Some \<lparr>enum_token = take (close - 1) (drop 1 s), enum_rest = drop (close + 1) s,
                        enum_closed = True, enum_bracketed = True\<rparr>)
      else
        let tok = takeWhile (\<lambda>c. c_isalpha c \<or> c_isdigit c) s in
        if tok = [] then None
        else Some \<lparr>enum_token = tok, enum_rest = drop (length tok) s, enum_closed = False, enum_bracketed = False\<rparr>)"

definition all_of_class :: "(char \<Rightarrow> bool) \<Rightarrow> string \<Rightarrow> bool" where
  "all_of_class p tok = (tok \<noteq> [] \<and> list_all p tok)"

definition c_toupper :: "char \<Rightarrow> char" where
  "c_toupper c = (if c_islower c then char_of (byte_val c - 32) else c)"

definition roman_lower_token :: "string \<Rightarrow> bool" where
  "roman_lower_token tok =
     (all_of_class (\<lambda>c. c \<in> set ''ivxl'') tok \<and> roman_upper_token (map c_toupper tok))"

definition position_of :: "numbering_scheme \<Rightarrow> numbering_scheme list \<Rightarrow> nat option" where
  "position_of k allowed = (let n = length (takeWhile (\<lambda>a. a \<noteq> k) allowed) in if n = length allowed then None else Some n)"

definition kKeywords :: "(string \<times> numbering_scheme) list" where
  "kKeywords =
     [(''subdivision'', Subdivision), (''division'', Division), (''chapter'', Chapter), (''article'', Article), (''part'', Part)]"

definition keyword_numbering :: "string \<Rightarrow> (numbering_scheme \<times> nat) option" where
  "keyword_numbering s =
     (case List.find (\<lambda>k. starts_with_word s (fst k)) kKeywords of
        None \<Rightarrow> None
      | Some (word, k) \<Rightarrow>
          let rest = trim_left (drop (length word) s);
              label = takeWhile (\<lambda>c. c_isalpha c \<or> c_isdigit c) rest
          in if label = [] \<or> length label > 6 then None
             else if \<not> all_of_class c_isdigit label \<and> \<not> roman_upper_token label
                     \<and> \<not> (length label = 1 \<and> c_isalpha (hd label)) then None
             else Some (k, fst (take_dotted_groups (drop (length label) rest))))"

text \<open>The schemes a token can be, the most specific reading first.\<close>

definition readings :: "string \<Rightarrow> string \<Rightarrow> bool \<Rightarrow> nat \<Rightarrow> string \<Rightarrow> numbering_scheme list" where
  "readings trimmed tok closed sub_groups rest =
     (if all_of_class c_isdigit tok \<and> length tok \<le> kMaximumNumberDigits then [Arabic] else [])
     @ (if word_count trimmed > kMaximumEnumeratedHeadingWords then []
        else
          (if roman_upper_token tok \<and> (closed \<or> sub_groups > 0 \<or> c_isupper (hd (trim_left rest))) then [Roman_U] else [])
          @ (if length tok = 1 \<and> c_isupper (hd tok) \<and> (closed \<or> sub_groups > 0) then [Alpha_U] else [])
          @ (if roman_lower_token tok \<and> closed then [Roman_L] else [])
          @ (if length tok = 1 \<and> c_islower (hd tok) \<and> closed then [Alpha_L] else []))"

definition best_position :: "numbering_scheme list \<Rightarrow> numbering_scheme list \<Rightarrow> nat option" where
  "best_position allowed ks =
     fold (\<lambda>k best. case position_of k allowed of
             None \<Rightarrow> best
           | Some n \<Rightarrow> (case best of None \<Rightarrow> Some n | Some b \<Rightarrow> if n < b then Some n else best)) ks None"

definition heading_scheme_numbering :: "numbering_scheme list \<Rightarrow> string \<Rightarrow> (numbering_scheme \<times> nat) option" where
  "heading_scheme_numbering allowed s =
     (let trimmed = trim_left s in
      if trimmed = [] \<or> allowed = [] then None
      else case keyword_numbering trimmed of
        Some numbering \<Rightarrow> if position_of (fst numbering) allowed \<noteq> None then Some numbering else None
      | None \<Rightarrow>
          (case leading_enumerator trimmed of
             None \<Rightarrow> None
           | Some e \<Rightarrow>
               let (sub_groups, rest) = (if enum_bracketed e then (0, enum_rest e) else take_dotted_groups (enum_rest e));
                   closed = (if enum_bracketed e then enum_closed e else is_closed rest);
                   rest = (if enum_bracketed e then rest else take_closer rest)
               in if \<not> followed_by_words rest then None
                  else case best_position allowed (readings trimmed (enum_token e) closed sub_groups rest) of
                         None \<Rightarrow> None | Some b \<Rightarrow> Some (allowed ! b, sub_groups)))"

definition heading_scheme_depth :: "numbering_scheme list \<Rightarrow> string \<Rightarrow> nat option" where
  "heading_scheme_depth schemes s =
     (case heading_scheme_numbering schemes s of
        None \<Rightarrow> None
      | Some (k, sub_groups) \<Rightarrow> (case position_of k schemes of None \<Rightarrow> Some sub_groups | Some n \<Rightarrow> Some (n + 1 + sub_groups)))"

subsection \<open>Headings that are words or prose\<close>

definition section_word_char :: "char \<Rightarrow> (nat \<times> nat \<times> bool) option \<Rightarrow> (nat \<times> nat \<times> bool) option" where
  "section_word_char c state =
     (case state of
        None \<Rightarrow> None
      | Some (words, letters, in_word) \<Rightarrow>
          if c_isspace c then Some (words, letters, False)
          else if \<not> c_isupper c then None
          else Some (if in_word then words else words + 1, letters + 1, True))"

definition is_section_word_heading :: "string \<Rightarrow> bool" where
  "is_section_word_heading s =
     (let trimmed = trim_right (trim_left s) in
      if trimmed = [] \<or> heading_numbering_depth trimmed \<noteq> None then False
      else case fold section_word_char trimmed (Some (0, 0, False)) of
             None \<Rightarrow> False
           | Some (words, letters, _) \<Rightarrow>
               words \<ge> 1 \<and> words \<le> kMaximumSectionWords \<and> letters \<ge> kMinimumSectionLetters)"

definition ends_with :: "string \<Rightarrow> string \<Rightarrow> bool" where
  "ends_with s suffix = starts_with (rev s) (rev suffix)"

definition heading_reads_as_prose :: "string \<Rightarrow> bool" where
  "heading_reads_as_prose s =
     (let body = trim_right (trim_left s) in
      if body = [] then False
      else if list_ex (starts_with body) kOpeningQuotes then True
      else if list_ex (ends_with body) kClosingQuotes then True
      else if last body \<in> set kSentenceEnd then True
      else word_count body > kMaximumHeadingWords)"

end
