(* ===== verification/TitleMatch.thy ===== *)
theory TitleMatch
  imports Complex_Main HeadingText
begin

text \<open>
  Matching headings to the outline of a document (\<^verbatim>\<open>src/src/heading_hierarchy.cpp\<close>): normalised
  titles, the edit distance by one row, the banded edit distance with its limit and its count of
  cells. The rows are the vectors of the code, with every stale cell they carry over; the
  theorem shows that the band never reads one.
\<close>

subsection \<open>Normalised titles and the distance of whole rows\<close>

definition title_char :: "char \<Rightarrow> string \<times> bool \<Rightarrow> string \<times> bool" where
  "title_char c state =
     (let (out, space) = state in
      if c_isalnum c \<or> byte_val c \<ge> 0x80
      then (out @ (if space \<and> out \<noteq> [] then '' '' else []) @ [c_tolower c], False)
      else (out, True))"

definition normalized_title :: "string \<Rightarrow> string" where
  "normalized_title s = fst (fold title_char s ([], False))"

definition edit_cost :: "char \<Rightarrow> char \<Rightarrow> nat" where
  "edit_cost c d = (if c = d then 0 else 1)"

text \<open>One row over the one before: \<open>diagonal\<close>, the cell to the left, and the cells above.\<close>

fun scan_row :: "char \<Rightarrow> string \<Rightarrow> nat \<Rightarrow> nat \<Rightarrow> nat list \<Rightarrow> nat list" where
  "scan_row c (d # ds) diagonal cell_left (upper # row) =
     (let cell = min (min (upper + 1) (cell_left + 1)) (diagonal + edit_cost c d)
      in cell # scan_row c ds upper cell row)"
| "scan_row c _ _ _ _ = []"

definition next_row :: "string \<Rightarrow> nat \<times> char \<Rightarrow> nat list \<Rightarrow> nat list" where
  "next_row y entry row = fst entry # scan_row (snd entry) y (hd row) (fst entry) (tl row)"

definition heading_title_similarity :: "(rat \<Rightarrow> rat) \<Rightarrow> string \<Rightarrow> string \<Rightarrow> rat" where
  "heading_title_similarity rnd a b =
     (let x = normalized_title a; y = normalized_title b in
      if x = [] \<and> y = [] then 1
      else if x = [] \<or> y = [] then 0
      else
        let row = fold (next_row y) (List.enumerate 1 x) [0..<length y + 1];
            longer = of_nat (max (length x) (length y))
        in rnd (1 - rnd (of_nat (row ! length y) / longer)))"

subsection \<open>The banded distance\<close>

definition band_cell ::
  "string \<Rightarrow> char \<Rightarrow> nat \<Rightarrow> nat list \<Rightarrow> nat \<Rightarrow> nat list \<times> nat \<Rightarrow> nat list \<times> nat" where
  "band_cell y c over previous j state =
     (let (current, row_minimum) = state;
          substitution = previous ! (j - 1) + edit_cost c (y ! (j - 1));
          cell = min (min (previous ! j + 1) (current ! (j - 1) + 1)) substitution;
          current = current[j := min cell over]
      in (current, min row_minimum (current ! j)))"

definition band_low :: "nat \<Rightarrow> nat \<Rightarrow> nat" where
  "band_low limit i = (if i > limit then i - limit else 1)"

definition band_high :: "nat \<Rightarrow> nat \<Rightarrow> nat \<Rightarrow> nat" where
  "band_high limit m i = min m (i + limit)"

definition band_row ::
  "string \<Rightarrow> char \<Rightarrow> nat \<Rightarrow> nat \<Rightarrow> nat list \<Rightarrow> nat list \<Rightarrow> nat list \<times> nat" where
  "band_row y c limit i previous current =
     (let over = limit + 1; low = band_low limit i; high = band_high limit (length y) i;
          current = current[low - 1 := (if low = 1 \<and> i \<le> limit then i else over)];
          (current, row_minimum) = fold (band_cell y c over previous) [low..<high + 1] (current, current ! (low - 1));
          current = (if high < length y then current[high + 1 := over] else current)
      in (current, row_minimum))"

fun band_rows ::
  "string \<Rightarrow> nat \<Rightarrow> string \<Rightarrow> nat \<Rightarrow> nat list \<Rightarrow> nat list \<Rightarrow> nat \<Rightarrow> nat \<times> nat" where
  "band_rows y limit [] i previous current cells = (min (previous ! length y) (limit + 1), cells)"
| "band_rows y limit (c # cs) i previous current cells =
     (let (current, row_minimum) = band_row y c limit i previous current;
          cells = cells + (band_high limit (length y) i - band_low limit i + 1)
      in if row_minimum > limit then (limit + 1, cells)
         else band_rows y limit cs (i + 1) current previous cells)"

definition bounded_edit_distance :: "string \<Rightarrow> string \<Rightarrow> nat \<Rightarrow> nat \<Rightarrow> nat \<times> nat" where
  "bounded_edit_distance a b limit cells =
     (let (x, y) = (if length a > length b then (b, a) else (a, b));
          n = length x; m = length y; over = limit + 1
      in if m - n > limit then (over, cells)
         else
           let previous = fold (\<lambda>j row. row[j := j]) [0..<min m limit + 1] (replicate (m + 1) over)
           in band_rows y limit x 1 previous (replicate (m + 1) over) cells)"

subsection \<open>The distance they compute\<close>

text \<open>The edit distance of two words by the recursion on their last letters.\<close>

fun last_edits :: "string \<Rightarrow> string \<Rightarrow> nat" where
  "last_edits [] ys = length ys"
| "last_edits xs [] = length xs"
| "last_edits (x # xs) (y # ys) =
     min (min (last_edits xs (y # ys) + 1) (last_edits (x # xs) ys + 1)) (last_edits xs ys + edit_cost x y)"

definition edit_distance :: "string \<Rightarrow> string \<Rightarrow> nat" where
  "edit_distance x y = last_edits (rev x) (rev y)"

lemma last_edits_nil [simp]: "last_edits xs [] = length xs"
  by (cases xs) simp_all

lemma last_edits_sym: "last_edits xs ys = last_edits ys xs"
  by (induction xs ys rule: last_edits.induct) (auto simp: edit_cost_def)

lemma edit_distance_sym: "edit_distance x y = edit_distance y x"
  by (simp add: edit_distance_def last_edits_sym)

lemma last_edits_lower: "length ys - length xs \<le> last_edits xs ys"
  by (induction xs ys rule: last_edits.induct) auto

lemma last_edits_upper: "last_edits xs ys \<le> max (length xs) (length ys)"
  by (induction xs ys rule: last_edits.induct) (auto simp: edit_cost_def)

text \<open>The cell of row \<open>i\<close> and column \<open>j\<close>.\<close>

definition cell :: "string \<Rightarrow> string \<Rightarrow> nat \<Rightarrow> nat \<Rightarrow> nat" where
  "cell x y i j = edit_distance (take i x) (take j y)"

lemma cell_edges [simp]: "j \<le> length y \<Longrightarrow> cell x y 0 j = j" "i \<le> length x \<Longrightarrow> cell x y i 0 = i"
  by (simp_all add: cell_def edit_distance_def)

lemma cell_step:
  "i < length x \<Longrightarrow> j < length y \<Longrightarrow>
     cell x y (Suc i) (Suc j) =
       min (min (cell x y i (Suc j) + 1) (cell x y (Suc i) j + 1)) (cell x y i j + edit_cost (x ! i) (y ! j))"
  by (simp add: cell_def edit_distance_def take_Suc_conv_app_nth)

lemma cell_band: "i \<le> length x \<Longrightarrow> j \<le> length y \<Longrightarrow> i - j \<le> cell x y i j \<and> j - i \<le> cell x y i j"
  using last_edits_lower [of "rev (take j y)" "rev (take i x)"] last_edits_lower [of "rev (take i x)" "rev (take j y)"]
  by (simp add: cell_def edit_distance_def last_edits_sym)

text \<open>A row below another has no cell below its minimum.\<close>

lemma row_minimum_grows:
  assumes "\<And>j. j \<le> length y \<Longrightarrow> k \<le> cell x y i j" "i + d \<le> length x" "j \<le> length y"
  shows "k \<le> cell x y (i + d) j"
  using assms(2,3)
proof (induction d arbitrary: j)
  case (Suc d)
  show ?case
    using Suc.prems(2)
  proof (induction j)
    case 0
    have "k \<le> cell x y i 0" using assms(1) by blast
    with Suc.prems show ?case by simp
  next
    case (Suc j)
    with Suc.IH Suc.prems \<open>i + Suc d \<le> length x\<close> \<open>\<And>j. i + d \<le> length x \<Longrightarrow> j \<le> length y \<Longrightarrow> k \<le> cell x y (i + d) j\<close>
    have "k \<le> cell x y (i + d) (Suc j)" "k \<le> cell x y (Suc (i + d)) j" "k \<le> cell x y (i + d) j" by simp_all
    with Suc.prems \<open>i + Suc d \<le> length x\<close> show ?case by (simp add: cell_step)
  qed
qed (use assms in simp)

subsection \<open>Whole rows\<close>

lemma scan_row_cells:
  assumes "i < length x" "j \<le> length y"
  shows "scan_row (x ! i) (drop j y) (cell x y i j) (cell x y (Suc i) j) (map (cell x y i) [Suc j..<length y + 1])
    = map (cell x y (Suc i)) [Suc j..<length y + 1]"
  using assms(2)
proof (induction "length y - j" arbitrary: j)
  case (Suc n)
  then have "j < length y" by simp
  with Suc(1) [of "Suc j"] Suc(2) show ?case
    by (simp add: Cons_nth_drop_Suc [symmetric] upt_conv_Cons cell_step [OF assms(1)] Let_def del: upt_Suc)
qed simp

lemma next_row_cells:
  assumes "i < length x"
  shows "next_row y (Suc i, x ! i) (map (cell x y i) [0..<length y + 1]) = map (cell x y (Suc i)) [0..<length y + 1]"
  using scan_row_cells [OF assms, of 0 y] assms by (simp add: next_row_def upt_conv_Cons del: upt_Suc)

lemma rows_cells:
  "i \<le> length x \<Longrightarrow> fold (next_row y) (take i (List.enumerate 1 x)) [0..<length y + 1] = map (cell x y i) [0..<length y + 1]"
proof (induction i)
  case 0
  show ?case by (auto intro!: nth_equalityI simp: nth_append)
next
  case (Suc i)
  then have "take (Suc i) (List.enumerate 1 x) = take i (List.enumerate 1 x) @ [(Suc i, x ! i)]"
    by (simp add: take_Suc_conv_app_nth nth_enumerate_eq)
  with Suc next_row_cells [of i x y] show ?case by (simp del: upt_Suc)
qed

lemma similarity_distance:
  "heading_title_similarity rnd a b =
     (let x = normalized_title a; y = normalized_title b in
      if x = [] \<and> y = [] then 1 else if x = [] \<or> y = [] then 0
      else rnd (1 - rnd (of_nat (edit_distance x y) / of_nat (max (length x) (length y)))))"
  using rows_cells [of "length x" x y for x y]
  by (simp add: heading_title_similarity_def Let_def cell_def nth_append del: upt_Suc)

subsection \<open>The band\<close>

definition capped :: "string \<Rightarrow> string \<Rightarrow> nat \<Rightarrow> nat \<Rightarrow> nat \<Rightarrow> nat" where
  "capped x y limit i j = min (cell x y i j) (limit + 1)"

definition band_ok :: "string \<Rightarrow> string \<Rightarrow> nat \<Rightarrow> nat \<Rightarrow> nat list \<Rightarrow> bool" where
  "band_ok x y limit i row =
     (length row = length y + 1
      \<and> (\<forall>j\<le>length y. i \<le> j + limit \<and> j \<le> i + limit + 1 \<longrightarrow> row ! j = capped x y limit i j))"

lemma first_band:
  "band_ok x y limit 0 (fold (\<lambda>j row. row[j := j]) [0..<min (length y) limit + 1] (replicate (length y + 1) (limit + 1)))"
proof -
  have "length row = n \<Longrightarrow> k \<le> n \<Longrightarrow> length (fold (\<lambda>j row. row[j := j]) [0..<k] row) = n
      \<and> (\<forall>j<n. fold (\<lambda>j row. row[j := j]) [0..<k] row ! j = (if j < k then j else row ! j))" for k n row
    by (induction k) (auto simp: nth_list_update less_Suc_eq)
  from this [of "replicate (length y + 1) (limit + 1)" "length y + 1" "min (length y) limit + 1"]
  show ?thesis by (auto simp: band_ok_def capped_def min_def less_Suc_eq_le simp del: replicate_Suc)
qed

lemma band_cell_step:
  assumes "band_ok x y limit i previous" "i < length x" "Suc i \<le> j + limit" "j \<le> Suc i + limit" "0 < j" "j \<le> length y"
    and "length current = length y + 1" "current ! (j - 1) = capped x y limit (Suc i) (j - 1)"
  shows "band_cell y (x ! i) (limit + 1) previous j (current, least) =
     (current[j := capped x y limit (Suc i) j], min least (capped x y limit (Suc i) j))"
proof -
  obtain k where j: "j = Suc k" using assms(5) by (cases j) auto
  have "previous ! j = capped x y limit i j" "previous ! k = capped x y limit i k"
    using assms(1,3,4,6) by (simp_all add: band_ok_def j)
  moreover have "cell x y (Suc i) (Suc k) =
      min (min (cell x y i (Suc k) + 1) (cell x y (Suc i) k + 1)) (cell x y i k + edit_cost (x ! i) (y ! k))"
    using cell_step assms(2,6) by (simp add: j)
  ultimately have "min (min (min (previous ! j + 1) (current ! k + 1)) (previous ! k + edit_cost (x ! i) (y ! k))) (limit + 1)
      = capped x y limit (Suc i) j"
    using assms(8) by (simp add: capped_def j edit_cost_def min_def)
  then show ?thesis using assms(6,7) by (simp add: band_cell_def j)
qed

lemma band_cells:
  assumes prev: "band_ok x y limit i previous" "i < length x"
    and low: "0 < low" "Suc i \<le> low + limit" and start: "length current = length y + 1" "current ! (low - 1) = capped x y limit (Suc i) (low - 1)"
    and k: "low + k \<le> min (length y) (Suc i + limit) + 1"
  defines "state \<equiv> fold (band_cell y (x ! i) (limit + 1) previous) [low..<low + k] (current, current ! (low - 1))"
  shows "length (fst state) = length y + 1
     \<and> (\<forall>j. low - 1 \<le> j \<and> j < low + k \<longrightarrow> fst state ! j = capped x y limit (Suc i) j \<and> snd state \<le> capped x y limit (Suc i) j)"
  unfolding state_def using k
proof (induction k)
  case 0
  have "j = low - 1" if "low - 1 \<le> j" "j < low" for j using that by simp
  then show ?case using start by auto
next
  case (Suc k)
  define before where "before = fold (band_cell y (x ! i) (limit + 1) previous) [low..<low + k] (current, current ! (low - 1))"
  have IH: "length (fst before) = length y + 1"
      "\<And>j. low - 1 \<le> j \<Longrightarrow> j < low + k \<Longrightarrow> fst before ! j = capped x y limit (Suc i) j \<and> snd before \<le> capped x y limit (Suc i) j"
    using Suc unfolding before_def by auto
  have bounds: "Suc i \<le> low + k + limit" "low + k \<le> Suc i + limit" "0 < low + k" "low + k \<le> length y"
    using low Suc.prems by auto
  have "fst before ! (low + k - 1) = capped x y limit (Suc i) (low + k - 1)" using IH(2) [of "low + k - 1"] low by simp
  from band_cell_step [OF prev bounds IH(1) this, of "snd before"]
  have "fold (band_cell y (x ! i) (limit + 1) previous) [low..<low + Suc k] (current, current ! (low - 1)) =
      ((fst before)[low + k := capped x y limit (Suc i) (low + k)], min (snd before) (capped x y limit (Suc i) (low + k)))"
    unfolding before_def by simp
  moreover have "low + k < length (fst before)" using IH(1) bounds by simp
  ultimately show ?case using IH bounds by (auto simp: less_Suc_eq nth_list_update min.coboundedI1)
qed

lemma band_row_cells:
  assumes prev: "band_ok x y limit i previous" "i < length x" and len: "length x \<le> length y" "length current = length y + 1"
  shows "case band_row y (x ! i) limit (Suc i) previous current of (row, least) \<Rightarrow>
     band_ok x y limit (Suc i) row \<and> (least > limit \<longrightarrow> (\<forall>j\<le>length y. limit + 1 \<le> cell x y (Suc i) j))"
proof -
  define low where "low = band_low limit (Suc i)"
  define high where "high = band_high limit (length y) (Suc i)"
  define first where "first = (if low = 1 \<and> Suc i \<le> limit then Suc i else limit + 1)"
  define start where "start = current[low - 1 := first]"
  define state where "state = fold (band_cell y (x ! i) (limit + 1) previous) [low..<high + 1] (start, start ! (low - 1))"
  define row where "row = (if high < length y then (fst state)[high + 1 := limit + 1] else fst state)"
  have low: "0 < low" "Suc i \<le> low + limit" "low - 1 \<le> length y" "low \<le> high" "high \<le> length y" "high \<le> Suc i + limit"
    using prev(2) len by (auto simp: low_def high_def band_low_def band_high_def)
  have "first = capped x y limit (Suc i) (low - 1)"
    using cell_band [of "Suc i" x "low - 1" y] prev(2) low(3) by (auto simp: first_def capped_def low_def band_low_def min_def)
  then have start: "length start = length y + 1" "start ! (low - 1) = capped x y limit (Suc i) (low - 1)"
    using len low(3) by (simp_all add: start_def)
  obtain k where k: "high + 1 = low + k" using low(4) by (metis le_add_diff_inverse le_SucI Suc_eq_plus1)
  have cells: "length (fst state) = length y + 1"
      "\<And>j. low - 1 \<le> j \<Longrightarrow> j \<le> high \<Longrightarrow> fst state ! j = capped x y limit (Suc i) j \<and> snd state \<le> capped x y limit (Suc i) j"
    using band_cells [OF prev low(1,2) start, of k] low k unfolding state_def by (auto simp: k [symmetric] less_Suc_eq_le)
  have result: "band_row y (x ! i) limit (Suc i) previous current = (row, snd state)"
    unfolding band_row_def Let_def row_def state_def start_def first_def low_def high_def case_prod_beta fst_conv snd_conv by (rule refl)
  have high_edge: "j \<le> length y \<Longrightarrow> j \<le> Suc i + limit \<Longrightarrow> j \<le> high" for j by (simp add: high_def band_high_def)
  have in_band: "low - 1 \<le> j" if "Suc i \<le> j + limit" for j using that by (auto simp: low_def band_low_def)
  have "row ! j = capped x y limit (Suc i) j" if j: "j \<le> length y" "Suc i \<le> j + limit" "j \<le> Suc i + limit + 1" for j
  proof (cases "j \<le> high")
    case True
    then show ?thesis using cells(2) [OF in_band [OF j(2)]] cells(1) j(1) by (auto simp: row_def)
  next
    case False
    then have "\<not> j \<le> Suc i + limit" using j(1) high_edge by blast
    with j False have "high < length y" "j = Suc i + limit + 1" by linarith+
    moreover from this have "high + 1 = j" by (simp add: high_def band_high_def)
    moreover have "limit + 1 \<le> cell x y (Suc i) j" using cell_band [of "Suc i" x j y] prev(2) j(1) \<open>j = Suc i + limit + 1\<close> by simp
    ultimately show ?thesis using cells(1) by (auto simp: row_def capped_def)
  qed
  then have "band_ok x y limit (Suc i) row" using cells(1) by (simp add: band_ok_def row_def)
  moreover have "limit + 1 \<le> cell x y (Suc i) j" if "snd state > limit" "j \<le> length y" for j
  proof (cases "Suc i \<le> j + limit \<and> j \<le> Suc i + limit")
    case True
    with cells(2) [OF in_band high_edge] that have "limit < capped x y limit (Suc i) j" by fastforce
    then show ?thesis by (simp add: capped_def)
  next
    case False
    then show ?thesis using cell_band [of "Suc i" x j y] prev(2) that(2) by auto
  qed
  ultimately show ?thesis by (simp add: result)
qed

text \<open>The pairs of letters whose places differ by no more than the limit, row by row.\<close>

definition band_line :: "nat \<Rightarrow> nat \<Rightarrow> nat \<Rightarrow> nat set" where
  "band_line limit m i = {j. 1 \<le> j \<and> j \<le> m \<and> i \<le> j + limit \<and> j \<le> i + limit}"

definition band_pairs :: "nat \<Rightarrow> nat \<Rightarrow> nat \<Rightarrow> (nat \<times> nat) set" where
  "band_pairs limit n m = {(i, j). 1 \<le> i \<and> i \<le> n \<and> 1 \<le> j \<and> j \<le> m \<and> i \<le> j + limit \<and> j \<le> i + limit}"

lemma card_band_line:
  assumes "0 < i" "i \<le> m"
  shows "card (band_line limit m i) = band_high limit m i - band_low limit i + 1"
proof -
  have "band_line limit m i = {band_low limit i..band_high limit m i}"
    using assms by (auto simp: band_line_def band_low_def band_high_def)
  moreover have "band_low limit i \<le> band_high limit m i" using assms by (auto simp: band_low_def band_high_def)
  ultimately show ?thesis by simp
qed

lemma card_band_pairs: "card (band_pairs limit n m) = (\<Sum>i = 1..n. card (band_line limit m i))"
proof -
  have "band_pairs limit n m = (SIGMA i:{1..n}. band_line limit m i)" by (auto simp: band_pairs_def band_line_def)
  moreover have "finite (band_line limit m i)" for i by (rule finite_subset [of _ "{..m}"]) (auto simp: band_line_def)
  ultimately show ?thesis by (simp add: card_SigmaI)
qed

lemma card_band_pairs_sym: "card (band_pairs limit n m) = card (band_pairs limit m n)"
proof -
  have "band_pairs limit m n = prod.swap ` band_pairs limit n m" by (auto simp: band_pairs_def image_iff)
  then show ?thesis by (simp add: card_image)
qed

lemma band_rows_distance:
  assumes "band_ok x y limit i previous" "length current = length y + 1" "i \<le> length x" "length x \<le> length y" "length y - length x \<le> limit"
  shows "case band_rows y limit (drop i x) (Suc i) previous current cells of (distance, counted) \<Rightarrow>
     distance = min (edit_distance x y) (limit + 1)
     \<and> counted \<le> cells + (\<Sum>r = Suc i..length x. card (band_line limit (length y) r))
     \<and> (edit_distance x y \<le> limit \<longrightarrow> counted = cells + (\<Sum>r = Suc i..length x. card (band_line limit (length y) r)))"
  using assms
proof (induction "length x - i" arbitrary: i previous current cells)
  case 0
  then have "i = length x" by simp
  with 0 show ?case by (simp add: band_ok_def capped_def cell_def)
next
  case (Suc n)
  then have i: "i < length x" by simp
  define row where "row = band_row y (x ! i) limit (Suc i) previous current"
  define c where "c = cells + (band_high limit (length y) (Suc i) - band_low limit (Suc i) + 1)"
  have row: "band_ok x y limit (Suc i) (fst row)" "snd row > limit \<Longrightarrow> \<forall>j\<le>length y. limit + 1 \<le> cell x y (Suc i) j"
    using band_row_cells [OF Suc.prems(1) i Suc.prems(4,2)] by (simp_all add: row_def case_prod_beta)
  have step: "band_rows y limit (drop i x) (Suc i) previous current cells =
      (if snd row > limit then (limit + 1, c) else band_rows y limit (drop (Suc i) x) (Suc (Suc i)) (fst row) previous c)"
    by (simp add: Cons_nth_drop_Suc [OF i, symmetric] row_def c_def case_prod_beta)
  have "c = cells + card (band_line limit (length y) (Suc i))"
    unfolding c_def using i Suc.prems(4) by (subst card_band_line) simp_all
  then have c: "cells + (\<Sum>r = Suc i..length x. card (band_line limit (length y) r))
      = c + (\<Sum>r = Suc (Suc i)..length x. card (band_line limit (length y) r))"
    using i by (subst sum.atLeast_Suc_atMost) simp_all
  show ?case
  proof (cases "snd row > limit")
    case True
    then have "limit + 1 \<le> cell x y (Suc i + (length x - Suc i)) (length y)"
      using row(2) i by (intro row_minimum_grows) auto
    with True i show ?thesis unfolding step c by (simp add: cell_def)
  next
    case False
    have len: "length previous = length y + 1" using Suc.prems(1) by (simp add: band_ok_def)
    show ?thesis
      unfolding step c using False Suc.hyps(2) i Suc.prems(4,5)
      by (simp only: if_False, intro Suc.hyps(1) row(1) len) auto
  qed
qed

lemma bounded_edit_distance_banded:
  assumes len: "length x \<le> length y"
  shows "case bounded_edit_distance x y limit cells of
     (distance, counted) \<Rightarrow> distance = min (edit_distance x y) (limit + 1)
       \<and> counted \<le> cells + card (band_pairs limit (length x) (length y))
       \<and> (edit_distance x y \<le> limit \<longrightarrow> counted = cells + card (band_pairs limit (length x) (length y)))"
proof (cases "length y - length x > limit")
  case True
  then have "limit + 1 \<le> edit_distance x y" using last_edits_lower [of "rev y" "rev x"] by (simp add: edit_distance_def)
  with True len show ?thesis by (simp add: bounded_edit_distance_def)
next
  case False
  then show ?thesis
    using band_rows_distance [OF first_band, of "replicate (length y + 1) (limit + 1)" y x limit cells] len
    by (simp add: bounded_edit_distance_def Let_def card_band_pairs)
qed

lemma bounded_edit_distance_swapped:
  "length y < length x \<Longrightarrow> bounded_edit_distance x y limit cells = bounded_edit_distance y x limit cells"
  by (simp add: bounded_edit_distance_def)

lemma bounded_edit_distance_value: "fst (bounded_edit_distance x y limit cells) = min (edit_distance x y) (limit + 1)"
  using bounded_edit_distance_banded [of x y limit cells] bounded_edit_distance_banded [of y x limit cells]
    bounded_edit_distance_swapped [of y x limit cells]
  by (cases "length x \<le> length y") (auto simp: edit_distance_sym [of y x] case_prod_beta)

lemma bounded_edit_distance_cells: "snd (bounded_edit_distance x y limit cells) \<le> cells + length x * length y"
proof -
  have "band_pairs limit n m \<subseteq> {1..n} \<times> {1..m}" for n m by (auto simp: band_pairs_def)
  then have "card (band_pairs limit n m) \<le> n * m" for n m
    using card_mono [of "{1..n} \<times> {1..m}" "band_pairs limit n m"] by simp
  then have "snd (bounded_edit_distance x y limit cells) \<le> cells + length x * length y" if "length x \<le> length y" for x y
    using bounded_edit_distance_banded [OF that, of limit cells] by (auto simp: case_prod_beta intro: order_trans)
  from this [of x y] this [of y x] show ?thesis
    using bounded_edit_distance_swapped [of y x limit cells] by (cases "length x \<le> length y") (auto simp: mult.commute)
qed

text \<open>
  C33. The banded edit distance, which computes only a diagonal band over two rows it swaps and
  stops at the first row that leaves the limit, is the edit distance cut off just above the
  limit. Its count grows by at most the cells of the band, the pairs of letters whose places
  differ by no more than the limit, and by all of them when the distance is within the limit.
\<close>

theorem bounded_edit_distance_exact:
  "case bounded_edit_distance x y limit cells of
     (distance, counted) \<Rightarrow> distance = min (edit_distance x y) (limit + 1)
       \<and> counted \<le> cells + card (band_pairs limit (length x) (length y))
       \<and> (edit_distance x y \<le> limit \<longrightarrow> counted = cells + card (band_pairs limit (length x) (length y)))"
proof (cases "length x \<le> length y")
  case False
  then show ?thesis
    using bounded_edit_distance_banded [of y x limit cells] bounded_edit_distance_swapped [of y x limit cells]
    by (simp add: edit_distance_sym [of y x] card_band_pairs_sym [of limit "length y" "length x"])
qed (rule bounded_edit_distance_banded)

text \<open>A distance within the limit, found and counted.\<close>

theorem bounded_edit_distance_exact_witness:
  "bounded_edit_distance ''abc'' ''abd'' 1 5 = (1, 12)"
proof -
  have "edit_distance ''abc'' ''abd'' = 1" by code_simp
  moreover have "band_pairs 1 3 3 = {(1, 1), (1, 2), (2, 1), (2, 2), (2, 3), (3, 2), (3, 3)}"
    by (auto simp: band_pairs_def numeral_2_eq_2 numeral_3_eq_3 le_Suc_eq)
  ultimately show ?thesis using bounded_edit_distance_exact [of "''abc''" "''abd''" 1 5] by (auto simp: numeral_3_eq_3)
qed

end
