(* ===== verification/HeadingLevels.thy ===== *)
theory HeadingLevels
  imports TitleMatch Message "HOL-Library.AList"
begin

text \<open>
  The levels of the headings of a document (\<^verbatim>\<open>src/src/heading_hierarchy.cpp\<close>): the title lines,
  the depth by numbering, by size clusters and by the nearest numbered cluster, and the levels that
  the outline decides. \<open>rnd\<close> rounds an exact result to a \<^verbatim>\<open>double\<close>. Clustering is \<open>None\<close> where the
  code makes no progress: with a ratio above one a heading does not join the bucket it founds.
\<close>

record heading_header =
  header_ref :: string
  height_of :: rat
  font_size :: rat
  header_text :: string
  header_page :: int
  header_top :: rat
  header_bottom :: rat
  has_font_style :: bool
  is_bold :: bool
  is_italic :: bool

record heading_options =
  heading_collectors :: "string list"
  merges_title_lines :: bool
  use_numbering :: bool
  use_style :: bool
  max_level :: int
  style_size_tolerance :: rat
  numbering_schemes :: "numbering_scheme list"
  use_font_style :: bool
  use_bookmarks :: bool
  bookmark_match_threshold :: rat

definition default_headings :: "(rat \<Rightarrow> rat) \<Rightarrow> heading_options" where
  "default_headings rnd =
     \<lparr>heading_collectors = [''pdf''], merges_title_lines = True, use_numbering = True, use_style = True, max_level = 6,
      style_size_tolerance = rnd (3 / 20), numbering_schemes = [], use_font_style = True, use_bookmarks = True,
      bookmark_match_threshold = rnd (4 / 5)\<rparr>"

definition deeper_below :: "(rat \<Rightarrow> rat) \<Rightarrow> heading_options \<Rightarrow> rat" where
  "deeper_below rnd options = rnd (1 - style_size_tolerance options)"

definition kTitleLineHeightShare :: rat where "kTitleLineHeightShare = 7 / 10"
definition kMaximumLevel :: int where "kMaximumLevel = 6"

definition level_ceiling :: "heading_options \<Rightarrow> int" where
  "level_ceiling options = max 1 (min kMaximumLevel (max_level options))"

subsection \<open>Heights and styles\<close>

definition normalized_headers :: "heading_header list \<Rightarrow> heading_header list" where
  "normalized_headers headers =
     (if headers \<noteq> [] \<and> list_all (\<lambda>h. font_size h > 0) headers
      then map (\<lambda>h. h\<lparr>height_of := font_size h\<rparr>) headers else headers)"

definition median_of :: "rat list \<Rightarrow> rat" where
  "median_of values = (if values = [] then 0 else sort values ! (length values div 2))"

definition style_rank :: "heading_header \<Rightarrow> int" where
  "style_rank h =
     (let all_caps = list_ex c_isalpha (header_text h) \<and> \<not> list_ex c_islower (header_text h)
      in (if is_bold h then 4 else 0) + (if is_italic h then 0 else 2) + (if all_caps then 1 else 0))"

definition ranked :: "bool \<Rightarrow> heading_header \<Rightarrow> int" where
  "ranked font_styles h = (if font_styles \<and> has_font_style h then style_rank h else -1)"

subsection \<open>Clusters of heights\<close>

definition bucket_ranks :: "bool \<Rightarrow> heading_header list \<Rightarrow> int list" where
  "bucket_ranks font_styles bucket = remdups (filter (\<lambda>r. r \<ge> 0) (map (ranked font_styles) bucket))"

definition rank_offset :: "int list \<Rightarrow> int \<Rightarrow> int" where
  "rank_offset ranks r = (if r < 0 then 0 else int (length (filter (\<lambda>q. q > r) ranks)))"

function cluster_from ::
  "(rat \<Rightarrow> rat) \<Rightarrow> rat \<Rightarrow> bool \<Rightarrow> int \<Rightarrow> heading_header list \<Rightarrow> (string \<Rightarrow> int option) \<Rightarrow> (string \<Rightarrow> int option) option" where
  "cluster_from rnd deeper font_styles base by_height depths =
     (case by_height of
        [] \<Rightarrow> Some depths
      | founder # _ \<Rightarrow>
          let joins = (\<lambda>h. \<not> height_of h < rnd (deeper * height_of founder));
              bucket = takeWhile joins by_height;
              ranks = bucket_ranks font_styles bucket;
              depths = fold (\<lambda>h m. m(header_ref h \<mapsto> base + rank_offset ranks (ranked font_styles h))) bucket depths
          in if bucket = [] then None
             else cluster_from rnd deeper font_styles (base + max 1 (int (length ranks))) (dropWhile joins by_height) depths)"
  by pat_completeness auto

termination
proof (relation "measure (\<lambda>(rnd, deeper, font_styles, base, by_height, depths). length by_height)", goal_cases)
  case (2 rnd deeper font_styles base by_height depths founder rest joins bucket)
  then show ?case using length_dropWhile_le [of joins rest] by (auto split: if_splits simp: le_imp_less_Suc)
qed simp

declare cluster_from.simps [simp del]

definition cluster_by_height ::
  "(rat \<Rightarrow> rat) \<Rightarrow> rat \<Rightarrow> bool \<Rightarrow> heading_header list \<Rightarrow> (string \<Rightarrow> int option) \<Rightarrow> (string \<Rightarrow> int option) option" where
  "cluster_by_height rnd deeper font_styles headers depths =
     (let depths = fold (\<lambda>h m. if height_of h \<le> 0 then m(header_ref h \<mapsto> 1) else m) headers depths
      in cluster_from rnd deeper font_styles 1
           (sort_key (\<lambda>h. - height_of h) (filter (\<lambda>h. \<not> height_of h \<le> 0) headers)) depths)"

definition nearer :: "(rat \<Rightarrow> rat) \<Rightarrow> rat \<Rightarrow> int \<times> rat \<Rightarrow> int \<times> rat option \<Rightarrow> int \<times> rat option" where
  "nearer rnd height entry best =
     (let distance = \<bar>rnd (snd entry - height)\<bar> in
      case snd best of
        None \<Rightarrow> (fst entry, Some distance)
      | Some b \<Rightarrow> if distance < b then (fst entry, Some distance) else best)"

text \<open>A ratio of zero divides to infinity, which no height passes.\<close>

definition depth_by_nearest_cluster :: "(rat \<Rightarrow> rat) \<Rightarrow> rat \<Rightarrow> (int \<times> rat) list \<Rightarrow> rat \<Rightarrow> int" where
  "depth_by_nearest_cluster rnd height medians deeper =
     (if height \<le> 0 then 1
      else if deeper \<noteq> 0 \<and> height > rnd (snd (hd medians) / deeper) then 1
      else if height < rnd (snd (last medians) * deeper) then fst (last medians) + 1
      else fst (fold (nearer rnd height) medians (fst (hd medians), None)))"

subsection \<open>The title\<close>

definition is_numbered :: "heading_options \<Rightarrow> heading_header \<Rightarrow> bool" where
  "is_numbered options h =
     (if numbering_schemes options = [] then heading_numbering_depth (header_text h) \<noteq> None
      else heading_scheme_depth (numbering_schemes options) (header_text h) \<noteq> None)"

definition same_block :: "(rat \<Rightarrow> rat) \<Rightarrow> heading_header \<Rightarrow> heading_header \<Rightarrow> bool" where
  "same_block rnd previous h =
     (let gap = rnd (header_top h - header_bottom previous);
          smaller = min (height_of previous) (height_of h); larger = max (height_of previous) (height_of h)
      in \<not> (gap > larger \<or> smaller < rnd (rnd kTitleLineHeightShare * larger)))"

fun title_block :: "(rat \<Rightarrow> rat) \<Rightarrow> heading_options \<Rightarrow> heading_header list \<Rightarrow> heading_header list \<Rightarrow> heading_header list" where
  "title_block rnd options block [] = block"
| "title_block rnd options block (h # hs) =
     (if use_numbering options \<and> is_numbered options h \<or> height_of h \<le> 0 then block
      else if block \<noteq> [] \<and> \<not> same_block rnd (last block) h then block
      else title_block rnd options (block @ [h]) hs)"

definition first_header_page :: "heading_header list \<Rightarrow> int" where
  "first_header_page headers =
     fold (\<lambda>h page. if header_page h > 0 \<and> (page = 0 \<or> header_page h < page) then header_page h else page) headers 0"

definition title_lines :: "(rat \<Rightarrow> rat) \<Rightarrow> heading_options \<Rightarrow> heading_header list \<Rightarrow> string list" where
  "title_lines rnd options input =
     (if \<not> use_style options then []
      else
        let headers = normalized_headers input; page = first_header_page headers in
        if page = 0 then []
        else
          let block = title_block rnd options [] (sort_key header_top (filter (\<lambda>h. header_page h = page) headers)) in
          if block = [] \<or> length block = length headers then []
          else
            let tallest = fold (\<lambda>h t. max t (height_of h)) block 0;
                others = filter (\<lambda>h. header_ref h \<notin> header_ref ` set block \<and> \<not> height_of h \<le> 0) headers
            in if others = [] \<or> list_ex (\<lambda>h. height_of h \<ge> rnd (deeper_below rnd options * tallest)) others then []
               else map header_ref block)"

subsection \<open>The levels\<close>

definition stated_depth :: "heading_options \<Rightarrow> heading_header \<Rightarrow> int option" where
  "stated_depth options h =
     (if use_numbering options \<and> numbering_schemes options \<noteq> [] then
        map_option int (heading_scheme_depth (numbering_schemes options) (header_text h))
      else if use_numbering options then
        (case heading_numbering_depth (header_text h) of
           Some n \<Rightarrow> Some (int n)
         | None \<Rightarrow> if is_section_word_heading (header_text h) then Some 1 else None)
      else None)"

text \<open>The median height of each depth that a heading states and has a height for, by depth.\<close>

definition cluster_medians :: "heading_options \<Rightarrow> heading_header list \<Rightarrow> (int \<times> rat) list" where
  "cluster_medians options headers =
     (let stated = List.map_filter (\<lambda>h. case stated_depth options h of
                     None \<Rightarrow> None | Some n \<Rightarrow> if height_of h > 0 then Some (n, height_of h) else None) headers
      in map (\<lambda>n. (n, median_of (map snd (filter (\<lambda>e. fst e = n) stated)))) (sort (remdups (map fst stated))))"

definition heading_depths ::
  "(rat \<Rightarrow> rat) \<Rightarrow> heading_options \<Rightarrow> heading_header list \<Rightarrow> (string \<Rightarrow> int option) option" where
  "heading_depths rnd options headers =
     (let depths = fold (\<lambda>h m. case stated_depth options h of None \<Rightarrow> m | Some n \<Rightarrow> m(header_ref h \<mapsto> n)) headers (\<lambda>_. None);
          unnumbered = filter (\<lambda>h. stated_depth options h = None) headers;
          medians = cluster_medians options headers
      in if \<not> use_style options then Some (fold (\<lambda>h m. m(header_ref h \<mapsto> 1)) unnumbered depths)
         else if medians = [] then
           cluster_by_height rnd (deeper_below rnd options) (use_font_style options) unnumbered depths
         else Some (fold (\<lambda>h m. m(header_ref h \<mapsto>
                depth_by_nearest_cluster rnd (height_of h) medians (deeper_below rnd options))) unnumbered depths))"

definition infer_heading_levels ::
  "(rat \<Rightarrow> rat) \<Rightarrow> heading_options \<Rightarrow> heading_header list \<Rightarrow> (string \<Rightarrow> int option) option" where
  "infer_heading_levels rnd options input =
     (let headers = normalized_headers input; title = set (title_lines rnd options headers) in
      case heading_depths rnd options (filter (\<lambda>h. header_ref h \<notin> title) headers) of
        None \<Rightarrow> None
      | Some depths \<Rightarrow>
          Some (fold (\<lambda>h m.
                  if header_ref h \<in> title then m(header_ref h \<mapsto> 1)
                  else m(header_ref h \<mapsto> min (level_ceiling options)
                         (max (case depths (header_ref h) of None \<Rightarrow> 0 | Some n \<Rightarrow> n) 1))) headers (\<lambda>_. None)))"

subsection \<open>Levels from the outline\<close>

definition kBookmarkEditCellBudget :: nat where "kBookmarkEditCellBudget = 128000000"

definition page_compatible :: "msg \<Rightarrow> heading_header \<Rightarrow> bool" where
  "page_compatible entry h =
     (\<not> (get_num ''page_no'' entry > 0 \<and> header_page h > 0 \<and> get_num ''page_no'' entry \<noteq> header_page h))"

definition outline_title :: "msg \<Rightarrow> string" where
  "outline_title entry = normalized_title (get_string ''title'' entry)"

definition exact_entry :: "msg list \<Rightarrow> heading_header \<Rightarrow> msg option" where
  "exact_entry outline h =
     List.find (\<lambda>entry. get_num ''level'' entry > 0 \<and> outline_title entry = normalized_title (header_text h)
                        \<and> page_compatible entry h) outline"

text \<open>The best similarity so far, its level, and the cells spent.\<close>

type_synonym best_match = "rat \<times> int \<times> nat"

definition match_limit :: "(rat \<Rightarrow> rat) \<Rightarrow> rat \<Rightarrow> nat \<Rightarrow> nat" where
  "match_limit rnd floor_similarity longer =
     nat \<lfloor>rnd (rnd (rnd (1 - floor_similarity) * of_nat longer) + rnd (1 / 10 ^ 9))\<rfloor>"

text \<open>
  One entry: \<open>None\<close> for a \<^verbatim>\<open>continue\<close> (with the cells it spent), \<open>Some\<close> for a similarity to compare. Only a
  compared entry reaches the check of the budget.
\<close>

definition entry_similarity ::
  "(rat \<Rightarrow> rat) \<Rightarrow> heading_options \<Rightarrow> string \<Rightarrow> string \<Rightarrow> best_match \<Rightarrow> rat option \<times> nat" where
  "entry_similarity rnd options s title st =
     (let (best, _, cells) = st in
      if s = [] \<or> title = [] then (Some (if s = [] \<and> title = [] then 1 else 0), cells)
      else
        let longer = max (length s) (length title);
            floor_similarity = max (bookmark_match_threshold options) best
        in if floor_similarity > 1 then (None, cells)
           else
             let limit = match_limit rnd floor_similarity longer;
                 (distance, cells) = bounded_edit_distance s title limit cells
             in if distance > limit then (None, cells)
                else (Some (rnd (1 - rnd (of_nat distance / of_nat longer))), cells))"

fun fuzzy_match ::
  "(rat \<Rightarrow> rat) \<Rightarrow> heading_options \<Rightarrow> heading_header \<Rightarrow> msg list \<Rightarrow> best_match \<Rightarrow> best_match" where
  "fuzzy_match rnd options h [] st = st"
| "fuzzy_match rnd options h (entry # entries) st =
     (if get_num ''level'' entry \<le> 0 \<or> \<not> page_compatible entry h then fuzzy_match rnd options h entries st
      else
        let (best, best_level, _) = st;
            (similarity, cells) = entry_similarity rnd options (normalized_title (header_text h)) (outline_title entry) st
        in case similarity of
             None \<Rightarrow> fuzzy_match rnd options h entries (best, best_level, cells)
           | Some v \<Rightarrow>
               let (best, best_level) = (if v > best then (v, get_num ''level'' entry) else (best, best_level))
               in if cells > kBookmarkEditCellBudget then (best, best_level, cells)
                  else fuzzy_match rnd options h entries (best, best_level, cells))"

definition match_header ::
  "(rat \<Rightarrow> rat) \<Rightarrow> heading_options \<Rightarrow> msg list \<Rightarrow> heading_header \<Rightarrow> nat \<Rightarrow> best_match" where
  "match_header rnd options outline h cells =
     (let start = (case exact_entry outline h of None \<Rightarrow> (-1, 0, cells) | Some entry \<Rightarrow> (1, get_num ''level'' entry, cells))
      in if fst start < 1 \<and> cells \<le> kBookmarkEditCellBudget then fuzzy_match rnd options h outline start else start)"

definition bookmark_step ::
  "(rat \<Rightarrow> rat) \<Rightarrow> heading_options \<Rightarrow> msg list \<Rightarrow> heading_header \<Rightarrow> (string \<times> int) list \<times> nat \<Rightarrow> (string \<times> int) list \<times> nat" where
  "bookmark_step rnd options outline h state =
     (let (levels, cells) = state; (best, best_level, cells) = match_header rnd options outline h cells
      in if best \<ge> bookmark_match_threshold options \<and> best_level > 0
         then (AList.update (header_ref h) (min (level_ceiling options) best_level) levels, cells)
         else (levels, cells))"

definition bookmark_levels ::
  "(rat \<Rightarrow> rat) \<Rightarrow> heading_options \<Rightarrow> msg list \<Rightarrow> heading_header list \<Rightarrow> (string \<times> int) list" where
  "bookmark_levels rnd options outline headers =
     (if \<not> use_bookmarks options \<or> outline = [] then []
      else fst (fold (bookmark_step rnd options outline) headers ([], 0)))"

subsection \<open>The outline is matched by the most similar title\<close>

lemma last_edits_zero: "last_edits xs ys = 0 \<longleftrightarrow> xs = ys"
  by (induction xs ys rule: last_edits.induct) (auto simp: edit_cost_def min_def split: if_splits)

lemma edit_distance_zero: "edit_distance x y = 0 \<longleftrightarrow> x = y"
  by (simp add: edit_distance_def last_edits_zero)

lemma edit_distance_bound: "edit_distance x y \<le> max (length x) (length y)"
  using last_edits_upper [of "rev x" "rev y"] by (simp add: edit_distance_def)

definition entry_title_similarity :: "heading_header \<Rightarrow> msg \<Rightarrow> rat" where
  "entry_title_similarity h entry = heading_title_similarity (\<lambda>x. x) (header_text h) (get_string ''title'' entry)"

definition eligible_entry :: "heading_header \<Rightarrow> msg \<Rightarrow> bool" where
  "eligible_entry h entry = (get_num ''level'' entry > 0 \<and> page_compatible entry h)"

text \<open>The first of the most similar entries, over whole rows.\<close>

definition most_similar :: "heading_header \<Rightarrow> msg list \<Rightarrow> rat \<times> int \<Rightarrow> rat \<times> int" where
  "most_similar h outline start =
     fold (\<lambda>entry best. if entry_title_similarity h entry > fst best
                        then (entry_title_similarity h entry, get_num ''level'' entry) else best)
       (filter (eligible_entry h) outline) start"

definition outline_level :: "heading_options \<Rightarrow> msg list \<Rightarrow> heading_header \<Rightarrow> int option" where
  "outline_level options outline h =
     (let (best, level) = most_similar h outline (-1, 0)
      in if best \<ge> bookmark_match_threshold options \<and> level > 0 then Some (min (level_ceiling options) level) else None)"

lemma most_similar_simps [simp]:
  "most_similar h [] st = st"
  "most_similar h (e # es) st =
     most_similar h es (if eligible_entry h e \<and> entry_title_similarity h e > fst st
                        then (entry_title_similarity h e, get_num ''level'' e) else st)"
  by (simp_all add: most_similar_def)

lemma similarity_bounds: "0 \<le> entry_title_similarity h e" "entry_title_similarity h e \<le> 1"
  "entry_title_similarity h e = 1 \<longleftrightarrow> outline_title e = normalized_title (header_text h)"
proof -
  define x where "x = normalized_title (header_text h)"
  define y where "y = outline_title e"
  have s: "entry_title_similarity h e = (if x = [] \<and> y = [] then 1 else if x = [] \<or> y = [] then 0
      else 1 - of_nat (edit_distance x y) / of_nat (max (length x) (length y)))"
    by (simp add: entry_title_similarity_def similarity_distance x_def y_def outline_title_def Let_def)
  have "of_nat (edit_distance x y) \<le> (of_nat (max (length x) (length y)) :: rat)"
    using edit_distance_bound [of x y] by (simp only: of_nat_le_iff)
  then show "0 \<le> entry_title_similarity h e" "entry_title_similarity h e \<le> 1"
    by (auto simp: s divide_le_eq_1 less_max_iff_disj simp del: of_nat_max)
  show "entry_title_similarity h e = 1 \<longleftrightarrow> outline_title e = normalized_title (header_text h)"
    unfolding x_def [symmetric] y_def [symmetric] s
    using edit_distance_zero [of x y] by (cases "x = []"; cases "y = []") (auto simp del: of_nat_max simp: max_def split: if_splits)
qed

definition eq_or_below :: "rat \<Rightarrow> rat \<times> int \<Rightarrow> rat \<times> int \<Rightarrow> bool" where
  "eq_or_below threshold a b = (a = b \<or> fst a < threshold \<and> fst b < threshold)"

lemma entry_similarity_exact:
  fixes options :: heading_options
  assumes "entry_similarity (\<lambda>x. x) options (normalized_title (header_text h)) (outline_title e) (best, level, cells) = (found, spent)"
  shows "spent \<le> cells + length (normalized_title (header_text h)) * length (outline_title e)"
    and "found = None \<or> found = Some (entry_title_similarity h e)"
    and "found = None \<Longrightarrow> entry_title_similarity h e < bookmark_match_threshold options \<or> entry_title_similarity h e \<le> best"
proof -
  define s where "s = normalized_title (header_text h)"
  define t where "t = outline_title e"
  define longer where "longer = max (length s) (length t)"
  define fs where "fs = max (bookmark_match_threshold options) best"
  define limit where "limit = match_limit (\<lambda>x. x) fs longer"
  obtain d c where dc: "bounded_edit_distance s t limit cells = (d, c)" by (cases "bounded_edit_distance s t limit cells")
  have sim: "entry_title_similarity h e = (if s = [] \<and> t = [] then 1 else if s = [] \<or> t = [] then 0
      else 1 - of_nat (edit_distance s t) / of_nat longer)"
    by (simp add: entry_title_similarity_def similarity_distance s_def t_def longer_def outline_title_def Let_def)
  have d: "d = min (edit_distance s t) (limit + 1)" "c \<le> cells + length s * length t"
    using bounded_edit_distance_value [of s t limit cells] bounded_edit_distance_cells [of s t limit cells] by (simp_all add: dc)
  have result: "(found, spent) =
      (if s = [] \<or> t = [] then (Some (if s = [] \<and> t = [] then 1 else 0), cells)
       else if fs > 1 then (None, cells)
       else if d > limit then (None, c) else (Some (1 - of_nat d / of_nat longer), c))"
    using assms unfolding entry_similarity_def s_def [symmetric] t_def [symmetric] prod.case Let_def longer_def [symmetric]
      fs_def [symmetric] limit_def [symmetric] dc by (rule sym)
  show "spent \<le> cells + length s * length t" using result d by (auto split: if_splits)
  show "found = None \<or> found = Some (entry_title_similarity h e)"
    using result d by (auto simp: sim split: if_splits)
  assume none: "found = None"
  then have words: "s \<noteq> []" "t \<noteq> []" and cut: "fs > 1 \<or> d > limit" using result by (auto split: if_splits)
  have "entry_title_similarity h e < fs \<or> entry_title_similarity h e \<le> best"
  proof (cases "fs > 1")
    case True
    then show ?thesis using similarity_bounds(2) [of h e] by linarith
  next
    case False
    then have "limit + 1 \<le> edit_distance s t" using cut d by auto
    then have "of_nat (limit + 1) \<le> (of_nat (edit_distance s t) :: rat)" by (simp only: of_nat_le_iff)
    moreover have "(1 - fs) * of_nat longer < of_nat (limit + 1)"
    proof -
      have "of_int \<lfloor>(1 - fs) * of_nat longer + 1 / 10 ^ 9\<rfloor> \<le> (of_int (int limit) :: rat)"
        unfolding of_int_le_iff limit_def match_limit_def by simp
      moreover have "(1 - fs) * of_nat longer + 1 / 10 ^ 9 < of_int \<lfloor>(1 - fs) * of_nat longer + 1 / 10 ^ 9\<rfloor> + 1"
        by (rule floor_less_iff [THEN iffD1, of _ "_ + 1", simplified]) simp
      ultimately show ?thesis by simp
    qed
    ultimately have "(1 - fs) * of_nat longer < of_nat (edit_distance s t)" by linarith
    moreover have "0 < longer" using words by (simp add: longer_def less_max_iff_disj)
    ultimately have "1 - fs < of_nat (edit_distance s t) / of_nat longer" by (simp add: less_divide_eq)
    then show ?thesis using words by (simp add: sim)
  qed
  then show "entry_title_similarity h e < bookmark_match_threshold options \<or> entry_title_similarity h e \<le> best"
    by (auto simp: fs_def)
qed

definition outline_cells :: "msg list \<Rightarrow> heading_header \<Rightarrow> nat" where
  "outline_cells outline h = sum_list (map (\<lambda>e. length (normalized_title (header_text h)) * length (outline_title e)) outline)"

text \<open>A scan within the budget ends where the reference does, or both end below the threshold.\<close>

lemma fuzzy_match_reference:
  assumes "cells + outline_cells outline h \<le> kBookmarkEditCellBudget"
    and "eq_or_below (bookmark_match_threshold options) (best, level) reference"
  shows "case fuzzy_match (\<lambda>x. x) options h outline (best, level, cells) of (best', level', cells') \<Rightarrow>
     eq_or_below (bookmark_match_threshold options) (best', level') (most_similar h outline reference)
     \<and> cells' \<le> cells + outline_cells outline h"
  using assms
proof (induction outline arbitrary: best level cells reference)
  case (Cons e outline)
  obtain found spent where step: "entry_similarity (\<lambda>x. x) options (normalized_title (header_text h)) (outline_title e) (best, level, cells) = (found, spent)"
    by (cases "entry_similarity (\<lambda>x. x) options (normalized_title (header_text h)) (outline_title e) (best, level, cells)")
  note entry = entry_similarity_exact [OF step]
  have budget: "spent + outline_cells outline h \<le> cells + outline_cells (e # outline) h" "spent \<le> kBookmarkEditCellBudget"
      "cells + outline_cells outline h \<le> cells + outline_cells (e # outline) h"
    using entry(1) Cons.prems(1) by (simp_all add: outline_cells_def)
  have unfolded_step: "fuzzy_match (\<lambda>x. x) options h (e # outline) (best, level, cells) =
      (if \<not> eligible_entry h e then fuzzy_match (\<lambda>x. x) options h outline (best, level, cells)
       else case found of
              None \<Rightarrow> fuzzy_match (\<lambda>x. x) options h outline (best, level, spent)
            | Some v \<Rightarrow> (if v > best then fuzzy_match (\<lambda>x. x) options h outline (v, get_num ''level'' e, spent)
                         else fuzzy_match (\<lambda>x. x) options h outline (best, level, spent)))"
    using step budget(2) by (auto simp: eligible_entry_def Let_def split: option.split)
  define st where "st = (if \<not> eligible_entry h e then (best, level, cells)
      else case found of None \<Rightarrow> (best, level, spent)
        | Some v \<Rightarrow> if v > best then (v, get_num ''level'' e, spent) else (best, level, spent))"
  define reference' where "reference' = (if eligible_entry h e \<and> entry_title_similarity h e > fst reference
      then (entry_title_similarity h e, get_num ''level'' e) else reference)"
  have next_st: "fuzzy_match (\<lambda>x. x) options h (e # outline) (best, level, cells) = fuzzy_match (\<lambda>x. x) options h outline st"
    unfolding unfolded_step st_def by (auto split: option.split)
  obtain b l c where bl: "st = (b, l, c)" by (cases st)
  have c: "c + outline_cells outline h \<le> cells + outline_cells (e # outline) h"
    using bl budget by (auto simp: st_def split: if_splits option.splits)
  have related: "eq_or_below (bookmark_match_threshold options) (b, l) reference'"
    using bl Cons.prems(2) entry(2,3)
    by (cases found) (auto simp: st_def reference'_def eq_or_below_def split: if_splits)
  have "c + outline_cells outline h \<le> kBookmarkEditCellBudget" using c Cons.prems(1) by linarith
  from Cons.IH [OF this related] c show ?case
    unfolding next_st bl by (auto simp: reference'_def [symmetric])
qed (simp add: outline_cells_def)

lemma most_similar_stays: "fst st \<ge> 1 \<Longrightarrow> most_similar h es st = st"
proof (induction es)
  case (Cons e es)
  then show ?case using similarity_bounds(2) [of h e] by auto
qed simp

lemma most_similar_exact:
  "fst st < 1 \<Longrightarrow> exact_entry outline h = Some e \<Longrightarrow> most_similar h outline st = (1, get_num ''level'' e)"
proof (induction outline arbitrary: st)
  case (Cons a outline)
  have "exact_entry (a # outline) h = (if eligible_entry h a \<and> entry_title_similarity h a = 1 then Some a else exact_entry outline h)"
    by (auto simp: exact_entry_def eligible_entry_def similarity_bounds(3))
  moreover have "entry_title_similarity h a = 1 \<or> entry_title_similarity h a < 1"
    using similarity_bounds(2) [of h a] by linarith
  ultimately show ?case using Cons most_similar_stays [of "(1, get_num ''level'' a)"] by (auto split: if_splits)
qed (simp add: exact_entry_def)

lemma match_header_reference:
  assumes "cells + outline_cells outline h \<le> kBookmarkEditCellBudget"
  shows "case match_header (\<lambda>x. x) options outline h cells of (best, level, cells') \<Rightarrow>
     eq_or_below (bookmark_match_threshold options) (best, level) (most_similar h outline (-1, 0))
     \<and> cells' \<le> cells + outline_cells outline h"
proof (cases "exact_entry outline h")
  case None
  then have "match_header (\<lambda>x. x) options outline h cells = fuzzy_match (\<lambda>x. x) options h outline (-1, 0, cells)"
    using assms by (simp add: match_header_def)
  with fuzzy_match_reference [OF assms, of options "-1" 0 "(-1, 0)"] show ?thesis by (simp add: eq_or_below_def)
next
  case (Some e)
  then show ?thesis
    using most_similar_exact [of "(-1, 0)" outline h e] by (simp add: match_header_def eq_or_below_def)
qed

text \<open>
  C34. While the matching of the outline stays within its budget of cells, the levels it decides are
  those of the plain specification: each heading takes the level of the first most similar
  page-compatible entry of the outline, by edit distance over whole rows, when that similarity
  reaches the threshold. The exact titles it looks up, the distances it cuts off and the limit
  it passes on change nothing (in exact arithmetic).
\<close>

theorem bookmarks_by_similarity:
  assumes "sum_list (map (outline_cells outline) headers) \<le> kBookmarkEditCellBudget" "use_bookmarks options"
  shows "bookmark_levels (\<lambda>x. x) options outline headers =
     fold (\<lambda>h levels. case outline_level options outline h of
             None \<Rightarrow> levels | Some l \<Rightarrow> AList.update (header_ref h) l levels) headers []"
proof -
  define step where "step = (\<lambda>h levels. case outline_level options outline h of
      None \<Rightarrow> levels | Some l \<Rightarrow> AList.update (header_ref h) l levels)"
  have one: "case bookmark_step (\<lambda>x. x) options outline h (levels, cells) of
        (levels', cells') \<Rightarrow> levels' = step h levels \<and> cells' \<le> cells + outline_cells outline h"
    if "cells + outline_cells outline h \<le> kBookmarkEditCellBudget" for h levels cells
  proof -
    obtain best level cells' where m: "match_header (\<lambda>x. x) options outline h cells = (best, level, cells')"
      by (cases "match_header (\<lambda>x. x) options outline h cells")
    obtain best' level' where r: "most_similar h outline (-1, 0) = (best', level')" by (cases "most_similar h outline (-1, 0)")
    show ?thesis
      using match_header_reference [OF that, of options]
      by (auto simp: bookmark_step_def step_def outline_level_def eq_or_below_def m r)
  qed
  have "fst (fold (bookmark_step (\<lambda>x. x) options outline) headers (levels, cells)) = fold step headers levels"
    if "cells + sum_list (map (outline_cells outline) headers) \<le> kBookmarkEditCellBudget" for levels cells
    using that
  proof (induction headers arbitrary: levels cells)
    case (Cons h headers)
    obtain levels' cells' where st: "bookmark_step (\<lambda>x. x) options outline h (levels, cells) = (levels', cells')"
      by (cases "bookmark_step (\<lambda>x. x) options outline h (levels, cells)")
    have "levels' = step h levels \<and> cells' \<le> cells + outline_cells outline h"
      using one [of cells h levels] Cons.prems by (simp add: st)
    with Cons.IH [of cells' levels'] Cons.prems show ?case by (simp add: st)
  qed simp
  moreover have "fold step headers [] = []" if "outline = []"
    using that by (induction headers) (simp_all add: step_def outline_level_def)
  ultimately show ?thesis using assms by (simp add: bookmark_levels_def step_def [symmetric])
qed

subsection \<open>Every heading gets a level\<close>

lemma dom_fold_upd: "dom (fold (\<lambda>h m. m(f h \<mapsto> g h)) hs m) = f ` set hs \<union> dom m"
  by (induction hs arbitrary: m) auto

lemma fold_upd_other: "r \<notin> f ` set hs \<Longrightarrow> fold (\<lambda>h m. m(f h \<mapsto> g h)) hs m r = m r"
  by (induction hs arbitrary: m) auto

lemma fold_upd_at: "distinct (map f hs) \<Longrightarrow> h \<in> set hs \<Longrightarrow> fold (\<lambda>h m. m(f h \<mapsto> g h)) hs m (f h) = Some (g h)"
proof (induction hs arbitrary: m)
  case (Cons a hs)
  then show ?case by (cases "h = a") (auto simp: fold_upd_other image_iff fun_upd_same simp del: fun_upd_apply)
qed simp

lemma fold_upd_filter: "fold (\<lambda>h m. if P h then m(f h \<mapsto> g h) else m) hs m = fold (\<lambda>h m. m(f h \<mapsto> g h)) (filter P hs) m"
  by (induction hs arbitrary: m) auto

lemma fold_upd_map_filter:
  "fold (\<lambda>h m. case p h of None \<Rightarrow> m | Some n \<Rightarrow> m(f h \<mapsto> n)) hs m
     = fold (\<lambda>h m. m(f h \<mapsto> the (p h))) (filter (\<lambda>h. p h \<noteq> None) hs) m"
  by (induction hs arbitrary: m) (auto split: option.split)

lemma cluster_from_Nil [simp]: "cluster_from rnd deeper fs base [] depths = Some depths"
  by (simp add: cluster_from.simps)

lemma cluster_from_Cons:
  fixes deeper :: rat and h :: heading_header and hs :: "heading_header list"
  assumes "rnd (deeper * height_of h) \<le> height_of h"
  defines "joins \<equiv> \<lambda>k. \<not> height_of k < rnd (deeper * height_of h)"
  defines "bucket \<equiv> h # takeWhile joins hs"
  shows "cluster_from rnd deeper fs base (h # hs) depths =
     cluster_from rnd deeper fs (base + max 1 (int (length (bucket_ranks fs bucket)))) (dropWhile joins hs)
       (fold (\<lambda>k m. m(header_ref k \<mapsto> base + rank_offset (bucket_ranks fs bucket) (ranked fs k))) bucket depths)"
  using assms(1) by (simp add: cluster_from.simps [of _ _ _ _ "h # hs"] Let_def joins_def bucket_def)

lemma cluster_from_dom:
  fixes deeper :: rat
  assumes "\<And>x. 0 < x \<Longrightarrow> rnd (deeper * x) \<le> x" "list_all (\<lambda>h. height_of h > 0) hs"
  shows "\<exists>m. cluster_from rnd deeper fs base hs depths = Some m \<and> dom m = header_ref ` set hs \<union> dom depths
     \<and> (\<forall>r. r \<notin> header_ref ` set hs \<longrightarrow> m r = depths r)"
  using assms(2)
proof (induction "length hs" arbitrary: hs base depths rule: less_induct)
  case less
  show ?case
  proof (cases hs)
    case (Cons h tail)
    define joins where "joins = (\<lambda>k :: heading_header. \<not> height_of k < rnd (deeper * height_of h))"
    define bucket where "bucket = h # takeWhile joins tail"
    define ranks where "ranks = bucket_ranks fs bucket"
    define next_depths where "next_depths = fold (\<lambda>k m. m(header_ref k \<mapsto> base + rank_offset ranks (ranked fs k))) bucket depths"
    have "list_all (\<lambda>h. height_of h > 0) (dropWhile joins tail)" "length (dropWhile joins tail) < length hs"
      using less.prems length_dropWhile_le [of joins tail] set_dropWhileD [of _ joins tail]
      by (auto simp: Cons list_all_iff less_Suc_eq_le)
    from less.hyps [OF this(2,1), of "base + max 1 (int (length ranks))" next_depths]
    obtain m where m: "cluster_from rnd deeper fs (base + max 1 (int (length ranks))) (dropWhile joins tail) next_depths = Some m"
        "dom m = header_ref ` set (dropWhile joins tail) \<union> dom next_depths"
        "\<And>r. r \<notin> header_ref ` set (dropWhile joins tail) \<Longrightarrow> m r = next_depths r" by blast
    have "rnd (deeper * height_of h) \<le> height_of h" using assms(1) less.prems by (simp add: Cons)
    from cluster_from_Cons [of rnd deeper h fs base tail depths, OF this]
    have "cluster_from rnd deeper fs base hs depths = Some m"
      using m(1) unfolding Cons joins_def bucket_def ranks_def next_depths_def by simp
    moreover have parts: "set hs = set bucket \<union> set (dropWhile joins tail)"
      unfolding Cons bucket_def by simp (metis set_append takeWhile_dropWhile_id)
    moreover have "dom m = header_ref ` set hs \<union> dom depths"
      unfolding m(2) next_depths_def dom_fold_upd parts by blast
    moreover have "m r = depths r" if "r \<notin> header_ref ` set hs" for r
    proof -
      have "r \<notin> header_ref ` set (dropWhile joins tail)" "r \<notin> header_ref ` set bucket" using that unfolding parts by blast+
      then show ?thesis using m(3) fold_upd_other [of r header_ref bucket] by (simp add: next_depths_def)
    qed
    ultimately show ?thesis by blast
  qed auto
qed

lemma cluster_by_height_dom:
  fixes deeper :: rat
  assumes "\<And>x. 0 < x \<Longrightarrow> rnd (deeper * x) \<le> x"
  shows "\<exists>m. cluster_by_height rnd deeper fs hs depths = Some m \<and> dom m = header_ref ` set hs \<union> dom depths
     \<and> (\<forall>r. r \<notin> header_ref ` set hs \<longrightarrow> m r = depths r)"
proof -
  define flat where "flat = fold (\<lambda>h m. if height_of h \<le> 0 then m(header_ref h \<mapsto> 1) else m) hs depths"
  define tall where "tall = sort_key (\<lambda>h. - height_of h) (filter (\<lambda>h. \<not> height_of h \<le> 0) hs)"
  have "list_all (\<lambda>h. height_of h > 0) tall" by (auto simp: tall_def list_all_iff)
  from cluster_from_dom [of rnd deeper, OF assms this, of fs 1 flat]
  obtain m where m: "cluster_from rnd deeper fs 1 tall flat = Some m" "dom m = header_ref ` set tall \<union> dom flat"
      "\<And>r. r \<notin> header_ref ` set tall \<Longrightarrow> m r = flat r" by blast
  define low where "low = filter (\<lambda>h. height_of h \<le> 0) hs"
  have flat: "flat = fold (\<lambda>h m. m(header_ref h \<mapsto> 1)) low depths"
    by (simp add: flat_def low_def fold_upd_filter)
  have "set hs = set tall \<union> set low" by (auto simp: tall_def low_def)
  then have parts: "header_ref ` set hs = header_ref ` set tall \<union> header_ref ` set low" by (simp add: image_Un)
  have "dom m = header_ref ` set hs \<union> dom depths" unfolding m(2) flat dom_fold_upd parts by blast
  moreover have "m r = depths r" if "r \<notin> header_ref ` set hs" for r
  proof -
    have "r \<notin> header_ref ` set tall" "r \<notin> header_ref ` set low" using that unfolding parts by blast+
    then show ?thesis using m(3) fold_upd_other [of r header_ref low "\<lambda>_. 1" depths] by (simp add: flat)
  qed
  ultimately show ?thesis using m(1) by (simp add: cluster_by_height_def flat_def [symmetric] tall_def [symmetric] Let_def)
qed

lemma heading_depths_dom:
  assumes "\<And>x. 0 < x \<Longrightarrow> rnd (deeper_below rnd options * x) \<le> x"
  shows "\<exists>m. heading_depths rnd options hs = Some m \<and> dom m = header_ref ` set hs
     \<and> (distinct (map header_ref hs) \<longrightarrow> (\<forall>h\<in>set hs. stated_depth options h \<noteq> None \<longrightarrow> m (header_ref h) = stated_depth options h))"
proof -
  define stated where "stated = fold (\<lambda>h m. case stated_depth options h of None \<Rightarrow> m | Some n \<Rightarrow> m(header_ref h \<mapsto> n)) hs (\<lambda>_. None)"
  define others where "others = filter (\<lambda>h. stated_depth options h = None) hs"
  have stated: "stated = fold (\<lambda>h m. m(header_ref h \<mapsto> the (stated_depth options h))) (filter (\<lambda>h. stated_depth options h \<noteq> None) hs) (\<lambda>_. None)"
    unfolding stated_def by (rule fold_upd_map_filter)
  have dom_stated: "header_ref ` set others \<union> dom stated = header_ref ` set hs"
  proof -
    have "set hs = set others \<union> set (filter (\<lambda>h. stated_depth options h \<noteq> None) hs)" by (auto simp: others_def)
    from arg_cong [OF this, of "image header_ref"]
    have "header_ref ` set hs = header_ref ` set others \<union> header_ref ` set (filter (\<lambda>h. stated_depth options h \<noteq> None) hs)"
      by (simp only: image_Un)
    then show ?thesis unfolding stated dom_fold_upd by simp
  qed
  have result: "\<exists>m. heading_depths rnd options hs = Some m \<and> dom m = header_ref ` set others \<union> dom stated
      \<and> (\<forall>r. r \<notin> header_ref ` set others \<longrightarrow> m r = stated r)"
  proof -
    have spread: "dom (fold (\<lambda>h m. m(header_ref h \<mapsto> g h)) others stated) = header_ref ` set others \<union> dom stated
        \<and> (\<forall>r. r \<notin> header_ref ` set others \<longrightarrow> fold (\<lambda>h m. m(header_ref h \<mapsto> g h)) others stated r = stated r)" for g
      by (intro conjI dom_fold_upd allI impI fold_upd_other)
    consider "\<not> use_style options" | "use_style options" "cluster_medians options hs = []"
      | "use_style options" "cluster_medians options hs \<noteq> []" by blast
    then show ?thesis
    proof cases
      case 1
      with spread [of "\<lambda>_. 1"] show ?thesis
        unfolding heading_depths_def Let_def stated_def [symmetric] others_def [symmetric] by simp
    next
      case 2
      obtain m where m: "cluster_by_height rnd (deeper_below rnd options) (use_font_style options) others stated = Some m"
          "dom m = header_ref ` set others \<union> dom stated" "\<forall>r. r \<notin> header_ref ` set others \<longrightarrow> m r = stated r"
        using cluster_by_height_dom [of rnd "deeper_below rnd options" "use_font_style options" others stated, OF assms] by blast
      have "heading_depths rnd options hs = Some m"
        unfolding heading_depths_def Let_def stated_def [symmetric] others_def [symmetric] using 2 m(1) by simp
      with m(2,3) show ?thesis by blast
    next
      case 3
      with spread show ?thesis
        unfolding heading_depths_def Let_def stated_def [symmetric] others_def [symmetric] by simp
    qed
  qed
  have at_stated: "stated (header_ref h) = stated_depth options h" "header_ref h \<notin> header_ref ` set others"
    if "distinct (map header_ref hs)" "h \<in> set hs" "stated_depth options h \<noteq> None" for h
  proof -
    have "distinct (map header_ref (filter (\<lambda>h. stated_depth options h \<noteq> None) hs))" using that(1) by (rule distinct_map_filter)
    from fold_upd_at [OF this, of h "\<lambda>h. the (stated_depth options h)" "\<lambda>_. None"] that
    show "stated (header_ref h) = stated_depth options h" unfolding stated by (simp del: not_None_eq)
    show "header_ref h \<notin> header_ref ` set others"
    proof
      assume "header_ref h \<in> header_ref ` set others"
      then obtain g where g: "g \<in> set hs" "stated_depth options g = None" "header_ref h = header_ref g" by (auto simp: others_def)
      have "inj_on header_ref (set hs)" using that(1) by (simp add: distinct_map)
      from inj_onD [OF this g(3) that(2) g(1)] g(2) that(3) show False by simp
    qed
  qed
  from result obtain m where m: "heading_depths rnd options hs = Some m" "dom m = header_ref ` set hs"
      "\<And>r. r \<notin> header_ref ` set others \<Longrightarrow> m r = stated r" unfolding dom_stated by blast
  have "m (header_ref h) = stated_depth options h"
    if "distinct (map header_ref hs)" "h \<in> set hs" "stated_depth options h \<noteq> None" for h
    using m(3) [OF at_stated(2) [OF that]] at_stated(1) [OF that] by simp
  with m(1,2) show ?thesis by blast
qed

definition level_of_header ::
  "heading_options \<Rightarrow> string set \<Rightarrow> (string \<Rightarrow> int option) \<Rightarrow> heading_header \<Rightarrow> int" where
  "level_of_header options title depths h =
     (if header_ref h \<in> title then 1
      else min (level_ceiling options) (max (case depths (header_ref h) of None \<Rightarrow> 0 | Some n \<Rightarrow> n) 1))"

lemma infer_heading_levels_alt:
  "infer_heading_levels rnd options input =
     (let headers = normalized_headers input; title = set (title_lines rnd options headers) in
      map_option (\<lambda>depths. fold (\<lambda>h m. m(header_ref h \<mapsto> level_of_header options title depths h)) headers (\<lambda>_. None))
        (heading_depths rnd options (filter (\<lambda>h. header_ref h \<notin> title) headers)))"
proof -
  have "(\<lambda>h m. if header_ref h \<in> title then m(header_ref h \<mapsto> 1)
        else m(header_ref h \<mapsto> min (level_ceiling options) (max (case depths (header_ref h) of None \<Rightarrow> 0 | Some n \<Rightarrow> n) 1)))
      = (\<lambda>h m. m(header_ref h \<mapsto> level_of_header options title depths h))" for title depths
    by (intro ext) (simp add: level_of_header_def)
  then show ?thesis unfolding infer_heading_levels_def Let_def by (simp split: option.split)
qed

lemma fold_upd_ran: "(\<And>h. h \<in> set hs \<Longrightarrow> P (g h)) \<Longrightarrow> (\<And>r v. m r = Some v \<Longrightarrow> P v) \<Longrightarrow>
   fold (\<lambda>h m. m(f h \<mapsto> g h)) hs m r = Some v \<Longrightarrow> P v"
proof (induction hs arbitrary: m)
  case (Cons a hs)
  show ?case using Cons.prems by (intro Cons.IH [of "m(f a \<mapsto> g a)"]) (auto split: if_splits)
qed auto

lemma normalized_refs [simp]: "map header_ref (normalized_headers hs) = map header_ref hs"
  by (simp add: normalized_headers_def)

lemma normalized_normalized [simp]: "normalized_headers (normalized_headers hs) = normalized_headers hs"
  by (simp add: normalized_headers_def list_all_iff)

lemma normalized_stated: "h \<in> set (normalized_headers hs) \<Longrightarrow> \<exists>g\<in>set hs. header_ref h = header_ref g \<and> stated_depth options h = stated_depth options g"
  by (auto simp: normalized_headers_def stated_depth_def split: if_splits)

lemma title_lines_normalized [simp]: "title_lines rnd options (normalized_headers hs) = title_lines rnd options hs"
  by (simp add: title_lines_def)

lemma infer_levels_range:
  assumes "\<And>x. 0 < x \<Longrightarrow> rnd (deeper_below rnd options * x) \<le> x"
  shows "\<exists>levels. infer_heading_levels rnd options headers = Some levels \<and> dom levels = header_ref ` set headers
     \<and> (\<forall>level\<in>ran levels. 1 \<le> level \<and> level \<le> level_ceiling options)"
proof -
  define hs where "hs = normalized_headers headers"
  define title where "title = set (title_lines rnd options headers)"
  obtain depths where depths: "heading_depths rnd options (filter (\<lambda>h. header_ref h \<notin> title) hs) = Some depths"
    using heading_depths_dom [of rnd options "filter (\<lambda>h. header_ref h \<notin> title) hs", OF assms] by blast
  define levels where "levels = fold (\<lambda>h m. m(header_ref h \<mapsto> level_of_header options title depths h)) hs (\<lambda>_. None)"
  have "infer_heading_levels rnd options headers = Some levels"
    using depths unfolding infer_heading_levels_alt Let_def hs_def [symmetric] by (simp add: levels_def title_def hs_def)
  moreover have "map header_ref hs = map header_ref headers" by (simp add: hs_def)
  then have "dom levels = header_ref ` set headers"
    unfolding levels_def dom_fold_upd by (metis dom_empty list.set_map sup_bot.right_neutral)
  moreover have "1 \<le> level \<and> level \<le> level_ceiling options" if level: "level \<in> ran levels" for level
  proof -
    have "1 \<le> level_ceiling options" by (simp add: level_ceiling_def)
    then have "1 \<le> level_of_header options title depths h \<and> level_of_header options title depths h \<le> level_ceiling options" for h
      by (auto simp: level_of_header_def)
    moreover obtain r where "levels r = Some level" using level by (auto simp: ran_def)
    ultimately show ?thesis
      using fold_upd_ran [of hs "\<lambda>v. 1 \<le> v \<and> v \<le> level_ceiling options" "level_of_header options title depths" "\<lambda>_. None" header_ref r level]
      by (simp add: levels_def)
  qed
  ultimately show ?thesis by blast
qed

subsection \<open>Smaller headings are deeper\<close>

lemma rank_offset_below:
  "k \<in> set bucket \<Longrightarrow> 0 \<le> rank_offset (bucket_ranks fs bucket) (ranked fs k)
     \<and> rank_offset (bucket_ranks fs bucket) (ranked fs k) < max 1 (int (length (bucket_ranks fs bucket)))"
proof -
  assume "k \<in> set bucket"
  then have "ranked fs k < 0 \<or> ranked fs k \<in> set (bucket_ranks fs bucket)" by (auto simp: bucket_ranks_def)
  moreover have "length (filter (\<lambda>q. q > r) ranks) < length ranks" if "r \<in> set ranks" for r and ranks :: "int list"
    using that by (intro length_filter_less) auto
  ultimately show ?thesis by (fastforce simp: rank_offset_def)
qed

lemma cluster_from_order:
  fixes deeper :: rat
  assumes rnd: "\<And>x. 0 < x \<Longrightarrow> rnd (deeper * x) \<le> x" "mono rnd" "0 \<le> deeper"
    and "list_all (\<lambda>h. height_of h > 0) hs" "distinct (map header_ref hs)" "sorted_wrt (\<lambda>h g. height_of g \<le> height_of h) hs"
    and "cluster_from rnd deeper fs base hs depths = Some m"
  shows "(\<forall>h\<in>set hs. \<exists>n\<ge>base. m (header_ref h) = Some n)
     \<and> (\<forall>h\<in>set hs. \<forall>g\<in>set hs. height_of g < rnd (deeper * height_of h) \<longrightarrow> the (m (header_ref h)) < the (m (header_ref g)))"
  using assms(4-)
proof (induction "length hs" arbitrary: hs base depths rule: less_induct)
  case less
  show ?case
  proof (cases hs)
    case (Cons f tail)
    define joins where "joins = (\<lambda>k :: heading_header. \<not> height_of k < rnd (deeper * height_of f))"
    define bucket where "bucket = f # takeWhile joins tail"
    define rest where "rest = dropWhile joins tail"
    define next_base where "next_base = base + max 1 (int (length (bucket_ranks fs bucket)))"
    define depth where "depth = (\<lambda>k. base + rank_offset (bucket_ranks fs bucket) (ranked fs k))"
    define next_depths where "next_depths = fold (\<lambda>k m. m(header_ref k \<mapsto> depth k)) bucket depths"
    have hs: "hs = bucket @ rest" by (simp add: Cons bucket_def rest_def)
    have below: "rnd (deeper * height_of f) \<le> height_of f" using rnd(1) less.prems(1) by (simp add: Cons)
    from cluster_from_Cons [of rnd deeper f fs base tail depths, OF this]
    have run: "cluster_from rnd deeper fs next_base rest next_depths = Some m"
      using less.prems(4) unfolding Cons joins_def bucket_def rest_def next_depths_def next_base_def depth_def by simp
    have sub: "length rest < length hs" "list_all (\<lambda>h. height_of h > 0) rest" "distinct (map header_ref rest)"
        "sorted_wrt (\<lambda>h g. height_of g \<le> height_of h) rest"
      using less.prems(1-3) unfolding hs by (simp_all add: sorted_wrt_append bucket_def)
    note IH = less.hyps [OF sub run]
    have kept: "m (header_ref k) = Some (depth k)" if k: "k \<in> set bucket" for k
    proof -
      have "header_ref k \<notin> header_ref ` set rest" "distinct (map header_ref bucket)"
        using less.prems(2) k unfolding hs by auto
      then have "m (header_ref k) = next_depths (header_ref k)"
        using cluster_from_dom [of rnd deeper, OF rnd(1) sub(2), of fs next_base next_depths] run by auto
      then show ?thesis using fold_upd_at [OF \<open>distinct (map header_ref bucket)\<close> k] by (simp add: next_depths_def)
    qed
    have range: "base \<le> depth k" "depth k < next_base" if "k \<in> set bucket" for k
      using rank_offset_below [OF that, of fs] by (simp_all add: depth_def next_base_def)
    have grown: "\<not> height_of g < rnd (deeper * height_of h)" if "g \<in> set bucket" "h \<in> set hs" for g h
    proof -
      have "height_of h \<le> height_of f" using that(2) less.prems(3) by (auto simp: Cons)
      then have "deeper * height_of h \<le> deeper * height_of f" using rnd(3) by (rule mult_left_mono)
      then have "rnd (deeper * height_of h) \<le> rnd (deeper * height_of f)" by (rule monoD [OF rnd(2)])
      moreover have "rnd (deeper * height_of f) \<le> height_of g"
        using that(1) below by (auto simp: bucket_def joins_def dest: set_takeWhileD)
      ultimately show ?thesis by simp
    qed
    have later: "\<exists>n\<ge>next_base. m (header_ref h) = Some n" if "h \<in> set rest" for h using IH that by blast
    have "base \<le> next_base" by (simp add: next_base_def)
    then have all: "\<exists>n\<ge>base. m (header_ref h) = Some n" if "h \<in> set hs" for h
      using that kept range later unfolding hs by (metis UnE order_trans set_append)
    have "the (m (header_ref h)) < the (m (header_ref g))"
      if "h \<in> set hs" "g \<in> set hs" "height_of g < rnd (deeper * height_of h)" for h g
    proof (cases "h \<in> set rest")
      case True
      then show ?thesis using that grown IH unfolding hs by auto
    next
      case False
      then have h: "h \<in> set bucket" using that(1) hs by simp
      have "g \<in> set rest" using that grown hs by auto
      from later [OF this] range(2) [OF h] kept [OF h] show ?thesis by auto
    qed
    with all show ?thesis by blast
  qed simp
qed

lemma cluster_by_height_order:
  fixes deeper :: rat
  assumes rnd: "\<And>x. 0 < x \<Longrightarrow> rnd (deeper * x) \<le> x" "mono rnd" "0 \<le> deeper"
    and "distinct (map header_ref hs)" "cluster_by_height rnd deeper fs hs depths = Some m"
    and "h \<in> set hs" "g \<in> set hs" "0 < height_of h" "0 < height_of g" "height_of g < rnd (deeper * height_of h)"
  shows "\<exists>a b. m (header_ref h) = Some a \<and> m (header_ref g) = Some b \<and> 1 \<le> a \<and> a < b"
proof -
  define flat where "flat = fold (\<lambda>h m. if height_of h \<le> 0 then m(header_ref h \<mapsto> 1) else m) hs depths"
  define tall where "tall = sort_key (\<lambda>h. - height_of h) (filter (\<lambda>h. \<not> height_of h \<le> 0) hs)"
  have run: "cluster_from rnd deeper fs 1 tall flat = Some m"
    using assms(5) by (simp add: cluster_by_height_def Let_def flat_def tall_def)
  have "list_all (\<lambda>h. height_of h > 0) tall" by (auto simp: tall_def list_all_iff)
  moreover have "distinct (map header_ref tall)"
    using distinct_map_filter [OF assms(4), of "\<lambda>h. \<not> height_of h \<le> 0"] by (simp add: tall_def distinct_map)
  moreover have "sorted (map (\<lambda>h. - height_of h) tall)" unfolding tall_def by (rule sorted_sort_key)
  then have "sorted_wrt (\<lambda>h g. height_of g \<le> height_of h) tall" by (simp add: sorted_map)
  ultimately have "(\<forall>h\<in>set tall. \<exists>n\<ge>1. m (header_ref h) = Some n)
     \<and> (\<forall>h\<in>set tall. \<forall>g\<in>set tall. height_of g < rnd (deeper * height_of h) \<longrightarrow> the (m (header_ref h)) < the (m (header_ref g)))"
    using cluster_from_order [of rnd deeper, OF rnd _ _ _ run] by blast
  moreover have "h \<in> set tall" "g \<in> set tall" using assms(6-9) by (simp_all add: tall_def)
  ultimately show ?thesis using assms(10) by (metis option.sel)
qed


lemma unstated_depths:
  assumes "\<And>h. h \<in> set hs \<Longrightarrow> stated_depth options h = None" "use_style options"
  shows "heading_depths rnd options hs = cluster_by_height rnd (deeper_below rnd options) (use_font_style options) hs (\<lambda>_. None)"
proof -
  have "fold (\<lambda>h m. case stated_depth options h of None \<Rightarrow> m | Some n \<Rightarrow> m(header_ref h \<mapsto> n)) hs m = m" for m
    using assms(1) by (induction hs arbitrary: m) auto
  moreover have "filter (\<lambda>h. stated_depth options h = None) hs = hs" using assms(1) by (simp add: filter_id_conv)
  moreover have "cluster_medians options hs = []"
    using assms(1) unfolding cluster_medians_def Let_def List.map_filter_def by (simp add: filter_empty_conv)
  ultimately show ?thesis using assms(2) by (simp add: heading_depths_def Let_def)
qed


text \<open>
  The comment says that a heading takes the nearest cluster, depth one when it is visibly taller than
  all clusters. The code compares with the first and the last cluster only: where a deeper cluster is the
  taller one, a heading shorter than it, and nearest to it, is still put at depth one.
\<close>

lemma nearest_cluster_ignores_taller:
  "depth_by_nearest_cluster (\<lambda>x. x) 19 [(1, 10), (2, 20)] (17 / 20) = 1"
  "\<not> (\<forall>cluster\<in>set [(1 :: int, 10 :: rat), (2, 20)]. snd cluster < 19)"
  by (simp_all add: depth_by_nearest_cluster_def)

definition sample_header :: "string \<Rightarrow> rat \<Rightarrow> string \<Rightarrow> heading_header" where
  "sample_header r height s = \<lparr>header_ref = r, height_of = height, font_size = 0, header_text = s, header_page = 0,
     header_top = 0, header_bottom = 0, has_font_style = False, is_bold = False, is_italic = False\<rparr>"

definition sample_headers :: "heading_header list" where
  "sample_headers = [sample_header ''a'' 20 ''2 Methods'', sample_header ''b'' 15 ''2.1 Sources'', sample_header ''c'' 14 ''Aside'']"

lemma sample_depths: "map (stated_depth (default_headings (\<lambda>x. x))) sample_headers = [Some 1, Some 2, None]"
    "title_lines (\<lambda>x. x) (default_headings (\<lambda>x. x)) sample_headers = []"
  by code_simp+


definition sample_outline :: "msg list" where
  "sample_outline = map (\<lambda>(s, l). Msg ''p'' ''OutlineEntry'' [Singular ''title'' False True (Some (Str s)), Singular ''level'' False False (Some (Num l))])
     [(''Oh'', 1), (''Mat'', 3), (''ma!'', 2)]"

definition loose_headings :: heading_options where
  "loose_headings = (default_headings (\<lambda>x. x))\<lparr>bookmark_match_threshold := 1 / 2\<rparr>"

theorem bookmarks_by_similarity_witness:
  "bookmark_levels (\<lambda>x. x) loose_headings sample_outline [sample_header ''b'' 15 ''Map''] = [(''b'', 3)]"
proof -
  have "sum_list (map (outline_cells sample_outline) [sample_header ''b'' 15 ''Map'']) = 21" by code_simp
  then have budget: "sum_list (map (outline_cells sample_outline) [sample_header ''b'' 15 ''Map'']) \<le> kBookmarkEditCellBudget"
    by (simp add: kBookmarkEditCellBudget_def)
  have "use_bookmarks loose_headings" by code_simp
  note reference = bookmarks_by_similarity [OF budget this]
  show ?thesis unfolding reference by code_simp
qed

end
