(* ===== verification/RunningFurniture.thy ===== *)
theory RunningFurniture
  imports StructureRepair RepairText RepairOptions
begin

text \<open>
  Running headers, footers and page numbers (\<^verbatim>\<open>demote_running_furniture\<close> in
  \<^verbatim>\<open>src/src/document_repair.cpp\<close>): body prose whose whole text block lies in the top or
  bottom band of its page, and whose text recurs on enough pages or reads as a page number,
  moves to the furniture tree.
\<close>

subsection \<open>Prose of the body\<close>

definition label_paragraph :: int where "label_paragraph = 17"
definition label_text :: int where "label_text = 22"
definition content_layer_furniture :: int where "content_layer_furniture = 2"

definition text_index :: "string \<Rightarrow> nat option" where
  "text_index ref =
     (if \<not> starts_with ref ''#/texts/'' then None
      else
        let digits = drop 8 ref in
        if digits = [] \<or> \<not> list_all c_isdigit digits \<or> length digits > 9 then None
        else dec_value digits)"

definition text_payload :: "msg \<Rightarrow> msg" where
  "text_payload item = sub_or_default ''base'' (sub_or_default ''text'' item)"

definition is_prose :: "msg \<Rightarrow> bool" where
  "is_prose item =
     (text_variant item = Some ''text'' \<and> get_num ''label'' (text_payload item) \<in> {label_text, label_paragraph})"

definition prose_index :: "msg \<Rightarrow> msg \<Rightarrow> nat option" where
  "prose_index d child =
     (case text_index (get_string ''ref'' child) of
        None \<Rightarrow> None
      | Some i \<Rightarrow>
          if i < length (get_list ''texts'' d) \<and> is_prose (get_list ''texts'' d ! i) then Some i else None)"

definition prose_base :: "msg \<Rightarrow> nat \<Rightarrow> msg" where
  "prose_base d i = text_payload (get_list ''texts'' d ! i)"

definition update_prose :: "(msg \<Rightarrow> msg) \<Rightarrow> nat \<Rightarrow> msg \<Rightarrow> msg" where
  "update_prose f i d =
     (let item = get_list ''texts'' d ! i; m = sub_or_default ''text'' item
      in set_list ''texts''
           ((get_list ''texts'' d)[i := set_sub ''text'' (Some (set_sub ''base'' (Some (f (sub_or_default ''base'' m))) m)) item]) d)"

subsection \<open>Text blocks\<close>

datatype band = No_Band | Top_Band | Bottom_Band

definition band_of_extent :: "(rat \<Rightarrow> rat) \<Rightarrow> rat \<Rightarrow> rat \<Rightarrow> rat \<Rightarrow> rat \<Rightarrow> band" where
  "band_of_extent rnd upper lower height fraction =
     (if height \<le> 0 \<or> upper < 0 \<or> lower > height \<or> lower < upper then No_Band
      else if lower \<le> rnd (height * fraction) then Top_Band
      else if upper \<ge> rnd (height * rnd (1 - fraction)) then Bottom_Band
      else No_Band)"

definition neighbours :: "(rat \<Rightarrow> rat) \<Rightarrow> top_down_box \<Rightarrow> top_down_box \<Rightarrow> bool" where
  "neighbours rnd current other =
     (rnd (min (right_side current) (right_side other) - max (left_side current) (left_side other)) > 0
      \<and> max 0 (max (rnd (top_side other - bottom_side current)) (rnd (top_side current - bottom_side other)))
          \<le> min (td_height rnd current) (td_height rnd other))"

text \<open>One text block while it is walked; \<^verbatim>\<open>visited\<close> is the set of the flags that are set.\<close>

record block =
  pending :: "nat list"
  block_members :: "nat list"
  visited :: "nat set"
  block_top :: rat
  block_bottom :: rat

definition visit :: "(rat \<Rightarrow> rat) \<Rightarrow> top_down_box list \<Rightarrow> nat \<Rightarrow> nat \<Rightarrow> block \<Rightarrow> block" where
  "visit rnd boxes current i b =
     (if i \<in> visited b \<or> \<not> neighbours rnd (boxes ! current) (boxes ! i) then b
      else b\<lparr>visited := insert i (visited b), pending := pending b @ [i], block_members := block_members b @ [i],
             block_top := min (block_top b) (top_side (boxes ! i)),
             block_bottom := max (block_bottom b) (bottom_side (boxes ! i))\<rparr>)"

definition visit_all :: "(rat \<Rightarrow> rat) \<Rightarrow> top_down_box list \<Rightarrow> block \<Rightarrow> block" where
  "visit_all rnd boxes b =
     fold (visit rnd boxes (last (pending b))) [0..<length boxes] (b\<lparr>pending := butlast (pending b)\<rparr>)"

lemma visits_grow:
  "set is \<subseteq> {..<length boxes} \<Longrightarrow>
     visited b \<subseteq> visited (fold (visit rnd boxes c) is b)
     \<and> visited (fold (visit rnd boxes c) is b) - visited b \<subseteq> {..<length boxes}
     \<and> (visited (fold (visit rnd boxes c) is b) = visited b \<longrightarrow> pending (fold (visit rnd boxes c) is b) = pending b)"
proof (induction "is" arbitrary: b)
  case (Cons i "is")
  define b' where "b' = visit rnd boxes c i b"
  have "visited b \<subseteq> visited b'" "visited b' - visited b \<subseteq> {i}" "visited b' = visited b \<longrightarrow> pending b' = pending b"
    by (auto simp: b'_def visit_def)
  with Cons.IH [of b'] Cons.prems show ?case by (auto simp: b'_def [symmetric]; blast)
qed simp

function walk_block :: "(rat \<Rightarrow> rat) \<Rightarrow> top_down_box list \<Rightarrow> block \<Rightarrow> block" where
  "walk_block rnd boxes b = (if pending b = [] then b else walk_block rnd boxes (visit_all rnd boxes b))"
  by pat_completeness auto

termination
proof (relation "measures [\<lambda>(rnd, boxes, b). card ({..<length boxes} - visited b), \<lambda>(rnd, boxes, b). length (pending b)]",
    goal_cases)
  case (2 rnd boxes b)
  let ?b = "b\<lparr>pending := butlast (pending b)\<rparr>"
  note grow = visits_grow [of "[0..<length boxes]" boxes ?b rnd "last (pending b)"]
  show ?case
  proof (cases "visited (visit_all rnd boxes b) = visited b")
    case True
    then show ?thesis using grow 2 by (simp add: visit_all_def atLeast0LessThan)
  next
    case False
    define V where "V = visited (visit_all rnd boxes b)"
    have "visited b \<subseteq> V" "V - visited b \<subseteq> {..<length boxes}"
      using grow by (simp_all add: V_def visit_all_def atLeast0LessThan)
    with False have "{..<length boxes} - V \<subset> {..<length boxes} - visited b" unfolding V_def [symmetric] by blast
    then have "card ({..<length boxes} - V) < card ({..<length boxes} - visited b)" by (intro psubset_card_mono) auto
    then show ?thesis by (simp add: V_def)
  qed
qed simp

declare walk_block.simps [simp del]

definition seed_block :: "top_down_box list \<Rightarrow> nat \<Rightarrow> nat set \<Rightarrow> block" where
  "seed_block boxes seed seen =
     \<lparr>pending = [seed], block_members = [seed], visited = insert seed seen,
      block_top = top_side (boxes ! seed), block_bottom = bottom_side (boxes ! seed)\<rparr>"

definition extent_step ::
  "(rat \<Rightarrow> rat) \<Rightarrow> top_down_box list \<Rightarrow> nat \<Rightarrow> nat set \<times> (rat \<times> rat) list \<Rightarrow> nat set \<times> (rat \<times> rat) list" where
  "extent_step rnd boxes seed state =
     (let (seen, extents) = state in
      if seed \<in> seen then state
      else
        let b = walk_block rnd boxes (seed_block boxes seed seen)
        in (visited b, fold (\<lambda>m es. es[m := (block_top b, block_bottom b)]) (block_members b) extents))"

definition block_extents :: "(rat \<Rightarrow> rat) \<Rightarrow> top_down_box list \<Rightarrow> (rat \<times> rat) list" where
  "block_extents rnd boxes =
     snd (fold (extent_step rnd boxes) [0..<length boxes] ({}, replicate (length boxes) (0, 0)))"

subsection \<open>A text block is a connected component\<close>

definition touching :: "(rat \<Rightarrow> rat) \<Rightarrow> top_down_box list \<Rightarrow> (nat \<times> nat) set" where
  "touching rnd boxes = {(i, j). i < length boxes \<and> j < length boxes \<and> neighbours rnd (boxes ! i) (boxes ! j)}"

definition text_block :: "(rat \<Rightarrow> rat) \<Rightarrow> top_down_box list \<Rightarrow> nat \<Rightarrow> nat set" where
  "text_block rnd boxes i = {j. (i, j) \<in> (touching rnd boxes)\<^sup>*}"

definition hull_of :: "top_down_box list \<Rightarrow> nat set \<Rightarrow> rat \<times> rat" where
  "hull_of boxes is = (Min ((\<lambda>i. top_side (boxes ! i)) ` is), Max ((\<lambda>i. bottom_side (boxes ! i)) ` is))"

lemma neighbours_sym: "neighbours rnd a b \<longleftrightarrow> neighbours rnd b a"
  by (simp add: neighbours_def min.commute max.commute conj_commute)

lemma touching_sym: "sym (touching rnd boxes)"
  by (auto simp: sym_def touching_def neighbours_sym)

lemma text_block_self: "i \<in> text_block rnd boxes i"
  by (simp add: text_block_def)

lemma text_block_same: "j \<in> text_block rnd boxes i \<Longrightarrow> text_block rnd boxes j = text_block rnd boxes i"
  unfolding text_block_def
  by (auto intro: rtrancl_trans dest: symD [OF sym_rtrancl [OF touching_sym]])

definition hull_ok :: "top_down_box list \<Rightarrow> block \<Rightarrow> bool" where
  "hull_ok boxes b = ((block_top b, block_bottom b) = hull_of boxes (set (block_members b)) \<and> block_members b \<noteq> [])"

text \<open>The state of a walk from a seed: everything reached and not pending is fully explored.\<close>

definition walk_ok :: "(rat \<Rightarrow> rat) \<Rightarrow> top_down_box list \<Rightarrow> nat \<Rightarrow> nat set \<Rightarrow> block \<Rightarrow> bool" where
  "walk_ok rnd boxes seed seen b =
     (set (block_members b) \<subseteq> text_block rnd boxes seed \<and> seed \<in> set (block_members b)
      \<and> set (block_members b) \<subseteq> {..<length boxes} \<and> set (pending b) \<subseteq> set (block_members b)
      \<and> visited b = seen \<union> set (block_members b) \<and> seen \<inter> set (block_members b) = {}
      \<and> (\<forall>i\<in>set (block_members b) - set (pending b). \<forall>j. (i, j) \<in> touching rnd boxes \<longrightarrow> j \<in> visited b)
      \<and> hull_ok boxes b)"

lemma fold_visit:
  "\<exists>new. let b' = fold (visit rnd boxes c) is b in
     block_members b' = block_members b @ new \<and> pending b' = pending b @ new \<and> visited b' = visited b \<union> set new
     \<and> (\<forall>j\<in>set new. j \<in> set is \<and> neighbours rnd (boxes ! c) (boxes ! j) \<and> j \<notin> visited b)
     \<and> (\<forall>j\<in>set is. neighbours rnd (boxes ! c) (boxes ! j) \<longrightarrow> j \<in> visited b')
     \<and> (hull_ok boxes b \<longrightarrow> hull_ok boxes b')"
proof (induction "is" arbitrary: b)
  case (Cons i "is")
  show ?case
  proof (cases "i \<in> visited b \<or> \<not> neighbours rnd (boxes ! c) (boxes ! i)")
    case True
    then have "visit rnd boxes c i b = b" by (simp add: visit_def)
    with Cons.IH [of b] True show ?thesis by (simp add: Let_def) blast
  next
    case False
    define b' where "b' = visit rnd boxes c i b"
    have b': "block_members b' = block_members b @ [i]" "pending b' = pending b @ [i]" "visited b' = insert i (visited b)"
      using False by (simp_all add: b'_def visit_def)
    have "hull_ok boxes b \<Longrightarrow> hull_ok boxes b'"
      using False by (auto simp: b'_def visit_def hull_ok_def hull_of_def min.commute max.commute)
    moreover obtain new where "let b'' = fold (visit rnd boxes c) is b' in
       block_members b'' = block_members b' @ new \<and> pending b'' = pending b' @ new \<and> visited b'' = visited b' \<union> set new
       \<and> (\<forall>j\<in>set new. j \<in> set is \<and> neighbours rnd (boxes ! c) (boxes ! j) \<and> j \<notin> visited b')
       \<and> (\<forall>j\<in>set is. neighbours rnd (boxes ! c) (boxes ! j) \<longrightarrow> j \<in> visited b'')
       \<and> (hull_ok boxes b' \<longrightarrow> hull_ok boxes b'')"
      using Cons.IH [of b'] by blast
    ultimately show ?thesis
      using False by (intro exI [of _ "i # new"]) (auto simp: b' b'_def [symmetric] Let_def)
  qed
qed simp

lemma hull_ok_pending [simp]: "hull_ok boxes (b\<lparr>pending := p\<rparr>) = hull_ok boxes b"
  by (simp add: hull_ok_def)

lemma visit_all_new:
  assumes "c = last (pending b)" "b' = visit_all rnd boxes b"
  obtains new where "block_members b' = block_members b @ new" "pending b' = butlast (pending b) @ new"
    "visited b' = visited b \<union> set new"
    "\<And>j. j \<in> set new \<Longrightarrow> j < length boxes \<and> neighbours rnd (boxes ! c) (boxes ! j) \<and> j \<notin> visited b"
    "\<And>j. j < length boxes \<Longrightarrow> neighbours rnd (boxes ! c) (boxes ! j) \<Longrightarrow> j \<in> visited b'"
    "hull_ok boxes b \<Longrightarrow> hull_ok boxes b'"
proof -
  have b': "b' = fold (visit rnd boxes c) [0..<length boxes] (b\<lparr>pending := butlast (pending b)\<rparr>)"
    by (simp add: visit_all_def assms)
  obtain new where "block_members b' = block_members b @ new" "pending b' = butlast (pending b) @ new"
      "visited b' = visited b \<union> set new"
      "\<forall>j\<in>set new. j \<in> set [0..<length boxes] \<and> neighbours rnd (boxes ! c) (boxes ! j) \<and> j \<notin> visited b"
      "\<forall>j\<in>set [0..<length boxes]. neighbours rnd (boxes ! c) (boxes ! j) \<longrightarrow> j \<in> visited b'"
      "hull_ok boxes b \<longrightarrow> hull_ok boxes b'"
    using fold_visit [of rnd boxes c "[0..<length boxes]" "b\<lparr>pending := butlast (pending b)\<rparr>"]
    unfolding Let_def b' [symmetric] by (elim exE conjE) simp
  then show ?thesis by (intro that [of new]) simp_all
qed

lemma walk_ok_step:
  assumes ok: "walk_ok rnd boxes seed seen b" and "pending b \<noteq> []"
  shows "walk_ok rnd boxes seed seen (visit_all rnd boxes b)"
proof -
  define c where "c = last (pending b)"
  define b' where "b' = visit_all rnd boxes b"
  have pending: "set (pending b) = insert c (set (butlast (pending b)))"
    using assms(2) unfolding c_def by (metis append_butlast_last_id list.simps(15) rotate1.simps(2) set_rotate1)
  have c: "c \<in> set (block_members b)" "c < length boxes" "c \<in> text_block rnd boxes seed"
    using ok pending by (auto simp: walk_ok_def)
  obtain new where new: "block_members b' = block_members b @ new" "pending b' = butlast (pending b) @ new"
    "visited b' = visited b \<union> set new"
    and found: "\<And>j. j \<in> set new \<Longrightarrow> j < length boxes \<and> neighbours rnd (boxes ! c) (boxes ! j) \<and> j \<notin> visited b"
    and explored: "\<And>j. j < length boxes \<Longrightarrow> neighbours rnd (boxes ! c) (boxes ! j) \<Longrightarrow> j \<in> visited b'"
    and hull: "hull_ok boxes b \<Longrightarrow> hull_ok boxes b'"
    using visit_all_new [OF c_def b'_def] by metis
  have reached: "set new \<subseteq> text_block rnd boxes seed"
  proof
    fix j
    assume "j \<in> set new"
    then have "(c, j) \<in> touching rnd boxes" using found c(2) by (simp add: touching_def)
    with c(3) show "j \<in> text_block rnd boxes seed" by (auto simp: text_block_def)
  qed
  have closed: "j \<in> visited b'" if "i \<in> set (block_members b') - set (pending b')" "(i, j) \<in> touching rnd boxes" for i j
  proof (cases "i = c")
    case True
    then show ?thesis using that(2) explored by (simp add: touching_def)
  next
    case False
    then have "i \<in> set (block_members b) - set (pending b)" using that(1) pending new by auto
    then show ?thesis using that(2) ok new(3) by (auto simp: walk_ok_def)
  qed
  have "set (block_members b') \<subseteq> text_block rnd boxes seed \<and> seed \<in> set (block_members b')
      \<and> set (block_members b') \<subseteq> {..<length boxes} \<and> set (pending b') \<subseteq> set (block_members b')
      \<and> visited b' = seen \<union> set (block_members b') \<and> seen \<inter> set (block_members b') = {}"
    using ok reached found pending unfolding walk_ok_def new by auto
  moreover have "hull_ok boxes b'" using ok hull by (simp add: walk_ok_def)
  ultimately show ?thesis using closed unfolding walk_ok_def b'_def by blast
qed

lemma walk_block_ok:
  "walk_ok rnd boxes seed seen b \<Longrightarrow>
     walk_ok rnd boxes seed seen (walk_block rnd boxes b) \<and> pending (walk_block rnd boxes b) = []"
proof (induction rnd boxes b rule: walk_block.induct)
  case (1 rnd boxes b)
  then show ?case
    by (cases "pending b = []") (simp_all add: walk_block.simps [of rnd boxes b] walk_ok_step)
qed


lemma walked_block:
  assumes "seed < length boxes" "seed \<notin> seen" "\<And>i. i \<in> seen \<Longrightarrow> text_block rnd boxes i \<subseteq> seen"
  defines "b \<equiv> walk_block rnd boxes (seed_block boxes seed seen)"
  shows "set (block_members b) = text_block rnd boxes seed" "visited b = seen \<union> text_block rnd boxes seed"
    "(block_top b, block_bottom b) = hull_of boxes (text_block rnd boxes seed)"
proof -
  have "walk_ok rnd boxes seed seen (seed_block boxes seed seen)"
    using assms(1,2) text_block_self by (auto simp: walk_ok_def seed_block_def hull_ok_def hull_of_def)
  from walk_block_ok [OF this] have ok: "walk_ok rnd boxes seed seen b" and finished: "pending b = []"
    by (auto simp: b_def)
  have "j \<in> set (block_members b)" if "(seed, j) \<in> (touching rnd boxes)\<^sup>*" for j
    using that
  proof (induction rule: rtrancl_induct)
    case (step i j)
    then have "j \<in> visited b" using ok finished by (auto simp: walk_ok_def)
    moreover have "j \<notin> seen"
    proof
      assume "j \<in> seen"
      moreover have "seed \<in> text_block rnd boxes j"
      proof -
        have "j \<in> text_block rnd boxes seed" using step.hyps by (auto simp: text_block_def)
        from text_block_same [OF this] show ?thesis by (simp add: text_block_self)
      qed
      ultimately show False using assms(2,3) by blast
    qed
    ultimately show ?case using ok by (auto simp: walk_ok_def)
  qed (use ok in \<open>auto simp: walk_ok_def\<close>)
  then show members: "set (block_members b) = text_block rnd boxes seed"
    using ok by (auto simp: walk_ok_def text_block_def)
  then show "visited b = seen \<union> text_block rnd boxes seed"
    "(block_top b, block_bottom b) = hull_of boxes (text_block rnd boxes seed)"
    using ok by (simp_all add: walk_ok_def hull_ok_def)
qed

lemma set_extents:
  "length (fold (\<lambda>m es. es[m := x]) ms es) = length es"
  "i < length es \<Longrightarrow> fold (\<lambda>m es. es[m := x]) ms es ! i = (if i \<in> set ms then x else es ! i)"
  by (induction ms arbitrary: es) (auto simp: nth_list_update)

definition extents_ok :: "(rat \<Rightarrow> rat) \<Rightarrow> top_down_box list \<Rightarrow> nat set \<times> (rat \<times> rat) list \<Rightarrow> bool" where
  "extents_ok rnd boxes state =
     (length (snd state) = length boxes
      \<and> (\<forall>i\<in>fst state. i < length boxes \<and> text_block rnd boxes i \<subseteq> fst state
            \<and> snd state ! i = hull_of boxes (text_block rnd boxes i)))"

lemma text_block_range: "i < length boxes \<Longrightarrow> text_block rnd boxes i \<subseteq> {..<length boxes}"
  by (auto simp: text_block_def touching_def elim: rtranclE)

lemma extent_step_ok:
  assumes ok: "extents_ok rnd boxes state" and seed: "seed < length boxes"
  shows "extents_ok rnd boxes (extent_step rnd boxes seed state)
     \<and> insert seed (fst state) \<subseteq> fst (extent_step rnd boxes seed state)"
proof (cases "seed \<in> fst state")
  case True
  then show ?thesis using ok by (auto simp: extent_step_def split: prod.splits)
next
  case False
  obtain seen extents where state: "state = (seen, extents)" by fastforce
  define b where "b = walk_block rnd boxes (seed_block boxes seed seen)"
  have closed: "\<And>i. i \<in> seen \<Longrightarrow> text_block rnd boxes i \<subseteq> seen" using ok by (simp add: extents_ok_def state)
  note block = walked_block [OF seed False [unfolded state fst_conv] closed, folded b_def]
  have step: "extent_step rnd boxes seed state
      = (visited b, fold (\<lambda>m es. es[m := (block_top b, block_bottom b)]) (block_members b) extents)"
    using False by (simp add: extent_step_def state b_def Let_def)
  define T where "T = text_block rnd boxes seed"
  define es where "es = fold (\<lambda>m es. es[m := (block_top b, block_bottom b)]) (block_members b) extents"
  have len: "length extents = length boxes" using ok by (simp add: extents_ok_def state)
  have seedT: "seed \<in> T" by (simp add: T_def text_block_self)
  have "i < length boxes \<and> text_block rnd boxes i \<subseteq> seen \<union> T \<and> es ! i = hull_of boxes (text_block rnd boxes i)"
    if "i \<in> seen \<union> T" for i
  proof (cases "i \<in> T")
    case True
    then have "i < length boxes" "text_block rnd boxes i = T"
      using text_block_range [OF seed, of rnd] text_block_same [of i rnd boxes seed] by (auto simp: T_def)
    with True show ?thesis using block by (simp add: es_def set_extents len T_def)
  next
    case False
    with that have "i \<in> seen" by simp
    then have "i < length boxes" "text_block rnd boxes i \<subseteq> seen" "extents ! i = hull_of boxes (text_block rnd boxes i)"
      using ok by (simp_all add: extents_ok_def state)
    with False show ?thesis using block by (auto simp: es_def set_extents len T_def)
  qed
  moreover have "length es = length boxes" by (simp add: es_def set_extents len)
  moreover have "visited b = seen \<union> T" using block(2) by (simp add: T_def)
  ultimately show ?thesis using seedT unfolding step es_def [symmetric]
    by (simp add: extents_ok_def state)
qed

text \<open>
  C31. The block a piece of prose is judged by is exactly the connected component of the boxes of
  its page under ``close enough to be one text'', and its extent is the hull of that
  component, whichever member the walk starts from.
\<close>

theorem block_extents_components:
  assumes "i < length boxes"
  shows "block_extents rnd boxes ! i = hull_of boxes (text_block rnd boxes i)"
proof -
  have "set seeds \<subseteq> {..<length boxes} \<Longrightarrow> extents_ok rnd boxes state \<Longrightarrow>
     extents_ok rnd boxes (fold (extent_step rnd boxes) seeds state)
     \<and> set seeds \<union> fst state \<subseteq> fst (fold (extent_step rnd boxes) seeds state)" for seeds state
  proof (induction seeds arbitrary: state)
    case (Cons seed seeds)
    have "extents_ok rnd boxes (extent_step rnd boxes seed state)" "insert seed (fst state) \<subseteq> fst (extent_step rnd boxes seed state)"
      using Cons.prems extent_step_ok [of rnd boxes state seed] by simp_all
    moreover have "set seeds \<subseteq> {..<length boxes}" using Cons.prems by simp
    ultimately show ?case
      using Cons.IH [of "extent_step rnd boxes seed state"] by (simp only: fold.simps comp_apply list.set) blast
  qed simp
  from this [of "[0..<length boxes]" "({}, replicate (length boxes) (0, 0))"] assms show ?thesis
    by (auto simp: block_extents_def extents_ok_def atLeast0LessThan)
qed


definition sample_boxes :: "top_down_box list" where
  "sample_boxes =
     [\<lparr>left_side = 0, top_side = 10, right_side = 50, bottom_side = 20\<rparr>,
      \<lparr>left_side = 0, top_side = 90, right_side = 50, bottom_side = 100\<rparr>,
      \<lparr>left_side = 20, top_side = 25, right_side = 90, bottom_side = 35\<rparr>]"

theorem block_extents_components_witness:
  "block_extents (\<lambda>x. x) sample_boxes ! 0 = (10, 35)
     \<and> hull_of sample_boxes (text_block (\<lambda>x. x) sample_boxes 0) = (10, 35)"
proof -
  have "block_extents (\<lambda>x. x) sample_boxes ! 0 = (10, 35)" by code_simp
  moreover have "0 < length sample_boxes" by (simp add: sample_boxes_def)
  ultimately show ?thesis using block_extents_components [of 0 sample_boxes "\<lambda>x. x"] by simp
qed

subsection \<open>Demoting what repeats\<close>

definition positive_pages :: "msg \<Rightarrow> int list" where
  "positive_pages node = filter (\<lambda>p. p > 0) (map (get_num ''page_no'') (get_list ''prov'' node))"

definition page_count :: "msg \<Rightarrow> nat" where
  "page_count d =
     (if get_list ''pages'' d \<noteq> [] then length (get_list ''pages'' d)
      else card (set (concat (map positive_pages (List.map_filter text_base_of (get_list ''texts'' d))))))"

record placed_prose =
  body_index :: nat
  arena_number :: nat
  prose_page :: int
  prose_box :: top_down_box

definition place_prose :: "(rat \<Rightarrow> rat) \<Rightarrow> repair_options \<Rightarrow> msg \<Rightarrow> heights \<Rightarrow> nat \<Rightarrow> placed_prose option" where
  "place_prose rnd options d hs i =
     (let child = body_items d ! i in
      case prose_index d child of
        None \<Rightarrow> None
      | Some n \<Rightarrow>
          let base = prose_base d n in
          if get_list ''children'' base \<noteq> [] then None
          else if migrate_furniture options \<and> get_num ''content_layer'' base = content_layer_furniture then None
          else case placement_of rnd hs (get_list ''prov'' base) of
                 None \<Rightarrow> None
               | Some p \<Rightarrow>
                   Some \<lparr>body_index = i, arena_number = n, prose_page = page_of p, prose_box = page_box p\<rparr>)"

record furniture_candidate =
  candidate_body :: nat
  candidate_text :: nat
  candidate_page :: int
  candidate_band :: band
  normalized :: string

definition candidate_of ::
  "(rat \<Rightarrow> rat) \<Rightarrow> repair_options \<Rightarrow> msg \<Rightarrow> rat \<Rightarrow> placed_prose \<times> rat \<times> rat \<Rightarrow> furniture_candidate option" where
  "candidate_of rnd options d height entry =
     (let (p, upper, lower) = entry;
          b = band_of_extent rnd upper lower height (band_fraction options);
          s = get_string ''text'' (prose_base d (arena_number p)); pattern = normalize_running_text s
      in if b = No_Band \<or> int (word_count s) > maximum_furniture_words options \<or> pattern = [] then None
         else Some \<lparr>candidate_body = body_index p, candidate_text = arena_number p,
                    candidate_page = prose_page p, candidate_band = b, normalized = pattern\<rparr>)"

definition page_candidates ::
  "(rat \<Rightarrow> rat) \<Rightarrow> repair_options \<Rightarrow> msg \<Rightarrow> heights \<Rightarrow> placed_prose list \<Rightarrow> int \<Rightarrow> furniture_candidate list" where
  "page_candidates rnd options d hs prose page =
     (let items = filter (\<lambda>p. prose_page p = page) prose; height = (case hs page of None \<Rightarrow> 0 | Some h \<Rightarrow> h)
      in List.map_filter (candidate_of rnd options d height) (zip items (block_extents rnd (map prose_box items))))"

definition furniture_candidates :: "(rat \<Rightarrow> rat) \<Rightarrow> repair_options \<Rightarrow> msg \<Rightarrow> furniture_candidate list" where
  "furniture_candidates rnd options d =
     (let hs = document_page_heights d;
          prose = List.map_filter (place_prose rnd options d hs) [0..<length (body_items d)]
      in sort_key candidate_body
           (concat (map (page_candidates rnd options d hs prose) (sorted_list_of_set (set (map prose_page prose))))))"

definition repeat_threshold :: "(rat \<Rightarrow> rat) \<Rightarrow> repair_options \<Rightarrow> nat \<Rightarrow> int" where
  "repeat_threshold rnd options n_pages =
     max (minimum_repeat_pages options) \<lceil>rnd (minimum_repeat_share options * rat_of_nat n_pages)\<rceil>"

definition recurring :: "furniture_candidate list \<Rightarrow> int \<Rightarrow> furniture_candidate \<Rightarrow> bool" where
  "recurring candidates threshold c =
     (int (card (set (map candidate_page (filter (\<lambda>x. normalized x = normalized c) candidates)))) \<ge> threshold)"

definition numbers_page :: "msg \<Rightarrow> nat \<Rightarrow> furniture_candidate \<Rightarrow> bool" where
  "numbers_page d n_pages c = is_page_number (get_string ''text'' (prose_base d (candidate_text c))) (int n_pages)"

definition demoted_candidates :: "(rat \<Rightarrow> rat) \<Rightarrow> repair_options \<Rightarrow> msg \<Rightarrow> furniture_candidate list" where
  "demoted_candidates rnd options d =
     (let n_pages = page_count d; candidates = furniture_candidates rnd options d;
          threshold = repeat_threshold rnd options n_pages
      in if n_pages < 2 then []
         else sort_key (\<lambda>c. (candidate_page c, candidate_body c))
                (filter (\<lambda>c. recurring candidates threshold c \<or> numbers_page d n_pages c) candidates))"

definition mark_running :: "furniture_candidate \<Rightarrow> msg \<Rightarrow> msg" where
  "mark_running c base =
     set_parent ''#/furniture''
       (set_num ''content_layer'' content_layer_furniture
         (set_num ''label'' (if candidate_band c = Top_Band then label_page_header else label_page_footer) base))"

definition furniture_root :: "(string \<Rightarrow> msg) \<Rightarrow> msg \<Rightarrow> msg" where
  "furniture_root blank d = (case get_sub ''furniture'' d of None \<Rightarrow> blank ''GroupItem'' | Some f \<Rightarrow> f)"

definition demote_one :: "(string \<Rightarrow> msg) \<Rightarrow> furniture_candidate \<Rightarrow> msg \<Rightarrow> msg" where
  "demote_one blank c d =
     (let d = update_prose (mark_running c) (candidate_text c) d; f = furniture_root blank d
      in set_sub ''furniture''
           (Some (set_list ''children'' (get_list ''children'' f @ [body_items d ! candidate_body c]) f)) d)"

definition furniture_patterns :: "(rat \<Rightarrow> rat) \<Rightarrow> repair_options \<Rightarrow> msg \<Rightarrow> string list" where
  "furniture_patterns rnd options d =
     (let n_pages = page_count d; candidates = furniture_candidates rnd options d;
          threshold = repeat_threshold rnd options n_pages; demoted = demoted_candidates rnd options d
      in sorted_list_of_set (set (map normalized (filter (recurring candidates threshold) demoted)))
         @ (if list_all (recurring candidates threshold) demoted then [] else [''<page number>'']))"

definition demote_running_furniture ::
  "(rat \<Rightarrow> rat) \<Rightarrow> (string \<Rightarrow> msg) \<Rightarrow> repair_options \<Rightarrow> msg \<Rightarrow> nat \<times> string list \<times> msg" where
  "demote_running_furniture rnd blank options d =
     (let demoted = demoted_candidates rnd options d in
      if demoted = [] then (0, [], d)
      else
        let e = fold (demote_one blank) demoted d;
            kept = nths (body_items e) (- set (map candidate_body demoted))
        in (length demoted, furniture_patterns rnd options d, set_body_children kept e))"


subsection \<open>Demotion only moves\<close>

lemma nths_indices: "nths xs A = map ((!) xs) (filter (\<lambda>i. i \<in> A) [0..<length xs])"
proof (induction xs rule: rev_induct)
  case (snoc x xs)
  have "map ((!) (xs @ [x])) (filter (\<lambda>i. i \<in> A) [0..<length xs]) = map ((!) xs) (filter (\<lambda>i. i \<in> A) [0..<length xs])"
    by (auto simp: nth_append)
  with snoc show ?case by (simp add: nths_append)
qed simp

lemma mset_nths_indices:
  assumes "distinct is" "set is \<subseteq> {..<length xs}"
  shows "mset (nths xs (- set is)) + mset (map ((!) xs) is) = mset xs"
proof -
  have "mset is = mset (filter (\<lambda>i. i \<in> set is) [0..<length xs])"
    using assms by (intro set_eq_iff_mset_eq_distinct [THEN iffD1]) auto
  then have "mset (map ((!) xs) is) = mset (nths xs (set is))" by (simp add: nths_indices)
  moreover have "mset (nths xs (set is)) + mset (nths xs (- set is)) = mset (map ((!) xs) [0..<length xs])"
    using mset_filter_split [of "\<lambda>i. i \<in> set is" "[0..<length xs]"]
    unfolding nths_indices mset_map image_mset_union [symmetric] by (simp only: Compl_iff)
  ultimately show ?thesis by (simp add: map_nth add.commute)
qed

definition has_furniture :: "(string \<Rightarrow> msg) \<Rightarrow> msg \<Rightarrow> bool" where
  "has_furniture blank d =
     (list_slot ''children'' (furniture_root blank d)
      \<and> (case field_of ''furniture'' d of Some (Submessage _ _) \<Rightarrow> True | _ \<Rightarrow> False))"

lemma furniture_root_items:
  "get_list ''children'' (blank ''GroupItem'') = [] \<Longrightarrow> get_list ''children'' (furniture_root blank d) = furniture_items d"
  by (simp add: furniture_root_def furniture_items_def sub_or_default_def get_list_def [of _ "Msg [] [] []"]
      field_of_def [of _ "Msg [] [] []"] split: option.split)

lemma demote_one_moves:
  assumes "get_list ''children'' (blank ''GroupItem'') = []" "has_furniture blank d"
  shows "body_items (demote_one blank c d) = body_items d"
    and "furniture_items (demote_one blank c d) = furniture_items d @ [body_items d ! candidate_body c]"
    and "has_furniture blank (demote_one blank c d)"
proof -
  define e where "e = update_prose (mark_running c) (candidate_text c) d"
  have subs: "get_sub k e = get_sub k d" for k by (simp add: e_def update_prose_def Let_def)
  have field: "\<exists>nm v. field_of ''furniture'' e = Some (Submessage nm v)"
    using assms(2) by (auto simp: has_furniture_def e_def update_prose_def Let_def set_list_def field_of_update
        split: option.splits slot.splits)
  have root: "furniture_root blank e = furniture_root blank d" by (simp add: furniture_root_def subs)
  have same: "body_items e = body_items d" by (simp add: body_items_def sub_or_default_def subs)
  then show "body_items (demote_one blank c d) = body_items d"
    by (simp add: demote_one_def e_def [symmetric] Let_def body_items_def sub_or_default_def get_sub_set_sub)
  define f where "f = set_list ''children'' (furniture_items d @ [body_items d ! candidate_body c]) (furniture_root blank d)"
  have one: "demote_one blank c d = set_sub ''furniture'' (Some f) e"
    using furniture_root_items [of blank e, OF assms(1)] furniture_root_items [of blank d, OF assms(1)]
    by (simp add: demote_one_def e_def [symmetric] Let_def root same f_def)
  have "get_list ''children'' f = furniture_items d @ [body_items d ! candidate_body c]" "list_slot ''children'' f"
    using assms(2) by (simp_all add: f_def has_furniture_def get_list_of_slot)
  moreover have "get_sub ''furniture'' (demote_one blank c d) = Some f"
    using field by (auto simp: one get_sub_set_sub)
  ultimately show "furniture_items (demote_one blank c d) = furniture_items d @ [body_items d ! candidate_body c]"
    "has_furniture blank (demote_one blank c d)"
    using field by (auto simp: furniture_items_def sub_or_default_def has_furniture_def furniture_root_def one set_sub_def field_of_update)
qed

lemma demote_all_moves:
  assumes "get_list ''children'' (blank ''GroupItem'') = []" "has_furniture blank d"
  shows "body_items (fold (demote_one blank) cs d) = body_items d
     \<and> furniture_items (fold (demote_one blank) cs d) = furniture_items d @ map (\<lambda>c. body_items d ! candidate_body c) cs
     \<and> (get_sub ''body'' (fold (demote_one blank) cs d) = get_sub ''body'' d)"
  using assms(2)
proof (induction cs arbitrary: d)
  case (Cons c cs)
  have "get_sub ''body'' (demote_one blank c d) = get_sub ''body'' d"
    by (simp add: demote_one_def Let_def get_sub_set_sub update_prose_def Let_def)
  with Cons.IH [OF demote_one_moves(3) [of blank, OF assms(1) Cons.prems]] demote_one_moves(1,2) [of blank, OF assms(1) Cons.prems]
  show ?case by simp
qed simp


lemma placed_bodies:
  "distinct (map body_index (List.map_filter (place_prose rnd options d hs) [0..<n]))"
  "set (map body_index (List.map_filter (place_prose rnd options d hs) [0..<n])) \<subseteq> {..<n}"
proof -
  have at_index: "place_prose rnd options d hs i = Some p \<Longrightarrow> body_index p = i" for i p
    by (auto simp: place_prose_def Let_def split: option.splits if_splits)
  show range: "set (map body_index (List.map_filter (place_prose rnd options d hs) [0..<n])) \<subseteq> {..<n}" for n
    by (auto simp: List.map_filter_def dest: at_index)
  show "distinct (map body_index (List.map_filter (place_prose rnd options d hs) [0..<n]))"
  proof (induction n)
    case (Suc n)
    have "n \<notin> set (map body_index (List.map_filter (place_prose rnd options d hs) [0..<n]))" using range [of n] by auto
    with Suc show ?case
      by (cases "place_prose rnd options d hs n") (auto simp: List.map_filter_def dest: at_index)
  qed (simp add: List.map_filter_def)
qed

lemma page_candidates_bodies:
  "subseq (map candidate_body (page_candidates rnd options d hs prose page))
     (map body_index (filter (\<lambda>p. prose_page p = page) prose))"
proof -
  have "candidate_of rnd options d h e = Some c \<Longrightarrow> candidate_body c = body_index (fst e)" for h e c
    by (auto simp: candidate_of_def Let_def split: if_splits prod.splits)
  then have "subseq (map candidate_body (List.map_filter (candidate_of rnd options d h) es)) (map (body_index \<circ> fst) es)" for h es
    by (induction es) (auto simp: List.map_filter_def split: option.splits)
  from this [of "(case hs page of None \<Rightarrow> 0 | Some h \<Rightarrow> h)" "zip ps (block_extents rnd (map prose_box ps))" for ps]
  have *: "subseq (map candidate_body (page_candidates rnd options d hs prose page))
      (map (body_index \<circ> fst) (zip (filter (\<lambda>p. prose_page p = page) prose)
        (block_extents rnd (map prose_box (filter (\<lambda>p. prose_page p = page) prose)))))"
    by (simp add: page_candidates_def Let_def)
  have "subseq (map (body_index \<circ> fst) (zip xs ys)) (map body_index xs)" for xs :: "placed_prose list" and ys :: "(rat \<times> rat) list"
    by (induction xs ys rule: list_induct2') auto
  with * show ?thesis by (meson subseq_order.trans)
qed

lemma subseq_set: "subseq xs ys \<Longrightarrow> set xs \<subseteq> set ys"
  by (auto elim: list_emb_set)

lemma distinct_subseq: "subseq xs ys \<Longrightarrow> distinct ys \<Longrightarrow> distinct xs"
  by (induction rule: list_emb.induct) (auto dest: subseq_set)

lemma subseq_concat: "list_all2 subseq xss yss \<Longrightarrow> subseq (concat xss) (concat yss)"
  by (induction rule: list_all2_induct) (auto intro: list_emb_append_mono)

lemma distinct_by_page:
  assumes "distinct (map body_index prose)" "distinct pgs"
  shows "distinct (concat (map (\<lambda>page. map body_index (filter (\<lambda>p. prose_page p = page) prose)) pgs))"
  using assms(2)
proof (induction pgs)
  case (Cons page pgs)
  have inj: "inj_on body_index (set prose)" using assms(1) by (simp add: distinct_map)
  have "distinct (map body_index (filter (\<lambda>p. prose_page p = page) prose))" using assms(1) by (rule distinct_map_filter)
  with Cons inj show ?case by (fastforce dest: inj_onD)
qed simp

lemma candidate_bodies:
  "distinct (map candidate_body (furniture_candidates rnd options d))"
  "set (map candidate_body (furniture_candidates rnd options d)) \<subseteq> {..<length (body_items d)}"
proof -
  define hs where "hs = document_page_heights d"
  define prose where "prose = List.map_filter (place_prose rnd options d hs) [0..<length (body_items d)]"
  define pgs where "pgs = sorted_list_of_set (set (map prose_page prose))"
  define cs where "cs = concat (map (page_candidates rnd options d hs prose) pgs)"
  have sub: "subseq (map candidate_body cs) (concat (map (\<lambda>page. map body_index (filter (\<lambda>p. prose_page p = page) prose)) pgs))"
    unfolding cs_def map_concat map_map
    by (intro subseq_concat) (auto simp: list_all2_map1 list_all2_map2 list_all2_same page_candidates_bodies)
  have "distinct (map body_index prose)" "distinct pgs" by (simp_all add: prose_def placed_bodies pgs_def)
  then have "distinct (map candidate_body cs)" using sub distinct_by_page distinct_subseq by blast
  moreover have "set (map candidate_body cs) \<subseteq> {..<length (body_items d)}"
    using subseq_set [OF sub] placed_bodies(2) [of rnd options d hs "length (body_items d)"]
    by (fastforce simp: prose_def)
  moreover have "furniture_candidates rnd options d = sort_key candidate_body cs"
    by (simp only: furniture_candidates_def Let_def cs_def pgs_def prose_def hs_def)
  then have "mset (map candidate_body (furniture_candidates rnd options d)) = mset (map candidate_body cs)" by simp
  ultimately show "distinct (map candidate_body (furniture_candidates rnd options d))"
    "set (map candidate_body (furniture_candidates rnd options d)) \<subseteq> {..<length (body_items d)}"
    by (metis mset_eq_imp_distinct_iff, metis mset_eq_setD)
qed

lemma demoted_bodies:
  "distinct (map candidate_body (demoted_candidates rnd options d))
     \<and> set (map candidate_body (demoted_candidates rnd options d)) \<subseteq> {..<length (body_items d)}"
proof (cases "page_count d < 2")
  case False
  define cs where "cs = filter (\<lambda>c. recurring (furniture_candidates rnd options d) (repeat_threshold rnd options (page_count d)) c
      \<or> numbers_page d (page_count d) c) (furniture_candidates rnd options d)"
  have "mset (map candidate_body (demoted_candidates rnd options d)) = mset (map candidate_body cs)"
    using False by (simp add: demoted_candidates_def Let_def cs_def)
  moreover have "distinct (map candidate_body cs)" "set (map candidate_body cs) \<subseteq> {..<length (body_items d)}"
    using candidate_bodies [of rnd options d] by (auto simp: cs_def intro: distinct_map_filter)
  ultimately show ?thesis by (metis mset_eq_imp_distinct_iff mset_eq_setD)
qed (simp add: demoted_candidates_def Let_def)


lemma candidate_placed:
  assumes "c \<in> set (furniture_candidates rnd options d)"
  shows "\<exists>n p. prose_index d (body_items d ! candidate_body c) = Some n \<and> candidate_text c = n
     \<and> placement_of rnd (document_page_heights d) (get_list ''prov'' (prose_base d n)) = Some p \<and> candidate_page c = page_of p"
proof -
  define prose where "prose = List.map_filter (place_prose rnd options d (document_page_heights d)) [0..<length (body_items d)]"
  obtain page where c: "c \<in> set (page_candidates rnd options d (document_page_heights d) prose page)"
    using assms by (auto simp: furniture_candidates_def Let_def prose_def)
  then obtain h e where e: "candidate_of rnd options d h e = Some c" "fst e \<in> set prose"
    by (auto simp: page_candidates_def Let_def List.map_filter_def dest: set_zip_leftD)
  from e(2) obtain i where "place_prose rnd options d (document_page_heights d) i = Some (fst e)"
    by (auto simp: prose_def List.map_filter_def)
  moreover have "candidate_body c = body_index (fst e)" "candidate_text c = arena_number (fst e)" "candidate_page c = prose_page (fst e)"
    using e(1) by (auto simp: candidate_of_def Let_def split: if_splits prod.splits)
  ultimately show ?thesis
    by (cases "fst e") (auto simp: place_prose_def Let_def split: option.splits if_splits)
qed

text \<open>The candidates are demoted by page, then by place in the body: those that recur or count the pages.\<close>

lemma demoted_chosen:
  "set (demoted_candidates rnd options d) =
     {c \<in> set (furniture_candidates rnd options d). 2 \<le> page_count d
        \<and> (recurring (furniture_candidates rnd options d) (repeat_threshold rnd options (page_count d)) c
           \<or> numbers_page d (page_count d) c)}"
  "sorted (map (\<lambda>c. (candidate_page c, candidate_body c)) (demoted_candidates rnd options d))"
  by (auto simp: demoted_candidates_def Let_def)

lemma demotion_lists:
  assumes "get_list ''children'' (blank ''GroupItem'') = []" "has_furniture blank d"
    and result: "demote_running_furniture rnd blank options d = (n, names, d')"
  defines "cs \<equiv> demoted_candidates rnd options d"
  shows "n = length cs \<and> furniture_items d' = furniture_items d @ map (\<lambda>c. body_items d ! candidate_body c) cs
      \<and> body_items d' = nths (body_items d) (- set (map candidate_body cs))"
proof (cases "cs = []")
  case True
  then show ?thesis using result by (simp add: demote_running_furniture_def cs_def nths_all)
next
  case False
  define e where "e = fold (demote_one blank) cs d"
  define kept where "kept = nths (body_items e) (- set (map candidate_body cs))"
  note moves = demote_all_moves [of blank, OF assms(1,2), of cs, folded e_def]
  have result': "n = length cs" "d' = set_body_children kept e"
    using False result by (auto simp: demote_running_furniture_def Let_def cs_def e_def kept_def)
  have "body_items d \<noteq> []" using False demoted_bodies [of rnd options d, folded cs_def] by (cases cs) auto
  then have "get_sub ''body'' d \<noteq> None" "get_list ''children'' (sub_or_default ''body'' d) \<noteq> []"
    by (auto simp: body_items_def sub_or_default_def get_list_def [of _ "Msg [] [] []"] field_of_def [of _ "Msg [] [] []"] split: option.splits)
  then have "has_body e" using list_field moves by (fastforce simp: has_body_def sub_or_default_def list_slot_def)
  then have "body_items (set_body_children kept e) = kept" by (rule body_items_listed)
  moreover have "furniture_items (set_body_children kept e) = furniture_items e"
    by (simp add: furniture_items_def set_body_children_def sub_or_default_def get_sub_set_sub)
  ultimately show ?thesis using moves by (simp add: result' kept_def)
qed

text \<open>
  C32. Demoting running furniture only moves references: the body keeps the
  others in their order, and the furniture tree lists the moved ones, each
  once, after what it listed before, by page and within a page in body order.
  Moved is exactly what recurs on enough pages or numbers its page in a
  document of two pages or more, its page being the one its item is placed on,
  and the report counts the moved.
\<close>

theorem demotion_only_moves:
  assumes "get_list ''children'' (blank ''GroupItem'') = []" "has_furniture blank d"
  shows "case demote_running_furniture rnd blank options d of
     (n, _, d') \<Rightarrow>
       \<exists>moved. n = length moved
       \<and> set moved = {c \<in> set (furniture_candidates rnd options d). 2 \<le> page_count d
            \<and> (recurring (furniture_candidates rnd options d) (repeat_threshold rnd options (page_count d)) c
               \<or> numbers_page d (page_count d) c)}
       \<and> sorted (map (\<lambda>c. (candidate_page c, candidate_body c)) moved)
       \<and> distinct (map candidate_body moved) \<and> set (map candidate_body moved) \<subseteq> {..<length (body_items d)}
       \<and> (\<forall>c\<in>set moved. \<exists>n p. prose_index d (body_items d ! candidate_body c) = Some n \<and> candidate_text c = n
            \<and> placement_of rnd (document_page_heights d) (get_list ''prov'' (prose_base d n)) = Some p
            \<and> candidate_page c = page_of p)
       \<and> furniture_items d' = furniture_items d @ map (\<lambda>c. body_items d ! candidate_body c) moved
       \<and> body_items d' = nths (body_items d) (- set (map candidate_body moved))
       \<and> mset (body_items d') + mset (map (\<lambda>c. body_items d ! candidate_body c) moved) = mset (body_items d)"
proof -
  define cs where "cs = demoted_candidates rnd options d"
  note bodies = demoted_bodies [of rnd options d, folded cs_def]
  note chosen = demoted_chosen [of rnd options d, folded cs_def]
  have placed: "\<forall>c\<in>set cs. \<exists>n p. prose_index d (body_items d ! candidate_body c) = Some n \<and> candidate_text c = n
      \<and> placement_of rnd (document_page_heights d) (get_list ''prov'' (prose_base d n)) = Some p \<and> candidate_page c = page_of p"
    using candidate_placed chosen(1) by blast
  have split: "mset (nths (body_items d) (- set (map candidate_body cs))) + mset (map (\<lambda>c. body_items d ! candidate_body c) cs) = mset (body_items d)"
    using mset_nths_indices [OF conjunct1 [OF bodies] conjunct2 [OF bodies]] by (simp add: comp_def)
  obtain n names d' where result: "demote_running_furniture rnd blank options d = (n, names, d')" by (cases "demote_running_furniture rnd blank options d")
  note lists = demotion_lists [OF assms result, folded cs_def]
  from lists bodies chosen placed split show ?thesis
    unfolding result prod.case by (intro exI [of _ cs]) simp
qed

definition sample_prose :: "string \<Rightarrow> int \<Rightarrow> rat \<Rightarrow> msg" where
  "sample_prose s page upper =
     Msg ''p'' ''BaseTextItem'' [Submessage ''text'' (Some (Msg ''p'' ''TextItem'' [Submessage ''base'' (Some (Msg ''p'' ''TextItemBase''
       [Singular ''text'' False True (Some (Str s)), Singular ''label'' False False (Some (Num 22)),
        Singular ''content_layer'' False False (Some (Num 1)), Messages ''children'' False ''RefItem'' [],
        Submessage ''parent'' (Some (ref_item ''#/body'')),
        Messages ''prov'' False ''ProvenanceItem''
          [Msg ''p'' ''ProvenanceItem'' [Singular ''page_no'' False False (Some (Num page)),
             Submessage ''bbox'' (Some (Msg ''p'' ''BoundingBox''
               [Singular ''l'' False False (Some (Flt 10)), Singular ''t'' False False (Some (Flt upper)),
                Singular ''r'' False False (Some (Flt 60)), Singular ''b'' False False (Some (Flt (upper + 10)))]))]]]))]))]"

definition sample_page :: "int \<Rightarrow> msg" where
  "sample_page n = Msg ''p'' ''PagesEntry'' [Singular ''key'' False False (Some (Num n)),
     Submessage ''value'' (Some (Msg ''p'' ''PageItem'' [Submessage ''size'' (Some (Msg ''p'' ''Size''
       [Singular ''height'' False False (Some (Flt 800))]))]))]"

definition sample_numbered :: msg where
  "sample_numbered = Msg ''p'' ''Document''
     [Submessage ''body'' (Some (sample_group [ref_item ''#/texts/0'', ref_item ''#/texts/1'', ref_item ''#/texts/2''])),
      Submessage ''furniture'' (Some (sample_group [])),
      Messages ''texts'' False ''BaseTextItem''
        [sample_prose ''Page i'' 1 780, sample_prose ''Some prose'' 2 400, sample_prose ''Page ii'' 2 780],
      Messages ''pages'' True ''PagesEntry'' [sample_page 1, sample_page 2]]"

lemma sample_demoted: "map candidate_body (demoted_candidates (\<lambda>x. x) (default_repairs (\<lambda>x. x)) sample_numbered) = [0, 2]"
  by code_simp


theorem demotion_only_moves_witness:
  "case demote_running_furniture (\<lambda>x. x) (\<lambda>_. sample_group []) (default_repairs (\<lambda>x. x)) sample_numbered of
     (n, _, d') \<Rightarrow> n = 2 \<and> body_items d' = [ref_item ''#/texts/1'']"
proof -
  have empty: "get_list ''children'' (sample_group []) = []" "has_furniture (\<lambda>_. sample_group []) sample_numbered"
    and items: "body_items sample_numbered = [ref_item ''#/texts/0'', ref_item ''#/texts/1'', ref_item ''#/texts/2'']"
    by code_simp+
  have "n = 2 \<and> body = [ref_item ''#/texts/1'']"
    if "n = length moved" "set moved = set (demoted_candidates (\<lambda>x. x) (default_repairs (\<lambda>x. x)) sample_numbered)"
      "distinct (map candidate_body moved)" "body = nths (body_items sample_numbered) (- set (map candidate_body moved))"
    for n moved and body :: "msg list"
  proof -
    have bodies: "set (map candidate_body moved) = {0, 2}"
      using arg_cong [OF sample_demoted, of set] that(2) by simp
    then have "length (map candidate_body moved) = 2" using distinct_card [OF that(3)] by simp
    then show ?thesis using that(1,4) unfolding bodies items by (simp add: nths_Cons)
  qed
  then show ?thesis
    using demotion_only_moves [of "\<lambda>_. sample_group []" sample_numbered "\<lambda>x. x" "default_repairs (\<lambda>x. x)", OF empty]
    unfolding demoted_chosen(1) [symmetric] by (auto simp: case_prod_beta)
qed

end
