(* ===== verification/TextRepairs.thy ===== *)
theory TextRepairs
  imports RunningFurniture
begin

text \<open>
  The text repairs over a whole document (\<^verbatim>\<open>src/src/document_repair.cpp\<close>): rejoining the
  hyphenated words of its prose, merging the paragraphs a page or column break split, and
  retiring the text items a merge emptied. \<open>blank\<close> gives the default message of a type; a
  message serializes the same exactly when it is equal. A body lists an item once: the
  code has undefined behaviour when it absorbs an item into itself.
\<close>

subsection \<open>Hyphenation over a document\<close>

definition from_collectors :: "string list \<Rightarrow> msg \<Rightarrow> bool" where
  "from_collectors collectors base =
     (get_list ''source'' base \<noteq> []
      \<and> list_all (\<lambda>source. case get_sub ''collector'' source of
             None \<Rightarrow> False | Some c \<Rightarrow> get_string ''collector'' c \<in> set collectors) (get_list ''source'' base))"

definition move_bounds :: "(int \<Rightarrow> int) \<Rightarrow> msg \<Rightarrow> msg" where
  "move_bounds f bounds =
     set_num ''end'' (f (get_num ''end'' bounds)) (set_num ''start'' (f (get_num ''start'' bounds)) bounds)"

definition move_span :: "(string \<Rightarrow> msg) \<Rightarrow> (int \<Rightarrow> int) \<Rightarrow> msg \<Rightarrow> msg" where
  "move_span blank f sp =
     (let bounds = (case get_sub ''range'' sp of None \<Rightarrow> blank ''IntSpan'' | Some r \<Rightarrow> r)
      in set_sub ''range'' (Some (move_bounds f bounds)) sp)"

definition move_charspan :: "(int \<Rightarrow> int) \<Rightarrow> msg \<Rightarrow> msg" where
  "move_charspan f entry =
     (case get_sub ''charspan'' entry of
        None \<Rightarrow> entry | Some c \<Rightarrow> set_sub ''charspan'' (Some (move_bounds f c)) entry)"

definition rejoin_base :: "(string \<Rightarrow> msg) \<Rightarrow> rejoin \<Rightarrow> msg \<Rightarrow> msg" where
  "rejoin_base blank r base =
     (let f = remap (removed_runs r); base = set_string ''text'' (rejoin_out r) base;
          base = set_list ''spans'' (map (move_span blank f) (get_list ''spans'' base)) base
      in set_list ''prov'' (map (move_charspan f) (get_list ''prov'' base)) base)"

definition rejoin_item ::
  "(string \<Rightarrow> msg) \<Rightarrow> string list \<Rightarrow> nat \<Rightarrow> (nat \<times> nat) \<times> msg \<Rightarrow> (nat \<times> nat) \<times> msg" where
  "rejoin_item blank collectors i state =
     (let ((rejoined_words, soft_hyphens), d) = state; item = get_list ''texts'' d ! i;
          base = text_payload item; s = get_string ''text'' base in
      if \<not> is_prose item then state
      else if CHR ''-'' \<notin> set s \<and> \<not> contains s kSoftHyphen then state
      else
        let r = rejoin_hyphenated_words (from_collectors collectors base) s in
        if words_rejoined r = 0 \<and> soft_hyphens_removed r = 0 then state
        else ((rejoined_words + words_rejoined r, soft_hyphens + soft_hyphens_removed r),
              update_prose (rejoin_base blank r) i d))"

definition rejoin_hyphenation :: "(string \<Rightarrow> msg) \<Rightarrow> string list \<Rightarrow> msg \<Rightarrow> (nat \<times> nat) \<times> msg" where
  "rejoin_hyphenation blank collectors d =
     fold (rejoin_item blank collectors) [0..<length (get_list ''texts'' d)] ((0, 0), d)"

subsection \<open>What continues what\<close>

definition ends_open :: "string \<Rightarrow> bool" where
  "ends_open s = (let trimmed = trim_right s in trimmed \<noteq> [] \<and> last trimmed \<notin> set kTerminalPunctuation)"

definition starts_lowercase :: "string \<Rightarrow> bool" where
  "starts_lowercase s = (let trimmed = trim_left s in trimmed \<noteq> [] \<and> c_islower (hd trimmed))"

record end_placement =
  end_page :: int
  end_top :: rat
  end_bottom :: rat
  end_left :: rat
  end_right :: rat
  end_height :: rat

definition last_page :: "msg list \<Rightarrow> int" where
  "last_page prov = fold (\<lambda>entry page. max page (get_num ''page_no'' entry)) prov 0"

definition better_placement ::
  "(rat \<Rightarrow> rat) \<Rightarrow> int \<Rightarrow> rat \<Rightarrow> bool \<Rightarrow> msg \<Rightarrow> end_placement option \<Rightarrow> end_placement option" where
  "better_placement rnd page height lowest entry best =
     (case get_sub ''bbox'' entry of
        None \<Rightarrow> best
      | Some bbox \<Rightarrow>
          if get_num ''page_no'' entry \<noteq> page then best
          else
            let box = make_top_down rnd bbox height;
                better = (case best of
                            None \<Rightarrow> True
                          | Some p \<Rightarrow> if lowest then bottom_side box > end_bottom p else top_side box < end_top p)
            in if better
               then Some \<lparr>end_page = page, end_top = top_side box, end_bottom = bottom_side box,
                          end_left = get_dbl ''l'' bbox, end_right = get_dbl ''r'' bbox, end_height = height\<rparr>
               else best)"

definition placement_on :: "(rat \<Rightarrow> rat) \<Rightarrow> heights \<Rightarrow> msg \<Rightarrow> int \<Rightarrow> bool \<Rightarrow> end_placement option" where
  "placement_on rnd hs item page lowest =
     (case hs page of
        None \<Rightarrow> None
      | Some height \<Rightarrow>
          if page \<le> 0 then None else fold (better_placement rnd page height lowest) (get_list ''prov'' item) None)"

definition kPageBreakDepth :: rat where "kPageBreakDepth = 1 / 2"
definition kMinimumContinuationWord :: nat where "kMinimumContinuationWord = 2"
definition kFragmentWords :: nat where "kFragmentWords = 6"
definition kLongParagraphWords :: nat where "kLongParagraphWords = 12"

definition reads_as_continuation :: "string \<Rightarrow> string \<Rightarrow> bool" where
  "reads_as_continuation head_text tail_text =
     (let tail = trim_left tail_text in
      if length (leading_word tail) < kMinimumContinuationWord then False
      else
        let trimmed = trim_right tail;
            fragment = word_count tail < kFragmentWords \<and> trimmed \<noteq> [] \<and> last trimmed \<in> set kTerminalPunctuation
        in \<not> (fragment \<and> word_count head_text \<ge> kLongParagraphWords))"

definition column_break :: "(rat \<Rightarrow> rat) \<Rightarrow> end_placement \<Rightarrow> end_placement \<Rightarrow> bool" where
  "column_break rnd head_end tail_start =
     (let line_height = max (rnd (end_bottom head_end - end_top head_end)) 1
      in if end_top tail_start > rnd (end_top head_end - line_height) then False
         else end_left tail_start \<ge> end_right head_end)"

definition text_continues :: "(rat \<Rightarrow> rat) \<Rightarrow> heights \<Rightarrow> msg \<Rightarrow> msg \<Rightarrow> bool" where
  "text_continues rnd hs head tail =
     (if get_list ''children'' head \<noteq> [] \<or> get_list ''children'' tail \<noteq> [] then False
      else if \<not> ends_open (get_string ''text'' head) \<or> \<not> starts_lowercase (get_string ''text'' tail) then False
      else if \<not> reads_as_continuation (get_string ''text'' head) (get_string ''text'' tail) then False
      else case (placement_on rnd hs head (last_page (get_list ''prov'' head)) True,
                 placement_on rnd hs tail (first_page_of (get_list ''prov'' tail)) False) of
             (Some head_end, Some tail_start) \<Rightarrow>
               if end_page tail_start = end_page head_end + 1
               then end_bottom head_end \<ge> rnd (end_height head_end * kPageBreakDepth)
               else if end_page tail_start = end_page head_end then column_break rnd head_end tail_start
               else False
           | _ \<Rightarrow> False)"

subsection \<open>Joining two paragraphs\<close>

definition joined_text :: "string \<Rightarrow> string \<Rightarrow> string" where
  "joined_text head tail =
     (let h = trim_right head; t = trim_left tail; stem = butlast h;
          head_word = trailing_word stem; tail_word = leading_word t in
      if h \<noteq> [] \<and> last h = CHR ''-'' \<and> \<not> suspended_hyphen t \<and> head_word \<noteq> [] \<and> tail_word \<noteq> []
      then take (length h - 1 - length head_word) h @ join_hyphenated_fragments head_word tail_word
           @ drop (length tail_word) t
      else h @ '' '' @ t)"

definition add_source :: "msg \<Rightarrow> msg list \<Rightarrow> msg list" where
  "add_source source have_sources = (if source \<in> set have_sources then have_sources else have_sources @ [source])"

definition add_field :: "msg \<Rightarrow> msg list \<Rightarrow> msg list" where
  "add_field entry fields_so_far =
     (if get_string ''key'' entry \<in> get_string ''key'' ` set fields_so_far then fields_so_far else fields_so_far @ [entry])"

definition absorb_meta :: "(string \<Rightarrow> msg) \<Rightarrow> msg \<Rightarrow> msg \<Rightarrow> msg" where
  "absorb_meta blank tail head =
     (case get_sub ''meta'' tail of
        None \<Rightarrow> head
      | Some meta \<Rightarrow>
          let own = (case get_sub ''meta'' head of None \<Rightarrow> blank ''BaseMeta'' | Some m \<Rightarrow> m)
          in set_sub ''meta''
               (Some (set_list ''custom_fields''
                 (fold add_field (get_list ''custom_fields'' meta) (get_list ''custom_fields'' own)) own)) head)"

definition absorb :: "(string \<Rightarrow> msg) \<Rightarrow> msg \<Rightarrow> msg \<Rightarrow> msg" where
  "absorb blank tail head =
     (let head_text = get_string ''text'' head; tail_text = get_string ''text'' tail;
          joined = joined_text head_text tail_text;
          shift_by = int (codepoint_at joined (length joined)) - int (codepoint_at tail_text (length tail_text));
          head_orig = get_string ''orig'' head; tail_orig = get_string ''orig'' tail;
          h = set_string ''text'' joined head;
          h = (if head_orig = [] \<and> tail_orig = [] then h
               else set_string ''orig'' (joined_text (if head_orig = [] then head_text else head_orig)
                      (if tail_orig = [] then tail_text else tail_orig)) h);
          h = set_list ''prov'' (get_list ''prov'' h @ get_list ''prov'' tail) h;
          h = set_list ''spans''
                (get_list ''spans'' h @ map (move_span blank (\<lambda>p. p + shift_by)) (get_list ''spans'' tail)) h;
          h = set_list ''comments'' (get_list ''comments'' h @ get_list ''comments'' tail) h;
          h = set_list ''source'' (fold add_source (get_list ''source'' tail) (get_list ''source'' h)) h
      in absorb_meta blank tail h)"

subsection \<open>Retiring text items\<close>

definition texts_ref :: "nat \<Rightarrow> string" where
  "texts_ref i = ''#/texts/'' @ to_dec i"

definition text_self_ref :: "nat \<Rightarrow> msg \<Rightarrow> string" where
  "text_self_ref i item =
     (case text_node item of
        None \<Rightarrow> texts_ref i
      | Some node \<Rightarrow> if get_string ''self_ref'' node = [] then texts_ref i else get_string ''self_ref'' node)"

text \<open>A \<^verbatim>\<open>std::map\<close> from a retired reference to the one that absorbed it.\<close>

type_synonym absorptions = "(string \<times> string) list"

definition retired_parents :: "absorptions \<Rightarrow> msg \<Rightarrow> string set" where
  "retired_parents absorbed_by d =
     set (List.map_filter (\<lambda>(i, item).
       if text_self_ref i item \<in> fst ` set absorbed_by then Option.bind (text_node item) parent_link else None)
       (List.enumerate 0 (get_list ''texts'' d)))"

fun survivor_of :: "absorptions \<Rightarrow> nat \<Rightarrow> string \<Rightarrow> string" where
  "survivor_of absorbed_by 0 ref = ref"
| "survivor_of absorbed_by (Suc hops) ref =
     (case map_of absorbed_by ref of None \<Rightarrow> ref | Some absorber \<Rightarrow> survivor_of absorbed_by hops absorber)"

definition text_positions :: "msg \<Rightarrow> string \<Rightarrow> nat option" where
  "text_positions d = map_of (map (\<lambda>(i, item). (text_self_ref i item, i)) (List.enumerate 0 (get_list ''texts'' d)))"

definition adopt_child :: "msg \<Rightarrow> msg list \<Rightarrow> msg list" where
  "adopt_child child adopting =
     (if get_string ''ref'' child \<in> get_string ''ref'' ` set adopting then adopting else adopting @ [child])"

definition adopt_into ::
  "absorptions \<Rightarrow> (string \<Rightarrow> nat option) \<Rightarrow> string \<times> string \<Rightarrow> msg \<Rightarrow> msg" where
  "adopt_into absorbed_by spots entry d =
     (case (spots (fst entry), spots (survivor_of absorbed_by (length (get_list ''texts'' d)) (snd entry))) of
        (Some i, Some j) \<Rightarrow>
          (case (text_node (get_list ''texts'' d ! i), text_node (get_list ''texts'' d ! j)) of
             (Some moving, Some _) \<Rightarrow>
               if i = j then d
               else
                 update_node (Item ''texts'' i) (set_list ''children'' [])
                   (update_node (Item ''texts'' j)
                     (\<lambda>n. set_list ''children''
                        (fold adopt_child (get_list ''children'' moving) (get_list ''children'' n)) n) d)
           | _ \<Rightarrow> d)
      | _ \<Rightarrow> d)"

definition adopt_children :: "absorptions \<Rightarrow> msg \<Rightarrow> msg" where
  "adopt_children absorbed_by d = fold (adopt_into absorbed_by (text_positions d)) absorbed_by d"

definition keep_text :: "string set \<Rightarrow> nat \<times> msg \<Rightarrow> msg list \<times> (string \<times> string) list \<Rightarrow> msg list \<times> (string \<times> string) list" where
  "keep_text retired entry state =
     (let (kept, renumbering) = state;
          old_ref = text_self_ref (fst entry) (snd entry); new_ref = texts_ref (length kept)
      in if old_ref \<in> retired then state
         else (kept @ [snd entry], if old_ref \<noteq> new_ref then AList.update old_ref new_ref renumbering else renumbering))"

definition prune_node :: "string set \<Rightarrow> string set \<Rightarrow> node_id \<Rightarrow> msg \<Rightarrow> msg" where
  "prune_node retired parents k n =
     (let always = (case k of Item a _ \<Rightarrow> a = ''groups'' | _ \<Rightarrow> True) in
      if always \<or> get_string ''self_ref'' n \<in> parents
      then set_list ''children'' (filter (\<lambda>c. get_string ''ref'' c \<notin> retired) (get_list ''children'' n)) n
      else n)"

definition prune_retired :: "string set \<Rightarrow> string set \<Rightarrow> msg \<Rightarrow> msg" where
  "prune_retired retired parents d =
     fold (\<lambda>node. update_node (snd node) (prune_node retired parents (snd node))) (all_nodes d) d"

definition retire_text_items ::
  "(string \<Rightarrow> msg) \<Rightarrow> absorptions \<Rightarrow> msg \<times> rename_log option \<Rightarrow> msg \<times> rename_log option" where
  "retire_text_items blank absorbed_by state =
     (let (d, renames) = state;
          retired = fst ` set absorbed_by;
          parents = retired_parents absorbed_by d;
          d = adopt_children absorbed_by (materialize blank d);
          (kept, renumbering) = fold (keep_text retired) (List.enumerate 0 (get_list ''texts'' d)) ([], []);
          renumbering = fold follow_parent absorbed_by renumbering;
          d = prune_retired retired parents (set_list ''texts'' kept d)
      in if renumbering = [] then (d, renames) else rewrite_references (sort_key fst renumbering) (d, renames))"

subsection \<open>Merging continuations\<close>

definition index_after :: "string \<Rightarrow> string \<Rightarrow> nat option" where
  "index_after ref stem = (if starts_with ref stem then dec_value_acc 0 (drop (length stem) ref) else None)"

definition layer_in :: "msg \<Rightarrow> string \<Rightarrow> string \<Rightarrow> int option" where
  "layer_in d a ref =
     (case index_after ref (''#/'' @ a @ ''/'') of
        None \<Rightarrow> None
      | Some i \<Rightarrow>
          if i \<ge> length (get_list a d) then None
          else Some (case item_node a (get_list a d ! i) of
                       None \<Rightarrow> content_layer_body | Some n \<Rightarrow> get_num ''content_layer'' n))"

definition item_layer :: "msg \<Rightarrow> string \<Rightarrow> int" where
  "item_layer d ref =
     (case List.map_filter (\<lambda>a. layer_in d a ref) [''texts'', ''tables'', ''pictures'', ''groups''] of
        layer # _ \<Rightarrow> layer | [] \<Rightarrow> content_layer_body)"

record merging =
  merged_document :: msg
  absorbed_refs :: absorptions
  anchor :: "(nat \<times> string) option"
  merges :: nat

definition merge_child ::
  "(rat \<Rightarrow> rat) \<Rightarrow> (string \<Rightarrow> msg) \<Rightarrow> repair_options \<Rightarrow> heights \<Rightarrow> msg \<Rightarrow> merging \<Rightarrow> merging" where
  "merge_child rnd blank options hs child st =
     (let d = merged_document st; ref = get_string ''ref'' child in
      if migrate_furniture options \<and> item_layer d ref = content_layer_furniture then st
      else case prose_index d child of
             None \<Rightarrow> st\<lparr>anchor := None\<rparr>
           | Some j \<Rightarrow>
               let base = prose_base d j;
                   own_ref = (if get_string ''self_ref'' base = [] then ref else get_string ''self_ref'' base)
               in case anchor st of
                    None \<Rightarrow> st\<lparr>anchor := Some (j, own_ref)\<rparr>
                  | Some (i, anchor_ref) \<Rightarrow>
                      if int (merges st) < maximum_continuation_merges options
                         \<and> text_continues rnd hs (prose_base d i) base
                      then st\<lparr>merged_document := update_prose (absorb blank base) i d,
                              absorbed_refs := AList.update own_ref anchor_ref (absorbed_refs st),
                              merges := merges st + 1\<rparr>
                      else st\<lparr>anchor := Some (j, own_ref)\<rparr>)"

definition merge_continuations ::
  "(rat \<Rightarrow> rat) \<Rightarrow> (string \<Rightarrow> msg) \<Rightarrow> repair_options \<Rightarrow> msg \<times> rename_log option \<Rightarrow> nat \<times> msg \<times> rename_log option" where
  "merge_continuations rnd blank options state =
     (let (d, renames) = state;
          d = present ''body'' (blank ''GroupItem'') d;
          st = fold (merge_child rnd blank options (document_page_heights d)) (body_items d)
                 \<lparr>merged_document = d, absorbed_refs = [], anchor = None, merges = 0\<rparr>
      in if merges st > 0
         then (merges st, retire_text_items blank (sort_key fst (absorbed_refs st)) (merged_document st, renames))
         else (0, merged_document st, renames))"

subsection \<open>What a setter leaves alone\<close>

lemma field_update_other: "(\<And>s. slot_name (f s) = slot_name s) \<Longrightarrow> n \<noteq> k \<Longrightarrow> field_of n (update_field k f m) = field_of n m"
  by (cases "field_of n m") (simp_all add: field_of_update)

lemma get_num_setters [simp]:
  "get_num n (set_list k es m) = get_num n m" "get_num n (set_sub k v m) = get_num n m"
proof -
  show "get_num n (set_list k es m) = get_num n m"
  proof (cases "field_of n m")
    case (Some s)
    then show ?thesis by (cases s) (auto simp: get_num_def set_list_def field_of_update)
  qed (simp add: get_num_def set_list_def field_of_update)
  show "get_num n (set_sub k v m) = get_num n m"
  proof (cases "field_of n m")
    case (Some s)
    then show ?thesis by (cases s) (auto simp: get_num_def set_sub_def field_of_update)
  qed (simp add: get_num_def set_sub_def field_of_update)
qed

lemma get_num_set_string: "n \<noteq> k \<Longrightarrow> get_num n (set_string k t m) = get_num n m"
  by (simp add: get_num_def set_string_def field_update_other)

lemma get_sub_set_string [simp]: "get_sub n (set_string k t m) = get_sub n m"
proof (cases "field_of n m")
  case (Some s)
  then show ?thesis by (cases s) (auto simp: get_sub_def set_string_def field_of_update)
qed (simp add: get_sub_def set_string_def field_of_update)

lemma get_string_set_string_same: "get_string k m \<noteq> [] \<Longrightarrow> get_string k (set_string k t m) = t"
  by (auto simp: get_string_def set_string_def field_of_update set_string_value_def split: option.splits slot.splits scalar.splits)

lemma get_string_set_string_other: "n \<noteq> k \<Longrightarrow> get_string n (set_string k t m) = get_string n m"
  by (simp add: get_string_def set_string_def field_update_other)

lemmas frame_simps = get_list_set_list_other get_string_set_string_other get_num_set_string get_sub_set_sub

subsection \<open>Joining keeps every visible character\<close>

definition visible :: "string \<Rightarrow> string" where
  "visible s = filter (\<lambda>c. \<not> c_isspace c \<and> c \<noteq> CHR ''-'') s"

lemma visible_append [simp]: "visible (s @ t) = visible s @ visible t" "visible [] = []"
  by (simp_all add: visible_def)

lemma visible_trim [simp]: "visible (trim_left s) = visible s" "visible (trim_right s) = visible s"
proof -
  have left: "visible (dropWhile c_isspace s) = visible s" for s by (induction s) (auto simp: visible_def)
  then show "visible (trim_left s) = visible s" by (simp add: trim_left_def)
  show "visible (trim_right s) = visible s"
    using left [of "rev s"] unfolding trim_right_def visible_def by (metis rev_filter rev_rev_ident)
qed

lemma visible_joined: "visible (joined_text head tail) = visible head @ visible tail"
proof -
  define h where "h = trim_right head"
  define t where "t = trim_left tail"
  have vh: "visible head = visible h" and vt: "visible tail = visible t" by (simp_all add: h_def t_def)
  define stem where "stem = butlast h"
  have space: "visible (CHR '' '' # t) = visible t" by (simp add: visible_def c_isspace_def byte_val_def)
  have hyphen: "visible (if b then ''-'' else []) = []" for b by (simp add: visible_def)
  show ?thesis
  proof (cases "h \<noteq> [] \<and> last h = CHR ''-'' \<and> \<not> suspended_hyphen t \<and> trailing_word stem \<noteq> [] \<and> leading_word t \<noteq> []")
    case True
    then have "h = stem @ ''-''" by (metis append_butlast_last_id stem_def)
    then have vstem: "visible h = visible stem" "take (length h - 1 - length (trailing_word stem)) h = take (length stem - length (trailing_word stem)) stem"
      by (simp_all add: visible_def)
    have "visible stem = visible (take (length stem - length (trailing_word stem)) stem) @ visible (trailing_word stem)"
      by (metis trailing_word_suffix visible_append(1))
    moreover have "visible t = visible (leading_word t) @ visible (drop (length (leading_word t)) t)"
      by (metis append_take_drop_id take_leading_word visible_append(1))
    ultimately show ?thesis
      using True vstem
      by (simp add: joined_text_def Let_def h_def [symmetric] t_def [symmetric] stem_def [symmetric] vh vt
          join_hyphenated_fragments_def hyphen)
  next
    case False
    then have "joined_text head tail = h @ '' '' @ t"
      by (auto simp: joined_text_def Let_def h_def [symmetric] t_def [symmetric] stem_def [symmetric])
    then show ?thesis by (simp add: vh vt space)
  qed
qed


subsection \<open>The body reads the same after merging\<close>

text \<open>The visible characters of a body child's prose when its layer is one of \<open>P\<close>, and of the body's.\<close>

definition visible_prose :: "(int \<Rightarrow> bool) \<Rightarrow> msg \<Rightarrow> msg \<Rightarrow> string" where
  "visible_prose P d child =
     (case prose_index d child of
        None \<Rightarrow> []
      | Some i \<Rightarrow> if P (get_num ''content_layer'' (prose_base d i)) then visible (get_string ''text'' (prose_base d i)) else [])"

definition body_visible :: "(int \<Rightarrow> bool) \<Rightarrow> msg \<Rightarrow> string" where
  "body_visible P d = concat (map (visible_prose P d) (body_items d))"

text \<open>The layers a merge looks past, and a reading of them alone or of all the others.\<close>

definition looked_past :: "repair_options \<Rightarrow> int \<Rightarrow> bool" where
  "looked_past options layer = (migrate_furniture options \<and> layer = content_layer_furniture)"

definition fair_reading :: "repair_options \<Rightarrow> (int \<Rightarrow> bool) \<Rightarrow> bool" where
  "fair_reading options P = (P = looked_past options \<or> P = (\<lambda>layer. \<not> looked_past options layer))"

lemma empty_msg_fields [simp]:
  "get_num n (Msg [] [] []) = 0" "get_string n (Msg [] [] []) = []" "get_list n (Msg [] [] []) = []" "get_sub n (Msg [] [] []) = None"
  by (simp_all add: get_num_def get_string_def get_list_def get_sub_def field_of_def)

lemma prose_present:
  assumes "is_prose item"
  obtains t b where "get_sub ''text'' item = Some t" "get_sub ''base'' t = Some b" "text_payload item = b"
    "text_variant item = Some ''text''"
proof -
  have variant: "text_variant item = Some ''text''" and label: "get_num ''label'' (text_payload item) \<noteq> 0"
    using assms by (auto simp: is_prose_def label_text_def label_paragraph_def)
  from variant obtain t where t: "get_sub ''text'' item = Some t"
    unfolding text_variant_def find_Some_iff by fastforce
  with label obtain b where "get_sub ''base'' t = Some b"
    by (cases "get_sub ''base'' t") (auto simp: text_payload_def sub_or_default_def)
  with t variant that show ?thesis by (simp add: text_payload_def sub_or_default_def)
qed

lemma text_variant_same: "(\<And>v. (get_sub v item' = None) = (get_sub v item = None)) \<Longrightarrow> text_variant item' = text_variant item"
  by (simp add: text_variant_def)

definition set_payload :: "msg \<Rightarrow> msg \<Rightarrow> msg" where
  "set_payload b item = set_sub ''text'' (Some (set_sub ''base'' (Some b) (sub_or_default ''text'' item))) item"

lemma set_payload_prose:
  assumes "is_prose item"
  shows "text_payload (set_payload b item) = b" "text_variant (set_payload b item) = Some ''text''"
proof -
  obtain t b' where t: "get_sub ''text'' item = Some t" "get_sub ''base'' t = Some b'" "text_variant item = Some ''text''"
    using assms by (rule prose_present)
  then have "get_sub ''text'' (set_payload b item) = Some (set_sub ''base'' (Some b) t)"
    by (simp add: set_payload_def sub_or_default_def get_sub_set_sub_same)
  with t show "text_payload (set_payload b item) = b"
    by (simp add: text_payload_def sub_or_default_def get_sub_set_sub_same)
  have "(get_sub v (set_payload b item) = None) = (get_sub v item = None)" for v
    using t by (auto simp: set_payload_def get_sub_set_sub)
  then show "text_variant (set_payload b item) = Some ''text''" using t(3) text_variant_same by metis
qed

lemma texts_update_prose:
  "get_list ''texts'' (update_prose f i d) = (get_list ''texts'' d)[i := set_payload (f (prose_base d i)) (get_list ''texts'' d ! i)]"
  unfolding update_prose_def Let_def
  by (subst get_list_set_list_length) (simp_all add: set_payload_def prose_base_def text_payload_def)

lemma subs_update_prose [simp]: "get_sub k (update_prose f i d) = get_sub k d"
  by (simp add: update_prose_def Let_def)

lemma lists_update_prose: "a \<noteq> ''texts'' \<Longrightarrow> get_list a (update_prose f i d) = get_list a d"
  by (simp add: update_prose_def Let_def get_list_set_list_other)

text \<open>Two text items that differ at most in the words of their prose.\<close>

definition retexted :: "msg \<Rightarrow> msg \<Rightarrow> bool" where
  "retexted a b =
     (a = b \<or> is_prose a \<and> is_prose b
        \<and> get_string ''self_ref'' (text_payload a) = get_string ''self_ref'' (text_payload b)
        \<and> get_list ''children'' (text_payload a) = get_list ''children'' (text_payload b)
        \<and> get_num ''content_layer'' (text_payload a) = get_num ''content_layer'' (text_payload b))"

lemma retexted_layer: "retexted a b \<Longrightarrow> get_num ''content_layer'' (text_payload b) = get_num ''content_layer'' (text_payload a)"
  by (auto simp: retexted_def)

lemma retexted_prose: "retexted a b \<Longrightarrow> is_prose a = is_prose b"
  by (auto simp: retexted_def)

lemma prose_text_node: "is_prose item \<Longrightarrow> text_node item = Some (text_payload item)"
  by (erule prose_present) (simp add: text_node_def text_base_of_def text_payload_def)

lemma retexted_self_ref: "retexted a b \<Longrightarrow> text_self_ref i a = text_self_ref i b"
  by (auto simp: retexted_def text_self_ref_def prose_text_node)

definition retexted_doc :: "msg \<Rightarrow> msg \<Rightarrow> bool" where
  "retexted_doc d e = (list_all2 retexted (get_list ''texts'' d) (get_list ''texts'' e) \<and> (\<forall>k. get_sub k e = get_sub k d))"

lemma retexted_index: "retexted_doc d e \<Longrightarrow> prose_index e child = prose_index d child"
  by (auto simp: retexted_doc_def prose_index_def list_all2_conv_all_nth dest: retexted_prose split: option.splits)

lemma absorb_text: "get_string ''text'' head \<noteq> [] \<Longrightarrow>
   get_string ''text'' (absorb blank tail head) = joined_text (get_string ''text'' head) (get_string ''text'' tail)"
  by (simp add: absorb_def Let_def absorb_meta_def get_string_set_string_other get_string_set_string_same split: option.split)

lemma absorb_frame:
  "get_string ''self_ref'' (absorb blank tail head) = get_string ''self_ref'' head"
  "get_list ''children'' (absorb blank tail head) = get_list ''children'' head"
  "get_num ''label'' (absorb blank tail head) = get_num ''label'' head"
  "get_num ''content_layer'' (absorb blank tail head) = get_num ''content_layer'' head"
  by (simp_all add: absorb_def Let_def absorb_meta_def frame_simps split: option.split)

text \<open>
  A document whose text items carry the reference of their position, and whose body names each
  child once, text items by that reference.
\<close>

definition canonical_texts :: "msg \<Rightarrow> bool" where
  "canonical_texts d =
     (list_all (\<lambda>(i, item). text_self_ref i item = texts_ref i) (List.enumerate 0 (get_list ''texts'' d))
      \<and> list_all (\<lambda>child. case text_index (get_string ''ref'' child) of
             None \<Rightarrow> True | Some i \<Rightarrow> get_string ''ref'' child = texts_ref i) (body_items d)
      \<and> distinct (map (get_string ''ref'') (body_items d)))"

lemma canonical_self: "canonical_texts d \<Longrightarrow> i < length (get_list ''texts'' d) \<Longrightarrow> text_self_ref i (get_list ''texts'' d ! i) = texts_ref i"
  by (auto simp: canonical_texts_def list_all_length nth_enumerate_eq)

lemma canonical_child: "canonical_texts d \<Longrightarrow> child \<in> set (body_items d) \<Longrightarrow> prose_index d child = Some i \<Longrightarrow>
   get_string ''ref'' child = texts_ref i \<and> i < length (get_list ''texts'' d) \<and> is_prose (get_list ''texts'' d ! i)"
  by (fastforce simp: canonical_texts_def list_all_iff prose_index_def split: option.splits if_splits)

text \<open>The anchor is the last kept child but for prose on layers a merge looks past and what is not prose.\<close>

definition follows_anchor :: "repair_options \<Rightarrow> msg \<Rightarrow> msg list \<Rightarrow> nat \<Rightarrow> bool" where
  "follows_anchor options d kept i =
     (\<exists>xs a ys. kept = xs @ a # ys \<and> prose_index d a = Some i
        \<and> \<not> looked_past options (get_num ''content_layer'' (prose_base d i))
        \<and> (\<forall>y\<in>set ys. \<forall>k. prose_index d y = Some k \<longrightarrow> looked_past options (get_num ''content_layer'' (prose_base d k))))"

lemma item_layer_text:
  "i < length (get_list ''texts'' d) \<Longrightarrow> is_prose (get_list ''texts'' d ! i) \<Longrightarrow>
     item_layer d (texts_ref i) = get_num ''content_layer'' (prose_base d i)"
proof -
  assume i: "i < length (get_list ''texts'' d)" "is_prose (get_list ''texts'' d ! i)"
  have "index_after (texts_ref i) ''#/texts/'' = Some i"
    by (simp add: index_after_def texts_ref_def starts_with_def dec_value_acc_to_dec)
  then have "layer_in d ''texts'' (texts_ref i) = Some (get_num ''content_layer'' (prose_base d i))"
    using i prose_text_node [OF i(2)] by (simp add: layer_in_def item_node_def prose_base_def)
  then show "item_layer d (texts_ref i) = get_num ''content_layer'' (prose_base d i)"
    by (simp add: item_layer_def List.map_filter_simps)
qed

definition merge_inv :: "repair_options \<Rightarrow> (int \<Rightarrow> bool) \<Rightarrow> msg \<Rightarrow> msg list \<Rightarrow> merging \<Rightarrow> bool" where
  "merge_inv options P d seen st =
     (let e = merged_document st; gone = fst ` set (absorbed_refs st);
          kept = filter (\<lambda>c. get_string ''ref'' c \<notin> gone) seen in
      retexted_doc d e
      \<and> distinct (map fst (absorbed_refs st)) \<and> merges st = length (absorbed_refs st)
      \<and> gone \<subseteq> get_string ''ref'' ` set seen
      \<and> (\<forall>absorber\<in>snd ` set (absorbed_refs st). \<exists>c\<in>set kept. absorber = get_string ''ref'' c \<and> prose_index d c \<noteq> None)
      \<and> (\<forall>ref\<in>gone. \<exists>c\<in>set seen. ref = get_string ''ref'' c \<and> prose_index d c \<noteq> None)
      \<and> concat (map (visible_prose P e) kept) = concat (map (visible_prose P d) seen)
      \<and> (\<forall>j. (\<forall>c\<in>set seen. prose_index d c \<noteq> Some j) \<longrightarrow> get_list ''texts'' e ! j = get_list ''texts'' d ! j)
      \<and> (case anchor st of
           None \<Rightarrow> True
         | Some (i, r) \<Rightarrow> r = texts_ref i \<and> follows_anchor options d kept i))"

lemma own_reference:
  assumes "canonical_texts d" "retexted_doc d e" "child \<in> set (body_items d)" "prose_index d child = Some j"
  shows "(if get_string ''self_ref'' (prose_base e j) = [] then get_string ''ref'' child else get_string ''self_ref'' (prose_base e j)) = texts_ref j"
    and "get_string ''ref'' child = texts_ref j" "j < length (get_list ''texts'' e)" "is_prose (get_list ''texts'' e ! j)"
proof -
  have child: "get_string ''ref'' child = texts_ref j" "j < length (get_list ''texts'' d)" "is_prose (get_list ''texts'' d ! j)"
    using canonical_child [OF assms(1,3,4)] by auto
  then have e: "j < length (get_list ''texts'' e)" "retexted (get_list ''texts'' d ! j) (get_list ''texts'' e ! j)"
    using assms(2) by (auto simp: retexted_doc_def list_all2_conv_all_nth)
  with child(3) have prose: "is_prose (get_list ''texts'' e ! j)" by (simp add: retexted_prose)
  have "text_self_ref j (get_list ''texts'' e ! j) = texts_ref j"
    using retexted_self_ref [OF e(2)] canonical_self [OF assms(1) child(2)] by simp
  with prose child show "(if get_string ''self_ref'' (prose_base e j) = [] then get_string ''ref'' child else get_string ''self_ref'' (prose_base e j)) = texts_ref j"
    by (auto simp: text_self_ref_def prose_text_node prose_base_def)
  from child e prose show "get_string ''ref'' child = texts_ref j" "j < length (get_list ''texts'' e)" "is_prose (get_list ''texts'' e ! j)"
    by simp_all
qed

lemma absorbed_doc:
  fixes base :: msg and blank :: "string \<Rightarrow> msg"
  assumes "retexted_doc d e" "i < length (get_list ''texts'' e)" "is_prose (get_list ''texts'' e ! i)"
    and head: "get_string ''text'' (prose_base e i) \<noteq> []"
  defines "e' \<equiv> update_prose (absorb blank base) i e"
  shows "retexted_doc d e'" "get_string ''text'' (prose_base e' i) = joined_text (get_string ''text'' (prose_base e i)) (get_string ''text'' base)"
    and "\<And>j. j \<noteq> i \<Longrightarrow> get_list ''texts'' e' ! j = get_list ''texts'' e ! j"
proof -
  define item where "item = set_payload (absorb blank base (prose_base e i)) (get_list ''texts'' e ! i)"
  have subs: "get_sub k e' = get_sub k e" for k by (simp add: e'_def)
  have texts: "get_list ''texts'' e' = (get_list ''texts'' e)[i := item]" by (simp add: e'_def texts_update_prose item_def)
  have payload: "text_payload item = absorb blank base (prose_base e i)" "text_variant item = Some ''text''"
    using set_payload_prose [OF assms(3)] by (simp_all add: item_def)
  have "get_num ''label'' (prose_base e i) \<in> {label_text, label_paragraph}"
    using assms(3) by (simp add: is_prose_def prose_base_def)
  then have prose: "is_prose item" by (simp add: is_prose_def payload absorb_frame)
  have "retexted (get_list ''texts'' d ! i) (get_list ''texts'' e ! i)" "i < length (get_list ''texts'' d)"
    using assms(1,2) by (auto simp: retexted_doc_def list_all2_conv_all_nth)
  with prose assms(3) have "retexted (get_list ''texts'' d ! i) item"
    by (auto simp: retexted_def payload absorb_frame prose_base_def)
  then show "retexted_doc d e'"
    using assms(1,2) by (auto simp: retexted_doc_def list_all2_conv_all_nth texts nth_list_update subs)
  show "get_string ''text'' (prose_base e' i) = joined_text (get_string ''text'' (prose_base e i)) (get_string ''text'' base)"
    using assms(2) by (simp add: prose_base_def [of e'] texts payload absorb_text [OF head])
  show "\<And>j. j \<noteq> i \<Longrightarrow> get_list ''texts'' e' ! j = get_list ''texts'' e ! j" by (simp add: texts)
qed

lemma visible_prose_same:
  "prose_index e c = prose_index d c \<Longrightarrow> (\<And>j. prose_index d c = Some j \<Longrightarrow> get_list ''texts'' e ! j = get_list ''texts'' d ! j) \<Longrightarrow>
     visible_prose P e c = visible_prose P d c"
  by (auto simp: visible_prose_def prose_base_def split: option.split)


lemma merge_invI:
  assumes "filter (\<lambda>c. get_string ''ref'' c \<notin> fst ` set (absorbed_refs st)) seen = kept"
    and "retexted_doc d (merged_document st)"
    and "distinct (map fst (absorbed_refs st))" "merges st = length (absorbed_refs st)"
    and "fst ` set (absorbed_refs st) \<subseteq> get_string ''ref'' ` set seen"
    and "\<And>absorber. absorber \<in> snd ` set (absorbed_refs st) \<Longrightarrow>
       \<exists>c\<in>set kept. absorber = get_string ''ref'' c \<and> prose_index d c \<noteq> None"
    and "\<And>ref. ref \<in> fst ` set (absorbed_refs st) \<Longrightarrow> \<exists>c\<in>set seen. ref = get_string ''ref'' c \<and> prose_index d c \<noteq> None"
    and "concat (map (visible_prose P (merged_document st)) kept) = concat (map (visible_prose P d) seen)"
    and "\<And>j. \<forall>c\<in>set seen. prose_index d c \<noteq> Some j \<Longrightarrow> get_list ''texts'' (merged_document st) ! j = get_list ''texts'' d ! j"
    and "case anchor st of None \<Rightarrow> True | Some (i, r) \<Rightarrow> r = texts_ref i \<and> follows_anchor options d kept i"
  shows "merge_inv options P d seen st"
  unfolding merge_inv_def Let_def assms(1) using assms(2-) by simp

lemma update_fresh: "k \<notin> fst ` set m \<Longrightarrow> AList.update k v m = m @ [(k, v)]"
  by (induction m) auto

lemma merge_child_inv:
  assumes canon: "canonical_texts d" and inv: "merge_inv options P d seen st" and fair: "fair_reading options P"
    and body: "set (seen @ [c]) \<subseteq> set (body_items d)" "distinct (map (get_string ''ref'') (seen @ [c]))"
  shows "merge_inv options P d (seen @ [c]) (merge_child rnd blank options hs c st)"
proof -
  define e where "e = merged_document st"
  define gone where "gone = fst ` set (absorbed_refs st)"
  define kept where "kept = filter (\<lambda>c. get_string ''ref'' c \<notin> gone) seen"
  define ref where "ref = get_string ''ref'' c"
  have re: "retexted_doc d e" and keys: "distinct (map fst (absorbed_refs st))" "merges st = length (absorbed_refs st)"
      "gone \<subseteq> get_string ''ref'' ` set seen"
    and absorbers: "\<forall>absorber\<in>snd ` set (absorbed_refs st). \<exists>c\<in>set kept. absorber = get_string ''ref'' c \<and> prose_index d c \<noteq> None"
    and goners: "\<forall>ref\<in>gone. \<exists>c\<in>set seen. ref = get_string ''ref'' c \<and> prose_index d c \<noteq> None"
    and reading: "concat (map (visible_prose P e) kept) = concat (map (visible_prose P d) seen)"
    and same: "\<And>j. (\<forall>c\<in>set seen. prose_index d c \<noteq> Some j) \<Longrightarrow> get_list ''texts'' e ! j = get_list ''texts'' d ! j"
    and anchor: "case anchor st of None \<Rightarrow> True | Some (i, r) \<Rightarrow> r = texts_ref i \<and> follows_anchor options d kept i"
    using inv unfolding merge_inv_def Let_def e_def [symmetric] gone_def [symmetric] kept_def [symmetric] by blast+
  have fresh: "ref \<notin> get_string ''ref'' ` set seen" using body(2) by (simp add: ref_def)
  have index: "prose_index e x = prose_index d x" for x using retexted_index [OF re] .
  have kept_next: "filter (\<lambda>c. get_string ''ref'' c \<notin> gone) (seen @ [c]) = kept @ [c]"
    using fresh keys(3) by (auto simp: kept_def ref_def)
  have other: "prose_index d x \<noteq> Some j" if "x \<in> set seen" "prose_index d c = Some j" for x j
  proof
    assume "prose_index d x = Some j"
    then have "get_string ''ref'' x = ref"
      using canonical_child [OF canon, of x j] canonical_child [OF canon, of c j] that body(1) by (simp add: ref_def subset_eq)
    with fresh that(1) show False by blast
  qed
  have c_same: "visible_prose P e c = visible_prose P d c"
    using same other by (intro visible_prose_same index) blast
  have grown: "merge_inv options P d (seen @ [c]) (st\<lparr>anchor := x\<rparr>)"
    if x: "case x of None \<Rightarrow> True | Some (i, r) \<Rightarrow> r = texts_ref i \<and> follows_anchor options d (kept @ [c]) i" for x
  proof (rule merge_invI)
    show "filter (\<lambda>c. get_string ''ref'' c \<notin> fst ` set (absorbed_refs (st\<lparr>anchor := x\<rparr>))) (seen @ [c]) = kept @ [c]"
      using kept_next by (simp add: gone_def)
    show "concat (map (visible_prose P (merged_document (st\<lparr>anchor := x\<rparr>))) (kept @ [c])) = concat (map (visible_prose P d) (seen @ [c]))"
      using reading c_same by (simp add: e_def)
    show "\<And>j. \<forall>c\<in>set (seen @ [c]). prose_index d c \<noteq> Some j \<Longrightarrow>
        get_list ''texts'' (merged_document (st\<lparr>anchor := x\<rparr>)) ! j = get_list ''texts'' d ! j"
      using same by (simp add: e_def)
    show "case anchor (st\<lparr>anchor := x\<rparr>) of None \<Rightarrow> True
       | Some (i, r) \<Rightarrow> r = texts_ref i \<and> follows_anchor options d (kept @ [c]) i"
      using x by simp
  qed (use re keys absorbers goners in \<open>auto simp: e_def gone_def\<close>)
  define past where "past = (migrate_furniture options \<and> item_layer e ref = content_layer_furniture)"
  have stays: "merge_inv options P d (seen @ [c]) st"
    if quiet: "\<And>k. prose_index d c = Some k \<Longrightarrow> looked_past options (get_num ''content_layer'' (prose_base d k))"
  proof -
    have "follows_anchor options d (kept @ [c]) i" if anchored: "follows_anchor options d kept i" for i
    proof -
      obtain xs a ys where "kept = xs @ a # ys" "prose_index d a = Some i"
        "\<not> looked_past options (get_num ''content_layer'' (prose_base d i))"
        "\<forall>y\<in>set ys. \<forall>k. prose_index d y = Some k \<longrightarrow> looked_past options (get_num ''content_layer'' (prose_base d k))"
        using anchored unfolding follows_anchor_def by blast
      then show ?thesis
        unfolding follows_anchor_def using quiet by (intro exI [of _ xs] exI [of _ a] exI [of _ "ys @ [c]"]) auto
    qed
    then have "merge_inv options P d (seen @ [c]) (st\<lparr>anchor := anchor st\<rparr>)"
      using anchor by (intro grown) (auto split: option.splits)
    then show ?thesis by simp
  qed
  show ?thesis
  proof (cases "prose_index d c")
    case None
    then show ?thesis using stays grown [of None]
      by (simp add: merge_child_def index Let_def e_def [symmetric] ref_def [symmetric])
  next
    case (Some j)
    have own: "(if get_string ''self_ref'' (prose_base e j) = [] then ref else get_string ''self_ref'' (prose_base e j)) = texts_ref j"
      "ref = texts_ref j"
      using own_reference(1,2) [OF canon re _ Some] body(1) unfolding ref_def by auto
    have layers: "get_num ''content_layer'' (prose_base e k) = get_num ''content_layer'' (prose_base d k)" if "k < length (get_list ''texts'' e)" for k
      using re that retexted_layer by (auto simp: retexted_doc_def list_all2_conv_all_nth prose_base_def)
    have j: "j < length (get_list ''texts'' e)" "is_prose (get_list ''texts'' e ! j)"
      using own_reference(3,4) [OF canon re _ Some] body(1) by auto
    have past: "past = looked_past options (get_num ''content_layer'' (prose_base d j))"
      using item_layer_text [OF j] layers [OF j(1)] by (simp add: past_def looked_past_def own(2))
    show ?thesis
    proof (cases past)
      case True
      then have "merge_child rnd blank options hs c st = st"
        by (simp add: merge_child_def Let_def e_def [symmetric] ref_def [symmetric] past_def)
      then show ?thesis using stays True past Some by simp
    next
    case False
    note main = False
    have "follows_anchor options d (kept @ [c]) j"
      unfolding follows_anchor_def using Some main past by (intro exI [of _ kept] exI [of _ c] exI [of _ "[]"]) simp
    then have start: "merge_inv options P d (seen @ [c]) (st\<lparr>anchor := Some (j, texts_ref j)\<rparr>)" using grown by simp
    show ?thesis
    proof (cases "\<exists>i r. anchor st = Some (i, r) \<and> int (merges st) < maximum_continuation_merges options
        \<and> text_continues rnd hs (prose_base e i) (prose_base e j)")
      case False
      then have "merge_child rnd blank options hs c st = st\<lparr>anchor := Some (j, texts_ref j)\<rparr>"
        using main [unfolded past_def] Some own(1)
        by (auto simp: merge_child_def index Let_def e_def [symmetric] ref_def [symmetric] split: option.split)
      with start show ?thesis by simp
    next
      case True
      then obtain i r where ir: "anchor st = Some (i, r)" "int (merges st) < maximum_continuation_merges options"
          "text_continues rnd hs (prose_base e i) (prose_base e j)" by blast
      with anchor have follows: "r = texts_ref i" "follows_anchor options d kept i" by auto
      then obtain xs a ys where a: "r = texts_ref i" "kept = xs @ a # ys" "prose_index d a = Some i"
        and a_main: "\<not> looked_past options (get_num ''content_layer'' (prose_base d i))"
        and ys: "\<forall>y\<in>set ys. \<forall>k. prose_index d y = Some k \<longrightarrow> looked_past options (get_num ''content_layer'' (prose_base d k))"
        unfolding follows_anchor_def by blast
      define e' where "e' = update_prose (absorb blank (prose_base e j)) i e"
      have "a \<in> set kept" by (simp add: a(2))
      then have seen_a: "a \<in> set seen" "a \<in> set (body_items d)" using body(1) by (auto simp: kept_def)
      have "i \<noteq> j" using other [OF seen_a(1) Some] a(3) by blast
      have i: "i < length (get_list ''texts'' e)" "is_prose (get_list ''texts'' e ! i)" and a_ref: "get_string ''ref'' a = texts_ref i"
        using own_reference [OF canon re seen_a(2) a(3)] by simp_all
      have "get_string ''text'' (prose_base e i) \<noteq> []"
        using ir(3) by (auto simp: text_continues_def ends_open_def trim_right_def Let_def split: if_splits)
      note absorbed = absorbed_doc [where blank = blank and base = "prose_base e j", OF re i this, folded e'_def]
      have result: "merge_child rnd blank options hs c st =
          st\<lparr>merged_document := e', absorbed_refs := absorbed_refs st @ [(ref, texts_ref i)], merges := merges st + 1\<rparr>"
      proof -
        have "AList.update ref (texts_ref i) (absorbed_refs st) = absorbed_refs st @ [(ref, texts_ref i)]"
          using fresh keys(3) by (intro update_fresh) (auto simp: gone_def)
        then show ?thesis
          using main [unfolded past_def] Some own ir a(1)
          by (auto simp: merge_child_def index Let_def e_def [symmetric] ref_def [symmetric] e'_def)
      qed
      have kept_next: "filter (\<lambda>c. get_string ''ref'' c \<notin> insert ref gone) (seen @ [c]) = kept"
      proof -
        have "get_string ''ref'' x \<noteq> ref" if "x \<in> set seen" for x using fresh that by blast
        then show ?thesis by (auto simp: kept_def ref_def intro!: filter_cong)
      qed
      have "distinct (map (get_string ''ref'') kept)" using body(2) by (auto simp: kept_def intro: distinct_map_filter)
      have a_other: "prose_index d x \<noteq> Some i" if "x \<in> set xs \<union> set ys" for x
      proof
        assume "prose_index d x = Some i"
        moreover have "x \<in> set kept" using that by (auto simp: a(2))
        then have "x \<in> set (body_items d)" using body(1) by (auto simp: kept_def)
        ultimately have "get_string ''ref'' x = get_string ''ref'' a" using canonical_child [OF canon] a_ref by simp
        with that \<open>distinct (map (get_string ''ref'') kept)\<close> show False by (auto simp: a(2)) (metis imageI)+
      qed
      have "visible_prose P e' x = visible_prose P e x" if x: "x \<in> set xs \<union> set ys" for x
      proof (rule visible_prose_same)
        show "prose_index e' x = prose_index e x" using retexted_index [OF absorbed(1)] index by simp
        show "get_list ''texts'' e' ! k = get_list ''texts'' e ! k" if "prose_index e x = Some k" for k
          using absorbed(3) [of k] that a_other [OF x] index by auto
      qed
      then have others: "concat (map (visible_prose P e') xs) = concat (map (visible_prose P e) xs)"
          "concat (map (visible_prose P e') ys) = concat (map (visible_prose P e) ys)"
        by (metis UnCI map_cong)+
      have e'_layer: "get_num ''content_layer'' (prose_base e' i) = get_num ''content_layer'' (prose_base d i)"
        using absorbed(1) i(1) retexted_layer re by (auto simp: retexted_doc_def list_all2_conv_all_nth prose_base_def)
      have alike: "P (get_num ''content_layer'' (prose_base d i)) = P (get_num ''content_layer'' (prose_base d j))"
        using fair a_main main past by (auto simp: fair_reading_def)
      have a_text: "visible_prose P e' a = visible_prose P e a @ visible_prose P e c"
        using a(3) Some index retexted_index [OF absorbed(1)] absorbed(2) alike e'_layer layers [OF i(1)] layers [OF j(1)]
        by (simp add: visible_prose_def visible_joined)
      have swap: "visible_prose P e c @ concat (map (visible_prose P e) ys) = concat (map (visible_prose P e) ys) @ visible_prose P e c"
      proof (cases "P (get_num ''content_layer'' (prose_base d j))")
        case False
        then show ?thesis using Some index layers [OF j(1)] by (simp add: visible_prose_def)
      next
        case True
        then have P: "P = (\<lambda>layer. \<not> looked_past options layer)" using fair main past by (auto simp: fair_reading_def)
        have "visible_prose P e y = []" if y: "y \<in> set ys" for y
        proof (cases "prose_index d y")
          case (Some k)
          have "y \<in> set kept" using y by (simp add: a(2))
          then have "k < length (get_list ''texts'' e)" using own_reference(3) [OF canon re _ Some] body(1) by (auto simp: kept_def)
          then show ?thesis using ys y Some index layers by (simp add: visible_prose_def P)
        qed (simp add: visible_prose_def index)
        then have "concat (map (visible_prose P e) ys) = []" by simp
        then show ?thesis by (simp only: append_Nil append_Nil2)
      qed
      have reading': "concat (map (visible_prose P e') kept) = concat (map (visible_prose P d) (seen @ [c]))"
        using reading c_same swap by (simp add: a(2) others a_text)
      have "get_list ''texts'' e' ! k = get_list ''texts'' d ! k" if "\<forall>x\<in>set (seen @ [c]). prose_index d x \<noteq> Some k" for k
        using that seen_a(1) a(3) same absorbed(3) by (metis UnCI set_append)
      moreover have "ref \<notin> gone" using fresh keys(3) by blast
      ultimately show ?thesis
        unfolding result
        using absorbed(1) keys absorbers goners reading' Some ir(1) a follows(2) a_ref \<open>a \<in> set kept\<close> kept_next
        by (intro merge_invI [of _ _ kept]) (auto simp: ref_def gone_def)
    qed
    qed
  qed
qed

subsection \<open>Retiring keeps the words\<close>

definition words_same :: "msg \<Rightarrow> msg \<Rightarrow> bool" where
  "words_same a b =
     (text_variant b = text_variant a
      \<and> get_num ''label'' (text_payload b) = get_num ''label'' (text_payload a)
      \<and> get_num ''content_layer'' (text_payload b) = get_num ''content_layer'' (text_payload a)
      \<and> get_string ''text'' (text_payload b) = get_string ''text'' (text_payload a)
      \<and> (\<forall>i. text_self_ref i b = text_self_ref i a))"

lemma words_refl [simp]: "words_same a a"
  by (simp add: words_same_def)

lemma words_trans: "words_same a b \<Longrightarrow> words_same b c \<Longrightarrow> words_same a c"
  by (simp add: words_same_def)

definition keeps_words :: "(msg \<Rightarrow> msg) \<Rightarrow> bool" where
  "keeps_words f =
     (\<forall>n. get_num ''label'' (f n) = get_num ''label'' n \<and> get_num ''content_layer'' (f n) = get_num ''content_layer'' n
        \<and> get_string ''text'' (f n) = get_string ''text'' n
        \<and> get_string ''self_ref'' (f n) = get_string ''self_ref'' n)"

lemma sub_or_default_set_sub:
  "sub_or_default k (set_sub k (Some v) m) = v \<or> sub_or_default k (set_sub k (Some v) m) = sub_or_default k m \<and> get_sub k m = None"
proof (cases "get_sub k m")
  case (Some old)
  then show ?thesis by (simp add: sub_or_default_def get_sub_set_sub_same)
qed (auto simp: sub_or_default_def get_sub_set_sub)

lemma sub_or_default_other: "k \<noteq> n \<Longrightarrow> sub_or_default k (set_sub n v m) = sub_or_default k m"
  by (simp add: sub_or_default_def get_sub_set_sub)

lemma keeps_words_sub:
  fixes p :: msg
  assumes "keeps_words f"
  defines "n \<equiv> sub_or_default ''base'' (set_sub ''base'' (Some (f (sub_or_default ''base'' p))) p)"
  shows "get_num ''label'' n = get_num ''label'' (sub_or_default ''base'' p)"
    "get_num ''content_layer'' n = get_num ''content_layer'' (sub_or_default ''base'' p)"
    "get_string ''text'' n = get_string ''text'' (sub_or_default ''base'' p)"
    "get_string ''self_ref'' n = get_string ''self_ref'' (sub_or_default ''base'' p)"
  using assms(1) sub_or_default_set_sub [of "''base''" "f (sub_or_default ''base'' p)" p]
  unfolding n_def keeps_words_def by auto

lemma variant_update_text:
  assumes "text_variant item = Some v"
  shows "text_variant (set_sub v (Some p) item) = Some v" "sub_or_default v (set_sub v (Some p) item) = p"
proof -
  obtain old where old: "get_sub v item = Some old"
    using assms unfolding text_variant_def find_Some_iff by fastforce
  then have "(get_sub w (set_sub v (Some p) item) = None) = (get_sub w item = None)" for w
    by (auto simp: get_sub_set_sub)
  from text_variant_same [OF this] assms show "text_variant (set_sub v (Some p) item) = Some v" by simp
  show "sub_or_default v (set_sub v (Some p) item) = p" using old by (simp add: sub_or_default_def get_sub_set_sub_same)
qed

lemma words_set_variant:
  assumes "text_variant item = Some v" "v \<noteq> ''code''"
  defines "a \<equiv> sub_or_default ''base'' (sub_or_default v item)"
  assumes "get_num ''label'' (sub_or_default ''base'' q) = get_num ''label'' a"
    "get_num ''content_layer'' (sub_or_default ''base'' q) = get_num ''content_layer'' a"
    "get_string ''text'' (sub_or_default ''base'' q) = get_string ''text'' a"
    "get_string ''self_ref'' (sub_or_default ''base'' q) = get_string ''self_ref'' a"
  shows "words_same item (set_sub v (Some q) item)"
proof -
  note variant = variant_update_text [OF assms(1), of q]
  have "text_payload (set_sub v (Some q) item) = (if v = ''text'' then sub_or_default ''base'' q else text_payload item)"
    using variant by (auto simp: text_payload_def sub_or_default_other)
  moreover have "text_payload item = a" if "v = ''text''" using that by (simp add: text_payload_def a_def)
  ultimately show ?thesis
    using assms variant by (auto simp: words_same_def text_self_ref_def text_node_def text_base_of_def a_def)
qed

lemma words_update_text:
  assumes "keeps_words f"
  shows "words_same item (update_text f item)"
proof (cases "text_variant item")
  case (Some v)
  show ?thesis
  proof (cases "v = ''code''")
    case True
    then have "update_text f item = set_sub v (Some (f (sub_or_default v item))) item" using Some by (simp add: update_text_def)
    then show ?thesis
      using True Some variant_update_text [OF Some, of "f (sub_or_default v item)"] assms
      by (simp add: words_same_def text_self_ref_def text_node_def text_payload_def sub_or_default_other keeps_words_def)
  next
    case False
    then show ?thesis
      using words_set_variant [OF Some False] keeps_words_sub [OF assms, of "sub_or_default v item"]
      by (simp add: update_text_def Some Let_def)
  qed
qed (simp add: update_text_def)

definition blank_words :: "(string \<Rightarrow> msg) \<Rightarrow> bool" where
  "blank_words blank =
     (get_num ''label'' (blank ''TextItemBase'') = 0 \<and> get_num ''content_layer'' (blank ''TextItemBase'') = 0
      \<and> get_string ''text'' (blank ''TextItemBase'') = []
      \<and> get_string ''self_ref'' (blank ''TextItemBase'') = [])"

lemma words_present_base:
  assumes "blank_words blank"
  shows "words_same item (present_base (blank ''TextItemBase'') item)"
proof (cases "text_variant item")
  case (Some v)
  define p where "p = sub_or_default v item"
  define q where "q = present ''base'' (blank ''TextItemBase'') p"
  have "sub_or_default ''base'' q = sub_or_default ''base'' p
      \<or> sub_or_default ''base'' q = blank ''TextItemBase'' \<and> sub_or_default ''base'' p = Msg [] [] []"
    using sub_or_default_set_sub [of "''base''" "blank ''TextItemBase''" p]
    by (auto simp: q_def present_def sub_or_default_def)
  then show ?thesis
    using words_set_variant [OF Some, of q] assms
    by (auto simp: present_base_def Some p_def [symmetric] q_def [symmetric] blank_words_def)
qed (simp add: present_base_def)

definition words_doc :: "msg \<Rightarrow> msg \<Rightarrow> bool" where
  "words_doc d e = list_all2 words_same (get_list ''texts'' d) (get_list ''texts'' e)"

lemma words_doc_refl [simp]: "words_doc d d"
  by (simp add: words_doc_def list_all2_same)

lemma words_doc_trans: "words_doc d e \<Longrightarrow> words_doc e f \<Longrightarrow> words_doc d f"
  unfolding words_doc_def by (rule list_all2_trans [OF words_trans])

lemma words_materialize: "blank_words blank \<Longrightarrow> words_doc d (materialize blank d)"
proof -
  assume blank: "blank_words blank"
  define m where "m = present ''furniture'' (blank ''GroupItem'') (present ''body'' (blank ''GroupItem'') d)"
  have m: "get_list ''texts'' m = get_list ''texts'' d" by (simp add: m_def present_def)
  have "get_list ''texts'' (materialize blank d) = map (present_base (blank ''TextItemBase'')) (get_list ''texts'' d)"
    unfolding materialize_def Let_def m_def [symmetric] by (subst get_list_set_list_length) (simp_all add: m)
  then show ?thesis
    using words_present_base [OF blank] by (simp add: words_doc_def list_all2_map2 list_all2_same)
qed

lemma words_update_node:
  assumes "keeps_words f"
  shows "words_doc d (update_node k f d)"
proof (cases k)
  case (Item a i)
  show ?thesis
  proof (cases "a = ''texts'' \<and> i < length (get_list ''texts'' d)")
    case True
    have "get_list ''texts'' (update_node k f d) = (get_list ''texts'' d)[i := update_text f (get_list ''texts'' d ! i)]"
      unfolding Item update_node.simps update_item_def conjunct1 [OF True] by (subst get_list_set_list_length) simp_all
    moreover have "words_same (get_list ''texts'' d ! j) ((get_list ''texts'' d)[i := update_text f (get_list ''texts'' d ! i)] ! j)" for j
      using words_update_text [OF assms] True by (cases "j = i") simp_all
    ultimately show ?thesis by (simp add: words_doc_def list_all2_conv_all_nth)
  next
    case False
    have "get_list ''texts'' (update_node k f d) = get_list ''texts'' d"
    proof (cases "a = ''texts''")
      case True
      with False have "(get_list a d)[i := x] = get_list a d" for x by (simp add: list_update_beyond not_less)
      then show ?thesis unfolding Item update_node.simps by (simp only: True) (subst get_list_set_list_length; simp)
    qed (simp add: Item get_list_set_list_other)
    then show ?thesis by (simp add: words_doc_def list_all2_same)
  qed
qed (simp_all add: words_doc_def list_all2_same)

lemma keeps_words_children: "keeps_words (\<lambda>n. set_list ''children'' (g n) n)"
  by (simp add: keeps_words_def)

lemma words_prune_node: "keeps_words (prune_node retired parents k)"
  by (simp add: keeps_words_def prune_node_def Let_def)

lemma words_fold:
  assumes "\<And>x e. x \<in> set xs \<Longrightarrow> words_doc e (f x e)"
  shows "words_doc d (fold f xs d)"
  using assms
proof (induction xs arbitrary: d)
  case (Cons x xs)
  then show ?case using words_doc_trans [of d "f x d" "fold f xs (f x d)"] by simp
qed simp

lemma words_adopt: "words_doc d (adopt_children absorbed_by d)"
  unfolding adopt_children_def
proof (rule words_fold)
  fix x e
  show "words_doc e (adopt_into absorbed_by (text_positions d) x e)"
    using words_doc_trans [OF words_update_node [OF keeps_words_children] words_update_node [OF keeps_words_children [of "\<lambda>_. []"]]]
    by (auto simp: adopt_into_def split: option.splits simp del: update_node.simps)
qed

lemma words_prune: "words_doc d (prune_retired retired parents d)"
  unfolding prune_retired_def by (intro words_fold words_update_node words_prune_node)


lemma body_items_item [simp]: "body_items (update_node (Item a i) f d) = body_items d"
  by (simp add: body_items_def sub_or_default_def)

lemma body_items_adopt: "body_items (adopt_children absorbed_by d) = body_items d"
proof -
  have "body_items (fold (adopt_into absorbed_by spots) xs d) = body_items d" for spots xs d
    by (induction xs arbitrary: d) (simp_all add: adopt_into_def split: option.split del: update_node.simps)
  then show ?thesis by (simp add: adopt_children_def)
qed

lemma has_body_item: "has_body (update_node (Item a i) f d) = has_body d"
  by (simp add: has_body_def sub_or_default_def)

lemma has_body_adopt: "has_body (adopt_children absorbed_by d) = has_body d"
proof -
  have "has_body (fold (adopt_into absorbed_by spots) xs d) = has_body d" for spots xs d
    by (induction xs arbitrary: d) (simp_all add: adopt_into_def has_body_item split: option.split del: update_node.simps)
  then show ?thesis by (simp add: adopt_children_def)
qed

lemma body_items_prune:
  assumes "has_body d"
  shows "body_items (prune_retired retired parents d) = filter (\<lambda>c. get_string ''ref'' c \<notin> retired) (body_items d)"
proof -
  define step where "step = (\<lambda>node :: string \<times> node_id. update_node (snd node) (prune_node retired parents (snd node)))"
  have items: "body_items (fold step xs e) = body_items e" if "snd ` set xs \<subseteq> {k. \<exists>a i. k = Item a i}" for xs e
    using that by (induction xs arbitrary: e) (auto simp: step_def simp del: update_node.simps)
  have others: "snd ` set (concat (map (arena_nodes d) node_arenas)) \<subseteq> {k. \<exists>a i. k = Item a i}"
    by (auto simp: arena_nodes_def List.map_filter_def Let_def split: option.splits)
  have "body_items (step (''#/body'', Body_Root) d) = filter (\<lambda>c. get_string ''ref'' c \<notin> retired) (body_items d)"
    using assms by (auto simp: step_def prune_node_def body_items_def has_body_def sub_or_default_def get_sub_set_sub_same get_list_of_slot)
  moreover have "body_items (step (''#/furniture'', Furniture_Root) e) = body_items e" for e
    by (simp add: step_def body_items_def sub_or_default_def get_sub_set_sub)
  moreover have "prune_retired retired parents d
      = fold step (concat (map (arena_nodes d) node_arenas)) (step (''#/furniture'', Furniture_Root) (step (''#/body'', Body_Root) d))"
    by (simp add: prune_retired_def all_nodes_def step_def)
  ultimately show ?thesis using items [OF others] by simp
qed

subsection \<open>Renumbering the texts\<close>

lemma texts_ref_inj [simp]: "texts_ref i = texts_ref j \<longleftrightarrow> i = j"
  by (simp add: texts_ref_def)

definition new_position :: "string set \<Rightarrow> nat \<Rightarrow> nat" where
  "new_position retired i = length (filter (\<lambda>k. texts_ref k \<notin> retired) [0..<i])"

lemma keep_text_fold:
  fixes retired :: "string set"
  assumes "\<And>i. i < length texts \<Longrightarrow> text_self_ref i (texts ! i) = texts_ref i" "m \<le> length texts"
  defines "state \<equiv> fold (keep_text retired) (take m (List.enumerate 0 texts)) ([], [])"
  shows "fst state = map ((!) texts) (filter (\<lambda>k. texts_ref k \<notin> retired) [0..<m])
     \<and> (\<forall>i. map_of (snd state) (texts_ref i) =
            (if i < m \<and> texts_ref i \<notin> retired \<and> i \<noteq> new_position retired i then Some (texts_ref (new_position retired i)) else None))
     \<and> fst ` set (snd state) \<subseteq> range texts_ref \<and> distinct (map fst (snd state))"
  unfolding state_def using assms(2)
proof (induction m)
  case (Suc m)
  define before where "before = fold (keep_text retired) (take m (List.enumerate 0 texts)) ([], [])"
  have m: "m < length texts" using Suc.prems by simp
  have "take (Suc m) (List.enumerate 0 texts) = take m (List.enumerate 0 texts) @ [(m, texts ! m)]"
    using m by (simp add: take_Suc_conv_app_nth nth_enumerate_eq)
  then have step: "fold (keep_text retired) (take (Suc m) (List.enumerate 0 texts)) ([], []) = keep_text retired (m, texts ! m) before"
    by (simp add: before_def)
  have IH: "fst before = map ((!) texts) (filter (\<lambda>k. texts_ref k \<notin> retired) [0..<m])"
      "\<And>i. map_of (snd before) (texts_ref i) =
            (if i < m \<and> texts_ref i \<notin> retired \<and> i \<noteq> new_position retired i then Some (texts_ref (new_position retired i)) else None)"
      "fst ` set (snd before) \<subseteq> range texts_ref" "distinct (map fst (snd before))"
    using Suc.IH m by (simp_all add: before_def)
  have "length (fst before) = new_position retired m" by (simp add: IH(1) new_position_def)
  then show ?case
    unfolding step using assms(1) [OF m] IH
    by (cases before) (auto simp: keep_text_def Let_def less_Suc_eq update_conv' dom_update distinct_update)
qed simp


lemma follow_parents:
  "r \<notin> fst ` set entries \<Longrightarrow> map_of (fold follow_parent entries renumbering) r = map_of renumbering r"
  "fst ` set (fold follow_parent entries renumbering) = fst ` set entries \<union> fst ` set renumbering"
  "distinct (map fst renumbering) \<Longrightarrow> distinct (map fst (fold follow_parent entries renumbering))"
proof -
  show "r \<notin> fst ` set entries \<Longrightarrow> map_of (fold follow_parent entries renumbering) r = map_of renumbering r"
    by (induction entries arbitrary: renumbering) (auto simp: follow_parent_def update_conv')
  show "fst ` set (fold follow_parent entries renumbering) = fst ` set entries \<union> fst ` set renumbering"
    by (induction entries arbitrary: renumbering) (auto simp: follow_parent_def dom_update)
  show "distinct (map fst renumbering) \<Longrightarrow> distinct (map fst (fold follow_parent entries renumbering))"
    by (induction entries arbitrary: renumbering) (auto simp: follow_parent_def distinct_update)
qed

lemma map_of_sorted:
  assumes "distinct (map fst m)"
  shows "map_of (sort_key fst m) = map_of m"
proof -
  have "distinct (map fst (sort_key fst m))"
    using assms by (metis mset_eq_imp_distinct_iff mset_map mset_sort)
  then have "map_of (sort_key fst m) k = Some v \<longleftrightarrow> map_of m k = Some v" for k v
    using assms by (simp add: map_of_eq_Some_iff)
  then show ?thesis by (metis ext not_Some_eq)
qed

subsection \<open>What a rewrite of the references leaves alone\<close>

lemma field_of_rewrite: "field_of a (rewrite_refs M m) = map_option (rewrite_slot M) (field_of a m)"
proof -
  have "List.find (\<lambda>s. slot_name s = a) (map (rewrite_slot M) ss) = map_option (rewrite_slot M) (List.find (\<lambda>s. slot_name s = a) ss)" for ss
    by (induction ss) simp_all
  then show ?thesis by (cases m) (simp add: field_of_def)
qed

lemma get_sub_rewrite: "get_sub k (rewrite_refs M m) = map_option (rewrite_refs M) (get_sub k m)"
  by (cases "field_of k m") (auto simp: get_sub_def field_of_rewrite split: slot.split)

lemma sub_or_default_rewrite: "sub_or_default k (rewrite_refs M m) = rewrite_refs M (sub_or_default k m)"
  by (auto simp: sub_or_default_def get_sub_rewrite split: option.split)

lemma get_num_rewrite: "get_num k (rewrite_refs M m) = get_num k m" if "\<not> reference_field k"
proof (cases "field_of k m")
  case (Some s)
  then have "slot_name s = k" by (simp add: field_of_def find_Some_iff) blast
  with Some that show ?thesis by (cases s) (auto simp: get_num_def field_of_rewrite)
qed (simp add: get_num_def field_of_rewrite)

lemma get_string_rewrite: "get_string k (rewrite_refs M m) = get_string k m" if "\<not> reference_field k"
proof (cases "field_of k m")
  case (Some s)
  then have "slot_name s = k" by (simp add: field_of_def find_Some_iff) blast
  with Some that show ?thesis by (cases s) (auto simp: get_string_def field_of_rewrite)
qed (simp add: get_string_def field_of_rewrite)

lemma text_variant_rewrite: "text_variant (rewrite_refs M item) = text_variant item"
  by (intro text_variant_same) (simp add: get_sub_rewrite)

lemma prose_rewrite:
  "is_prose (rewrite_refs M item) = is_prose item"
  "get_string ''text'' (text_payload (rewrite_refs M item)) = get_string ''text'' (text_payload item)"
  "get_num ''content_layer'' (text_payload (rewrite_refs M item)) = get_num ''content_layer'' (text_payload item)"
  by (simp_all add: is_prose_def text_variant_rewrite text_payload_def sub_or_default_rewrite get_num_rewrite get_string_rewrite
      reference_field_def)

definition is_ref_message :: "msg \<Rightarrow> bool" where
  "is_ref_message c = (case field_of ''ref'' c of Some (Singular _ presence is_string _) \<Rightarrow> \<not> presence \<and> is_string | _ \<Rightarrow> False)"

lemma ref_rewrite:
  assumes "is_ref_message c"
  shows "get_string ''ref'' (rewrite_refs M c) = (case M (get_string ''ref'' c) of None \<Rightarrow> get_string ''ref'' c | Some r \<Rightarrow> r)"
proof -
  obtain nm v where s: "field_of ''ref'' c = Some (Singular nm False True v)"
    using assms by (auto simp: is_ref_message_def split: option.splits slot.splits)
  have "slot_name (Singular nm False True v) = ''ref''"
    using s unfolding field_of_def find_Some_iff by metis
  then have "nm = ''ref''" by simp
  then show ?thesis
    using s by (auto simp: get_string_def field_of_rewrite reference_field_def rewrite_value_def set_string_value_def
        split: option.splits scalar.splits)
qed

lemma body_items_rewrite: "body_items (rewrite_refs M d) = map (rewrite_refs M) (body_items d)"
  by (simp add: body_items_def sub_or_default_rewrite get_list_rewrite)

subsection \<open>The renumbered document reads the same\<close>


lemma text_index_texts_ref: "i < 10 ^ 9 \<Longrightarrow> text_index (texts_ref i) = Some i"
proof -
  assume "i < 10 ^ 9"
  then have "length (to_dec i) \<le> 9" by (rule length_to_dec) simp
  moreover have "list_all c_isdigit (to_dec i)" by (simp add: list_all_iff to_dec_digits)
  ultimately show ?thesis by (simp add: text_index_def texts_ref_def starts_with_def)
qed

lemma new_position_nth:
  fixes retired :: "string set"
  assumes "i < n" "texts_ref i \<notin> retired"
  defines "kept \<equiv> filter (\<lambda>k. texts_ref k \<notin> retired) [0..<n]"
  shows "new_position retired i < length kept" "kept ! new_position retired i = i"
proof -
  have "[0..<n] = [0..<i] @ i # [Suc i..<n]"
    using assms(1) by (metis append_Cons append_Nil le_add1 less_imp_add_positive upt_add_eq_append upt_conv_Cons zero_le)
  then have "kept = filter (\<lambda>k. texts_ref k \<notin> retired) [0..<i] @ i # filter (\<lambda>k. texts_ref k \<notin> retired) [Suc i..<n]"
    using assms(2) by (simp add: kept_def)
  then show "new_position retired i < length kept" "kept ! new_position retired i = i"
    by (simp_all add: new_position_def nth_append)
qed

definition renames_texts :: "string set \<Rightarrow> nat \<Rightarrow> (string \<rightharpoonup> string) \<Rightarrow> bool" where
  "renames_texts retired n M =
     ((\<forall>i. texts_ref i \<notin> retired \<longrightarrow>
         M (texts_ref i) = (if i < n \<and> i \<noteq> new_position retired i then Some (texts_ref (new_position retired i)) else None))
      \<and> dom M \<subseteq> retired \<union> texts_ref ` {..<n})"

lemma visible_prose_renumbered:
  fixes e :: msg and retired :: "string set" and M :: "string \<rightharpoonup> string"
  defines "n \<equiv> length (get_list ''texts'' e)"
  defines "kept \<equiv> filter (\<lambda>k. texts_ref k \<notin> retired) [0..<n]"
  assumes M: "renames_texts retired n M" and small: "n < 10 ^ 9"
    and texts: "get_list ''texts'' f = map (\<lambda>k. rewrite_refs M (w k)) kept" "\<And>k. k \<in> set kept \<Longrightarrow> words_same (get_list ''texts'' e ! k) (w k)"
    and child: "is_ref_message c" "get_string ''ref'' c \<notin> retired"
      "\<And>i. text_index (get_string ''ref'' c) = Some i \<Longrightarrow> get_string ''ref'' c = texts_ref i"
  shows "visible_prose P f (rewrite_refs M c) = visible_prose P e c"
proof (cases "text_index (get_string ''ref'' c)")
  case None
  have "get_string ''ref'' c \<notin> texts_ref ` {..<n}"
  proof
    assume "get_string ''ref'' c \<in> texts_ref ` {..<n}"
    then obtain k where "k < n" "get_string ''ref'' c = texts_ref k" by auto
    with None small text_index_texts_ref [of k] show False by simp
  qed
  then have "M (get_string ''ref'' c) = None" using M child(2) by (auto simp: renames_texts_def)
  with None show ?thesis by (simp add: visible_prose_def prose_index_def ref_rewrite [OF child(1)])
next
  case (Some i)
  then have ref: "get_string ''ref'' c = texts_ref i" by (rule child(3))
  have words: "is_prose (rewrite_refs M (w k)) = is_prose (get_list ''texts'' e ! k)"
      "get_string ''text'' (text_payload (rewrite_refs M (w k))) = get_string ''text'' (text_payload (get_list ''texts'' e ! k))"
      "get_num ''content_layer'' (text_payload (rewrite_refs M (w k))) = get_num ''content_layer'' (text_payload (get_list ''texts'' e ! k))"
    if "k \<in> set kept" for k
    unfolding prose_rewrite using texts(2) [OF that] by (auto simp: words_same_def is_prose_def)
  show ?thesis
  proof (cases "i < n")
    case True
    then have "i \<in> set kept" using child(2) by (simp add: kept_def ref)
    note words = words [OF this]
    define j where "j = new_position retired i"
    have j: "j < length kept" "kept ! j = i"
      using new_position_nth [OF True] child(2) by (simp_all add: j_def kept_def ref)
    have "j \<le> i" using length_filter_le [of _ "[0..<i]"] by (simp add: j_def new_position_def)
    have "get_string ''ref'' (rewrite_refs M c) = texts_ref j"
      using M child(2) True by (auto simp: ref_rewrite [OF child(1)] ref renames_texts_def j_def)
    moreover have "text_index (texts_ref j) = Some j" using text_index_texts_ref \<open>j \<le> i\<close> True small by simp
    ultimately show ?thesis
      using Some j True words by (simp add: visible_prose_def prose_index_def prose_base_def texts(1) n_def)
  next
    case False
    then have "M (get_string ''ref'' c) = None" using M child(2) by (auto simp: renames_texts_def ref)
    moreover have "length kept \<le> i"
      using length_filter_le [of "\<lambda>k. texts_ref k \<notin> retired" "[0..<n]"] False by (simp add: kept_def)
    ultimately show ?thesis
      using Some False by (simp add: visible_prose_def prose_index_def ref_rewrite [OF child(1)] texts(1) n_def)
  qed
qed

lemma renames_texts_built:
  fixes retired :: "string set" and texts :: "msg list"
  assumes self: "\<forall>i<length texts. text_self_ref i (texts ! i) = texts_ref i" and keys: "distinct (map fst absorbed_by)"
  defines "state \<equiv> fold (keep_text (fst ` set absorbed_by)) (List.enumerate 0 texts) ([], [])"
  defines "renumbering \<equiv> fold follow_parent absorbed_by (snd state)"
  shows "fst state = map ((!) texts) (filter (\<lambda>k. texts_ref k \<notin> fst ` set absorbed_by) [0..<length texts])"
    and "renames_texts (fst ` set absorbed_by) (length texts) (map_of (sort_key fst renumbering))"
    and "absorbed_by \<noteq> [] \<Longrightarrow> renumbering \<noteq> []"
proof -
  have whole: "fst state = map ((!) texts) (filter (\<lambda>k. texts_ref k \<notin> fst ` set absorbed_by) [0..<length texts])"
      "\<And>i. map_of (snd state) (texts_ref i) =
         (if i < length texts \<and> texts_ref i \<notin> fst ` set absorbed_by \<and> i \<noteq> new_position (fst ` set absorbed_by) i
          then Some (texts_ref (new_position (fst ` set absorbed_by) i)) else None)"
      "fst ` set (snd state) \<subseteq> range texts_ref" "distinct (map fst (snd state))"
    using keep_text_fold [of texts "length texts" "fst ` set absorbed_by"] self by (simp_all add: state_def)
  show "fst state = map ((!) texts) (filter (\<lambda>k. texts_ref k \<notin> fst ` set absorbed_by) [0..<length texts])" by (rule whole(1))
  have sorted: "map_of (sort_key fst renumbering) = map_of renumbering"
    unfolding renumbering_def by (intro map_of_sorted follow_parents(3) whole(4))
  have keys_of: "fst ` set renumbering = fst ` set absorbed_by \<union> fst ` set (snd state)"
    unfolding renumbering_def by (rule follow_parents(2))
  have "fst ` set (snd state) \<subseteq> texts_ref ` {..<length texts}"
  proof
    fix r assume "r \<in> fst ` set (snd state)"
    moreover from this whole(3) obtain i where "r = texts_ref i" by auto
    ultimately have "map_of (snd state) (texts_ref i) \<noteq> None" by (simp add: map_of_eq_None_iff)
    then show "r \<in> texts_ref ` {..<length texts}" using whole(2) [of i] \<open>r = texts_ref i\<close> by (auto split: if_splits)
  qed
  then have "dom (map_of renumbering) \<subseteq> fst ` set absorbed_by \<union> texts_ref ` {..<length texts}"
    unfolding dom_map_of_conv_image_fst keys_of by blast
  moreover have "map_of renumbering (texts_ref i) = map_of (snd state) (texts_ref i)" if "texts_ref i \<notin> fst ` set absorbed_by" for i
    unfolding renumbering_def by (rule follow_parents(1) [OF that])
  ultimately show "renames_texts (fst ` set absorbed_by) (length texts) (map_of (sort_key fst renumbering))"
    unfolding renames_texts_def sorted using whole(2) by simp
  show "absorbed_by \<noteq> [] \<Longrightarrow> renumbering \<noteq> []" using keys_of by (cases absorbed_by) auto
qed

lemma body_materialize:
  assumes "has_body d"
  shows "body_items (materialize blank d) = body_items d" "has_body (materialize blank d)"
  using assms by (auto simp: materialize_def present_def Let_def body_items_def has_body_def sub_or_default_def get_sub_set_sub)

lemma kept_position:
  assumes "j < length (filter (\<lambda>k. texts_ref k \<notin> retired) [0..<n])"
  shows "new_position retired (filter (\<lambda>k. texts_ref k \<notin> retired) [0..<n] ! j) = j"
proof -
  let ?kept = "filter (\<lambda>k. texts_ref k \<notin> retired) [0..<n]"
  have "?kept ! j \<in> set ?kept" using assms by (rule nth_mem)
  then have "?kept ! j < n" "texts_ref (?kept ! j) \<notin> retired" by auto
  note found_at = new_position_nth [OF this]
  have "distinct ?kept" by simp
  with found_at assms show ?thesis by (metis nth_eq_iff_index_eq)
qed

lemma retire_reading:
  fixes e :: msg and blank :: "string \<Rightarrow> msg" and renames :: "rename_log option"
  assumes blank: "blank_words blank" and body: "has_body e" and refs: "\<And>c. c \<in> set (body_items e) \<Longrightarrow> is_ref_message c"
    and self: "\<And>i. i < length (get_list ''texts'' e) \<Longrightarrow> text_self_ref i (get_list ''texts'' e ! i) = texts_ref i"
    and child: "\<And>c i. c \<in> set (body_items e) \<Longrightarrow> text_index (get_string ''ref'' c) = Some i \<Longrightarrow> get_string ''ref'' c = texts_ref i"
    and small: "length (get_list ''texts'' e) < 10 ^ 9"
    and keys: "distinct (map fst absorbed_by)" "absorbed_by \<noteq> []"
    and some: "\<exists>i<length (get_list ''texts'' e). texts_ref i \<notin> fst ` set absorbed_by"
  defines "f \<equiv> fst (retire_text_items blank absorbed_by (e, renames))"
  shows "body_visible P f = concat (map (visible_prose P e) (filter (\<lambda>c. get_string ''ref'' c \<notin> fst ` set absorbed_by) (body_items e)))"
    and "length (get_list ''texts'' f) = length (filter (\<lambda>i. texts_ref i \<notin> fst ` set absorbed_by) [0..<length (get_list ''texts'' e)])"
proof -
  define retired where "retired = fst ` set absorbed_by"
  define a where "a = adopt_children absorbed_by (materialize blank e)"
  define n where "n = length (get_list ''texts'' e)"
  define kept where "kept = filter (\<lambda>k. texts_ref k \<notin> retired) [0..<n]"
  define state where "state = fold (keep_text retired) (List.enumerate 0 (get_list ''texts'' a)) ([], [])"
  define renumbering where "renumbering = fold follow_parent absorbed_by (snd state)"
  define M where "M = map_of (sort_key fst renumbering)"
  define b where "b = set_list ''texts'' (fst state) a"
  define p where "p = prune_retired retired (retired_parents absorbed_by e) b"
  have "words_doc e a" unfolding a_def using words_materialize [OF blank] words_adopt by (rule words_doc_trans)
  then have len_a: "length (get_list ''texts'' a) = n" and words_a: "\<And>k. k < n \<Longrightarrow> words_same (get_list ''texts'' e ! k) (get_list ''texts'' a ! k)"
    by (auto simp: words_doc_def list_all2_conv_all_nth n_def)
  then have self_a: "\<forall>i<length (get_list ''texts'' a). text_self_ref i (get_list ''texts'' a ! i) = texts_ref i"
    using self by (simp add: words_same_def n_def)
  note built = renames_texts_built [OF self_a keys(1), folded retired_def, folded state_def, folded renumbering_def, folded M_def, unfolded len_a, folded kept_def]
  have f: "f = rewrite_refs M p"
    using built(3) [OF keys(2)]
    by (simp add: f_def retire_text_items_def Let_def case_prod_beta rewrite_references_def a_def [symmetric] retired_def [symmetric]
        state_def [symmetric] renumbering_def [symmetric] b_def [symmetric] p_def [symmetric] M_def)
  have "kept \<noteq> []" using some by (auto simp: kept_def n_def retired_def filter_empty_conv)
  then have ne: "get_list ''texts'' a \<noteq> []" using len_a by (auto simp: kept_def)
  have "get_list ''texts'' b = map ((!) (get_list ''texts'' a)) kept"
    unfolding b_def using built(1) by (simp add: get_list_set_list_same [OF ne])
  moreover have "words_doc b p" unfolding p_def by (rule words_prune)
  ultimately have texts_p: "length (get_list ''texts'' p) = length kept"
      "\<And>j. j < length kept \<Longrightarrow> words_same (get_list ''texts'' a ! (kept ! j)) (get_list ''texts'' p ! j)"
    by (auto simp: words_doc_def list_all2_conv_all_nth)
  have "has_body a" "body_items a = body_items e"
    using body_materialize [OF body] by (simp_all add: a_def body_items_adopt has_body_adopt)
  then have "has_body b" "body_items b = body_items e"
    by (simp_all add: b_def has_body_def body_items_def sub_or_default_def)
  then have items: "body_items f = map (rewrite_refs M) (filter (\<lambda>c. get_string ''ref'' c \<notin> retired) (body_items e))"
    by (simp add: f body_items_rewrite p_def body_items_prune)
  define w where "w = (\<lambda>k. get_list ''texts'' p ! new_position retired k)"
  have p_map: "get_list ''texts'' p = map w kept"
    using texts_p(1) kept_position by (auto intro!: nth_equalityI simp: w_def kept_def)
  then have texts_f: "get_list ''texts'' f = map (\<lambda>k. rewrite_refs M (w k)) kept" by (simp add: f get_list_rewrite)
  then show "length (get_list ''texts'' f) = length (filter (\<lambda>i. texts_ref i \<notin> fst ` set absorbed_by) [0..<length (get_list ''texts'' e)])"
    by (simp add: kept_def n_def retired_def)
  have w: "words_same (get_list ''texts'' e ! k) (w k)" if k: "k \<in> set kept" for k
  proof -
    have "k < n" "texts_ref k \<notin> retired" using k by (auto simp: kept_def)
    note spot = new_position_nth [OF this, folded kept_def]
    have "words_same (get_list ''texts'' a ! k) (w k)" using texts_p(2) [OF spot(1)] spot(2) by (simp add: w_def)
    with words_a [OF \<open>k < n\<close>] show ?thesis by (rule words_trans)
  qed
  have "visible_prose P f (rewrite_refs M c) = visible_prose P e c"
    if "c \<in> set (filter (\<lambda>c. get_string ''ref'' c \<notin> retired) (body_items e))" for c
    using that small child refs w
    by (intro visible_prose_renumbered [where w = w and e = e and retired = retired, folded n_def kept_def] built(2) texts_f)
      (auto simp: n_def)
  then show "body_visible P f = concat (map (visible_prose P e) (filter (\<lambda>c. get_string ''ref'' c \<notin> fst ` set absorbed_by) (body_items e)))"
    unfolding body_visible_def items retired_def [symmetric] map_map comp_def by (intro arg_cong [of _ _ concat] map_cong refl)
qed

lemma merge_fold_inv:
  assumes "canonical_texts d" "fair_reading options P" "set (seen @ cs) \<subseteq> set (body_items d)"
    "distinct (map (get_string ''ref'') (seen @ cs))" "merge_inv options P d seen st"
  shows "merge_inv options P d (seen @ cs) (fold (merge_child rnd blank options hs) cs st)"
  using assms(3-)
proof (induction cs arbitrary: seen st)
  case (Cons c cs)
  then have "merge_inv options P d (seen @ [c]) (merge_child rnd blank options hs c st)"
    by (intro merge_child_inv [OF assms(1) _ assms(2)]) auto
  with Cons.IH [of "seen @ [c]"] Cons.prems show ?case by simp
qed simp

lemma retexted_refl: "retexted_doc d d"
  by (simp add: retexted_doc_def list_all2_same retexted_def)

lemma merging_reads:
  assumes canon: "canonical_texts d" and body: "has_body d" and blank: "blank_words blank" and fair: "fair_reading options P"
    and refs: "list_all is_ref_message (body_items d)" and small: "length (get_list ''texts'' d) < 10 ^ 9"
  shows "case merge_continuations rnd blank options (d, renames) of
     (n, f, _) \<Rightarrow> body_visible P f = body_visible P d \<and> length (get_list ''texts'' f) + n = length (get_list ''texts'' d)"
proof -
  define start where "start = \<lparr>merged_document = d, absorbed_refs = [], anchor = None, merges = 0\<rparr>"
  define st where "st = fold (merge_child rnd blank options (document_page_heights d)) (body_items d) start"
  define e where "e = merged_document st"
  define R where "R = sort_key fst (absorbed_refs st)"
  have "merge_inv options P d [] start" by (simp add: start_def merge_inv_def retexted_refl)
  then have inv: "merge_inv options P d (body_items d) st"
    using merge_fold_inv [OF canon fair, of "[]"] canon by (simp add: st_def canonical_texts_def)
  have has: "present ''body'' (blank ''GroupItem'') d = d" using body by (auto simp: present_def has_body_def)
  have unfold_result: "merge_continuations rnd blank options (d, renames) =
      (if merges st > 0 then (merges st, retire_text_items blank R (e, renames)) else (0, e, renames))"
    by (simp add: merge_continuations_def Let_def has st_def [symmetric] start_def [symmetric] e_def R_def)
  have R: "fst ` set R = fst ` set (absorbed_refs st)" "snd ` set R = snd ` set (absorbed_refs st)"
      "length R = length (absorbed_refs st)" by (simp_all add: R_def)
  have re: "retexted_doc d e" and keys: "distinct (map fst (absorbed_refs st))" "merges st = length (absorbed_refs st)"
    and keepers: "\<forall>r\<in>snd ` set R. \<exists>c\<in>set (filter (\<lambda>c. get_string ''ref'' c \<notin> fst ` set R) (body_items d)).
        r = get_string ''ref'' c \<and> prose_index d c \<noteq> None"
    and goners: "\<forall>r\<in>fst ` set R. \<exists>c\<in>set (body_items d). r = get_string ''ref'' c \<and> prose_index d c \<noteq> None"
    and reading: "concat (map (visible_prose P e) (filter (\<lambda>c. get_string ''ref'' c \<notin> fst ` set R) (body_items d))) = body_visible P d"
    using inv unfolding merge_inv_def Let_def e_def [symmetric] R(1,2) [symmetric] body_visible_def by blast+
  have sub: "\<And>k. get_sub k e = get_sub k d" and len: "length (get_list ''texts'' e) = length (get_list ''texts'' d)"
    using re by (auto simp: retexted_doc_def dest: list_all2_lengthD)
  then have items: "body_items e = body_items d" "has_body e" using body by (simp_all add: body_items_def has_body_def sub_or_default_def)
  show ?thesis
  proof (cases "merges st > 0")
    case False
    then have "R = []" using keys(2) R(3) by auto
    then have "body_visible P e = body_visible P d" using reading items by (simp add: body_visible_def [of P e])
    with False len show ?thesis by (simp add: unfold_result)
  next
    case True
    define n where "n = length (get_list ''texts'' d)"
    have ne: "R \<noteq> []" using True keys(2) R(3) by auto
    have named: "\<exists>i<n. get_string ''ref'' c = texts_ref i" if "c \<in> set (body_items d)" "prose_index d c \<noteq> None" for c
      using canonical_child [OF canon that(1)] that(2) by (auto simp: n_def)
    have "snd (hd R) \<in> snd ` set R" using ne by simp
    with keepers obtain c where "c \<in> set (body_items d)" "get_string ''ref'' c \<notin> fst ` set R" "prose_index d c \<noteq> None" by auto
    with named obtain i where some: "i < n" "texts_ref i \<notin> fst ` set R" by metis
    have distinct: "distinct (map fst R)"
      unfolding R_def using keys(1) by (metis mset_eq_imp_distinct_iff mset_map mset_sort)
    have self: "text_self_ref i (get_list ''texts'' e ! i) = texts_ref i" if "i < length (get_list ''texts'' e)" for i
    proof -
      have "retexted (get_list ''texts'' d ! i) (get_list ''texts'' e ! i)"
        using re that len by (simp add: retexted_doc_def list_all2_conv_all_nth)
      from retexted_self_ref [OF this, of i] show ?thesis using canonical_self [OF canon] that len by simp
    qed
    have child: "get_string ''ref'' c = texts_ref i"
      if "c \<in> set (body_items e)" "text_index (get_string ''ref'' c) = Some i" for c i
      using canon that unfolding canonical_texts_def list_all_iff items by fastforce
    have refs': "is_ref_message c" if "c \<in> set (body_items e)" for c using refs that by (simp add: list_all_iff items)
    obtain f renames' where f: "retire_text_items blank R (e, renames) = (f, renames')" by (cases "retire_text_items blank R (e, renames)")
    have bounds: "length (get_list ''texts'' e) < 10 ^ 9" "\<exists>i<length (get_list ''texts'' e). texts_ref i \<notin> fst ` set R"
      using small some len by (auto simp: n_def)
    have "body_visible P f = concat (map (visible_prose P e) (filter (\<lambda>c. get_string ''ref'' c \<notin> fst ` set R) (body_items e)))"
      using retire_reading(1) [OF blank items(2) refs' self child bounds(1) distinct ne bounds(2), of P renames] unfolding f fst_conv by this
    then have result: "body_visible P f = body_visible P d" using reading items by simp
    have len_f: "length (get_list ''texts'' f) = length (filter (\<lambda>i. texts_ref i \<notin> fst ` set R) [0..<n])"
      using retire_reading(2) [OF blank items(2) refs' self child bounds(1) distinct ne bounds(2), of renames]
      unfolding f fst_conv len n_def [symmetric] by this
    have gone: "fst ` set R = texts_ref ` {i. i < n \<and> texts_ref i \<in> fst ` set R}"
    proof (intro equalityI subsetI)
      fix r assume r: "r \<in> fst ` set R"
      with goners obtain c where "c \<in> set (body_items d)" "r = get_string ''ref'' c" "prose_index d c \<noteq> None" by blast
      with named obtain i where "i < n" "r = texts_ref i" by metis
      with r show "r \<in> texts_ref ` {i. i < n \<and> texts_ref i \<in> fst ` set R}" by simp
    qed blast
    have "length R = card (fst ` set R)" using distinct distinct_card [of "map fst R"] by simp
    also have "\<dots> = card {i. i < n \<and> texts_ref i \<in> fst ` set R}"
      by (subst gone) (intro card_image inj_onI, simp)
    also have "\<dots> = length (filter (\<lambda>i. texts_ref i \<in> fst ` set R) [0..<n])"
      by (subst distinct_card [symmetric]) (auto intro: arg_cong [of _ _ card])
    finally have "length (filter (\<lambda>i. texts_ref i \<notin> fst ` set R) [0..<n]) + length R = n"
      using sum_length_filter_compl [of "\<lambda>i. texts_ref i \<in> fst ` set R" "[0..<n]"] by simp
    with result len_f True f keys(2) R(3) show ?thesis by (simp add: unfold_result n_def)
  qed
qed

definition reads_alike :: "repair_options \<Rightarrow> msg \<Rightarrow> nat \<Rightarrow> msg \<Rightarrow> bool" where
  "reads_alike options d n f =
     (body_visible (\<lambda>layer. \<not> looked_past options layer) f = body_visible (\<lambda>layer. \<not> looked_past options layer) d
      \<and> body_visible (looked_past options) f = body_visible (looked_past options) d
      \<and> length (get_list ''texts'' f) + n = length (get_list ''texts'' d))"

text \<open>
  C39. Merging continuations retires one text item for every merge, and through the retirement, the
  pruning and the renumbering of the references the prose of the body reads the same: its visible
  characters, which are all but white space and hyphens, in the same order. With the furniture
  migrated into the body the merge looks past the items of the furniture layer; their prose, and the
  prose of all the others, then each read the same on their own. The document is one whose text
  items carry the reference of their position, below 10^9, and whose body names each child once; the
  default messages are the schema's.
\<close>

theorem merging_keeps_the_words:
  assumes "canonical_texts d" "has_body d" "blank_words blank"
    and "list_all is_ref_message (body_items d)" "length (get_list ''texts'' d) < 10 ^ 9"
  shows "case merge_continuations rnd blank options (d, renames) of (n, f, _) \<Rightarrow> reads_alike options d n f"
proof -
  have "fair_reading options (looked_past options)" "fair_reading options (\<lambda>layer. \<not> looked_past options layer)"
    by (simp_all add: fair_reading_def)
  from this [THEN merging_reads [OF assms(1-3) _ assms(4,5)]] show ?thesis
    by (simp add: reads_alike_def case_prod_beta)
qed

definition sample_broken :: msg where
  "sample_broken = Msg ''p'' ''Document''
     [Submessage ''body'' (Some (sample_group [ref_item ''#/texts/0'', ref_item ''#/texts/1'', ref_item ''#/texts/2''])),
      Submessage ''furniture'' (Some (sample_group [])),
      Messages ''texts'' False ''BaseTextItem''
        [sample_prose ''a long sen-'' 1 700, sample_prose ''tence runs on.'' 2 40, sample_prose ''Next'' 2 90],
      Messages ''pages'' True ''PagesEntry'' [sample_page 1, sample_page 2]]"

lemma sample_merged:
  "case merge_continuations (\<lambda>x. x) (\<lambda>_. sample_group []) (default_repairs (\<lambda>x. x)) (sample_broken, None) of
     (n, f, _) \<Rightarrow> n = 1 \<and> get_string ''text'' (prose_base f 0) = ''a long sentence runs on.''"
  by code_simp

theorem merging_keeps_the_words_witness:
  "case merge_continuations (\<lambda>x. x) (\<lambda>_. sample_group []) (default_repairs (\<lambda>x. x)) (sample_broken, None) of
     (n, f, _) \<Rightarrow> n = 1 \<and> reads_alike (default_repairs (\<lambda>x. x)) sample_broken n f"
proof -
  have "canonical_texts sample_broken" "has_body sample_broken" "blank_words (\<lambda>_. sample_group [])"
      "list_all is_ref_message (body_items sample_broken)"
    by code_simp+
  moreover have "length (get_list ''texts'' sample_broken) < 10 ^ 9" by (simp add: sample_broken_def get_list_def field_of_def)
  ultimately show ?thesis
    using merging_keeps_the_words [of sample_broken "\<lambda>_. sample_group []" "default_repairs (\<lambda>x. x)" "\<lambda>x. x" None] sample_merged
    by (auto split: prod.splits)
qed

end
