(* ===== verification/HeadingDoc.thy ===== *)
theory HeadingDoc
  imports HeadingLevels TextRepairs
begin

text \<open>
  The heading hierarchy over a document (\<^verbatim>\<open>src/src/heading_hierarchy.cpp\<close>): headings that read as
  prose go back to text items, the lines of a title merge into its first line, the title becomes
  the title item, and the remaining headings take their levels. The state is the document with
  the active rename log, as in \<^theory_text>\<open>TextRepairs\<close>; \<open>blank\<close> gives the default message of a type.
\<close>

definition label_title :: int where "label_title = 23"

definition is_section_header :: "msg \<Rightarrow> bool" where
  "is_section_header item = (text_variant item = Some ''section_header'')"

definition heading_of :: "msg \<Rightarrow> msg" where
  "heading_of item = sub_or_default ''section_header'' item"

definition heading_base :: "msg \<Rightarrow> msg" where
  "heading_base item = sub_or_default ''base'' (heading_of item)"

definition eligible :: "heading_options \<Rightarrow> msg \<Rightarrow> bool" where
  "eligible options header =
     (get_num ''level'' header \<le> 0 \<or> from_collectors (heading_collectors options) (sub_or_default ''base'' header))"

definition has_title_item :: "msg \<Rightarrow> bool" where
  "has_title_item d = list_ex (\<lambda>item. text_variant item = Some ''title'') (get_list ''texts'' d)"

text \<open>A heading changes its arm of the oneof and keeps its base.\<close>

definition change_arm :: "(string \<Rightarrow> msg) \<Rightarrow> string \<Rightarrow> string \<Rightarrow> string \<Rightarrow> int \<Rightarrow> msg \<Rightarrow> msg" where
  "change_arm blank old_arm arm type_name label item =
     (let holder = sub_or_default old_arm item;
          base = (case get_sub ''base'' holder of None \<Rightarrow> blank ''TextItemBase'' | Some b \<Rightarrow> b)
      in set_sub arm (Some (set_sub ''base'' (Some (set_num ''label'' label base)) (blank type_name))) (set_sub old_arm None item))"

definition demote_prose_heading :: "(string \<Rightarrow> msg) \<Rightarrow> heading_options \<Rightarrow> msg \<Rightarrow> msg \<times> bool" where
  "demote_prose_heading blank options item =
     (if is_section_header item \<and> from_collectors (heading_collectors options) (heading_base item)
         \<and> heading_reads_as_prose (get_string ''text'' (heading_base item))
      then (change_arm blank ''section_header'' ''text'' ''TextItem'' label_text item, True) else (item, False))"

definition demote_prose_headings :: "(string \<Rightarrow> msg) \<Rightarrow> heading_options \<Rightarrow> msg \<Rightarrow> nat \<times> msg" where
  "demote_prose_headings blank options d =
     (if heading_collectors options = [] then (0, d)
      else
        let items = map (demote_prose_heading blank options) (get_list ''texts'' d)
        in (length (filter snd items), set_list ''texts'' (map fst items) d))"

definition promote_to_title :: "(string \<Rightarrow> msg) \<Rightarrow> msg \<Rightarrow> msg" where
  "promote_to_title blank item = change_arm blank ''section_header'' ''title'' ''TitleItem'' label_title item"

subsection \<open>Candidates\<close>

definition median_line_height :: "(rat \<Rightarrow> rat) \<Rightarrow> msg \<Rightarrow> rat" where
  "median_line_height rnd base =
     median_of (filter (\<lambda>h. h > 0) (map (\<lambda>entry.
       let box = sub_or_default ''bbox'' entry in \<bar>rnd (get_dbl ''b'' box - get_dbl ''t'' box)\<bar>) (get_list ''prov'' base)))"

definition median_font_size :: "msg \<Rightarrow> rat" where
  "median_font_size base = median_of (filter (\<lambda>s. s > 0) (map (get_dbl ''font_size_pt'') (get_list ''spans'' base)))"

definition fill_font_style :: "msg \<Rightarrow> heading_header \<Rightarrow> heading_header" where
  "fill_font_style base h =
     (let styled = filter (\<lambda>sp. get_sub ''formatting'' sp \<noteq> None \<or> get_string ''font_family'' sp \<noteq> []) (get_list ''spans'' base);
          count = (\<lambda>name. length (filter (\<lambda>sp. get_bool name (sub_or_default ''formatting'' sp)) styled));
          h = (case get_sub ''formatting'' base of
                 None \<Rightarrow> h
               | Some f \<Rightarrow> h\<lparr>has_font_style := True, is_bold := get_bool ''bold'' f, is_italic := get_bool ''italic'' f\<rparr>)
      in if styled = [] then h
         else h\<lparr>has_font_style := True, is_bold := is_bold h \<or> count ''bold'' * 2 > length styled,
                is_italic := is_italic h \<or> count ''italic'' * 2 > length styled\<rparr>)"

definition header_of_item :: "(rat \<Rightarrow> rat) \<Rightarrow> heights \<Rightarrow> nat \<Rightarrow> msg \<Rightarrow> heading_header" where
  "header_of_item rnd hs i item =
     (let base = heading_base item;
          ref = (if get_string ''self_ref'' base = [] then texts_ref i else get_string ''self_ref'' base);
          h = fill_font_style base
                \<lparr>header_ref = ref, height_of = median_line_height rnd base, font_size = median_font_size base,
                 header_text = get_string ''text'' base, header_page = 0, header_top = 0, header_bottom = 0,
                 has_font_style = False, is_bold = False, is_italic = False\<rparr>
      in case placement_of rnd hs (get_list ''prov'' base) of
           None \<Rightarrow> h\<lparr>header_page := first_page_of (get_list ''prov'' base)\<rparr>
         | Some p \<Rightarrow> h\<lparr>header_page := page_of p, header_top := top_side (page_box p), header_bottom := bottom_side (page_box p)\<rparr>)"

type_synonym candidates = "(nat \<times> heading_header) list"

definition candidates :: "(rat \<Rightarrow> rat) \<Rightarrow> heading_options \<Rightarrow> msg \<Rightarrow> candidates" where
  "candidates rnd options d =
     List.map_filter (\<lambda>(i, item).
       if is_section_header item \<and> eligible options (heading_of item)
       then Some (i, header_of_item rnd (document_page_heights d) i item) else None)
     (List.enumerate 0 (get_list ''texts'' d))"

subsection \<open>Title lines\<close>

definition update_heading :: "(msg \<Rightarrow> msg) \<Rightarrow> nat \<Rightarrow> msg \<Rightarrow> msg" where
  "update_heading f i d =
     (let item = get_list ''texts'' d ! i
      in set_list ''texts'' ((get_list ''texts'' d)[i := set_sub ''section_header'' (Some (f (heading_of item))) item]) d)"

definition codepoint_count :: "string \<Rightarrow> int" where
  "codepoint_count s = int (length (filter starts_code_point s))"

definition fold_title_line :: "(string \<Rightarrow> msg) \<Rightarrow> msg \<Rightarrow> msg \<Rightarrow> msg" where
  "fold_title_line blank tail head =
     (let head_text = trim_right (get_string ''text'' head); tail_text = trim_left (get_string ''text'' tail);
          shift_by = codepoint_count head_text + 1 - (codepoint_count (get_string ''text'' tail) - codepoint_count tail_text);
          head_orig = get_string ''orig'' head; tail_orig = get_string ''orig'' tail;
          h = set_string ''text'' (head_text @ '' '' @ tail_text) head;
          h = (if head_orig = [] \<and> tail_orig = [] then h
               else set_string ''orig'' (trim_right (if head_orig = [] then head_text else head_orig) @ '' ''
                      @ trim_left (if tail_orig = [] then tail_text else tail_orig)) h);
          h = set_list ''prov'' (get_list ''prov'' h @ get_list ''prov'' tail) h
      in set_list ''spans'' (get_list ''spans'' h @ map (move_span blank (\<lambda>p. p + shift_by)) (get_list ''spans'' tail)) h)"

definition present_heading_base :: "(string \<Rightarrow> msg) \<Rightarrow> msg \<Rightarrow> msg" where
  "present_heading_base blank header = present ''base'' (blank ''TextItemBase'') header"

definition fold_heading :: "(string \<Rightarrow> msg) \<Rightarrow> nat \<Rightarrow> nat \<Rightarrow> msg \<Rightarrow> msg" where
  "fold_heading blank head tail d =
     (let d = update_heading (present_heading_base blank) tail d; tail_base = heading_base (get_list ''texts'' d ! tail)
      in update_heading (\<lambda>header. set_sub ''base'' (Some (fold_title_line blank tail_base (sub_or_default ''base'' header))) header)
           head d)"

fun fold_title_lines ::
  "(string \<Rightarrow> msg) \<Rightarrow> (string \<Rightarrow> nat option) \<Rightarrow> (string \<Rightarrow> nat option) \<Rightarrow> nat \<Rightarrow> string list \<Rightarrow> nat \<Rightarrow> msg \<Rightarrow> string list \<times> msg" where
  "fold_title_lines blank spots items head [] expected d = ([], d)"
| "fold_title_lines blank spots items head (line # lines) expected d =
     (case (spots line, items line) of
        (Some spot, Some i) \<Rightarrow>
          if spot \<noteq> expected then ([], d)
          else
            let (folded, d) = fold_title_lines blank spots items head lines (expected + 1) (fold_heading blank head i d)
            in (line # folded, d)
      | _ \<Rightarrow> ([], d))"

definition body_spots :: "msg \<Rightarrow> string \<Rightarrow> nat option" where
  "body_spots d = map_of (map (\<lambda>(i, c). (get_string ''ref'' c, i)) (List.enumerate 0 (body_items d)))"

definition candidate_items :: "candidates \<Rightarrow> string \<Rightarrow> nat option" where
  "candidate_items cs = map_of (map (\<lambda>(i, h). (header_ref h, i)) cs)"

definition merge_title_lines ::
  "(string \<Rightarrow> msg) \<Rightarrow> candidates \<Rightarrow> string list \<Rightarrow> msg \<times> rename_log option \<Rightarrow> nat \<times> msg \<times> rename_log option" where
  "merge_title_lines blank cs lines state =
     (let (d, renames) = state in
      case lines of
        [] \<Rightarrow> (0, state)
      | first # others \<Rightarrow>
          if others = [] then (0, state)
          else case (body_spots d first, candidate_items cs first) of
            (Some spot, Some head) \<Rightarrow>
              let d = update_heading (present_heading_base blank) head d;
                  (folded, d) = fold_title_lines blank (body_spots d) (candidate_items cs) head others (spot + 1) d;
                  absorbed_by = fold (\<lambda>line m. AList.update line first m) folded []
              in if absorbed_by = [] then (0, d, renames)
                 else (length absorbed_by, retire_text_items blank (sort_key fst absorbed_by) (d, renames))
          | _ \<Rightarrow> (0, state))"

subsection \<open>The pass\<close>

record heading_report =
  titles_merged :: nat
  titles_promoted :: nat
  levels_assigned :: nat
  headings_demoted :: nat
  levels_from_bookmarks :: nat

definition elect_title ::
  "(rat \<Rightarrow> rat) \<Rightarrow> (string \<Rightarrow> msg) \<Rightarrow> heading_options \<Rightarrow> msg \<times> rename_log option \<Rightarrow> (nat \<times> nat) \<times> msg \<times> rename_log option" where
  "elect_title rnd blank options state =
     (if has_title_item (fst state) then ((0, 0), state)
      else
        let cs = candidates rnd options (fst state);
            title = title_lines rnd options (map snd cs);
            (merged, state) = (if merges_title_lines options \<and> length title > 1 then merge_title_lines blank cs title state else (0, state));
            cs = (if merged > 0 then candidates rnd options (fst state) else cs);
            title = (if merged > 0 then title_lines rnd options (map snd cs) else title)
        in case title of
             [line] \<Rightarrow>
               let lines = filter (\<lambda>c. header_ref (snd c) = line) cs;
                   d = fold (\<lambda>c d. set_list ''texts''
                         ((get_list ''texts'' d)[fst c := promote_to_title blank (get_list ''texts'' d ! fst c)]) d) lines (fst state)
               in ((merged, length lines), d, snd state)
           | _ \<Rightarrow> ((merged, 0), state))"

definition assign_level :: "(string \<Rightarrow> int option) \<Rightarrow> nat \<times> heading_header \<Rightarrow> nat \<times> msg \<Rightarrow> nat \<times> msg" where
  "assign_level levels c state =
     (let (assigned, d) = state in
      case levels (header_ref (snd c)) of
        None \<Rightarrow> state
      | Some level \<Rightarrow>
          if get_num ''level'' (heading_of (get_list ''texts'' d ! fst c)) = level then state
          else (assigned + 1, update_heading (set_num ''level'' level) (fst c) d))"

definition infer_heading_hierarchy ::
  "(rat \<Rightarrow> rat) \<Rightarrow> (string \<Rightarrow> msg) \<Rightarrow> heading_options \<Rightarrow> msg \<times> rename_log option
     \<Rightarrow> (heading_report \<times> msg \<times> rename_log option) option" where
  "infer_heading_hierarchy rnd blank options state =
     (let (demoted, d) = demote_prose_headings blank options (fst state) in
      if candidates rnd options d = []
      then Some (\<lparr>titles_merged = 0, titles_promoted = 0, levels_assigned = 0, headings_demoted = demoted, levels_from_bookmarks = 0\<rparr>,
                 d, snd state)
      else
        let ((merged, promoted), (d, renames)) = elect_title rnd blank options (d, snd state);
            cs = candidates rnd options d;
            marks = bookmark_levels rnd options (get_list ''outline'' d) (map snd cs)
        in case infer_heading_levels rnd options (map snd cs) of
             None \<Rightarrow> None
           | Some levels \<Rightarrow>
               let (assigned, d) = fold (assign_level (levels ++ map_of marks)) cs (0, d)
               in Some (\<lparr>titles_merged = merged, titles_promoted = promoted, levels_assigned = assigned,
                         headings_demoted = demoted, levels_from_bookmarks = length marks\<rparr>, d, renames))"

text \<open>\<^verbatim>\<open>assign_section_header_levels\<close> (\<^verbatim>\<open>src/src/assembly_headings.cpp\<close>): only headings without a level.\<close>

definition level_one :: "msg \<Rightarrow> msg" where
  "level_one item =
     (if is_section_header item \<and> get_num ''level'' (heading_of item) = 0
      then set_sub ''section_header'' (Some (set_num ''level'' 1 (heading_of item))) item else item)"

definition assign_section_header_levels ::
  "(rat \<Rightarrow> rat) \<Rightarrow> (string \<Rightarrow> msg) \<Rightarrow> bool \<Rightarrow> heading_options \<Rightarrow> msg \<times> rename_log option \<Rightarrow> (msg \<times> rename_log option) option" where
  "assign_section_header_levels rnd blank enabled requested state =
     (if \<not> enabled then Some (set_list ''texts'' (map level_one (get_list ''texts'' (fst state))) (fst state), snd state)
      else map_option snd (infer_heading_hierarchy rnd blank (requested\<lparr>heading_collectors := []\<rparr>) state))"

subsection \<open>A second run\<close>

definition sample_heading :: "string \<Rightarrow> rat \<Rightarrow> string list \<Rightarrow> msg" where
  "sample_heading s height collectors =
     Msg ''p'' ''BaseTextItem'' [Submessage ''section_header'' (Some (Msg ''p'' ''SectionHeaderItem''
       [Submessage ''base'' (Some (Msg ''p'' ''TextItemBase''
          [Singular ''text'' False True (Some (Str s)),
           Messages ''prov'' False ''ProvenanceItem'' [Msg ''p'' ''ProvenanceItem'' [Submessage ''bbox'' (Some (Msg ''p'' ''BoundingBox''
             [Singular ''t'' False False (Some (Flt 0)), Singular ''b'' False False (Some (Flt height))]))]],
           Messages ''source'' False ''SourceType'' (map (\<lambda>c. Msg ''p'' ''SourceType'' [Submessage ''collector'' (Some (Msg ''p'' ''CollectorSource''
             [Singular ''collector'' False True (Some (Str c))]))]) collectors)])),
        Singular ''level'' False False None]))]"

definition sample_mixed :: msg where
  "sample_mixed = Msg ''p'' ''Document''
     [Messages ''texts'' False ''BaseTextItem'' [sample_heading ''Alpha'' 20 [], sample_heading ''Beta'' 10 [''pdf'']]]"

definition heading_levels_of :: "msg \<Rightarrow> int list" where
  "heading_levels_of d = map (\<lambda>item. get_num ''level'' (heading_of item)) (get_list ''texts'' d)"

lemma fold_assign_cong:
  "(\<And>c. c \<in> set cs \<Longrightarrow> levels (header_ref (snd c)) = levels' (header_ref (snd c))) \<Longrightarrow>
     fold (assign_level levels) cs st = fold (assign_level levels') cs st"
  by (rule fold_cong) (auto simp: assign_level_def)

lemma hierarchy_without_title:
  assumes "demote_prose_headings blank options d = (demoted, d)" "candidates rnd options d = cs" "cs \<noteq> []"
    and "elect_title rnd blank options (d, renames) = ((0, 0), d, renames)" "get_list ''outline'' d = []"
    and "map_option (\<lambda>levels. map levels (map (header_ref \<circ> snd) cs)) (infer_heading_levels rnd options (map snd cs))
           = Some (map levels' (map (header_ref \<circ> snd) cs))"
  shows "infer_heading_hierarchy rnd blank options (d, renames) =
     (let (assigned, d') = fold (assign_level levels') cs (0, d) in
      Some (\<lparr>titles_merged = 0, titles_promoted = 0, levels_assigned = assigned, headings_demoted = demoted,
             levels_from_bookmarks = 0\<rparr>, d', renames))"
proof -
  from assms(6) obtain levels where levels: "infer_heading_levels rnd options (map snd cs) = Some levels"
      "map levels (map (header_ref \<circ> snd) cs) = map levels' (map (header_ref \<circ> snd) cs)"
    by (cases "infer_heading_levels rnd options (map snd cs)") auto
  from levels(2) have "fold (assign_level levels) cs st = fold (assign_level levels') cs st" for st
    by (intro fold_assign_cong) simp
  with assms(1-5) levels(1) show ?thesis
    by (simp add: infer_heading_hierarchy_def bookmark_levels_def Let_def case_prod_beta)
qed

lemma sample_first_run:
  defines "options \<equiv> default_headings (\<lambda>x. x)" and "blank \<equiv> \<lambda>_. sample_group []"
  defines "heads \<equiv> [(0, sample_header ''#/texts/0'' 20 ''Alpha''), (1, sample_header ''#/texts/1'' 10 ''Beta'')]"
  shows "demote_prose_headings blank options sample_mixed = (0, sample_mixed)" "candidates (\<lambda>x. x) options sample_mixed = heads"
    "elect_title (\<lambda>x. x) blank options (sample_mixed, None) = ((0, 0), sample_mixed, None)" "get_list ''outline'' sample_mixed = []"
    "map_option (\<lambda>levels. map levels (map (header_ref \<circ> snd) heads)) (infer_heading_levels (\<lambda>x. x) options (map snd heads)) =
       Some (map (map_of [(''#/texts/0'', 1), (''#/texts/1'', 2)]) (map (header_ref \<circ> snd) heads))"
  unfolding options_def blank_def heads_def by code_simp+

definition sample_levelled :: msg where
  "sample_levelled = snd (fold (assign_level (map_of [(''#/texts/0'', 1), (''#/texts/1'', 2)]))
     [(0, sample_header ''#/texts/0'' 20 ''Alpha''), (1, sample_header ''#/texts/1'' 10 ''Beta'')] (0, sample_mixed))"

lemma sample_second_run:
  defines "options \<equiv> default_headings (\<lambda>x. x)" and "blank \<equiv> \<lambda>_. sample_group []"
  defines "heads \<equiv> [(1, sample_header ''#/texts/1'' 10 ''Beta'')]"
  shows "demote_prose_headings blank options sample_levelled = (0, sample_levelled)" "candidates (\<lambda>x. x) options sample_levelled = heads"
    "elect_title (\<lambda>x. x) blank options (sample_levelled, None) = ((0, 0), sample_levelled, None)" "get_list ''outline'' sample_levelled = []"
    "map_option (\<lambda>levels. map levels (map (header_ref \<circ> snd) heads)) (infer_heading_levels (\<lambda>x. x) options (map snd heads)) =
       Some (map (map_of [(''#/texts/1'', 1)]) (map (header_ref \<circ> snd) heads))"
  unfolding options_def blank_def heads_def by code_simp+

lemma sample_runs:
  "heading_levels_of sample_levelled = [1, 2]"
  "(case fold (assign_level (map_of [(''#/texts/1'', 1)])) [(1, sample_header ''#/texts/1'' 10 ''Beta'')] (0, sample_levelled) of
      (assigned, d) \<Rightarrow> assigned = 1 \<and> heading_levels_of d = [1, 1])"
  by code_simp+

text \<open>
  C37. The header file calls the pass idempotent; it is not. A heading without a source takes a level once and
  is then no candidate any more, so the sizes that a geometry collector's heading is compared with are
  others in a second run, which moves it to another level.
\<close>

theorem heading_pass_not_idempotent:
  "\<exists>once d renames again d' renames'.
     infer_heading_hierarchy (\<lambda>x. x) (\<lambda>_. sample_group []) (default_headings (\<lambda>x. x)) (sample_mixed, None) = Some (once, d, renames)
     \<and> infer_heading_hierarchy (\<lambda>x. x) (\<lambda>_. sample_group []) (default_headings (\<lambda>x. x)) (d, renames) = Some (again, d', renames')
     \<and> heading_levels_of d = [1, 2] \<and> heading_levels_of d' = [1, 1] \<and> levels_assigned again = 1"
proof -
  define run where "run = infer_heading_hierarchy (\<lambda>x. x) (\<lambda>_. sample_group []) (default_headings (\<lambda>x. x))"
  have "\<exists>once. run (sample_mixed, None) = Some (once, sample_levelled, None)"
    using hierarchy_without_title [OF sample_first_run(1,2) _ sample_first_run(3-5)]
    unfolding run_def sample_levelled_def Let_def case_prod_beta by blast
  moreover have "\<exists>again d'. run (sample_levelled, None) = Some (again, d', None) \<and> levels_assigned again = 1 \<and> heading_levels_of d' = [1, 1]"
    using hierarchy_without_title [OF sample_second_run(1,2) _ sample_second_run(3-5)] sample_runs(2)
    unfolding run_def Let_def case_prod_beta by fastforce
  ultimately show ?thesis using sample_runs(1) unfolding run_def [symmetric] by blast
qed

subsection \<open>No heading is left without a level\<close>

definition texts_all :: "(msg \<Rightarrow> bool) \<Rightarrow> msg \<Rightarrow> bool" where
  "texts_all P d = (\<forall>item\<in>set (get_list ''texts'' d). P item)"

lemma texts_set_list: "get_list ''texts'' (set_list ''texts'' items d) = (if list_slot ''texts'' d then items else [])"
proof (cases "list_slot ''texts'' d")
  case False
  then show ?thesis using list_field [of "''texts''" d] by (auto simp: get_list_set_list list_slot_def)
qed (simp add: get_list_of_slot)

lemma texts_all_set_list: "(\<And>item. item \<in> set items \<Longrightarrow> P item) \<Longrightarrow> texts_all P (set_list ''texts'' items d)"
  by (auto simp: texts_all_def texts_set_list)

lemma texts_all_update: "texts_all P d \<Longrightarrow> P (g (get_list ''texts'' d ! i)) \<or> length (get_list ''texts'' d) \<le> i \<Longrightarrow>
   texts_all P (set_list ''texts'' ((get_list ''texts'' d)[i := g (get_list ''texts'' d ! i)]) d)"
  using set_update_subset_insert [of "get_list ''texts'' d" i "g (get_list ''texts'' d ! i)"]
  by (intro texts_all_set_list) (auto simp: texts_all_def list_update_beyond)

lemma texts_all_other: "a \<noteq> ''texts'' \<Longrightarrow> texts_all P (set_list a items d) = texts_all P d" "texts_all P (set_sub k v d) = texts_all P d"
  by (simp_all add: texts_all_def get_list_set_list_other)

lemma texts_all_node:
  assumes "\<And>item. P item \<Longrightarrow> P (update_text f item)" "texts_all P d"
  shows "texts_all P (update_node k f d)"
proof (cases k)
  case (Item a i)
  show ?thesis
  proof (cases "a = ''texts''")
    case True
    have "P (update_text f (get_list ''texts'' d ! i)) \<or> length (get_list ''texts'' d) \<le> i"
      using assms by (cases "i < length (get_list ''texts'' d)") (auto simp: texts_all_def)
    from texts_all_update [of P d "update_text f" i, OF assms(2) this] show ?thesis by (simp add: Item True update_item_def)
  next
    case False
    then show ?thesis using assms(2) by (simp add: Item texts_all_other)
  qed
qed (use assms(2) in \<open>simp_all add: texts_all_other\<close>)

lemma texts_all_fold: "(\<And>x e. texts_all P e \<Longrightarrow> texts_all P (f x e)) \<Longrightarrow> texts_all P d \<Longrightarrow> texts_all P (fold f xs d)"
  by (induction xs arbitrary: d) auto

lemma texts_all_retire:
  assumes stable: "\<And>f item. P item \<Longrightarrow> P (update_text f item)" "\<And>item. P item \<Longrightarrow> P (present_base (blank ''TextItemBase'') item)"
    "\<And>M item. P item \<Longrightarrow> P (rewrite_refs M item)" and d: "texts_all P d"
  shows "texts_all P (fst (retire_text_items blank absorbed_by (d, renames)))"
proof -
  define a where "a = adopt_children absorbed_by (materialize blank d)"
  have "texts_all P (materialize blank d)"
    using d stable(2) by (auto simp: materialize_def Let_def present_def texts_all_def texts_set_list)
  then have a: "texts_all P a"
    unfolding a_def adopt_children_def
    by (rule texts_all_fold [rotated])
      (auto simp: adopt_into_def simp del: update_node.simps split: option.splits intro!: texts_all_node stable(1))
  have kept: "set (fst (fold (keep_text retired) es (kept, renumbering))) \<subseteq> set kept \<union> snd ` set es" for retired es kept renumbering
  proof (induction es arbitrary: kept renumbering)
    case (Cons entry es)
    obtain kept' renumbering' where step: "keep_text retired entry (kept, renumbering) = (kept', renumbering')"
      by (cases "keep_text retired entry (kept, renumbering)")
    then have "set kept' \<subseteq> insert (snd entry) (set kept)" by (auto simp: keep_text_def Let_def split: if_splits)
    with Cons.IH [of kept' renumbering'] show ?case by (auto simp: step)
  qed simp
  define state where "state = fold (keep_text (fst ` set absorbed_by)) (List.enumerate 0 (get_list ''texts'' a)) ([], [])"
  have "set (fst state) \<subseteq> set (get_list ''texts'' a)"
    using kept [of "fst ` set absorbed_by" "List.enumerate 0 (get_list ''texts'' a)" "[]" "[]"] by (simp add: state_def flip: set_map)
  then have "texts_all P (set_list ''texts'' (fst state) a)" using a by (intro texts_all_set_list) (auto simp: texts_all_def)
  then have p: "texts_all P (prune_retired retired parents (set_list ''texts'' (fst state) a))" for retired parents
    unfolding prune_retired_def by (rule texts_all_fold [rotated]) (intro texts_all_node stable(1))
  then have "texts_all P (rewrite_refs M (prune_retired retired parents (set_list ''texts'' (fst state) a)))" for M retired parents
    using stable(3) by (fastforce simp: texts_all_def get_list_rewrite)
  with p show ?thesis
    by (simp add: retire_text_items_def Let_def case_prod_beta rewrite_references_def a_def [symmetric] state_def [symmetric])
qed

definition level_slot :: "msg \<Rightarrow> bool" where
  "level_slot header = (case field_of ''level'' header of Some (Singular _ _ _ _) \<Rightarrow> True | _ \<Rightarrow> False)"

definition can_level :: "msg \<Rightarrow> bool" where
  "can_level item = (is_section_header item \<longrightarrow> level_slot (heading_of item))"

lemma level_slot_set_sub [simp]: "level_slot (set_sub ''base'' v m) = level_slot m"
  by (simp add: level_slot_def set_sub_def field_of_update del: slot_name.simps split: option.split)

lemma variant_some: "text_variant item = Some v \<Longrightarrow> get_sub v item \<noteq> None"
  unfolding text_variant_def find_Some_iff by fastforce

lemma can_level_same_variant:
  assumes "can_level item" "text_variant item = Some v" "level_slot q = level_slot (sub_or_default v item)"
  shows "can_level (set_sub v (Some q) item)"
  using assms variant_update_text [OF assms(2), of q] by (cases "v = ''section_header''") (auto simp: can_level_def is_section_header_def heading_of_def)

lemma can_level_update_text: "can_level item \<Longrightarrow> can_level (update_text f item)"
proof (cases "text_variant item")
  case (Some v)
  assume item: "can_level item"
  show ?thesis
  proof (cases "v = ''code''")
    case True
    then have "text_variant (update_text f item) = Some ''code''"
      using Some variant_update_text(1) [OF Some] by (simp add: update_text_def)
    then show ?thesis by (simp add: can_level_def is_section_header_def)
  next
    case False
    then show ?thesis using can_level_same_variant [OF item Some] by (simp add: update_text_def Some Let_def)
  qed
qed (simp add: update_text_def)

lemma can_level_present_base: "can_level item \<Longrightarrow> can_level (present_base b item)"
  using can_level_same_variant [of item] by (simp add: present_base_def present_def split: option.split)

lemma level_slot_rewrite: "level_slot (rewrite_refs M m) = level_slot m"
  by (auto simp: level_slot_def field_of_rewrite split: option.split slot.split)

lemma can_level_rewrite: "can_level item \<Longrightarrow> can_level (rewrite_refs M item)"
  by (simp add: can_level_def is_section_header_def heading_of_def text_variant_rewrite sub_or_default_rewrite level_slot_rewrite)

lemmas can_level_retire = texts_all_retire [of can_level, OF can_level_update_text can_level_present_base can_level_rewrite]

lemma change_arm_no_header: "arm \<noteq> ''section_header'' \<Longrightarrow> \<not> is_section_header (change_arm blank ''section_header'' arm type_name label item)"
proof -
  assume arm: "arm \<noteq> ''section_header''"
  have "get_sub ''section_header'' (set_sub ''section_header'' None item) = None"
    using sub_field [of "''section_header''" item] by (cases "get_sub ''section_header'' item") (auto simp: get_sub_set_sub)
  with arm have "get_sub ''section_header'' (change_arm blank ''section_header'' arm type_name label item) = None"
    by (simp add: change_arm_def get_sub_set_sub)
  then show ?thesis using variant_some unfolding is_section_header_def by blast
qed

lemma can_level_change_arm: "arm \<noteq> ''section_header'' \<Longrightarrow> can_level (change_arm blank ''section_header'' arm type_name label item)"
  using change_arm_no_header unfolding can_level_def by blast

lemma can_level_demote: "texts_all can_level d \<Longrightarrow> texts_all can_level (snd (demote_prose_headings blank options d))"
proof -
  assume d: "texts_all can_level d"
  have "can_level item" if "item \<in> set (map fst (map (demote_prose_heading blank options) (get_list ''texts'' d)))" for item
    using d that by (auto simp: texts_all_def demote_prose_heading_def intro: can_level_change_arm split: if_splits)
  then have "texts_all can_level (set_list ''texts'' (map fst (map (demote_prose_heading blank options) (get_list ''texts'' d))) d)"
    by (rule texts_all_set_list)
  with d show ?thesis by (simp add: demote_prose_headings_def Let_def)
qed

subsection \<open>Headings stay headings\<close>

text \<open>The positions of a list hold headings that can take a level.\<close>

definition headings_at :: "nat set \<Rightarrow> msg \<Rightarrow> bool" where
  "headings_at I d = (\<forall>i\<in>I. i < length (get_list ''texts'' d) \<and> is_section_header (get_list ''texts'' d ! i))"

lemma texts_update_heading:
  "get_list ''texts'' (update_heading f i d) =
     (get_list ''texts'' d)[i := set_sub ''section_header'' (Some (f (heading_of (get_list ''texts'' d ! i)))) (get_list ''texts'' d ! i)]"
  unfolding update_heading_def Let_def by (subst get_list_set_list_length) simp_all

lemma update_heading_keeps:
  assumes "\<And>h. level_slot (f h) = level_slot h" "texts_all can_level d" "headings_at I d" "i \<in> I"
  shows "texts_all can_level (update_heading f i d)" "headings_at I (update_heading f i d)"
proof -
  define item where "item = get_list ''texts'' d ! i"
  have item: "i < length (get_list ''texts'' d)" "text_variant item = Some ''section_header''" "can_level item"
    using assms(2,3,4) by (auto simp: headings_at_def is_section_header_def texts_all_def item_def)
  then have "can_level (set_sub ''section_header'' (Some (f (heading_of item))) item)"
    using assms(1) by (intro can_level_same_variant) (simp_all add: heading_of_def)
  then show "texts_all can_level (update_heading f i d)"
    using texts_all_update [of can_level d "\<lambda>item. set_sub ''section_header'' (Some (f (heading_of item))) item" i] assms(2)
    by (simp add: update_heading_def item_def Let_def)
  show "headings_at I (update_heading f i d)"
    unfolding headings_at_def
  proof
    fix j assume "j \<in> I"
    then have j: "j < length (get_list ''texts'' d)" "is_section_header (get_list ''texts'' d ! j)"
      using assms(3) by (auto simp: headings_at_def)
    show "j < length (get_list ''texts'' (update_heading f i d)) \<and> is_section_header (get_list ''texts'' (update_heading f i d) ! j)"
    proof (cases "j = i")
      case True
      then show ?thesis using j item variant_update_text(1) [OF item(2)] by (simp add: texts_update_heading item_def is_section_header_def)
    qed (use j in \<open>simp add: texts_update_heading\<close>)
  qed
qed

lemma fold_heading_keeps:
  assumes "texts_all can_level d" "headings_at I d" "i \<in> I" "head \<in> I"
  shows "texts_all can_level (fold_heading blank head i d)" "headings_at I (fold_heading blank head i d)"
proof -
  note first = update_heading_keeps [of "present_heading_base blank", OF _ assms(1-3)]
  have "level_slot (present_heading_base blank h) = level_slot h" for h by (simp add: present_heading_base_def present_def)
  note first = first [OF this]
  show "texts_all can_level (fold_heading blank head i d)" "headings_at I (fold_heading blank head i d)"
    unfolding fold_heading_def Let_def by (rule update_heading_keeps [OF _ first assms(4)]; simp)+
qed

lemma fold_title_lines_keeps:
  assumes "texts_all can_level d" "headings_at I d" "head \<in> I" "\<And>line i. items line = Some i \<Longrightarrow> i \<in> I"
  shows "texts_all can_level (snd (fold_title_lines blank spots items head lines expected d))"
  using assms(1,2)
proof (induction lines arbitrary: expected d)
  case (Cons line lines)
  have step: "texts_all can_level (snd (fold_title_lines blank spots items head lines (expected + 1) (fold_heading blank head i d)))"
    if "items line = Some i" for i
    using fold_heading_keeps [OF Cons.prems assms(4) [OF that] assms(3)] by (intro Cons.IH)
  then show ?case using Cons.prems by (auto simp: case_prod_beta split: option.split)
qed simp

lemma candidates_headings: "headings_at (fst ` set (candidates rnd options d)) d"
  by (auto simp: headings_at_def candidates_def List.map_filter_def in_set_enumerate_eq split: if_splits)

lemma merge_title_lines_keeps:
  assumes "texts_all can_level d"
  shows "texts_all can_level (fst (snd (merge_title_lines blank (candidates rnd options d) lines (d, renames))))"
proof -
  define cs where "cs = candidates rnd options d"
  have at: "i \<in> fst ` set cs" if "candidate_items cs line = Some i" for line i
    using that unfolding candidate_items_def by (force dest: map_of_SomeD)
  have merged: "texts_all can_level (snd (fold_title_lines blank spots (candidate_items cs) head others expected
      (update_heading (present_heading_base blank) head d)))" if "candidate_items cs line = Some head" for spots line head others expected
  proof (rule fold_title_lines_keeps)
    note head = update_heading_keeps [of "present_heading_base blank", OF _ assms candidates_headings at [OF that, unfolded cs_def]]
    have "level_slot (present_heading_base blank h) = level_slot h" for h by (simp add: present_heading_base_def present_def)
    note head = head [OF this]
    show "texts_all can_level (update_heading (present_heading_base blank) head d)" by (rule head(1))
    show "headings_at (fst ` set cs) (update_heading (present_heading_base blank) head d)" unfolding cs_def by (rule head(2))
  qed (use at that in auto)
  show ?thesis
    using assms merged can_level_retire
    by (auto simp: merge_title_lines_def cs_def [symmetric] Let_def case_prod_beta split: list.split option.split)
qed

lemma promote_keeps:
  "texts_all can_level d \<Longrightarrow>
     texts_all can_level (fold (\<lambda>c d. set_list ''texts''
       ((get_list ''texts'' d)[fst c := promote_to_title blank (get_list ''texts'' d ! fst c)]) d) cs d)"
proof (rule texts_all_fold)
  fix c e assume "texts_all can_level e"
  then show "texts_all can_level (set_list ''texts'' ((get_list ''texts'' e)[fst c := promote_to_title blank (get_list ''texts'' e ! fst c)]) e)"
    by (rule texts_all_update) (simp add: promote_to_title_def can_level_change_arm)
qed

lemma elect_title_keeps:
  assumes "texts_all can_level d"
  shows "texts_all can_level (fst (snd (elect_title rnd blank options (d, renames))))"
proof -
  define cs where "cs = candidates rnd options d"
  define title where "title = title_lines rnd options (map snd cs)"
  define merged where "merged = (if merges_title_lines options \<and> length title > 1
      then merge_title_lines blank cs title (d, renames) else (0, d, renames))"
  have merged: "texts_all can_level (fst (snd merged))"
    using assms merge_title_lines_keeps [OF assms] by (auto simp: merged_def cs_def)
  show ?thesis
    using assms merged promote_keeps [OF merged]
    unfolding elect_title_def Let_def fst_conv snd_conv cs_def [symmetric] title_def [symmetric] merged_def [symmetric] case_prod_beta
    by (auto split: list.split)
qed

subsection \<open>The assignment\<close>

definition has_level :: "msg \<Rightarrow> bool" where
  "has_level item = (is_section_header item \<longrightarrow> get_num ''level'' (heading_of item) \<ge> 1)"

lemma get_num_set_level: "level_slot h \<Longrightarrow> get_num ''level'' (set_num ''level'' n h) = n"
  by (auto simp: level_slot_def get_num_def set_num_def field_of_update split: option.splits slot.splits)

lemma level_slot_set_num [simp]: "level_slot (set_num ''level'' n h) = level_slot h"
  by (auto simp: level_slot_def set_num_def field_of_update split: option.split slot.split)

lemma assign_level_step:
  assumes "texts_all can_level d" "headings_at I d" "fst c \<in> I" "levels (header_ref (snd c)) = Some l" "1 \<le> l"
  shows "texts_all can_level (snd (assign_level levels c (n, d)))" "headings_at I (snd (assign_level levels c (n, d)))"
    and "has_level (get_list ''texts'' (snd (assign_level levels c (n, d))) ! fst c)"
    and "j \<noteq> fst c \<Longrightarrow> get_list ''texts'' (snd (assign_level levels c (n, d))) ! j = get_list ''texts'' d ! j"
    and "length (get_list ''texts'' (snd (assign_level levels c (n, d)))) = length (get_list ''texts'' d)"
proof -
  define i where "i = fst c"
  define item where "item = get_list ''texts'' d ! i"
  have item: "i < length (get_list ''texts'' d)" "text_variant item = Some ''section_header''" "level_slot (heading_of item)"
    using assms(1-3) by (auto simp: headings_at_def is_section_header_def texts_all_def item_def can_level_def i_def)
  have st: "snd (assign_level levels c (n, d)) = (if get_num ''level'' (heading_of item) = l then d else update_heading (set_num ''level'' l) i d)"
    using assms(4) by (simp add: assign_level_def item_def i_def)
  note kept = update_heading_keeps [of "set_num ''level'' l", OF level_slot_set_num assms(1-3)]
  show "texts_all can_level (snd (assign_level levels c (n, d)))" "headings_at I (snd (assign_level levels c (n, d)))"
    using kept assms(1,2) by (simp_all add: st i_def)
  show "has_level (get_list ''texts'' (snd (assign_level levels c (n, d))) ! fst c)"
    using item assms(5) variant_update_text(2) [OF item(2)] get_num_set_level
    by (auto simp: st texts_update_heading has_level_def heading_of_def item_def i_def)
  show "j \<noteq> fst c \<Longrightarrow> get_list ''texts'' (snd (assign_level levels c (n, d))) ! j = get_list ''texts'' d ! j"
    "length (get_list ''texts'' (snd (assign_level levels c (n, d)))) = length (get_list ''texts'' d)"
    by (simp_all add: st texts_update_heading i_def)
qed

lemma assign_levels:
  assumes "texts_all can_level d" "headings_at I d" "fst ` set cs \<subseteq> I"
    and "\<And>c. c \<in> set cs \<Longrightarrow> \<exists>l\<ge>1. levels (header_ref (snd c)) = Some l"
  shows "length (get_list ''texts'' (snd (fold (assign_level levels) cs (n, d)))) = length (get_list ''texts'' d)
     \<and> (\<forall>j. (j \<in> fst ` set cs \<or> has_level (get_list ''texts'' d ! j)) \<longrightarrow>
            has_level (get_list ''texts'' (snd (fold (assign_level levels) cs (n, d))) ! j))"
  using assms
proof (induction cs arbitrary: n d)
  case (Cons c cs)
  obtain l where l: "levels (header_ref (snd c)) = Some l" "1 \<le> l" using Cons.prems(4) [of c] by auto
  have c: "fst c \<in> I" using Cons.prems(3) by simp
  obtain n' d' where step: "assign_level levels c (n, d) = (n', d')" by (cases "assign_level levels c (n, d)")
  note one = assign_level_step [where levels = levels and n = n, OF Cons.prems(1,2) c l, unfolded step snd_conv]
  have "has_level (get_list ''texts'' d' ! j)" if "j = fst c \<or> has_level (get_list ''texts'' d ! j)" for j
    using that one(3) one(4) [of j] by (cases "j = fst c") auto
  with Cons.IH [OF one(1,2), of n'] Cons.prems(3,4) one(5) show ?case by (auto simp: step)
qed simp

lemma alist_update_values: "snd ` set (AList.update k v m) \<subseteq> insert v (snd ` set m)"
  by (induction m) auto

lemma bookmark_levels_positive: "l \<in> snd ` set (bookmark_levels rnd options outline headers) \<Longrightarrow> 1 \<le> l"
proof -
  have ceiling: "1 \<le> level_ceiling options" by (simp add: level_ceiling_def)
  have step: "\<forall>l\<in>snd ` set (fst (bookmark_step rnd options outline h st)). 1 \<le> l" if "\<forall>l\<in>snd ` set (fst st). 1 \<le> l" for h st
  proof -
    obtain levels cells where st: "st = (levels, cells)" by (cases st)
    obtain best best_level cells' where m: "match_header rnd options outline h cells = (best, best_level, cells')"
      by (cases "match_header rnd options outline h cells")
    define updated where "updated = AList.update (header_ref h) (min (level_ceiling options) best_level) levels"
    have "1 \<le> l" if "l \<in> snd ` set updated" "best_level > 0" for l
    proof -
      have "l \<in> insert (min (level_ceiling options) best_level) (snd ` set levels)"
        using alist_update_values that(1) unfolding updated_def by (rule subsetD)
      then show ?thesis using that(2) ceiling \<open>\<forall>l\<in>snd ` set (fst st). 1 \<le> l\<close> by (auto simp: st)
    qed
    with that show ?thesis by (auto simp: bookmark_step_def st m updated_def [symmetric])
  qed
  have "\<forall>l\<in>snd ` set (fst (fold (bookmark_step rnd options outline) headers st)). 1 \<le> l" if "\<forall>l\<in>snd ` set (fst st). 1 \<le> l" for st
    using that
  proof (induction headers arbitrary: st)
    case (Cons h headers)
    show ?case using Cons.IH [OF step [OF Cons.prems]] by simp
  qed simp
  from this [of "([], 0)"] show "l \<in> snd ` set (bookmark_levels rnd options outline headers) \<Longrightarrow> 1 \<le> l"
    by (auto simp: bookmark_levels_def split: if_splits)
qed

lemma uncandidate_has_level:
  assumes "j < length (get_list ''texts'' d)" "j \<notin> fst ` set (candidates rnd options d)"
  shows "has_level (get_list ''texts'' d ! j)"
proof -
  have "(j, get_list ''texts'' d ! j) \<in> set (List.enumerate 0 (get_list ''texts'' d))" using assms(1) by (simp add: in_set_enumerate_eq)
  then have "\<not> (is_section_header (get_list ''texts'' d ! j) \<and> eligible options (heading_of (get_list ''texts'' d ! j)))"
    using assms(2) by (force simp: candidates_def List.map_filter_def image_iff)
  then show ?thesis by (auto simp: has_level_def eligible_def)
qed

text \<open>
  C36. The heading pass returns, and after it no heading is left undecided: every section header of the
  document, whichever collector it comes from, through the demotion of prose, the merging of title
  lines with its renumbering and the election of a title, has a level of at least one.
\<close>

theorem every_heading_has_a_level:
  assumes "\<And>x. 0 < x \<Longrightarrow> rnd (deeper_below rnd options * x) \<le> x" "texts_all can_level d"
  shows "\<exists>outcome d' renames'. infer_heading_hierarchy rnd blank options (d, renames) = Some (outcome, d', renames')
     \<and> texts_all has_level d'"
proof -
  define e where "e = snd (demote_prose_headings blank options d)"
  have e: "texts_all can_level e" unfolding e_def by (rule can_level_demote [OF assms(2)])
  show ?thesis
  proof (cases "candidates rnd options e = []")
    case True
    have "texts_all has_level e"
      using uncandidate_has_level [of _ e rnd options] True by (auto simp: texts_all_def in_set_conv_nth)
    with True show ?thesis by (simp add: infer_heading_hierarchy_def case_prod_beta e_def)
  next
    case False
    define elected where "elected = elect_title rnd blank options (e, renames)"
    define f where "f = fst (snd elected)"
    define cs where "cs = candidates rnd options f"
    define marks where "marks = bookmark_levels rnd options (get_list ''outline'' f) (map snd cs)"
    have f: "texts_all can_level f" unfolding f_def elected_def by (rule elect_title_keeps [OF e])
    obtain levels where levels: "infer_heading_levels rnd options (map snd cs) = Some levels"
        "dom levels = header_ref ` set (map snd cs)" "\<forall>l\<in>ran levels. 1 \<le> l"
      using infer_levels_range [of rnd options "map snd cs", OF assms(1)] by blast
    have positive: "\<exists>l\<ge>1. (levels ++ map_of marks) (header_ref (snd c)) = Some l" if "c \<in> set cs" for c
    proof (cases "map_of marks (header_ref (snd c))")
      case None
      have "header_ref (snd c) \<in> dom levels" using that by (simp add: levels(2))
      then obtain l where "levels (header_ref (snd c)) = Some l" by auto
      with levels(3) None show ?thesis by (auto simp: map_add_def ran_def)
    next
      case (Some l)
      then have "l \<in> snd ` set marks" by (force dest: map_of_SomeD)
      from bookmark_levels_positive [OF this [unfolded marks_def]] Some show ?thesis by (simp add: map_add_def)
    qed
    define final where "final = fold (assign_level (levels ++ map_of marks)) cs (0, f)"
    have at: "headings_at (fst ` set cs) f" unfolding cs_def by (rule candidates_headings)
    have "has_level (get_list ''texts'' (snd final) ! j)" if "j < length (get_list ''texts'' (snd final))" for j
      using assign_levels [where levels = "levels ++ map_of marks" and n = 0, OF f at subset_refl positive] that
        uncandidate_has_level [of j f rnd options]
      by (fastforce simp: final_def cs_def [symmetric])
    then have "texts_all has_level (snd final)" by (auto simp: texts_all_def in_set_conv_nth)
    moreover have "\<exists>outcome renames'. infer_heading_hierarchy rnd blank options (d, renames) = Some (outcome, snd final, renames')"
      using False levels(1)
      by (simp add: infer_heading_hierarchy_def case_prod_beta Let_def e_def [symmetric] elected_def [symmetric] f_def [symmetric]
          cs_def [symmetric] marks_def [symmetric] final_def [symmetric])
    ultimately show ?thesis by blast
  qed
qed

theorem every_heading_has_a_level_witness:
  "\<exists>outcome d' renames'. infer_heading_hierarchy (\<lambda>x. x) (\<lambda>_. sample_group []) (default_headings (\<lambda>x. x)) (sample_mixed, None)
     = Some (outcome, d', renames') \<and> texts_all has_level d'"
proof (rule every_heading_has_a_level)
  show "0 < x \<Longrightarrow> deeper_below (\<lambda>x. x) (default_headings (\<lambda>x. x)) * x \<le> x" for x
    by (simp add: deeper_below_def default_headings_def)
  show "texts_all can_level sample_mixed" unfolding texts_all_def by code_simp
qed

end
