(* ===== verification/ParagraphSplit.thy ===== *)
theory ParagraphSplit
  imports HeadingDoc
begin

text \<open>
  Splitting the paragraphs a text layer ran together (\<^verbatim>\<open>src/src/paragraph_split.cpp\<close>): a
  numbered heading in capitals that runs into its paragraph, and the rows of a form. The
  functions over strings come first, then the split of one text item (its pieces, their boxes,
  spans and place in the tree), then the two passes over a document.
\<close>

subsection \<open>Tokens\<close>

definition kCheckboxEmpty :: string where
  "kCheckboxEmpty = map char_of [0xE2 :: nat, 0x98, 0x90]"

definition kCheckboxChecked :: string where
  "kCheckboxChecked = map char_of [0xE2 :: nat, 0x98, 0x92]"

definition kMinimumCapsWords :: nat where "kMinimumCapsWords = 2"
definition kMinimumParagraphWords :: nat where "kMinimumParagraphWords = 3"
definition kMinimumBlankRun :: nat where "kMinimumBlankRun = 3"

text \<open>The tokens of a text from a byte on: where each one starts and ends.\<close>

function tokens_from :: "nat \<Rightarrow> string \<Rightarrow> (nat \<times> nat) list" where
  "tokens_from index s =
     (let rest = dropWhile c_isspace s; start = index + (length s - length rest);
          word = takeWhile (\<lambda>c. \<not> c_isspace c) rest
      in if rest = [] then []
         else (start, start + length word) # tokens_from (start + length word) (drop (length word) rest))"
  by pat_completeness auto

termination
proof (relation "measure (length \<circ> snd)", simp, goal_cases)
  case (1 index s)
  have "length (dropWhile c_isspace s) \<le> length s" by (rule length_dropWhile_le)
  moreover have "takeWhile (\<lambda>c. \<not> c_isspace c) (dropWhile c_isspace s) \<noteq> []"
    using 1 hd_dropWhile [of c_isspace s] by (cases "dropWhile c_isspace s") auto
  ultimately show ?case using 1 by (cases "dropWhile c_isspace s") (auto simp: less_le_trans)
qed

declare tokens_from.simps [simp del]

definition tokens_of :: "string \<Rightarrow> (nat \<times> nat) list" where
  "tokens_of s = tokens_from 0 s"

definition token_text :: "string \<Rightarrow> nat \<times> nat \<Rightarrow> string" where
  "token_text s t = take (snd t - fst t) (drop (fst t) s)"

fun decimal_from :: "bool \<Rightarrow> string \<Rightarrow> bool" where
  "decimal_from digit_expected [] = (\<not> digit_expected)"
| "decimal_from digit_expected (c # cs) =
     (if c_isdigit c then decimal_from False cs
      else if c = CHR ''.'' \<and> \<not> digit_expected \<and> cs \<noteq> [] then decimal_from True cs
      else c = CHR ''.'' \<and> cs = [])"

definition is_decimal_numbering :: "string \<Rightarrow> bool" where
  "is_decimal_numbering s = (s \<noteq> [] \<and> c_isdigit (hd s) \<and> decimal_from True s)"

text \<open>A second closing period passes: the loop accepts a period at the end whatever came before it.\<close>

lemma two_closing_periods: "is_decimal_numbering ''3..''"
  by code_simp

definition is_caps_word :: "string \<Rightarrow> bool" where
  "is_caps_word s = (list_all (\<lambda>c. c_isupper c \<or> c = CHR ''-'') s \<and> length (filter c_isupper s) > 0)"

definition is_sentence_case_word :: "string \<Rightarrow> bool" where
  "is_sentence_case_word s = (length s \<ge> 2 \<and> c_isupper (hd s) \<and> c_islower (s ! 1))"

definition is_label_with_colon :: "string \<Rightarrow> bool" where
  "is_label_with_colon s =
     (length s \<ge> 3 \<and> last s = CHR '':'' \<and> c_isupper (hd s)
      \<and> list_all (\<lambda>c. c_islower c \<or> c_isupper c) (take (length s - 2) (drop 1 s)))"

definition is_blank_run :: "string \<Rightarrow> bool" where
  "is_blank_run s = (length s \<ge> kMinimumBlankRun \<and> list_all (\<lambda>c. c = CHR ''_'') s)"

definition starts_with_checkbox :: "string \<Rightarrow> bool" where
  "starts_with_checkbox s = (starts_with s kCheckboxEmpty \<or> starts_with s kCheckboxChecked)"

definition codepoints :: "string \<Rightarrow> nat" where
  "codepoints s = length (filter starts_code_point s)"

definition trimmed :: "string \<Rightarrow> string" where
  "trimmed s = trim_right (trim_left s)"

subsection \<open>Where a text is split\<close>

definition run_in_heading_end :: "string \<Rightarrow> nat option" where
  "run_in_heading_end s =
     (let tokens = tokens_of s; words = map (token_text s) tokens in
      if length tokens < 2 + kMinimumCapsWords + kMinimumParagraphWords then None
      else if \<not> is_decimal_numbering (words ! 0) then None
      else
        let index = 1 + length (takeWhile is_caps_word (drop 1 words)) in
        if index - 1 < kMinimumCapsWords \<or> index \<ge> length tokens then None
        else if \<not> is_sentence_case_word (words ! index) then None
        else if length tokens - index < kMinimumParagraphWords then None
        else Some (fst (tokens ! index)))"

definition starts_row :: "string list \<Rightarrow> nat \<Rightarrow> bool" where
  "starts_row words index =
     (starts_with_checkbox (words ! index)
      \<or> is_label_with_colon (words ! index) \<and> index + 1 < length words \<and> is_blank_run (words ! (index + 1)))"

definition form_row_starts :: "string \<Rightarrow> nat list" where
  "form_row_starts s =
     (let tokens = tokens_of s; words = map (token_text s) tokens
      in map (\<lambda>index. fst (tokens ! index)) (filter (starts_row words) [1..<length tokens]))"

subsection \<open>The pieces of one item\<close>

definition is_body_prose :: "msg \<Rightarrow> bool" where
  "is_body_prose item =
     (text_variant item = Some ''text''
      \<and> get_num ''content_layer'' (text_payload item) = content_layer_body
      \<and> get_list ''children'' (text_payload item) = []
      \<and> get_num ''label'' (text_payload item) \<in> {label_text, label_paragraph})"

fun with_dbl :: "rat \<Rightarrow> slot \<Rightarrow> slot" where
  "with_dbl v (Singular name p s _) = Singular name p s (if \<not> p \<and> v = 0 then None else Some (Flt v))"
| "with_dbl v s = s"

definition set_dbl :: "string \<Rightarrow> rat \<Rightarrow> msg \<Rightarrow> msg" where
  "set_dbl name v m = update_field name (with_dbl v) m"

definition strip_of :: "(rat \<Rightarrow> rat) \<Rightarrow> msg \<Rightarrow> rat \<Rightarrow> rat \<Rightarrow> rat \<Rightarrow> msg" where
  "strip_of rnd box height start_share end_share =
     (let bottom_left = (get_num ''coord_origin'' box = origin_bottom_left) in
      if height \<le> 0 \<and> bottom_left then box
      else
        let flipped = make_top_down rnd box height;
            upper = rnd (top_side flipped + rnd (td_height rnd flipped * start_share));
            lower = rnd (top_side flipped + rnd (td_height rnd flipped * end_share))
        in if bottom_left
           then set_dbl ''b'' (rnd (height - lower)) (set_dbl ''t'' (rnd (height - upper)) box)
           else set_dbl ''b'' lower (set_dbl ''t'' upper box))"

definition split_cuts :: "string \<Rightarrow> nat list \<Rightarrow> nat list" where
  "split_cuts s offsets =
     fold (\<lambda>offset cuts. if 0 < offset \<and> offset < length s \<and> (cuts = [] \<or> offset > last cuts) then cuts @ [offset] else cuts)
       offsets []"

text \<open>What a split knows: the text, its cuts in bytes and in code points, and the page heights.\<close>

record split_plan =
  split_text :: string
  cuts :: "nat list"
  cut_points :: "nat list"
  page_heights_of :: heights

definition raw_slice :: "split_plan \<Rightarrow> nat \<Rightarrow> string" where
  "raw_slice plan piece = take (cuts plan ! (piece + 1) - cuts plan ! piece) (drop (cuts plan ! piece) (split_text plan))"

definition slice_of :: "split_plan \<Rightarrow> nat \<Rightarrow> string" where
  "slice_of plan piece = trimmed (raw_slice plan piece)"

definition slice_start :: "split_plan \<Rightarrow> nat \<Rightarrow> nat" where
  "slice_start plan piece =
     codepoints (take (if slice_of plan piece = [] then cuts plan ! piece
                       else cuts plan ! piece + length (takeWhile c_isspace (raw_slice plan piece))) (split_text plan))"

definition share :: "(rat \<Rightarrow> rat) \<Rightarrow> split_plan \<Rightarrow> nat \<Rightarrow> rat" where
  "share rnd plan piece = rnd (of_nat (cut_points plan ! piece) / of_nat (max (last (cut_points plan)) 1))"

definition strip_entry :: "(rat \<Rightarrow> rat) \<Rightarrow> (string \<Rightarrow> msg) \<Rightarrow> split_plan \<Rightarrow> nat \<Rightarrow> msg \<Rightarrow> msg" where
  "strip_entry rnd blank plan piece entry =
     (let page = get_num ''page_no'' entry;
          strip = set_num ''page_no'' page (blank ''ProvenanceItem'');
          height = (case page_heights_of plan page of None \<Rightarrow> 0 | Some h \<Rightarrow> h);
          strip = (case get_sub ''bbox'' entry of
                     None \<Rightarrow> strip
                   | Some box \<Rightarrow>
                       set_sub ''bbox'' (Some (strip_of rnd box height (share rnd plan piece) (share rnd plan (piece + 1)))) strip)
      in if get_sub ''charspan'' entry = None then strip
         else set_sub ''charspan''
                (Some (set_num ''end'' (int (codepoints (slice_of plan piece))) (set_num ''start'' 0 (blank ''IntSpan'')))) strip)"

definition span_start :: "msg \<Rightarrow> int" where
  "span_start sp = get_num ''start'' (sub_or_default ''range'' sp)"

definition owns_span :: "split_plan \<Rightarrow> nat \<Rightarrow> msg \<Rightarrow> bool" where
  "owns_span plan piece sp =
     (let start = nat (max 0 (span_start sp)) in cut_points plan ! piece \<le> start \<and> start < cut_points plan ! (piece + 1))"

definition moved_span :: "(string \<Rightarrow> msg) \<Rightarrow> split_plan \<Rightarrow> nat \<Rightarrow> msg \<Rightarrow> msg" where
  "moved_span blank plan piece sp =
     (let shift_by = int (slice_start plan piece); points = int (codepoints (slice_of plan piece));
          bounds = (case get_sub ''range'' sp of None \<Rightarrow> blank ''IntSpan'' | Some r \<Rightarrow> r);
          bounds = set_num ''start'' (max (span_start sp - shift_by) 0) bounds;
          bounds = set_num ''end'' (min (max (get_num ''end'' (sub_or_default ''range'' sp) - shift_by) 0) points) bounds
      in set_sub ''range'' (Some bounds) sp)"

definition fill_piece :: "(rat \<Rightarrow> rat) \<Rightarrow> (string \<Rightarrow> msg) \<Rightarrow> split_plan \<Rightarrow> msg \<Rightarrow> nat \<Rightarrow> msg \<Rightarrow> msg" where
  "fill_piece rnd blank plan pristine piece target =
     (let slice = slice_of plan piece;
          target = set_string ''text'' slice target;
          target = (if get_string ''orig'' pristine = [] then target else set_string ''orig'' slice target);
          target = set_list ''prov''
                     (get_list ''prov'' target @ map (strip_entry rnd blank plan piece) (get_list ''prov'' pristine)) target
      in set_list ''spans''
           (get_list ''spans'' target
            @ map (moved_span blank plan piece) (filter (owns_span plan piece) (get_list ''spans'' pristine))) target)"

definition new_piece_base :: "(string \<Rightarrow> msg) \<Rightarrow> string \<Rightarrow> msg \<Rightarrow> msg" where
  "new_piece_base blank ref pristine =
     (let parent = (case get_sub ''parent'' pristine of None \<Rightarrow> blank ''RefItem'' | Some p \<Rightarrow> p);
          base = set_sub ''parent'' (Some parent) (set_string ''self_ref'' ref (blank ''TextItemBase''));
          base = set_num ''label'' (get_num ''label'' pristine)
                   (set_num ''content_layer'' (get_num ''content_layer'' pristine) base)
      in set_list ''source'' (get_list ''source'' base @ get_list ''source'' pristine) base)"

definition text_item_of :: "(string \<Rightarrow> msg) \<Rightarrow> msg \<Rightarrow> msg" where
  "text_item_of blank base = set_sub ''text'' (Some (set_sub ''base'' (Some base) (blank ''TextItem''))) (blank ''BaseTextItem'')"

definition split_piece ::
  "(rat \<Rightarrow> rat) \<Rightarrow> (string \<Rightarrow> msg) \<Rightarrow> split_plan \<Rightarrow> msg \<Rightarrow> nat \<Rightarrow> nat \<Rightarrow> string list \<times> msg \<Rightarrow> string list \<times> msg" where
  "split_piece rnd blank plan pristine i piece state =
     (let (new_refs, d) = state in
      if piece = 0
      then (new_refs, update_node (Item ''texts'' i)
              (\<lambda>base. fill_piece rnd blank plan pristine piece (clear_field ''spans'' (clear_field ''prov'' base))) d)
      else
        let ref = texts_ref (length (get_list ''texts'' d));
            base = fill_piece rnd blank plan pristine piece (new_piece_base blank ref pristine)
        in (new_refs @ [ref], set_list ''texts'' (get_list ''texts'' d @ [text_item_of blank base]) d))"

subsection \<open>The list that names an item\<close>

definition split_index_after :: "string \<Rightarrow> string \<Rightarrow> nat option" where
  "split_index_after ref stem =
     (if \<not> starts_with ref stem \<or> length ref = length stem \<or> length ref - length stem > 9 then None
      else dec_value_acc 0 (drop (length stem) ref))"

definition in_arena :: "msg \<Rightarrow> string \<Rightarrow> string \<Rightarrow> nat option" where
  "in_arena d a ref =
     (case split_index_after ref (''#/'' @ a @ ''/'') of
        None \<Rightarrow> None | Some i \<Rightarrow> if i < length (get_list a d) then Some i else None)"

definition item_children :: "msg \<Rightarrow> string \<Rightarrow> node_id option" where
  "item_children d parent =
     (case in_arena d ''texts'' parent of
        Some i \<Rightarrow> (if text_node (get_list ''texts'' d ! i) = None then None else Some (Item ''texts'' i))
      | None \<Rightarrow>
     (case in_arena d ''tables'' parent of
        Some i \<Rightarrow> Some (Item ''tables'' i)
      | None \<Rightarrow> map_option (Item ''pictures'') (in_arena d ''pictures'' parent)))"

definition child_position :: "string \<Rightarrow> msg \<Rightarrow> nat option" where
  "child_position ref node = List.find (\<lambda>i. child_refs node ! i = ref) [0..<length (child_refs node)]"

text \<open>Asking for the mutable children of a text makes its base.\<close>

definition touch_parent :: "(string \<Rightarrow> msg) \<Rightarrow> string \<Rightarrow> msg \<Rightarrow> msg" where
  "touch_parent blank parent d =
     (case in_arena d ''texts'' parent of
        None \<Rightarrow> d
      | Some i \<Rightarrow> set_list ''texts'' ((get_list ''texts'' d)[i := present_base (blank ''TextItemBase'') (get_list ''texts'' d ! i)]) d)"

definition find_in :: "msg \<Rightarrow> string \<Rightarrow> node_id \<Rightarrow> (node_id \<times> nat) option" where
  "find_in d ref k = map_option (Pair k) (child_position ref (node_msg d k))"

definition children_holding :: "(string \<Rightarrow> msg) \<Rightarrow> string \<Rightarrow> string \<Rightarrow> msg \<Rightarrow> (node_id \<times> nat) option \<times> msg" where
  "children_holding blank ref parent d =
     (let d = touch_parent blank parent d in
      case Option.bind (item_children d parent) (find_in d ref) of
        Some spot \<Rightarrow> (Some spot, d)
      | None \<Rightarrow>
          let d = present ''body'' (blank ''GroupItem'') d in
          case find_in d ref Body_Root of
            Some spot \<Rightarrow> (Some spot, d)
          | None \<Rightarrow>
              let d = present ''furniture'' (blank ''GroupItem'') d in
              case find_in d ref Furniture_Root of
                Some spot \<Rightarrow> (Some spot, d)
              | None \<Rightarrow>
                  (case List.map_filter (\<lambda>i. find_in d ref (Item ''groups'' i)) [0..<length (get_list ''groups'' d)] of
                     [] \<Rightarrow> (None, d) | spot # _ \<Rightarrow> (Some spot, d)))"

definition insert_at :: "nat \<Rightarrow> 'a \<Rightarrow> 'a list \<Rightarrow> 'a list" where
  "insert_at i x xs = take i xs @ x # drop i xs"

definition list_after :: "nat \<Rightarrow> string list \<Rightarrow> msg list \<Rightarrow> msg list" where
  "list_after position new_refs children =
     fold (\<lambda>(index, ref). insert_at (position + 1 + index) (ref_item ref)) (List.enumerate 0 new_refs) children"

subsection \<open>Splitting\<close>

definition plan_of :: "string \<Rightarrow> nat list \<Rightarrow> heights \<Rightarrow> split_plan" where
  "plan_of s inner hs =
     (let all_cuts = 0 # inner @ [length s]
      in \<lparr>split_text = s, cuts = all_cuts, cut_points = map (\<lambda>cut. codepoints (take cut s)) all_cuts, page_heights_of = hs\<rparr>)"

definition split_text_item ::
  "(rat \<Rightarrow> rat) \<Rightarrow> (string \<Rightarrow> msg) \<Rightarrow> nat \<Rightarrow> nat list \<Rightarrow> msg \<Rightarrow> string list \<times> msg" where
  "split_text_item rnd blank i offsets d =
     (if i \<ge> length (get_list ''texts'' d) then ([], d)
      else
        let d = set_list ''texts'' ((get_list ''texts'' d)[i := present_base (blank ''TextItemBase'') (get_list ''texts'' d ! i)]) d in
        case text_base_of (get_list ''texts'' d ! i) of
          None \<Rightarrow> ([], d)
        | Some pristine \<Rightarrow>
            let s = get_string ''text'' pristine; inner = split_cuts s offsets in
            if inner = [] then ([], d)
            else
              let plan = plan_of s inner (document_page_heights d);
                  self = get_string ''self_ref'' pristine;
                  self_ref = (if self = [] then texts_ref i else self);
                  (new_refs, d) = fold (split_piece rnd blank plan pristine i) [0..<length (cuts plan) - 1] ([], d);
                  (spot, d) = children_holding blank self_ref (get_string ''ref'' (sub_or_default ''parent'' pristine)) d
              in (new_refs,
                  case spot of
                    None \<Rightarrow> d
                  | Some (k, position) \<Rightarrow>
                      update_node k (\<lambda>n. set_list ''children'' (list_after position new_refs (get_list ''children'' n)) n) d))"

definition label_section_header :: int where "label_section_header = 20"

definition split_heading ::
  "(rat \<Rightarrow> rat) \<Rightarrow> (string \<Rightarrow> msg) \<Rightarrow> string list \<Rightarrow> nat \<Rightarrow> nat \<times> msg \<Rightarrow> nat \<times> msg" where
  "split_heading rnd blank collectors i state =
     (let (headings, d) = state; item = get_list ''texts'' d ! i in
      if \<not> is_body_prose item \<or> \<not> from_collectors collectors (text_payload item) then state
      else case run_in_heading_end (get_string ''text'' (text_payload item)) of
             None \<Rightarrow> state
           | Some stop \<Rightarrow>
               let (new_refs, d) = split_text_item rnd blank i [stop] d in
               if new_refs = [] then (headings, d)
               else (headings + 1,
                     set_list ''texts'' ((get_list ''texts'' d)
                       [i := change_arm blank ''text'' ''section_header'' ''SectionHeaderItem'' label_section_header
                               (get_list ''texts'' d ! i)]) d))"

definition split_run_in_headings ::
  "(rat \<Rightarrow> rat) \<Rightarrow> (string \<Rightarrow> msg) \<Rightarrow> string list \<Rightarrow> msg \<Rightarrow> nat \<times> msg" where
  "split_run_in_headings rnd blank collectors d =
     (if collectors = [] then (0, d)
      else fold (split_heading rnd blank collectors) [0..<length (get_list ''texts'' d)] (0, d))"

definition split_rows ::
  "(rat \<Rightarrow> rat) \<Rightarrow> (string \<Rightarrow> msg) \<Rightarrow> string list \<Rightarrow> nat \<Rightarrow> nat \<times> msg \<Rightarrow> nat \<times> msg" where
  "split_rows rnd blank collectors i state =
     (let (rows, d) = state; item = get_list ''texts'' d ! i in
      if \<not> is_body_prose item \<or> \<not> from_collectors collectors (text_payload item) then state
      else case form_row_starts (get_string ''text'' (text_payload item)) of
             [] \<Rightarrow> state
           | start # later \<Rightarrow>
               let (new_refs, d) = split_text_item rnd blank i (start # later) d in (rows + length new_refs, d))"

definition split_form_rows ::
  "(rat \<Rightarrow> rat) \<Rightarrow> (string \<Rightarrow> msg) \<Rightarrow> string list \<Rightarrow> msg \<Rightarrow> nat \<times> msg" where
  "split_form_rows rnd blank collectors d =
     (if collectors = [] then (0, d)
      else fold (split_rows rnd blank collectors) [0..<length (get_list ''texts'' d)] (0, d))"

subsection \<open>The pieces hold the whole text\<close>

text \<open>What a reader sees of a text: every character that is not a space.\<close>

definition inked :: "string \<Rightarrow> string" where
  "inked s = filter (\<lambda>c. \<not> c_isspace c) s"

lemma inked_append [simp]: "inked (s @ t) = inked s @ inked t" "inked [] = []"
  by (simp_all add: inked_def)

lemma inked_trimmed [simp]: "inked (trimmed s) = inked s"
proof -
  have left: "inked (dropWhile c_isspace s) = inked s" for s by (induction s) (auto simp: inked_def)
  have "inked (trim_right s) = inked s" for s
    using left [of "rev s"] unfolding trim_right_def inked_def by (metis rev_filter rev_rev_ident)
  with left show ?thesis by (simp add: trimmed_def trim_left_def)
qed

lemma cuts_fold:
  fixes n :: nat
  assumes "sorted_wrt (<) cs" "set cs \<subseteq> {0<..<n}"
  defines "step \<equiv> \<lambda>offset cuts. if 0 < offset \<and> offset < n \<and> (cuts = [] \<or> offset > last cuts) then cuts @ [offset] else cuts"
  shows "sorted_wrt (<) (fold step offsets cs) \<and> set (fold step offsets cs) \<subseteq> {0<..<n}"
  using assms(1,2)
proof (induction offsets arbitrary: cs)
  case (Cons offset offsets)
  have "x < offset" if "cs = [] \<or> offset > last cs" "x \<in> set cs" for x
  proof -
    from \<open>x \<in> set cs\<close> obtain ys z where cs: "cs = ys @ [z]" by (cases cs rule: rev_cases) auto
    with \<open>cs = [] \<or> offset > last cs\<close> have "z < offset" by simp
    moreover have "x \<le> z" using cs \<open>x \<in> set cs\<close> Cons.prems(1) by (auto simp: sorted_wrt_append less_imp_le)
    ultimately show ?thesis by simp
  qed
  then have "sorted_wrt (<) (step offset cs) \<and> set (step offset cs) \<subseteq> {0<..<n}"
    using Cons.prems by (auto simp: step_def sorted_wrt_append)
  then show ?case using Cons.IH by simp
qed simp

lemma split_cuts_sorted: "sorted_wrt (<) (split_cuts s offsets)" "set (split_cuts s offsets) \<subseteq> {0<..<length s}"
  using cuts_fold [of "[]" "length s" offsets] by (simp_all add: split_cuts_def)

lemma slices_concat:
  assumes "sorted cs" "cs \<noteq> []" "cs ! 0 = 0" "k < length cs"
  shows "concat (map (\<lambda>p. take (cs ! (p + 1) - cs ! p) (drop (cs ! p) s)) [0..<k]) = take (cs ! k) s"
  using assms(4)
proof (induction k)
  case (Suc k)
  have "cs ! k \<le> cs ! Suc k" using Suc.prems assms(1) by (simp add: sorted_nth_mono)
  then have "take (cs ! Suc k) s = take (cs ! k) s @ take (cs ! Suc k - cs ! k) (drop (cs ! k) s)"
    by (metis le_add_diff_inverse take_add)
  with Suc show ?case by simp
qed (simp add: assms(3))

lemma pieces_concat:
  assumes "inner = split_cuts s offsets" "plan = plan_of s inner hs"
  shows "concat (map (\<lambda>p. inked (slice_of plan p)) [0..<length (cuts plan) - 1]) = inked s"
proof -
  have cs: "cuts plan = 0 # inner @ [length s]" "split_text plan = s" by (simp_all add: assms(2) plan_of_def Let_def)
  have "sorted_wrt (<) inner" using split_cuts_sorted [of s offsets] assms(1) by simp
  then have "sorted inner" by (simp add: strict_sorted_iff sorted_wrt_iff_nth_less less_imp_le)
  moreover have "set inner \<subseteq> {0<..<length s}" using split_cuts_sorted [of s offsets] assms(1) by simp
  ultimately have "sorted (cuts plan)" by (auto simp: cs(1) sorted_append)
  then have "concat (map (raw_slice plan) [0..<length (cuts plan) - 1]) = take (cuts plan ! (length (cuts plan) - 1)) s"
    unfolding raw_slice_def cs(2) by (intro slices_concat) (simp_all add: cs(1))
  also have "\<dots> = s" by (simp add: cs(1) nth_append)
  finally have whole: "concat (map (raw_slice plan) [0..<length (cuts plan) - 1]) = s" .
  have "concat (map (\<lambda>p. inked (slice_of plan p)) ps) = inked (concat (map (raw_slice plan) ps))" for ps
    by (induction ps) (simp_all add: slice_of_def)
  with whole show ?thesis by simp
qed

subsection \<open>Where the tokens lie\<close>

lemma tokens_from_bounds:
  "sorted_wrt (<) (map fst (tokens_from index s)) \<and> (\<forall>t\<in>set (tokens_from index s). index \<le> fst t \<and> fst t < snd t \<and> snd t \<le> index + length s)"
proof (induction index s rule: tokens_from.induct)
  case (1 index s)
  define rest where "rest = dropWhile c_isspace s"
  define word where "word = takeWhile (\<lambda>c. \<not> c_isspace c) rest"
  define start where "start = index + (length s - length rest)"
  show ?case
  proof (cases "rest = []")
    case False
    have len: "length rest \<le> length s" "length word \<le> length rest"
      unfolding rest_def word_def by (rule length_dropWhile_le, rule length_takeWhile_le)
    have "word \<noteq> []" using False hd_dropWhile [of c_isspace s] by (cases rest) (auto simp: word_def rest_def)
    then have word: "length word > 0" by simp
    have unfolded: "tokens_from index s = (start, start + length word) # tokens_from (start + length word) (drop (length word) rest)"
      by (subst tokens_from.simps) (simp add: Let_def rest_def [symmetric] word_def [symmetric] start_def [symmetric] False)
    note IH = 1 [OF rest_def start_def word_def False]
    have "index \<le> start" "start + length word + length (drop (length word) rest) = index + length s"
      using len by (simp_all add: start_def)
    moreover define L where "L = tokens_from (start + length word) (drop (length word) rest)"
    ultimately have "sorted_wrt (<) (map fst L)" "\<forall>t\<in>set L. start + length word \<le> fst t \<and> fst t < snd t \<and> snd t \<le> index + length s"
      using IH by simp_all
    moreover have "\<forall>t\<in>set L. index \<le> fst t \<and> start < fst t"
    proof
      fix t assume "t \<in> set L"
      with calculation(2) have "start + length word \<le> fst t" by simp
      then show "index \<le> fst t \<and> start < fst t" using word \<open>index \<le> start\<close> by linarith
    qed
    moreover have "start + length word \<le> index + length s" using len by (simp add: start_def)
    ultimately show ?thesis
      using word \<open>index \<le> start\<close> unfolding unfolded L_def [symmetric] by simp
  qed (simp add: tokens_from.simps rest_def [symmetric] Let_def)
qed

lemma later_token_inside:
  assumes "0 < index" "index < length (tokens_of s)"
  shows "0 < fst (tokens_of s ! index)" "fst (tokens_of s ! index) < length s"
proof -
  note bounds = tokens_from_bounds [of 0 s]
  have "map fst (tokens_of s) ! 0 < map fst (tokens_of s) ! index"
    using bounds assms unfolding tokens_of_def by (intro sorted_wrt_nth_less) auto
  then show "0 < fst (tokens_of s ! index)" using assms by (simp add: tokens_of_def)
  have "tokens_of s ! index \<in> set (tokens_of s)" using assms(2) by simp
  then show "fst (tokens_of s ! index) < length s" using bounds by (fastforce simp: tokens_of_def)
qed

lemma run_in_heading_end_inside: "run_in_heading_end s = Some stop \<Longrightarrow> 0 < stop \<and> stop < length s"
  using later_token_inside [of "1 + length (takeWhile is_caps_word (drop 1 (map (token_text s) (tokens_of s))))" s]
  by (auto simp: run_in_heading_end_def Let_def split: if_splits)

subsection \<open>The pieces in the arena\<close>

text \<open>
  What the default messages must have for the pieces to hold anything: an empty text item
  with the fields a piece sets.
\<close>

definition string_slot :: "string \<Rightarrow> msg \<Rightarrow> bool" where
  "string_slot k m = (case field_of k m of Some (Singular _ _ _ _) \<Rightarrow> True | _ \<Rightarrow> False)"

definition sub_slot :: "string \<Rightarrow> msg \<Rightarrow> bool" where
  "sub_slot k m = (case field_of k m of Some (Submessage _ _) \<Rightarrow> True | _ \<Rightarrow> False)"

definition makes_text_items :: "(string \<Rightarrow> msg) \<Rightarrow> bool" where
  "makes_text_items blank =
     (text_variant (blank ''BaseTextItem'') = None \<and> sub_slot ''text'' (blank ''BaseTextItem'')
      \<and> sub_slot ''section_header'' (blank ''BaseTextItem'') \<and> get_string ''ref'' (blank ''RefItem'') = []
      \<and> sub_slot ''base'' (blank ''TextItem'') \<and> sub_slot ''base'' (blank ''SectionHeaderItem'')
      \<and> string_slot ''text'' (blank ''TextItemBase'') \<and> string_slot ''self_ref'' (blank ''TextItemBase'')
      \<and> sub_slot ''parent'' (blank ''TextItemBase'') \<and> get_list ''children'' (blank ''GroupItem'') = [])"

lemma get_string_in_slot: "string_slot k m \<Longrightarrow> get_string k (set_string k t m) = t"
  by (auto simp: string_slot_def get_string_def set_string_def field_of_update set_string_value_def split: option.splits slot.splits)

lemma get_sub_in_slot: "sub_slot k m \<Longrightarrow> get_sub k (set_sub k v m) = v"
  by (auto simp: sub_slot_def get_sub_set_sub split: option.splits slot.splits)

lemma string_slot_update:
  "string_slot k (set_list n es m) = string_slot k m" "string_slot k (set_sub n v m) = string_slot k m"
  "string_slot k (set_string n t m) = string_slot k m" "string_slot k (set_num n i m) = string_slot k m"
  "string_slot k (clear_field n m) = string_slot k m"
  by (auto simp: string_slot_def set_list_def set_sub_def set_string_def set_num_def clear_field_def field_of_update
      split: option.split slot.split)

lemma sub_slot_update:
  "sub_slot k (set_list n es m) = sub_slot k m" "sub_slot k (set_sub n v m) = sub_slot k m"
  "sub_slot k (set_string n t m) = sub_slot k m" "sub_slot k (set_num n i m) = sub_slot k m"
  "sub_slot k (clear_field n m) = sub_slot k m"
  by (auto simp: sub_slot_def set_list_def set_sub_def set_string_def set_num_def clear_field_def field_of_update
      split: option.split slot.split)

lemma get_string_slot: "get_string k m \<noteq> [] \<Longrightarrow> string_slot k m"
  by (auto simp: get_string_def string_slot_def split: option.splits slot.splits)

lemma get_string_set_num_other: "k \<noteq> n \<Longrightarrow> get_string k (set_num n i m) = get_string k m"
  by (simp add: get_string_def set_num_def field_update_other)

lemma get_string_clear: "k \<noteq> n \<Longrightarrow> get_string k (clear_field n m) = get_string k m"
  by (simp add: get_string_def clear_field_def field_update_other)

lemma get_sub_clear: "k \<noteq> n \<Longrightarrow> get_sub k (clear_field n m) = get_sub k m"
  by (simp add: get_sub_def clear_field_def field_update_other)

lemma fill_piece_text: "string_slot ''text'' target \<Longrightarrow>
   get_string ''text'' (fill_piece rnd blank plan pristine piece target) = slice_of plan piece"
  by (simp add: fill_piece_def Let_def get_string_set_string_other get_string_in_slot)

lemma fill_piece_frame:
  "get_string ''self_ref'' (fill_piece rnd blank plan pristine piece target) = get_string ''self_ref'' target"
  "get_sub ''parent'' (fill_piece rnd blank plan pristine piece target) = get_sub ''parent'' target"
  by (simp_all add: fill_piece_def Let_def get_string_set_string_other)

text \<open>What a reader sees of a text item, and the parent it names.\<close>

definition item_words :: "msg \<Rightarrow> string" where
  "item_words item = (case text_base_of item of None \<Rightarrow> [] | Some base \<Rightarrow> inked (get_string ''text'' base))"

definition parent_ref :: "msg \<Rightarrow> string" where
  "parent_ref base = get_string ''ref'' (sub_or_default ''parent'' base)"

definition base_parent :: "msg \<Rightarrow> string option" where
  "base_parent item = map_option parent_ref (text_base_of item)"

lemma text_item_of_base:
  assumes "makes_text_items blank"
  shows "text_base_of (text_item_of blank base) = Some base" "text_node (text_item_of blank base) = Some base"
proof -
  let ?item = "text_item_of blank base"
  have t: "get_sub ''text'' ?item = Some (set_sub ''base'' (Some base) (blank ''TextItem''))"
    using assms by (simp add: makes_text_items_def text_item_of_def get_sub_in_slot)
  have others: "get_sub v ?item = None" if "v \<in> set text_variants" "v \<noteq> ''text''" for v
    using assms that unfolding makes_text_items_def text_variant_def find_None_iff text_item_of_def by (auto simp: get_sub_set_sub)
  have "text_variant ?item = Some ''text''"
  proof (cases "text_variant ?item")
    case None
    then have "\<not> (\<exists>v. v \<in> set text_variants \<and> get_sub v ?item \<noteq> None)" unfolding text_variant_def find_None_iff .
    moreover have "''text'' \<in> set text_variants" by (simp add: text_variants_def)
    ultimately show ?thesis using t by auto
  next
    case (Some v)
    then have "v \<in> set text_variants" "get_sub v ?item \<noteq> None" unfolding text_variant_def find_Some_iff by (metis nth_mem)+
    with others [of v] have "v = ''text''" by argo
    with Some show ?thesis by simp
  qed
  then show "text_base_of ?item = Some base"
    using assms t by (simp add: text_base_of_def sub_or_default_def makes_text_items_def get_sub_in_slot)
  then show "text_node ?item = Some base" using \<open>text_variant ?item = Some ''text''\<close> by (simp add: text_node_def)
qed

lemma prose_update_base:
  assumes "is_prose item"
  shows "text_base_of (update_text f item) = Some (f (text_payload item))" "text_node (update_text f item) = Some (f (text_payload item))"
    "text_variant (update_text f item) = Some ''text''"
proof -
  obtain t b where tb: "get_sub ''text'' item = Some t" "get_sub ''base'' t = Some b" "text_payload item = b" "text_variant item = Some ''text''"
    using assms by (rule prose_present)
  define q where "q = set_sub ''base'' (Some (f b)) t"
  have u: "update_text f item = set_sub ''text'' (Some q) item"
    using tb by (simp add: update_text_def Let_def sub_or_default_def q_def)
  note v = variant_update_text [OF tb(4), of q]
  have "sub_or_default ''base'' q = f b" using tb(2) by (simp add: q_def sub_or_default_def get_sub_set_sub_same)
  then show "text_base_of (update_text f item) = Some (f (text_payload item))" "text_variant (update_text f item) = Some ''text''"
    using v tb by (simp_all add: u text_base_of_def)
  then show "text_node (update_text f item) = Some (f (text_payload item))" by (simp add: text_node_def)
qed

lemma body_prose_base:
  assumes "is_prose item"
  shows "text_base_of item = Some (text_payload item)" "present_base b item = set_sub ''text'' (Some (sub_or_default ''text'' item)) item"
    "get_sub ''text'' item = Some (sub_or_default ''text'' item)"
  using assms by (auto elim!: prose_present simp: text_base_of_def present_base_def present_def sub_or_default_def text_payload_def)

lemma fold_pieces:
  assumes "i < length (get_list ''texts'' d)" "fold (split_piece rnd blank plan pristine i) [0..<Suc k] ([], d) = (refs, d')"
  shows "refs = map (\<lambda>j. texts_ref (length (get_list ''texts'' d) + j)) [0..<k]
     \<and> get_list ''texts'' d' =
         (get_list ''texts'' d)[i := update_text (\<lambda>base. fill_piece rnd blank plan pristine 0 (clear_field ''spans'' (clear_field ''prov'' base)))
            (get_list ''texts'' d ! i)]
         @ map (\<lambda>j. text_item_of blank (fill_piece rnd blank plan pristine (Suc j)
                  (new_piece_base blank (texts_ref (length (get_list ''texts'' d) + j)) pristine))) [0..<k]
     \<and> (\<forall>n. get_sub n d' = get_sub n d)"
  using assms(2)
proof (induction k arbitrary: refs d')
  case 0
  have "get_list ''texts'' d \<noteq> []" using assms(1) by auto
  with 0 show ?case by (auto simp: split_piece_def update_item_def get_list_set_list_same)
next
  case (Suc k)
  obtain r e where prev: "fold (split_piece rnd blank plan pristine i) [0..<Suc k] ([], d) = (r, e)" by force
  note IH = Suc.IH [OF prev]
  have "get_list ''texts'' e \<noteq> []" using IH assms(1) by auto
  moreover have "split_piece rnd blank plan pristine i (Suc k) (r, e) = (refs, d')"
    using Suc.prems prev unfolding upt_Suc_append [OF le0, of "Suc k"] fold_append by simp
  then have "refs = r @ [texts_ref (length (get_list ''texts'' e))]"
    "d' = set_list ''texts'' (get_list ''texts'' e @ [text_item_of blank (fill_piece rnd blank plan pristine (Suc k)
            (new_piece_base blank (texts_ref (length (get_list ''texts'' e))) pristine))]) e"
    by (simp_all add: split_piece_def Let_def)
  ultimately show ?case using IH by (simp add: get_list_set_list_same)
qed

subsection \<open>What the body reads\<close>

definition outside_items :: "string \<Rightarrow> bool" where
  "outside_items p = list_all (\<lambda>a. split_index_after p (''#/'' @ a @ ''/'') = None) [''texts'', ''tables'', ''pictures'']"

definition free_item :: "nat \<Rightarrow> msg \<Rightarrow> bool" where
  "free_item i item =
     (text_self_ref i item = texts_ref i \<and> sub_slot ''section_header'' item
      \<and> (case base_parent item of None \<Rightarrow> True | Some p \<Rightarrow> outside_items p))"

text \<open>
  A document to split: its text items are named by their position and do not hang under other
  items, and its body names each child once and no text item that is missing.
\<close>

definition arena_ok :: "msg list \<Rightarrow> string list \<Rightarrow> bool" where
  "arena_ok items refs =
     (list_all (\<lambda>i. free_item i (items ! i)) [0..<length items] \<and> distinct refs
      \<and> list_all (\<lambda>r. starts_with r ''#/texts/'' \<longrightarrow> r \<in> texts_ref ` {..<length items}) refs)"

definition ref_words :: "msg list \<Rightarrow> string \<Rightarrow> string" where
  "ref_words items r =
     (case List.find (\<lambda>i. text_self_ref i (items ! i) = r) [0..<length items] of
        None \<Rightarrow> [] | Some i \<Rightarrow> item_words (items ! i))"

definition list_words :: "msg list \<Rightarrow> string list \<Rightarrow> string" where
  "list_words items refs = concat (map (ref_words items) refs)"

lemma arena_free: "arena_ok items refs \<Longrightarrow> i < length items \<Longrightarrow> free_item i (items ! i)"
  by (auto simp: arena_ok_def list_all_iff)

lemma texts_ref_starts [simp]: "starts_with (texts_ref i) ''#/texts/''"
  by (simp add: texts_ref_def starts_with_def)

lemma ref_words_named:
  assumes "\<And>i. i < length items \<Longrightarrow> text_self_ref i (items ! i) = texts_ref i"
  shows "j < length items \<Longrightarrow> ref_words items (texts_ref j) = item_words (items ! j)"
    "r \<notin> texts_ref ` {..<length items} \<Longrightarrow> ref_words items r = []"
proof -
  assume j: "j < length items"
  have "List.find (\<lambda>i. text_self_ref i (items ! i) = texts_ref j) [0..<length items] = Some j"
    unfolding find_Some_iff using j assms by (intro exI [of _ j]) auto
  then show "ref_words items (texts_ref j) = item_words (items ! j)" by (simp add: ref_words_def)
next
  assume "r \<notin> texts_ref ` {..<length items}"
  then have "List.find (\<lambda>i. text_self_ref i (items ! i) = r) [0..<length items] = None"
    unfolding find_None_iff using assms by auto
  then show "ref_words items r = []" by (simp add: ref_words_def)
qed

lemma arena_split:
  assumes ok: "arena_ok items refs" and i: "i < length items" and x: "free_item i x"
    and new: "\<And>j. j < length N \<Longrightarrow> free_item (length items + j) (N ! j)"
    and said: "item_words x @ concat (map item_words N) = item_words (items ! i)"
    and listed: "texts_ref i \<notin> set refs \<and> refs' = refs
      \<or> (\<exists>as bs. refs = as @ texts_ref i # bs \<and> refs' = as @ texts_ref i # map (\<lambda>j. texts_ref (length items + j)) [0..<length N] @ bs)"
  shows "arena_ok (items[i := x] @ N) refs'" "list_words (items[i := x] @ N) refs' = list_words items refs"
proof -
  define items' where "items' = items[i := x] @ N"
  define n where "n = length items"
  define fresh where "fresh = map (\<lambda>j. texts_ref (n + j)) [0..<length N]"
  have free: "free_item k (items' ! k)" if "k < length items'" for k
  proof (cases "k < n")
    case True
    then show ?thesis using arena_free [OF ok, of k] x i by (cases "k = i") (simp_all add: items'_def nth_append n_def)
  next
    case False
    then show ?thesis using that new [of "k - n"] by (simp add: items'_def nth_append n_def)
  qed
  have named: "text_self_ref k (items ! k) = texts_ref k" if "k < n" for k
    using arena_free [OF ok] that by (simp add: free_item_def n_def)
  have named': "text_self_ref k (items' ! k) = texts_ref k" if "k < length items'" for k
    using free that by (simp add: free_item_def)
  have len: "length items' = n + length N" by (simp add: items'_def n_def)
  have in_range: "r \<in> texts_ref ` {..<n}" if "r \<in> set refs" "starts_with r ''#/texts/''" for r
    using ok that by (auto simp: arena_ok_def list_all_iff n_def)
  have same: "ref_words items' r = ref_words items r" if "r \<in> set refs" "r \<noteq> texts_ref i" for r
  proof (cases "r \<in> texts_ref ` {..<n}")
    case True
    then obtain k where "r = texts_ref k" "k < n" by auto
    with that(2) show ?thesis
      using ref_words_named(1) [of items k] ref_words_named(1) [of items' k] named named' len
      by (simp add: n_def items'_def nth_append)
  next
    case False
    with in_range [OF that(1)] have "\<not> starts_with r ''#/texts/''" by blast
    then have "r \<notin> texts_ref ` {..<length items'}" by auto
    with False show ?thesis
      using ref_words_named(2) [of items r] ref_words_named(2) [of items' r] named named' by (simp add: n_def)
  qed
  have fresh_new: "set fresh \<inter> set refs = {}" "distinct fresh"
  proof -
    show "set fresh \<inter> set refs = {}" using in_range by (fastforce simp: fresh_def)
    show "distinct fresh" by (auto simp: fresh_def distinct_map inj_on_def)
  qed
  have words_fresh: "concat (map (ref_words items') fresh) = concat (map item_words N)"
  proof -
    have "ref_words items' (texts_ref (n + j)) = item_words (N ! j)" if "j < length N" for j
      using ref_words_named(1) [of items' "n + j"] named' len that by (simp add: items'_def n_def nth_append)
    then have "map (ref_words items') fresh = map (\<lambda>j. item_words (N ! j)) [0..<length N]" by (simp add: fresh_def)
    also have "\<dots> = map item_words N" by (rule nth_equalityI) simp_all
    finally show ?thesis by simp
  qed
  have words_i: "ref_words items' (texts_ref i) = item_words x" "ref_words items (texts_ref i) = item_words (items ! i)"
    using ref_words_named(1) [of items i] ref_words_named(1) [of items' i] named named' len i
    by (simp_all add: n_def items'_def nth_append)
  have range_new: "starts_with r ''#/texts/'' \<longrightarrow> r \<in> texts_ref ` {..<length items'}" if "r \<in> set refs \<union> set fresh" for r
    using that in_range [of r] len by (fastforce simp: fresh_def)
  have distinct: "distinct refs" using ok by (simp add: arena_ok_def)
  show "list_words (items[i := x] @ N) refs' = list_words items refs" "arena_ok (items[i := x] @ N) refs'"
    using listed
  proof (atomize (full), elim disjE exE conjE)
    assume "texts_ref i \<notin> set refs" and refs': "refs' = refs"
    then have "map (ref_words items') refs = map (ref_words items) refs" using same by auto
    then have "concat (map (ref_words items') refs) = concat (map (ref_words items) refs)" by (rule arg_cong)
    then show "list_words (items[i := x] @ N) refs' = list_words items refs \<and> arena_ok (items[i := x] @ N) refs'"
      using free range_new distinct by (simp add: list_words_def refs' items'_def [symmetric] arena_ok_def list_all_iff)
  next
    fix as bs
    assume refs: "refs = as @ texts_ref i # bs"
      and "refs' = as @ texts_ref i # map (\<lambda>j. texts_ref (length items + j)) [0..<length N] @ bs"
    then have refs': "refs' = as @ texts_ref i # fresh @ bs" by (simp add: fresh_def n_def)
    have apart: "texts_ref i \<notin> set as" "texts_ref i \<notin> set bs" using distinct refs by auto
    then have "map (ref_words items') as = map (ref_words items) as" "map (ref_words items') bs = map (ref_words items) bs"
      using same refs by auto
    then have "concat (map (ref_words items') as) = concat (map (ref_words items) as)"
      "concat (map (ref_words items') bs) = concat (map (ref_words items) bs)"
      by (simp_all only:)
    then have "list_words items' refs' = list_words items refs"
      using words_fresh words_i by (simp add: list_words_def refs refs' flip: said)
    moreover have "distinct refs'" "set refs' \<subseteq> set refs \<union> set fresh"
      using distinct fresh_new by (auto simp: refs refs')
    ultimately show "list_words (items[i := x] @ N) refs' = list_words items refs \<and> arena_ok (items[i := x] @ N) refs'"
      using free range_new by (auto simp: items'_def [symmetric] arena_ok_def list_all_iff)
  qed
qed

subsection \<open>Where the pieces are listed\<close>

lemma list_after_is: "position < length cs \<Longrightarrow>
   list_after position new_refs cs = take (position + 1) cs @ map ref_item new_refs @ drop (position + 1) cs"
proof (induction new_refs rule: rev_induct)
  case (snoc r rs)
  have "list_after position (rs @ [r]) cs = insert_at (position + 1 + length rs) (ref_item r) (list_after position rs cs)"
    by (simp add: list_after_def enumerate_append_eq)
  then show ?case using snoc by (simp add: insert_at_def)
qed (simp add: list_after_def)

lemma child_position_some: "child_position ref node = Some p \<Longrightarrow> p < length (child_refs node) \<and> child_refs node ! p = ref"
  by (auto simp: child_position_def find_Some_iff)

lemma child_position_none: "child_position ref node = None \<Longrightarrow> ref \<notin> set (child_refs node)"
  by (auto simp: child_position_def find_None_iff in_set_conv_nth)

definition body_refs :: "msg \<Rightarrow> string list" where
  "body_refs d = child_refs (sub_or_default ''body'' d)"

lemma body_refs_present:
  assumes "get_list ''children'' (blank ''GroupItem'') = []"
  shows "body_refs (present ''body'' (blank ''GroupItem'') d) = body_refs d"
proof (cases "get_sub ''body'' d")
  case None
  have "child_refs (Msg [] [] []) = []" "child_refs (blank ''GroupItem'') = []" using assms by (simp_all add: child_refs_def)
  then show ?thesis
    using sub_or_default_set_sub [of "''body''" "blank ''GroupItem''" d] None by (auto simp: present_def body_refs_def sub_or_default_def)
qed (simp add: present_def)

lemma children_holding_outside:
  assumes "outside_items p" "get_list ''children'' (blank ''GroupItem'') = []" "children_holding blank ref p d = (spot, d')"
  shows "get_list ''texts'' d' = get_list ''texts'' d" "body_refs d' = body_refs d"
    "(\<exists>pos. spot = Some (Body_Root, pos) \<and> pos < length (body_refs d) \<and> body_refs d ! pos = ref)
     \<or> ref \<notin> set (body_refs d) \<and> (\<forall>k pos. spot = Some (k, pos) \<longrightarrow> k = Furniture_Root \<or> (\<exists>g. k = Item ''groups'' g))"
proof -
  have out: "in_arena e a p = None" if "a \<in> {''texts'', ''tables'', ''pictures''}" for a e
    using assms(1) that by (auto simp: outside_items_def in_arena_def)
  define e where "e = present ''body'' (blank ''GroupItem'') d"
  define f where "f = present ''furniture'' (blank ''GroupItem'') e"
  have texts: "get_list ''texts'' e = get_list ''texts'' d" "get_list ''texts'' f = get_list ''texts'' d"
    by (simp_all add: e_def f_def present_def)
  have body: "body_refs e = body_refs d" using body_refs_present [of blank d] assms(2) by (simp add: e_def)
  then have body': "body_refs f = body_refs d" by (simp add: f_def present_def body_refs_def sub_or_default_other)
  have holding: "children_holding blank ref p d =
      (case find_in e ref Body_Root of
         Some spot \<Rightarrow> (Some spot, e)
       | None \<Rightarrow> (case find_in f ref Furniture_Root of
                   Some spot \<Rightarrow> (Some spot, f)
                 | None \<Rightarrow> (case List.map_filter (\<lambda>i. find_in f ref (Item ''groups'' i)) [0..<length (get_list ''groups'' f)] of
                            [] \<Rightarrow> (None, f) | spot # _ \<Rightarrow> (Some spot, f))))"
  proof -
    have untouched: "touch_parent blank p d = d" "item_children d p = None" by (simp_all add: touch_parent_def item_children_def out)
    show ?thesis unfolding children_holding_def Let_def e_def f_def untouched by simp
  qed
  have d': "d' = e \<or> d' = f"
    using assms(3) holding by (auto split: option.splits list.splits)
  then show "get_list ''texts'' d' = get_list ''texts'' d" "body_refs d' = body_refs d" using texts body body' by auto
  show "(\<exists>pos. spot = Some (Body_Root, pos) \<and> pos < length (body_refs d) \<and> body_refs d ! pos = ref)
     \<or> ref \<notin> set (body_refs d) \<and> (\<forall>k pos. spot = Some (k, pos) \<longrightarrow> k = Furniture_Root \<or> (\<exists>g. k = Item ''groups'' g))"
  proof (cases "child_position ref (sub_or_default ''body'' e)")
    case None
    then have "ref \<notin> set (body_refs d)" using child_position_none body by (metis body_refs_def)
    moreover have "k = Furniture_Root \<or> (\<exists>g. k = Item ''groups'' g)" if "spot = Some (k, pos)" for k pos
    proof (cases "find_in f ref Furniture_Root")
      case None
      define spots where "spots = List.map_filter (\<lambda>i. find_in f ref (Item ''groups'' i)) [0..<length (get_list ''groups'' f)]"
      have "find_in e ref Body_Root = None" using \<open>child_position ref (sub_or_default ''body'' e) = None\<close> by (simp add: find_in_def)
      with None holding have "children_holding blank ref p d = (case spots of [] \<Rightarrow> (None, f) | s # _ \<Rightarrow> (Some s, f))"
        by (simp add: spots_def)
      then have "spots \<noteq> [] \<and> hd spots = (k, pos)" using assms(3) that by (cases spots) auto
      then have "(k, pos) \<in> set spots" by (metis hd_in_set)
      then show ?thesis by (auto simp: spots_def List.map_filter_def find_in_def)
    next
      case (Some s)
      then show ?thesis
        using \<open>child_position ref (sub_or_default ''body'' e) = None\<close> assms(3) holding that by (auto simp: find_in_def)
    qed
    ultimately show ?thesis by blast
  next
    case (Some pos)
    then have "spot = Some (Body_Root, pos)" using assms(3) holding by (simp add: find_in_def)
    moreover have "pos < length (body_refs e) \<and> body_refs e ! pos = ref"
      unfolding body_refs_def by (rule child_position_some [OF Some])
    ultimately show ?thesis unfolding body by blast
  qed
qed

lemma list_in_body_refs:
  fixes refs :: "string list"
  assumes "pos < length (body_refs d)"
  defines "f \<equiv> \<lambda>n. set_list ''children'' (list_after pos refs (get_list ''children'' n)) n"
  shows "body_refs (update_node Body_Root f d) = take (pos + 1) (body_refs d) @ refs @ drop (pos + 1) (body_refs d)"
proof -
  define b where "b = sub_or_default ''body'' d"
  have len: "pos < length (get_list ''children'' b)" using assms(1) by (simp add: body_refs_def child_refs_def b_def)
  then have "get_sub ''body'' d \<noteq> None" by (cases "get_sub ''body'' d") (auto simp: b_def sub_or_default_def)
  then have "body_refs (update_node Body_Root f d) = child_refs (f b)"
    by (simp add: body_refs_def sub_or_default_def [of _ "set_sub _ _ _"] get_sub_set_sub_same b_def)
  also have "get_list ''children'' (f b) = take (pos + 1) (get_list ''children'' b) @ map ref_item refs @ drop (pos + 1) (get_list ''children'' b)"
    using len list_after_is [OF len] by (subst f_def, subst get_list_set_list_same) auto
  then have "child_refs (f b) = take (pos + 1) (child_refs b) @ refs @ drop (pos + 1) (child_refs b)"
    by (simp add: child_refs_def take_map drop_map comp_def)
  finally show ?thesis by (simp add: body_refs_def b_def)
qed

lemma list_elsewhere:
  assumes "k = Furniture_Root \<or> (\<exists>g. k = Item ''groups'' g)"
  shows "body_refs (update_node k f d) = body_refs d" "get_list ''texts'' (update_node k f d) = get_list ''texts'' d"
  using assms by (auto simp: body_refs_def sub_or_default_other get_list_set_list_other sub_or_default_def [of _ "set_list _ _ _"] sub_or_default_def [of _ d])

subsection \<open>Splitting one item\<close>

definition splittable :: "msg \<Rightarrow> bool" where
  "splittable d = arena_ok (get_list ''texts'' d) (body_refs d)"

definition body_words :: "msg \<Rightarrow> string" where
  "body_words d = list_words (get_list ''texts'' d) (body_refs d)"

lemma present_base_prose:
  assumes "is_prose item"
  shows "text_payload (present_base b item) = text_payload item" "text_variant (present_base b item) = Some ''text''"
    "text_base_of (present_base b item) = text_base_of item" "is_prose (present_base b item)"
proof -
  have variant: "text_variant item = Some ''text''" using assms by (simp add: is_prose_def)
  have p: "present_base b item = set_sub ''text'' (Some (sub_or_default ''text'' item)) item" using assms by (rule body_prose_base)
  note v = variant_update_text [OF variant, of "sub_or_default ''text'' item"]
  show "text_payload (present_base b item) = text_payload item" using v(2) by (simp add: text_payload_def p)
  then show "text_variant (present_base b item) = Some ''text''" "is_prose (present_base b item)"
    "text_base_of (present_base b item) = text_base_of item"
    using v variant assms by (simp_all add: p is_prose_def text_base_of_def)
qed

lemma free_payload:
  assumes "text_node item = Some base" "text_base_of item = Some base" "sub_slot ''section_header'' item"
    and "get_string ''self_ref'' base = [] \<or> get_string ''self_ref'' base = texts_ref i" "outside_items (parent_ref base)"
  shows "free_item i item"
  using assms by (auto simp: free_item_def text_self_ref_def base_parent_def)

lemma free_prose:
  assumes "free_item i item" "is_prose item"
  shows "get_string ''self_ref'' (text_payload item) = [] \<or> get_string ''self_ref'' (text_payload item) = texts_ref i"
    "outside_items (parent_ref (text_payload item))" "sub_slot ''section_header'' item"
  using assms prose_text_node [OF assms(2)] body_prose_base(1) [OF assms(2)]
  by (auto simp: free_item_def text_self_ref_def base_parent_def split: if_splits)

lemma get_num_clear: "k \<noteq> n \<Longrightarrow> get_num k (clear_field n m) = get_num k m"
  by (simp add: get_num_def clear_field_def field_update_other)

lemma first_piece:
  assumes prose: "is_prose item" and free: "free_item i item" and s: "get_string ''text'' (text_payload item) \<noteq> []"
    and x_def: "x = update_text (\<lambda>base. fill_piece rnd blank plan pristine 0 (clear_field ''spans'' (clear_field ''prov'' base))) item"
  shows "free_item i x" "item_words x = inked (slice_of plan 0)" "is_prose x"
proof -
  define b where "b = fill_piece rnd blank plan pristine 0 (clear_field ''spans'' (clear_field ''prov'' (text_payload item)))"
  have x: "text_base_of x = Some b" "text_node x = Some b" "text_variant x = Some ''text''"
    unfolding x_def b_def using prose_update_base [OF prose] by simp_all
  have "parent_ref b = parent_ref (text_payload item)" "get_string ''self_ref'' b = get_string ''self_ref'' (text_payload item)"
    by (simp_all add: b_def parent_ref_def sub_or_default_def fill_piece_frame get_sub_clear get_string_clear)
  moreover have "sub_slot ''section_header'' x"
    using free_prose(3) [OF free prose] by (simp add: x_def update_text_def Let_def sub_slot_update split: option.split)
  ultimately show "free_item i x" using free_prose [OF free prose] x by (intro free_payload [of _ b]) auto
  have "string_slot ''text'' (clear_field ''spans'' (clear_field ''prov'' (text_payload item)))"
    using get_string_slot [OF s] by (simp add: string_slot_update)
  then show "item_words x = inked (slice_of plan 0)" using x(1) by (simp add: item_words_def b_def fill_piece_text)
  have "text_payload x = b" using x(1,3) by (simp add: text_payload_def text_base_of_def)
  moreover have "get_num ''label'' b = get_num ''label'' (text_payload item)"
    by (simp add: b_def fill_piece_def Let_def get_num_set_string get_num_clear)
  ultimately show "is_prose x" using prose x(3) by (simp add: is_prose_def)
qed

lemma later_piece:
  assumes blank: "makes_text_items blank" and parent: "outside_items (parent_ref pristine)"
    and x_def: "x = text_item_of blank (fill_piece rnd blank plan pristine p (new_piece_base blank (texts_ref j) pristine))"
  shows "free_item j x" "item_words x = inked (slice_of plan p)"
proof -
  define n where "n = new_piece_base blank (texts_ref j) pristine"
  define b where "b = fill_piece rnd blank plan pristine p n"
  have x: "text_base_of x = Some b" "text_node x = Some b" using text_item_of_base [OF blank] by (simp_all add: x_def b_def n_def)
  have slots: "string_slot ''text'' n" "get_string ''self_ref'' n = texts_ref j"
    using blank by (simp_all add: n_def new_piece_base_def Let_def makes_text_items_def string_slot_update get_string_in_slot
        get_string_set_num_other)
  have "get_sub ''parent'' n = Some (case get_sub ''parent'' pristine of None \<Rightarrow> blank ''RefItem'' | Some p \<Rightarrow> p)"
    using blank by (simp add: n_def new_piece_base_def Let_def makes_text_items_def get_sub_in_slot sub_slot_update)
  then have "parent_ref n = parent_ref pristine"
    using blank by (simp add: makes_text_items_def parent_ref_def sub_or_default_def split: option.split)
  then have "parent_ref b = parent_ref pristine" "get_string ''self_ref'' b = texts_ref j"
    using slots by (simp_all add: b_def parent_ref_def sub_or_default_def fill_piece_frame)
  moreover have "sub_slot ''section_header'' x"
    using blank by (simp add: x_def text_item_of_def makes_text_items_def sub_slot_update)
  ultimately show "free_item j x" using parent x by (intro free_payload [of _ b]) auto
  show "item_words x = inked (slice_of plan p)" using x(1) slots by (simp add: item_words_def b_def fill_piece_text)
qed

lemma split_fields:
  assumes blank: "makes_text_items blank" and ok: "splittable d" and i: "i < length (get_list ''texts'' d)"
    and prose: "is_prose (get_list ''texts'' d ! i)" and run: "split_text_item rnd blank i offsets d = (refs, d')"
  defines "s \<equiv> get_string ''text'' (text_payload (get_list ''texts'' d ! i))"
  assumes cut: "split_cuts s offsets \<noteq> []"
  obtains x N refs' where "get_list ''texts'' d' = (get_list ''texts'' d)[i := x] @ N" "body_refs d' = refs'"
    "free_item i x" "is_prose x" "length N = length (split_cuts s offsets)" "length refs = length N"
    "\<And>j. j < length N \<Longrightarrow> free_item (length (get_list ''texts'' d) + j) (N ! j)"
    "item_words x @ concat (map item_words N) = inked s"
    "texts_ref i \<notin> set (body_refs d) \<and> refs' = body_refs d
      \<or> (\<exists>as bs. body_refs d = as @ texts_ref i # bs
           \<and> refs' = as @ texts_ref i # map (\<lambda>j. texts_ref (length (get_list ''texts'' d) + j)) [0..<length N] @ bs)"
proof -
  define T where "T = get_list ''texts'' d"
  define item where "item = present_base (blank ''TextItemBase'') (T ! i)"
  define d0 where "d0 = set_list ''texts'' (T[i := item]) d"
  have T0: "get_list ''texts'' d0 = T[i := item]" unfolding d0_def T_def by (subst get_list_set_list_length) simp_all
  note item = present_base_prose [OF prose, of "blank ''TextItemBase''", folded T_def, folded item_def]
  define pristine where "pristine = text_payload (T ! i)"
  have base: "text_base_of item = Some pristine" "text_payload item = pristine"
    using item body_prose_base(1) [OF prose] by (simp_all add: pristine_def T_def)
  have free: "free_item i (T ! i)" using ok i arena_free by (simp add: splittable_def T_def)
  note named = free_prose [OF free prose [folded T_def], folded pristine_def]
  have free_item: "free_item i item"
    using named base prose_text_node [OF item(4)] free_prose(3) [OF free prose [folded T_def]]
      body_prose_base(2) [OF prose, of "blank ''TextItemBase''"]
    by (intro free_payload [of _ pristine]) (auto simp: item_def T_def sub_slot_update)
  define plan where "plan = plan_of s (split_cuts s offsets) (document_page_heights d0)"
  have count: "length (cuts plan) - 1 = Suc (length (split_cuts s offsets))" by (simp add: plan_def plan_of_def Let_def)
  obtain r e where pieces: "fold (split_piece rnd blank plan pristine i) [0..<length (cuts plan) - 1] ([], d0) = (r, e)" by force
  have s: "get_string ''text'' pristine = s" by (simp add: s_def pristine_def T_def)
  have "s \<noteq> []" using cut split_cuts_sorted(2) [of s offsets] by (cases "split_cuts s offsets") auto
  have i0: "i < length (get_list ''texts'' d0)" using i by (simp add: T0 T_def)
  note fields = fold_pieces [OF i0 pieces [unfolded count], unfolded T0]
  define x where "x = update_text (\<lambda>base. fill_piece rnd blank plan pristine 0 (clear_field ''spans'' (clear_field ''prov'' base))) item"
  define N where "N = map (\<lambda>j. text_item_of blank (fill_piece rnd blank plan pristine (Suc j)
      (new_piece_base blank (texts_ref (length T + j)) pristine))) [0..<length (split_cuts s offsets)]"
  have r: "r = map (\<lambda>j. texts_ref (length T + j)) [0..<length N]" and e: "get_list ''texts'' e = T[i := x] @ N"
    and subs: "get_sub k e = get_sub k d0" for k
    using fields i by (simp_all add: x_def N_def T_def)
  have texts0: "\<And>k. get_sub k d0 = get_sub k d" by (simp add: d0_def)
  then have body: "body_refs e = body_refs d" by (simp add: body_refs_def sub_or_default_def subs)
  obtain spot f where holding: "children_holding blank (texts_ref i) (parent_ref pristine) e = (spot, f)" by force
  have group: "get_list ''children'' (blank ''GroupItem'') = []" using blank by (simp add: makes_text_items_def)
  note where_listed = children_holding_outside [of "parent_ref pristine" blank, OF named(2) group holding]
  have self: "(if get_string ''self_ref'' pristine = [] then texts_ref i else get_string ''self_ref'' pristine) = texts_ref i"
    using named(1) by auto
  have result: "refs = r"
    "d' = (case spot of None \<Rightarrow> f
           | Some (k, position) \<Rightarrow> update_node k (\<lambda>n. set_list ''children'' (list_after position r (get_list ''children'' n)) n) f)"
    using run i cut pieces holding self
    by (simp_all add: split_text_item_def Let_def T_def [symmetric] item_def [symmetric] d0_def [symmetric] T0 base s
        plan_def [symmetric] parent_ref_def [symmetric])
  have listed: "get_list ''texts'' d' = get_list ''texts'' f \<and> (texts_ref i \<notin> set (body_refs d) \<and> body_refs d' = body_refs f
      \<or> (\<exists>as bs. body_refs d = as @ texts_ref i # bs \<and> body_refs d' = as @ texts_ref i # r @ bs))"
    using where_listed(3)
  proof (elim disjE exE conjE)
    fix pos
    assume spot: "spot = Some (Body_Root, pos)" and pos: "pos < length (body_refs e)" "body_refs e ! pos = texts_ref i"
    have "pos < length (body_refs f)" using pos where_listed(2) by (simp only:)
    then have "body_refs d' = take (pos + 1) (body_refs f) @ r @ drop (pos + 1) (body_refs f)"
      unfolding result(2) spot option.case prod.case by (rule list_in_body_refs)
    moreover have "body_refs d = take pos (body_refs d) @ texts_ref i # drop (Suc pos) (body_refs d)"
      using pos body by (metis id_take_nth_drop)
    moreover have "get_list ''texts'' d' = get_list ''texts'' f" unfolding result(2) spot by simp
    moreover have "take (pos + 1) (body_refs d) = take pos (body_refs d) @ [texts_ref i]"
      using pos body by (simp add: take_Suc_conv_app_nth)
    ultimately show ?thesis using where_listed(2) body by auto
  next
    assume absent: "texts_ref i \<notin> set (body_refs e)"
      and elsewhere: "\<forall>k pos. spot = Some (k, pos) \<longrightarrow> k = Furniture_Root \<or> (\<exists>g. k = Item ''groups'' g)"
    have "body_refs d' = body_refs f \<and> get_list ''texts'' d' = get_list ''texts'' f"
    proof (cases spot)
      case (Some at_spot)
      then obtain k pos where "spot = Some (k, pos)" by (cases at_spot) simp
      then show ?thesis using elsewhere list_elsewhere [of k] by (simp add: result(2))
    qed (simp add: result(2))
    with absent body show ?thesis by simp
  qed
  have prose_item: "get_string ''text'' (text_payload item) \<noteq> []" using s \<open>s \<noteq> []\<close> base(2) by simp
  note x = first_piece [OF item(4) free_item prose_item x_def]
  note later = later_piece [OF blank named(2) refl, where rnd = rnd and plan = plan]
  have new: "free_item (length T + j) (N ! j)" if "j < length N" for j
    using that later(1) by (simp add: N_def)
  have "map item_words N = map (\<lambda>j. inked (slice_of plan (Suc j))) [0..<length (split_cuts s offsets)]"
    using later(2) by (simp add: N_def)
  then have "item_words x @ concat (map item_words N) = concat (map (\<lambda>p. inked (slice_of plan p)) [0..<Suc (length (split_cuts s offsets))])"
    using x(2) by (simp add: upt_conv_Cons map_Suc_upt [symmetric] comp_def del: upt_Suc)
  also have "\<dots> = inked s" using pieces_concat [OF refl plan_def] unfolding count .
  finally have said: "item_words x @ concat (map item_words N) = inked s" .
  show thesis
    by (rule that [of x N "body_refs d'"])
      (use listed where_listed e x new said r result(1) body in \<open>auto simp: N_def T_def\<close>)
qed

lemma split_keeps:
  assumes blank: "makes_text_items blank" and ok: "splittable d" and i: "i < length (get_list ''texts'' d)"
    and prose: "is_prose (get_list ''texts'' d ! i)" and run: "split_text_item rnd blank i offsets d = (refs, d')"
  shows "splittable d' \<and> body_words d' = body_words d
     \<and> length refs = length (split_cuts (get_string ''text'' (text_payload (get_list ''texts'' d ! i))) offsets)
     \<and> length (get_list ''texts'' d') = length (get_list ''texts'' d) + length refs
     \<and> free_item i (get_list ''texts'' d' ! i) \<and> is_prose (get_list ''texts'' d' ! i)"
proof (cases "split_cuts (get_string ''text'' (text_payload (get_list ''texts'' d ! i))) offsets = []")
  case True
  define T where "T = get_list ''texts'' d"
  define item where "item = present_base (blank ''TextItemBase'') (T ! i)"
  define d0 where "d0 = set_list ''texts'' (T[i := item]) d"
  have T0: "get_list ''texts'' d0 = T[i := item]" unfolding d0_def T_def by (subst get_list_set_list_length) simp_all
  note item = present_base_prose [OF prose, of "blank ''TextItemBase''", folded T_def, folded item_def]
  have base: "text_base_of item = Some (text_payload (T ! i))"
    using item(3) body_prose_base(1) [OF prose] by (simp add: T_def)
  have result: "refs = []" "d' = d0"
    using run i True base by (simp_all add: split_text_item_def Let_def T_def [symmetric] item_def [symmetric] d0_def [symmetric] T0)
  have free: "free_item i (T ! i)" using ok i arena_free by (simp add: splittable_def T_def)
  have "text_node item = text_node (T ! i)"
    using prose_text_node [OF item(4)] prose_text_node [OF prose] item(1) by (simp add: T_def)
  then have "free_item i item"
    using free free_prose(3) [OF free prose [folded T_def]] item(3) body_prose_base(2) [OF prose, of "blank ''TextItemBase''"]
    by (simp add: free_item_def text_self_ref_def base_parent_def) (simp add: item_def T_def sub_slot_update)
  moreover have "item_words item = item_words (T ! i)" using item(3) by (simp add: item_words_def)
  moreover have "texts_ref i \<notin> set (body_refs d) \<and> body_refs d' = body_refs d
      \<or> (\<exists>as bs. body_refs d = as @ texts_ref i # bs
           \<and> body_refs d' = as @ texts_ref i # map (\<lambda>j. texts_ref (length T + j)) [0..<length ([] :: msg list)] @ bs)"
  proof -
    have "body_refs d' = body_refs d" by (simp add: result d0_def body_refs_def sub_or_default_def)
    then show ?thesis by (auto simp: in_set_conv_decomp)
  qed
  ultimately show ?thesis
    using arena_split [of T "body_refs d" i item "[]" "body_refs d'"] ok i item(4)
    by (simp add: splittable_def body_words_def T0 result True [folded T_def] T_def [symmetric])
next
  case False
  obtain x N refs' where "get_list ''texts'' d' = (get_list ''texts'' d)[i := x] @ N" "body_refs d' = refs'"
    "free_item i x" "is_prose x" "length N = length (split_cuts (get_string ''text'' (text_payload (get_list ''texts'' d ! i))) offsets)"
    "length refs = length N"
    "\<And>j. j < length N \<Longrightarrow> free_item (length (get_list ''texts'' d) + j) (N ! j)"
    "item_words x @ concat (map item_words N) = inked (get_string ''text'' (text_payload (get_list ''texts'' d ! i)))"
    "texts_ref i \<notin> set (body_refs d) \<and> refs' = body_refs d
      \<or> (\<exists>as bs. body_refs d = as @ texts_ref i # bs
           \<and> refs' = as @ texts_ref i # map (\<lambda>j. texts_ref (length (get_list ''texts'' d) + j)) [0..<length N] @ bs)"
    using split_fields [OF blank ok i prose run False] by metis
  moreover have "item_words (get_list ''texts'' d ! i) = inked (get_string ''text'' (text_payload (get_list ''texts'' d ! i)))"
    using body_prose_base(1) [OF prose] by (simp add: item_words_def)
  ultimately show ?thesis
    using arena_split [of "get_list ''texts'' d" "body_refs d" i x N refs'] ok i
    by (simp add: splittable_def body_words_def nth_append)
qed

text \<open>Becoming a heading changes neither the words nor the name of an item.\<close>

lemma heading_arm:
  assumes blank: "makes_text_items blank" and free: "free_item i item" and prose: "is_prose item"
  defines "h \<equiv> change_arm blank ''text'' ''section_header'' ''SectionHeaderItem'' label_section_header item"
  shows "free_item i h" "item_words h = item_words item"
proof -
  obtain t b where tb: "get_sub ''text'' item = Some t" "get_sub ''base'' t = Some b" "text_payload item = b" "text_variant item = Some ''text''"
    using prose by (rule prose_present)
  define b' where "b' = set_num ''label'' label_section_header b"
  define m where "m = set_sub ''base'' (Some b') (blank ''SectionHeaderItem'')"
  have h: "h = set_sub ''section_header'' (Some m) (set_sub ''text'' None item)"
    using tb by (simp add: h_def change_arm_def Let_def sub_or_default_def b'_def m_def)
  have slot: "sub_slot ''section_header'' item" by (rule free_prose(3) [OF free prose])
  have header: "get_sub ''section_header'' h = Some m" using slot by (simp add: h get_sub_in_slot sub_slot_update)
  have "get_sub ''title'' item = None"
  proof (cases "get_sub ''title'' item")
    case (Some old)
    then have "text_variant item = Some ''title''" by (simp add: text_variant_def text_variants_def)
    with tb(4) show ?thesis by simp
  qed
  then have "get_sub ''title'' h = None" by (simp add: h get_sub_set_sub)
  with header have variant: "text_variant h = Some ''section_header''" by (simp add: text_variant_def text_variants_def)
  have "sub_or_default ''base'' m = b'" using blank by (simp add: m_def sub_or_default_def makes_text_items_def get_sub_in_slot)
  with variant header have base: "text_base_of h = Some b'" "text_node h = Some b'"
    by (simp_all add: text_base_of_def text_node_def sub_or_default_def)
  have "parent_ref b' = parent_ref b" "get_string ''self_ref'' b' = get_string ''self_ref'' b" "get_string ''text'' b' = get_string ''text'' b"
    by (simp_all add: b'_def parent_ref_def sub_or_default_def get_string_set_num_other)
  moreover have "sub_slot ''section_header'' h" using slot by (simp add: h sub_slot_update)
  ultimately show "free_item i h" using free_prose [OF free prose] tb(3) base by (intro free_payload [of _ b']) auto
  show "item_words h = item_words item"
    using base(1) body_prose_base(1) [OF prose] tb(3) \<open>get_string ''text'' b' = get_string ''text'' b\<close> by (simp add: item_words_def)
qed

lemma body_prose_is_prose: "is_body_prose item \<Longrightarrow> is_prose item"
  by (simp add: is_body_prose_def is_prose_def)

subsection \<open>The two passes\<close>

lemma split_heading_keeps:
  assumes blank: "makes_text_items blank" and ok: "splittable d" and i: "i < length (get_list ''texts'' d)"
    and run: "split_heading rnd blank collectors i (h, d) = (h', d')"
  shows "splittable d' \<and> body_words d' = body_words d \<and> length (get_list ''texts'' d') + h = length (get_list ''texts'' d) + h'"
proof -
  define item where "item = get_list ''texts'' d ! i"
  show ?thesis
  proof (cases "is_body_prose item \<and> from_collectors collectors (text_payload item)
      \<and> run_in_heading_end (get_string ''text'' (text_payload item)) \<noteq> None")
    case True
    then obtain stop where stop: "run_in_heading_end (get_string ''text'' (text_payload item)) = Some stop" by auto
    obtain refs e where split: "split_text_item rnd blank i [stop] d = (refs, e)" by force
    have prose: "is_prose item" using True body_prose_is_prose by blast
    note keeps = split_keeps [OF blank ok i prose [unfolded item_def] split]
    have "length (split_cuts (get_string ''text'' (text_payload item)) [stop]) = 1"
      using run_in_heading_end_inside [OF stop] by (simp add: split_cuts_def)
    then have one: "length refs = 1" "refs \<noteq> []" using keeps by (auto simp: item_def)
    define x where "x = change_arm blank ''text'' ''section_header'' ''SectionHeaderItem'' label_section_header (get_list ''texts'' e ! i)"
    have result: "h' = h + 1" "d' = set_list ''texts'' ((get_list ''texts'' e)[i := x]) e"
      using run True stop split one(2) by (simp_all add: split_heading_def Let_def item_def [symmetric] x_def)
    have texts: "get_list ''texts'' d' = (get_list ''texts'' e)[i := x]"
      unfolding result by (subst get_list_set_list_length) simp_all
    have i': "i < length (get_list ''texts'' e)" using keeps i by simp
    have x: "free_item i x" "item_words x = item_words (get_list ''texts'' e ! i)"
      unfolding x_def using heading_arm [OF blank, of i "get_list ''texts'' e ! i"] keeps by blast+
    have refs: "body_refs d' = body_refs e" by (simp add: result body_refs_def sub_or_default_def)
    have "texts_ref i \<notin> set (body_refs e) \<and> body_refs e = body_refs e
      \<or> (\<exists>as bs. body_refs e = as @ texts_ref i # bs
           \<and> body_refs e = as @ texts_ref i # map (\<lambda>j. texts_ref (length (get_list ''texts'' e) + j)) [0..<length ([] :: msg list)] @ bs)"
      by (auto simp: in_set_conv_decomp)
    from arena_split [of "get_list ''texts'' e" "body_refs e" i x "[]", OF _ i' x(1) _ _ this] x(2) keeps
    show ?thesis using one by (simp add: splittable_def body_words_def texts refs result(1))
  next
    case False
    then have "(h', d') = (h, d)" using run by (auto simp: split_heading_def Let_def item_def split: if_splits)
    then show ?thesis using ok by simp
  qed
qed

lemma split_rows_keeps:
  assumes blank: "makes_text_items blank" and ok: "splittable d" and i: "i < length (get_list ''texts'' d)"
    and run: "split_rows rnd blank collectors i (h, d) = (h', d')"
  shows "splittable d' \<and> body_words d' = body_words d \<and> length (get_list ''texts'' d') + h = length (get_list ''texts'' d) + h'"
proof -
  define item where "item = get_list ''texts'' d ! i"
  define starts where "starts = form_row_starts (get_string ''text'' (text_payload item))"
  show ?thesis
  proof (cases "is_body_prose item \<and> from_collectors collectors (text_payload item) \<and> starts \<noteq> []")
    case True
    obtain refs e where split: "split_text_item rnd blank i starts d = (refs, e)" by force
    have prose: "is_prose item" using True body_prose_is_prose by blast
    have "(h', d') = (h + length refs, e)"
      using run True split by (auto simp: split_rows_def Let_def item_def starts_def split: list.splits)
    then show ?thesis using split_keeps [OF blank ok i prose [unfolded item_def] split] by simp
  next
    case False
    then have "(h', d') = (h, d)" using run by (auto simp: split_rows_def Let_def item_def starts_def split: if_splits list.splits)
    then show ?thesis using ok by simp
  qed
qed

lemma fold_keeps_words:
  assumes step: "\<And>i h d h' d'. splittable d \<Longrightarrow> i < length (get_list ''texts'' d) \<Longrightarrow> f i (h, d) = (h', d') \<Longrightarrow>
      splittable d' \<and> body_words d' = body_words d \<and> length (get_list ''texts'' d') + h = length (get_list ''texts'' d) + h'"
    and growing: "\<And>i h d. h \<le> fst (f i (h, d))"
    and "splittable d" "\<forall>i\<in>set is. i < length (get_list ''texts'' d)" "fold f is (h, d) = (h', d')"
  shows "splittable d' \<and> body_words d' = body_words d \<and> length (get_list ''texts'' d') + h = length (get_list ''texts'' d) + h'"
  using assms(3-5)
proof (induction "is" arbitrary: h d)
  case (Cons i "is")
  obtain g e where e: "f i (h, d) = (g, e)" by force
  then have this_step: "splittable e \<and> body_words e = body_words d \<and> length (get_list ''texts'' e) + h = length (get_list ''texts'' d) + g"
    using step [OF _ _ e] Cons.prems by simp
  moreover have "h \<le> g" using growing [of h i d] e by simp
  ultimately have "\<forall>i\<in>set is. i < length (get_list ''texts'' e)" using Cons.prems(2) by fastforce
  then show ?case using Cons.IH [of e g] this_step Cons.prems(3) e by simp
qed simp

lemma split_passes_keep:
  assumes "makes_text_items blank" "splittable d"
  shows "split_run_in_headings rnd blank collectors d = (h, d') \<Longrightarrow>
      splittable d' \<and> body_words d' = body_words d \<and> length (get_list ''texts'' d') = length (get_list ''texts'' d) + h"
    "split_form_rows rnd blank collectors d = (h, d') \<Longrightarrow>
      splittable d' \<and> body_words d' = body_words d \<and> length (get_list ''texts'' d') = length (get_list ''texts'' d) + h"
proof -
  have all: "\<forall>i\<in>set [0..<length (get_list ''texts'' d)]. i < length (get_list ''texts'' d)" by simp
  have grow: "n \<le> fst (split_heading rnd blank collectors i (n, e))" "n \<le> fst (split_rows rnd blank collectors i (n, e))" for i n e
    by (auto simp: split_heading_def split_rows_def Let_def split: option.splits prod.splits list.splits)
  show "split_run_in_headings rnd blank collectors d = (h, d') \<Longrightarrow>
      splittable d' \<and> body_words d' = body_words d \<and> length (get_list ''texts'' d') = length (get_list ''texts'' d) + h"
    using fold_keeps_words [OF split_heading_keeps [OF assms(1)] grow(1) assms(2) all, where h = 0 and h' = h and d' = d'] assms(2)
    by (auto simp: split_run_in_headings_def split: if_splits)
  show "split_form_rows rnd blank collectors d = (h, d') \<Longrightarrow>
      splittable d' \<and> body_words d' = body_words d \<and> length (get_list ''texts'' d') = length (get_list ''texts'' d) + h"
    using fold_keeps_words [OF split_rows_keeps [OF assms(1)] grow(2) assms(2) all, where h = 0 and h' = h and d' = d'] assms(2)
    by (auto simp: split_form_rows_def split: if_splits)
qed


definition sample_base :: "string option \<Rightarrow> int \<Rightarrow> string \<Rightarrow> msg option \<Rightarrow> msg list \<Rightarrow> msg list \<Rightarrow> msg" where
  "sample_base self label s parent prov sources = Msg ''p'' ''TextItemBase''
     [Singular ''self_ref'' False True (map_option Str self), Submessage ''parent'' parent,
      Singular ''content_layer'' False False (if label = 0 then None else Some (Num 1)),
      Singular ''label'' False False (if label = 0 then None else Some (Num label)),
      Singular ''text'' False True (if s = [] then None else Some (Str s)),
      Messages ''prov'' False ''ProvenanceItem'' prov, Messages ''source'' False ''SourceType'' sources]"

definition sample_holder :: "msg option \<Rightarrow> msg" where
  "sample_holder base = Msg ''p'' ''TextItem'' [Submessage ''base'' base]"

definition sample_item :: "msg option \<Rightarrow> msg option \<Rightarrow> msg" where
  "sample_item header payload =
     Msg ''p'' ''BaseTextItem'' [Submessage ''section_header'' (map_option (\<lambda>b. sample_holder (Some b)) header),
       Submessage ''text'' (map_option (\<lambda>b. sample_holder (Some b)) payload)]"

definition sample_prov :: "(rat \<times> rat) option \<Rightarrow> msg" where
  "sample_prov box = Msg ''p'' ''ProvenanceItem''
     [Singular ''page_no'' False False (map_option (\<lambda>_. Num 1) box),
      Submessage ''bbox'' (map_option (\<lambda>(upper, lower). Msg ''p'' ''BoundingBox''
        [Singular ''t'' False False (Some (Flt upper)), Singular ''b'' False False (Some (Flt lower)),
         Singular ''r'' False False (Some (Flt 50))]) box)]"

definition sample_blank :: "string \<Rightarrow> msg" where
  "sample_blank name =
     (if name = ''BaseTextItem'' then sample_item None None
      else if name = ''TextItem'' \<or> name = ''SectionHeaderItem'' then sample_holder None
      else if name = ''TextItemBase'' then sample_base None 0 [] None [] []
      else if name = ''ProvenanceItem'' then sample_prov None
      else if name = ''GroupItem'' then sample_group [] else ref_item [])"

definition sample_sources :: "msg list" where
  "sample_sources = [Msg ''p'' ''SourceType''
     [Submessage ''collector'' (Some (Msg ''p'' ''CollectorSource'' [Singular ''collector'' False True (Some (Str ''pdf''))]))]]"

definition sample_tree :: "string list \<Rightarrow> msg list \<Rightarrow> msg" where
  "sample_tree refs items = Msg ''p'' ''Document''
     [Submessage ''body'' (Some (sample_group (map ref_item refs))), Messages ''texts'' False ''BaseTextItem'' items,
      Messages ''pages'' True ''PagesEntry'' []]"

definition sample_run_in :: msg where
  "sample_run_in = sample_tree [''#/texts/1'', ''#/texts/0'']
     [sample_item None (Some (sample_base None 22 ''1 AB CD Ef g h i'' None [sample_prov (Some (10, 30))] sample_sources)),
      sample_item None (Some (sample_base None 22 ''x Id: ___'' None [] sample_sources))]"

definition sample_headed :: msg where
  "sample_headed = sample_tree [''#/texts/1'', ''#/texts/0'', ''#/texts/2'']
     [sample_item (Some (sample_base None 20 ''1 AB CD'' None [sample_prov (Some (10, 20))] sample_sources)) None,
      sample_item None (Some (sample_base None 22 ''x Id: ___'' None [] sample_sources)),
      sample_item None (Some (sample_base (Some ''#/texts/2'') 22 ''Ef g h i'' (Some (ref_item [])) [sample_prov (Some (20, 30))] sample_sources))]"

lemma sample_run_in_split:
  "split_run_in_headings (\<lambda>x. x) sample_blank [''pdf''] sample_run_in = (1, sample_headed)"
  "map_prod id body_refs (split_form_rows (\<lambda>x. x) sample_blank [''pdf''] sample_headed)
     = (1, [''#/texts/1'', ''#/texts/3'', ''#/texts/0'', ''#/texts/2''])"
  by code_simp+


end
