(* ===== verification/Spec2Isabelle.thy ===== *)
theory Spec2Isabelle
  imports Base64 SigV4 ContentSniff StorageParser DocumentMerge ReadingOrder InflightBytes FetchSlots ResourcePool CallExecutor
    Collectors StructureRequest PictureAnchor StructureRepair ParagraphSplit
begin

text \<open>
  A verification library for gRParse, the document parsing service under
  \<^verbatim>\<open>src/\<close>. The service takes bytes in any format, decides what they are, sends
  them to one or more collectors (its own page pipeline and external
  services), merges what the collectors return into one document, repairs and
  checks that document, and streams, renders or stores it.

  How a parse runs, and which theory models which step:

  \<^item> Bytes arrive, inline ones in base64: \<^verbatim>\<open>Base64\<close> (\<^verbatim>\<open>src/base64.cpp\<close>: the scalar
    decoder and encoder, and the public decoder over a vector kernel, which is a
    parameter). Several calls share a budget of bytes held in memory
    (\<^verbatim>\<open>InflightBytes\<close>, \<^verbatim>\<open>include/grparse/inflight_bytes.h\<close>) and of concurrent remote
    fetches (\<^verbatim>\<open>FetchSlots\<close>, \<^verbatim>\<open>remote_fetch_slots.h\<close>); the work runs on a bounded
    executor (\<^verbatim>\<open>CallExecutor\<close>, \<^verbatim>\<open>src/call_executor.cpp\<close>) and borrows engines from a
    pool (\<^verbatim>\<open>ResourcePool\<close>, \<^verbatim>\<open>resource_pool.h\<close>).
  \<^item> The type of the bytes is resolved (\<^verbatim>\<open>src/content_sniff.cpp\<close>): \<^verbatim>\<open>ZipArchive\<close> has
    the central directory reader (and the archive writer,
    \<^verbatim>\<open>src/targets/zip_writer.cpp\<close>), \<^verbatim>\<open>CompoundFile\<close> the OLE compound file reader,
    \<^verbatim>\<open>TextProbe\<close> the probes for text formats, \<^verbatim>\<open>ContentSniff\<close> the ladders and the
    resolution with its evidence.
  \<^item> A collector is chosen and the plan is run (\<^verbatim>\<open>Collectors\<close>,
    \<^verbatim>\<open>src/collector_coordinator.cpp\<close>): one thread per collector, whose future may
    hold any outcome once it has returned, merged in plan order with \<^verbatim>\<open>DocumentMerge\<close> (\<^verbatim>\<open>src/document_merge.cpp\<close>) over the generic messages
    of \<^verbatim>\<open>Message\<close>.
  \<^item> Inside the page pipeline \<^verbatim>\<open>PageGeometry\<close> (\<^verbatim>\<open>src/text_geometry.cpp\<close>, part of
    \<^verbatim>\<open>src/region_geometry.cpp\<close>) merges the lines of a page and finds their regions, and
    \<^verbatim>\<open>ReadingOrder\<close> (\<^verbatim>\<open>src/reading_order.cpp\<close>) orders them. \<^verbatim>\<open>ListMarker\<close>
    (\<^verbatim>\<open>src/list_marker.cpp\<close>) splits the marker off a list item.
  \<^item> The wiki collector parses its storage dialect: \<^verbatim>\<open>StorageText\<close> and \<^verbatim>\<open>StorageParser\<close>
    (\<^verbatim>\<open>src/confluence/\<close>).
  \<^item> Pages are streamed as events and the repaired document as a delta against
    them: \<^verbatim>\<open>StreamDelta\<close> (\<^verbatim>\<open>src/stream_delta.cpp\<close>). The finished document is put
    in reading order (\<^verbatim>\<open>src/document_reading_order.cpp\<close>: \<^verbatim>\<open>BodyOrder\<close> reads a body,
    \<^verbatim>\<open>BodyArrange\<close> splits groups around floats and reorders it, \<^verbatim>\<open>PictureAnchor\<close> places
    pictures; all three over the placements of \<^verbatim>\<open>DocumentGeometry\<close>), held to its structural
    rules (\<^verbatim>\<open>Structure\<close>, \<^verbatim>\<open>src/office_fold/integrity_check.cpp\<close>, asked for through
    \<^verbatim>\<open>StructureRequest\<close>, \<^verbatim>\<open>src/structure_validation.cpp\<close>), and repaired where the caller
    asks for it (\<^verbatim>\<open>StructureRepair\<close> over the nodes of \<^verbatim>\<open>NodeTree\<close>,
    \<^verbatim>\<open>src/structure_repair.cpp\<close>). Before that the repair pass
    (\<^verbatim>\<open>src/document_repair.cpp\<close>) works on its text: \<^verbatim>\<open>RepairText\<close> has the rules over
    strings (page numbers, Roman numerals, hyphens and the positions that follow their
    removal), \<^verbatim>\<open>RunningFurniture\<close> demotes running headers and footers, \<^verbatim>\<open>TextRepairs\<close>
    rejoins hyphenated words and merges paragraphs that a page or a column broke;
    \<^verbatim>\<open>RepairOptions\<close> has the switches. Its heading pass (\<^verbatim>\<open>src/heading_hierarchy.cpp\<close>)
    is \<^verbatim>\<open>HeadingText\<close> (the depth a number in a heading states), \<^verbatim>\<open>TitleMatch\<close> (edit
    distances between titles), \<^verbatim>\<open>HeadingLevels\<close> (the level of each heading, from its number,
    its size or the bookmarks) and \<^verbatim>\<open>HeadingDoc\<close> (the pass over the document).
    \<^verbatim>\<open>ParagraphSplit\<close> (\<^verbatim>\<open>src/paragraph_split.cpp\<close>) splits run-in headings and form rows. A call that fails ends in a status of \<^verbatim>\<open>Status\<close>.
  \<^item> Results are bundled (\<^verbatim>\<open>ZipArchive\<close>) and stored over signed requests: \<^verbatim>\<open>Sha256\<close>
    and \<^verbatim>\<open>SigV4\<close> (\<^verbatim>\<open>src/targets/\<close>).

  \<^verbatim>\<open>Prelude\<close> has the lemmas and interfaces that the components share: the \<open>codec\<close>
  locale (an encoder and a decoder that undoes it) and the \<open>guarded_machine\<close>
  locale (a step relation with an invariant), both interpreted on the model's
  definitions in the theories that provide them.
\<close>

subsection \<open>How the state and the operations correspond to the code\<close>

text \<open>
  Bytes are the characters of a \<^typ>\<open>string\<close>; fixed-width integers whose wrap-around
  the code relies on are words; \<^verbatim>\<open>double\<close> and \<^verbatim>\<open>float\<close> are exact rationals (rounding is a
  parameter where a property depends on it). A protobuf message is a generic tree
  of named fields (\<^verbatim>\<open>Message\<close>), so the merge, the fold and the checks are generic in the
  schema, as the reflection code is. A throw or an early error return is the \<open>Inl\<close>
  or \<open>None\<close> branch of the result. A class that threads share is a record of its
  members together with one entry per thread or handle, and its member functions
  are the guarded steps of a relation, one for every critical section; the
  properties hold of every reachable state, so of every interleaving.

  What the groups of lemmas show: round trips for what is written and read back
  (base64, zip archives, wiki markup, references, UTF-8); refinement of a
  declarative specification (SHA-256 against the FIPS padding, compound files
  against the chains of their allocation table, the rename log against composition, the
  repair delta against the repaired document, scatter-gather against sequential
  merging, the XY-cut against its rules over gaps, the banded edit distance against the
  recursion on last letters, the integrity walk against well-linkedness); invariants of the shared
  resources; bounds and termination of every loop over foreign data; and the error
  behaviour at the edges.

  Loops are structural recursions or have a proved measure. Fuel occurs where the
  code itself bounds a loop by a count (sector chains are followed at most as often
  as the table has entries) and in the XY-cut, whose recursion does not end on
  malformed boxes: \<^verbatim>\<open>xy_cut_order_reads\<close> shows that as many nested cuts as there are
  boxes are enough for proper ones, and \<^verbatim>\<open>inverted_boxes_never_end\<close> that none are for
  a malformed one.
\<close>

subsection \<open>Not modelled\<close>

text \<open>
  The inference engines (OCR, layout, tables, figures, embeddings) are calls into
  ONNX Runtime, OpenCV and Tesseract; the services, the collector clients and the
  storage clients are gRPC and HTTP plumbing; the metrics only count. Code that is not in the repository is a
  parameter of the definitions that use it: the vectorised base64 kernel, miniz
  deflate and CRC-32, and the factory of a resource pool. The adoption of calamine cells
  (\<^verbatim>\<open>src/workbook_cells.cpp\<close>) is a parameter of \<^verbatim>\<open>Collectors\<close> until it is modelled; an
  exception out of a collector, which its future would rethrow, is left out there.
  The composition of the repair pass and its counters, the option checks of
  \<^verbatim>\<open>src/source_parse.cpp\<close>, the office fold, the chunker and the renderers are not modelled
  yet.
\<close>

end
